(* ===== verification/Prelude.thy ===== *)
theory Prelude
  imports "HOL-Library.Word"
begin

text \<open>
  The vocabulary every component theory shares: Rust's machine integers with
  their checked operations, the \<open>NonZero\<close> integers, \<open>Result\<close> as a sum type with the
  \<open>?\<close> operator written as \<open>and_then\<close>, the little- and big-endian byte codecs of
  \<open>to_le_bytes\<close> and \<open>to_be_bytes\<close>, and the UTF-8 validity test of \<open>str::from_utf8\<close>.

  \<open>usize\<close> is a natural number; where the code checks it, the bound \<open>usize_max\<close> of a
  64-bit target is written out.
\<close>

named_theorems result_simps \<open>rewriting of the Result combinators\<close>
named_theorems codec_simps \<open>lengths and round trips of byte codecs\<close>

type_synonym u8 = "8 word"
type_synonym u16 = "16 word"
type_synonym u32 = "32 word"
type_synonym u64 = "64 word"
type_synonym bytes = "8 word list"
type_synonym ('a, 'e) result = "'e + 'a"

section \<open>Results\<close>

definition and_then :: "('a, 'e) result \<Rightarrow> ('a \<Rightarrow> ('b, 'e) result) \<Rightarrow> ('b, 'e) result" where
  "and_then r f = (case r of Inl e \<Rightarrow> Inl e | Inr x \<Rightarrow> f x)"

definition map_err :: "('e \<Rightarrow> 'f) \<Rightarrow> ('a, 'e) result \<Rightarrow> ('a, 'f) result" where
  "map_err g r = (case r of Inl e \<Rightarrow> Inl (g e) | Inr x \<Rightarrow> Inr x)"

definition map_ok :: "('a \<Rightarrow> 'b) \<Rightarrow> ('a, 'e) result \<Rightarrow> ('b, 'e) result" where
  "map_ok g r = (case r of Inl e \<Rightarrow> Inl e | Inr x \<Rightarrow> Inr (g x))"

definition ok_or :: "'e \<Rightarrow> 'a option \<Rightarrow> ('a, 'e) result" where
  "ok_or e x = (case x of None \<Rightarrow> Inl e | Some y \<Rightarrow> Inr y)"

definition is_ok :: "('a, 'e) result \<Rightarrow> bool" where
  "is_ok r = (case r of Inl _ \<Rightarrow> False | Inr _ \<Rightarrow> True)"

lemma and_then_simps [simp]:
  "and_then (Inl e) f = Inl e"
  "and_then (Inr x) f = f x"
  by (simp_all add: and_then_def)

lemma and_then_eq_Inr [result_simps]:
  "and_then r f = Inr y \<longleftrightarrow> (\<exists>x. r = Inr x \<and> f x = Inr y)"
  by (cases r) simp_all

lemma and_then_eq_Inl [result_simps]:
  "and_then r f = Inl e \<longleftrightarrow> r = Inl e \<or> (\<exists>x. r = Inr x \<and> f x = Inl e)"
  by (cases r) simp_all

lemma map_err_simps [simp]:
  "map_err g (Inl e) = Inl (g e)"
  "map_err g (Inr x) = Inr x"
  by (simp_all add: map_err_def)

lemma map_err_eq [result_simps]:
  "map_err g r = Inr y \<longleftrightarrow> r = Inr y"
  "map_err g r = Inl f \<longleftrightarrow> (\<exists>e. r = Inl e \<and> f = g e)"
  by (cases r; auto)+

lemma map_ok_simps [simp]:
  "map_ok g (Inl e) = Inl e"
  "map_ok g (Inr x) = Inr (g x)"
  by (simp_all add: map_ok_def)

lemma map_ok_eq [result_simps]:
  "map_ok g r = Inr y \<longleftrightarrow> (\<exists>x. r = Inr x \<and> y = g x)"
  "map_ok g r = Inl e \<longleftrightarrow> r = Inl e"
  by (cases r; auto)+

lemma ok_or_simps [simp]:
  "ok_or e None = Inl e"
  "ok_or e (Some x) = Inr x"
  by (simp_all add: ok_or_def)

lemma ok_or_eq [result_simps]:
  "ok_or e r = Inr y \<longleftrightarrow> r = Some y"
  "ok_or e r = Inl f \<longleftrightarrow> r = None \<and> f = e"
  by (cases r; auto)+

lemma is_ok_simps [simp]:
  "is_ok (Inl e) = False"
  "is_ok (Inr x) = True"
  by (simp_all add: is_ok_def)

lemma is_ok_iff: "is_ok r \<longleftrightarrow> (\<exists>x. r = Inr x)"
  by (cases r) simp_all

lemma case_option_eta [simp]: "(case x of None \<Rightarrow> None | Some y \<Rightarrow> Some y) = x"
  by (cases x) simp_all

lemma map_fst_zip_comp: "length ps = length xs \<Longrightarrow> map (\<lambda>x. f (fst x)) (zip ps xs) = map f ps"
  by (induction ps xs rule: list_induct2) simp_all

section \<open>Calls that may panic\<close>

text \<open>A call of application code either returns or unwinds.\<close>

datatype 'a call = Returns 'a | Panics

definition call_bind :: "'a call \<Rightarrow> ('a \<Rightarrow> 'b call) \<Rightarrow> 'b call" where
  "call_bind c f = (case c of Returns x \<Rightarrow> f x | Panics \<Rightarrow> Panics)"

lemma call_bind_simps [simp]:
  "call_bind (Returns x) f = f x"
  "call_bind Panics f = Panics"
  by (simp_all add: call_bind_def)

lemma call_bind_eq_Returns [result_simps]:
  "call_bind c f = Returns y \<longleftrightarrow> (\<exists>x. c = Returns x \<and> f x = Returns y)"
  by (cases c) simp_all

section \<open>Checked machine arithmetic\<close>

definition usize_max :: nat where
  "usize_max = 2 ^ 64 - 1"

definition checked_add_usize :: "nat \<Rightarrow> nat \<Rightarrow> nat option" where
  "checked_add_usize a b = (if a + b \<le> usize_max then Some (a + b) else None)"

text \<open>\<open>uN::checked_add\<close>: the sum when it did not wrap.\<close>

definition checked_add :: "'a::len word \<Rightarrow> 'a word \<Rightarrow> 'a word option" where
  "checked_add a b = (if unat a + unat b < 2 ^ LENGTH('a) then Some (a + b) else None)"

lemma checked_add_Some:
  "checked_add a b = Some c \<longleftrightarrow> unat c = unat a + unat b" for a b c :: "'a::len word"
proof
  assume "checked_add a b = Some c"
  then show "unat c = unat a + unat b"
    by (auto simp: checked_add_def unat_add_lem split: if_splits)
next
  assume c: "unat c = unat a + unat b"
  have "unat c < 2 ^ LENGTH('a)" by simp
  with c have "unat a + unat b < 2 ^ LENGTH('a)" by simp
  moreover from this have "a + b = c"
    by (metis c unat_add_lem word_unat_eq_iff)
  ultimately show "checked_add a b = Some c" by (simp add: checked_add_def)
qed

lemma checked_add_None:
  "checked_add a b = None \<longleftrightarrow> 2 ^ LENGTH('a) \<le> unat a + unat b" for a b :: "'a::len word"
  by (auto simp: checked_add_def)

lemma unat_bound: "unat w < 2 ^ LENGTH('a)" for w :: "'a::len word"
  by simp

lemma unat_of_nat_small: "n < 2 ^ LENGTH('a) \<Longrightarrow> unat (of_nat n :: 'a::len word) = n"
  by (simp add: unat_of_nat take_bit_nat_eq_self)

section \<open>Non-zero integers\<close>

text \<open>\<open>core::num::NonZero<uN>\<close>: the words other than zero. \<open>nz\<close> is the unchecked
constructor the definitions use where the source has already excluded zero;
\<open>nonzero_new\<close> is the checked one.\<close>

typedef (overloaded) ('a::len) nonzero = "{w :: 'a word. w \<noteq> 0}"
  morphisms get Abs_nonzero
  by (rule exI [of _ 1]) simp

lemma Abs_nonzero_get [code abstype]: "Abs_nonzero (get v) = v"
  by (rule get_inverse)

definition nz :: "'a::len word \<Rightarrow> 'a nonzero" where
  "nz w = Abs_nonzero (if w = 0 then 1 else w)"

lemma get_nz [simp, code abstract]: "get (nz w) = (if w = 0 then 1 else w)"
  by (simp add: nz_def Abs_nonzero_inverse)

lemma get_neq_0 [simp]: "get v \<noteq> 0"
  using get [of v] by simp

lemma unat_get_pos [simp]: "0 < unat (get v)"
  by (simp add: unat_gt_0)

lemma nz_get [simp]: "nz (get v) = v"
  by (simp add: nz_def get_inverse)

lemma get_eq_iff: "get a = get b \<longleftrightarrow> a = b"
  by (rule get_inject)

definition nonzero_new :: "'a::len word \<Rightarrow> 'a nonzero option" where
  "nonzero_new w = (if w = 0 then None else Some (nz w))"

lemma nonzero_new_Some [simp]: "nonzero_new w = Some v \<longleftrightarrow> get v = w"
  by (auto simp: nonzero_new_def)

lemma nonzero_new_get: "nonzero_new (get r) = Some r"
  by simp

lemma nonzero_new_None [simp]: "nonzero_new w = None \<longleftrightarrow> w = 0"
  by (auto simp: nonzero_new_def)

definition nonzero_checked_add :: "'a::len nonzero \<Rightarrow> 'a word \<Rightarrow> 'a nonzero option" where
  "nonzero_checked_add a b = map_option nz (checked_add (get a) b)"

lemma nonzero_checked_add_Some:
  "nonzero_checked_add a b = Some c \<longleftrightarrow> unat (get c) = unat (get a) + unat b"
proof -
  have "(\<exists>w. checked_add (get a) b = Some w \<and> nz w = c) \<longleftrightarrow> checked_add (get a) b = Some (get c)"
    by (metis add_gr_0 checked_add_Some get_nz nz_get unat_get_pos unat_gt_0)
  then show ?thesis
    by (simp add: nonzero_checked_add_def checked_add_Some)
qed

lemma nonzero_checked_add_None:
  "nonzero_checked_add a b = None \<longleftrightarrow> 2 ^ LENGTH('a) \<le> unat (get a) + unat b"
  for a :: "'a::len nonzero"
  by (simp add: nonzero_checked_add_def checked_add_None)

instantiation nonzero :: (len) equal
begin

definition equal_nonzero :: "'a nonzero \<Rightarrow> 'a nonzero \<Rightarrow> bool" where
  "equal_nonzero a b \<longleftrightarrow> get a = get b"

instance
  by standard (simp add: equal_nonzero_def get_inject)

end

instantiation nonzero :: (len) linorder
begin

definition less_eq_nonzero :: "'a nonzero \<Rightarrow> 'a nonzero \<Rightarrow> bool" where
  "a \<le> b \<longleftrightarrow> get a \<le> get b"

definition less_nonzero :: "'a nonzero \<Rightarrow> 'a nonzero \<Rightarrow> bool" where
  "a < b \<longleftrightarrow> get a < get b"

instance
  by standard (auto simp: less_eq_nonzero_def less_nonzero_def get_inject order.strict_iff_order)

end

lemma nonzero_eq_unat: "a = b \<longleftrightarrow> unat (get a) = unat (get b)"
  by (simp add: word_unat_eq_iff [symmetric] get_inject)

lemma nonzero_le_unat: "a \<le> b \<longleftrightarrow> unat (get a) \<le> unat (get b)"
  by (simp add: less_eq_nonzero_def word_le_nat_alt)

lemma nonzero_less_unat: "a < b \<longleftrightarrow> unat (get a) < unat (get b)"
  by (simp add: less_nonzero_def word_less_nat_alt)

section \<open>Byte codecs\<close>

text \<open>\<open>to_le_bytes\<close> and \<open>from_le_bytes\<close> over natural numbers: \<open>le_bytes n\<close> keeps the low
\<open>n\<close> bytes, and the big-endian forms reverse them.\<close>

primrec le_bytes :: "nat \<Rightarrow> nat \<Rightarrow> bytes" where
  "le_bytes 0 x = []"
| "le_bytes (Suc n) x = of_nat x # le_bytes n (x div 256)"

primrec le_val :: "bytes \<Rightarrow> nat" where
  "le_val [] = 0"
| "le_val (b # bs) = unat b + 256 * le_val bs"

definition be_bytes :: "nat \<Rightarrow> nat \<Rightarrow> bytes" where
  "be_bytes n x = rev (le_bytes n x)"

definition be_val :: "bytes \<Rightarrow> nat" where
  "be_val bs = le_val (rev bs)"

lemma unat_of_nat_u8 [codec_simps]: "unat (of_nat x :: u8) = x mod 256"
  by (simp add: unat_of_nat take_bit_nat_def)

lemma length_le_bytes [simp]: "length (le_bytes n x) = n"
  by (induction n arbitrary: x) simp_all

lemma length_be_bytes [simp]: "length (be_bytes n x) = n"
  by (simp add: be_bytes_def)

lemma le_val_le_bytes: "le_val (le_bytes n x) = x mod 256 ^ n"
proof (induction n arbitrary: x)
  case (Suc n)
  have "x mod (256 * 256 ^ n) = 256 * (x div 256 mod 256 ^ n) + x mod 256"
    by (rule mod_mult2_eq)
  then show ?case by (simp add: Suc codec_simps)
qed simp

lemma le_val_bound: "le_val bs < 256 ^ length bs"
proof (induction bs)
  case (Cons b bs)
  have "unat b < 256" using unat_bound [of b] by simp
  with Cons show ?case by simp
qed simp

lemma le_bytes_le_val: "length bs = n \<Longrightarrow> le_bytes n (le_val bs) = bs"
proof (induction bs arbitrary: n)
  case (Cons b bs)
  have b: "unat b < 256" using unat_bound [of b] by simp
  have "of_nat (unat b + 256 * le_val bs) = b"
    using b by (simp add: word_unat_eq_iff codec_simps del: of_nat_add of_nat_mult)
  with Cons b show ?case by (auto simp del: of_nat_add of_nat_mult)
qed simp

lemma be_val_be_bytes: "be_val (be_bytes n x) = x mod 256 ^ n"
  by (simp add: be_val_def be_bytes_def le_val_le_bytes)

lemma be_bytes_be_val: "length bs = n \<Longrightarrow> be_bytes n (be_val bs) = bs"
  by (simp add: be_val_def be_bytes_def le_bytes_le_val)

lemma be_val_bound: "be_val bs < 256 ^ length bs"
  using le_val_bound [of "rev bs"] by (simp add: be_val_def)

definition u16_le :: "u16 \<Rightarrow> bytes" where "u16_le w = le_bytes 2 (unat w)"
definition u32_le :: "u32 \<Rightarrow> bytes" where "u32_le w = le_bytes 4 (unat w)"
definition u64_le :: "u64 \<Rightarrow> bytes" where "u64_le w = le_bytes 8 (unat w)"
definition u16_be :: "u16 \<Rightarrow> bytes" where "u16_be w = be_bytes 2 (unat w)"
definition u64_be :: "u64 \<Rightarrow> bytes" where "u64_be w = be_bytes 8 (unat w)"

definition le_word :: "bytes \<Rightarrow> 'a::len word" where "le_word bs = of_nat (le_val bs)"
definition be_word :: "bytes \<Rightarrow> 'a::len word" where "be_word bs = of_nat (be_val bs)"

lemma length_word_bytes [simp]:
  "length (u16_le a) = 2" "length (u32_le b) = 4" "length (u64_le c) = 8"
  "length (u16_be a) = 2" "length (u64_be c) = 8"
  by (simp_all add: u16_le_def u32_le_def u64_le_def u16_be_def u64_be_def)

lemma word_bytes_roundtrip [codec_simps]:
  "le_word (u16_le a) = a" "le_word (u32_le b) = b" "le_word (u64_le c) = c"
  "be_word (u16_be a) = a" "be_word (u64_be c) = c"
  using unat_bound [of a] unat_bound [of b] unat_bound [of c]
  by (simp_all add: u16_le_def u32_le_def u64_le_def u16_be_def u64_be_def
      le_word_def be_word_def le_val_le_bytes be_val_be_bytes)

lemma bytes_word_roundtrip [codec_simps]:
  "length bs = 2 \<Longrightarrow> u16_le (le_word bs) = bs"
  "length bs = 4 \<Longrightarrow> u32_le (le_word bs) = bs"
  "length bs = 8 \<Longrightarrow> u64_le (le_word bs) = bs"
  "length bs = 2 \<Longrightarrow> u16_be (be_word bs) = bs"
  "length bs = 8 \<Longrightarrow> u64_be (be_word bs) = bs"
  using le_val_bound [of bs] be_val_bound [of bs]
  by (simp_all add: u16_le_def u32_le_def u64_le_def u16_be_def u64_be_def
      le_word_def be_word_def unat_of_nat_small le_bytes_le_val be_bytes_be_val)

end
