(* ===== verification/Kernel_Version.thy ===== *)
theory Kernel_Version
  imports Prelude
begin

text \<open>
  Stream versions, \<open>crates/mnesis/src/version.rs\<close>: \<open>Version\<close> (a non-zero \<open>u64\<close>), its
  checked successor, and the \<open>VersionRun\<close> iterator that hands out the versions of one
  save. The lemmas show that a run of length \<open>n\<close> from \<open>v\<close> exists exactly when its last
  version fits in a \<open>u64\<close>, and that draining it yields \<open>v, v + 1, ..., v + n - 1\<close>.
\<close>

section \<open>Version\<close>

type_synonym version = "64 nonzero"

definition version_INITIAL :: version where
  "version_INITIAL = nz 1"

definition as_u64 :: "version \<Rightarrow> u64" where
  "as_u64 v = get v"

definition version_new :: "u64 \<Rightarrow> version option" where
  "version_new v = (case nonzero_new v of Some n \<Rightarrow> Some n | None \<Rightarrow> None)"

definition version_next :: "version \<Rightarrow> version option" where
  "version_next v = (case nonzero_checked_add v 1 of Some n \<Rightarrow> Some n | None \<Rightarrow> None)"

text \<open>The numeric value of a version, the abstraction all ordering facts are stated over.\<close>

definition vnum :: "version \<Rightarrow> nat" where
  "vnum v = unat (as_u64 v)"

definition vmax :: nat where
  "vmax = 2 ^ 64 - 1"

lemma vnum_pos [simp]: "0 < vnum v"
  by (simp add: vnum_def as_u64_def)

lemma vnum_le_vmax [simp]: "vnum v \<le> vmax"
  using unat_bound [of "get v"] by (simp add: vnum_def as_u64_def vmax_def)

lemma vnum_INITIAL [simp]: "vnum version_INITIAL = 1"
  by (simp add: vnum_def as_u64_def version_INITIAL_def)

lemma vnum_inject: "vnum a = vnum b \<longleftrightarrow> a = b"
  by (simp add: vnum_def as_u64_def nonzero_eq_unat)

lemma version_le_vnum: "a \<le> b \<longleftrightarrow> vnum a \<le> vnum b"
  by (simp add: vnum_def as_u64_def nonzero_le_unat)

lemma version_less_vnum: "a < b \<longleftrightarrow> vnum a < vnum b"
  by (simp add: vnum_def as_u64_def nonzero_less_unat)

lemma version_INITIAL_le [simp]: "version_INITIAL \<le> v"
  using vnum_pos [of v] by (simp add: version_le_vnum del: vnum_pos)

lemma version_next_Some: "version_next v = Some w \<longleftrightarrow> vnum w = Suc (vnum v)"
  by (simp add: version_next_def vnum_def as_u64_def nonzero_checked_add_Some)

lemma version_next_None: "version_next v = None \<longleftrightarrow> vnum v = vmax"
proof -
  have "version_next v = None \<longleftrightarrow> 2 ^ 64 \<le> vnum v + 1"
    by (simp add: version_next_def vnum_def as_u64_def nonzero_checked_add_None)
  with vnum_le_vmax [of v] show ?thesis
    unfolding vmax_def by (simp del: vnum_le_vmax)
qed

lemma version_new_Some [simp]: "version_new n = Some v \<longleftrightarrow> as_u64 v = n"
  by (simp add: version_new_def as_u64_def)

lemma version_new_as_u64: "version_new (as_u64 v) = Some v"
  by simp

lemma version_new_None [simp]: "version_new n = None \<longleftrightarrow> n = 0"
  by (simp add: version_new_def)

lemma version_new_0 [simp]: "version_new 0 = None"
  by simp

text \<open>The version whose value is \<open>n\<close>, for \<open>0 < n \<le> vmax\<close>.\<close>

definition version_of :: "nat \<Rightarrow> version" where
  "version_of n = nz (of_nat n)"

lemma vnum_version_of [simp]: "0 < n \<Longrightarrow> n \<le> vmax \<Longrightarrow> vnum (version_of n) = n"
  by (simp add: vnum_def as_u64_def version_of_def vmax_def unat_of_nat_small word_unat_eq_iff)

lemma version_of_vnum [simp]: "version_of (vnum v) = v"
  by (simp add: vnum_def as_u64_def version_of_def)

section \<open>VersionRun\<close>

record version_run =
  run_next :: version
  run_remaining :: nat

definition version_run_new :: "version \<Rightarrow> nat \<Rightarrow> version_run option" where
  "version_run_new start len =
    (if len = 0 then Some \<lparr>run_next = start, run_remaining = 0\<rparr>
     else let last_index = len - 1 in
       if 2 ^ 64 \<le> last_index then None
       else case checked_add (as_u64 start) (of_nat last_index) of
           None \<Rightarrow> None
         | Some last_raw \<Rightarrow>
             (case version_new last_raw of
                None \<Rightarrow> None
              | Some _ \<Rightarrow> Some \<lparr>run_next = start, run_remaining = len\<rparr>))"

definition version_run_step :: "version_run \<Rightarrow> (version \<times> version_run) option" where
  "version_run_step r =
    (if run_remaining r = 0 then None
     else let remaining = run_remaining r - 1; current = run_next r;
              r' = r\<lparr>run_remaining := remaining\<rparr>
          in Some (current,
               if remaining > 0
               then (case version_next (run_next r) of
                       Some n \<Rightarrow> r'\<lparr>run_next := n\<rparr>
                     | None \<Rightarrow> r')
               else r'))"

definition version_run_size_hint :: "version_run \<Rightarrow> nat \<times> nat option" where
  "version_run_size_hint r = (run_remaining r, Some (run_remaining r))"

text \<open>Draining the iterator: the versions a \<open>for\<close> loop over the run sees.\<close>

function version_run_collect :: "version_run \<Rightarrow> version list" where
  "version_run_collect r =
    (case version_run_step r of None \<Rightarrow> [] | Some (v, r') \<Rightarrow> v # version_run_collect r')"
  by pat_completeness auto

termination version_run_collect
  by (relation "measure run_remaining")
    (auto simp: version_run_step_def Let_def split: if_splits option.splits)

declare version_run_collect.simps [simp del]

lemma version_run_new_Some:
  "version_run_new start len = Some r \<longleftrightarrow>
     vnum start + len \<le> Suc vmax \<and> r = \<lparr>run_next = start, run_remaining = len\<rparr>"
proof (cases len)
  case 0
  then show ?thesis by (auto simp: version_run_new_def intro: le_SucI)
next
  case (Suc n)
  show ?thesis
  proof (cases "n < 2 ^ 64")
    case True
    let ?s = "checked_add (as_u64 start) (of_nat n)"
    have n: "unat (of_nat n :: u64) = n" using True by (simp add: unat_of_nat_small)
    have "?s = None \<longleftrightarrow> vmax < vnum start + n"
      by (auto simp: checked_add_None n vnum_def vmax_def)
    moreover have "w \<noteq> 0" if "?s = Some w" for w
      using that vnum_pos [of start] by (auto simp: checked_add_Some vnum_def simp del: vnum_pos)
    ultimately show ?thesis
      using Suc True by (auto simp: version_run_new_def Let_def split: option.splits)
  next
    case False
    with Suc show ?thesis by (auto simp: version_run_new_def vmax_def)
  qed
qed

lemma version_run_collect_upt:
  assumes "vnum (run_next r) + run_remaining r \<le> Suc vmax"
  shows "map vnum (version_run_collect r) =
    [vnum (run_next r) ..< vnum (run_next r) + run_remaining r]"
  using assms
proof (induction "run_remaining r" arbitrary: r)
  case 0
  then show ?case
    by (simp add: version_run_collect.simps [of r] version_run_step_def)
next
  case (Suc n)
  show ?case
  proof (cases n)
    case 0
    with Suc.hyps(2) have r: "run_remaining r = 1" by simp
    then have "version_run_collect r =
        run_next r # version_run_collect (r\<lparr>run_remaining := 0\<rparr>)"
      by (simp add: version_run_collect.simps [of r] version_run_step_def)
    with r show ?thesis
      by (simp add: version_run_collect.simps [of "r\<lparr>run_remaining := 0\<rparr>"] version_run_step_def)
  next
    case (Suc m)
    with Suc.prems Suc.hyps(2) have "vnum (run_next r) \<noteq> vmax" by simp
    then obtain w where w: "version_next (run_next r) = Some w"
      by (metis not_None_eq version_next_None)
    define r' where "r' = r\<lparr>run_remaining := n, run_next := w\<rparr>"
    have "version_run_step r = Some (run_next r, r')"
      using Suc Suc.hyps(2) w by (simp add: version_run_step_def r'_def flip: Suc.hyps(2))
    then have "map vnum (version_run_collect r) =
        vnum (run_next r) # map vnum (version_run_collect r')"
      by (simp add: version_run_collect.simps [of r])
    also have "map vnum (version_run_collect r') = [vnum w ..< vnum w + n]"
      using Suc.hyps(1) [of r'] Suc.prems w Suc.hyps(2) by (simp add: r'_def version_next_Some)
    finally show ?thesis
      using w by (simp add: version_next_Some upt_rec [of "vnum (run_next r)"] flip: Suc.hyps(2))
  qed
qed

section \<open>VersionedEvent\<close>

record 'e versioned_event =
  ve_version :: version
  ve_event :: 'e

definition versioned_event_new :: "version \<Rightarrow> 'e \<Rightarrow> 'e versioned_event" where
  "versioned_event_new v e = \<lparr>ve_version = v, ve_event = e\<rparr>"

definition versioned_event_into_parts :: "'e versioned_event \<Rightarrow> version \<times> 'e" where
  "versioned_event_into_parts ve = (ve_version ve, ve_event ve)"

section \<open>Properties\<close>

text \<open>A version run of \<open>len\<close> versions from \<open>start\<close> exists exactly when its last version fits in
  a \<open>u64\<close>; draining it then yields \<open>start, start + 1, ...\<close>, exactly \<open>len\<close> of them, as its size hint
  announced.\<close>

theorem version_run_exact:
  "(\<exists>r. version_run_new start len = Some r) = (vnum start + len \<le> Suc vmax) \<and>
    (\<forall>r. version_run_new start len = Some r \<longrightarrow>
      map vnum (version_run_collect r) = [vnum start ..< vnum start + len] \<and>
      version_run_size_hint r = (len, Some len))"
  by (auto simp: version_run_new_Some version_run_collect_upt version_run_size_hint_def)

theorem version_run_exact_witness:
  "\<exists>r. version_run_new version_INITIAL 3 = Some r \<and> map vnum (version_run_collect r) = [1, 2, 3]"
  using version_run_exact [of version_INITIAL 3] by (auto simp: vmax_def upt_rec)

end
