(* ===== verification/Kernel_Events.thy ===== *)
theory Kernel_Events
  imports Kernel_Version
begin

text \<open>
  The non-empty event collection a decision returns, \<open>crates/mnesis/src/events.rs\<close>:
  one mandatory event and up to \<open>N\<close> more in an \<open>ArrayVec\<close>. A push past the capacity
  panics; the model returns \<open>None\<close> there. The borrowing iterator, the consuming one and
  its \<open>next_back\<close> all traverse \<open>first\<close> followed by \<open>rest\<close>.
\<close>

record 'e events =
  ev_first :: 'e
  ev_rest :: "'e list"

definition events_new :: "'e \<Rightarrow> 'e events" where
  "events_new e = \<lparr>ev_first = e, ev_rest = []\<rparr>"

definition events_add :: "nat \<Rightarrow> 'e \<Rightarrow> 'e events \<Rightarrow> 'e events option" where
  "events_add N e es =
    (if length (ev_rest es) < N then Some (es\<lparr>ev_rest := ev_rest es @ [e]\<rparr>) else None)"

definition events_iter :: "'e events \<Rightarrow> 'e list" where
  "events_iter es = ev_first es # ev_rest es"

definition events_len :: "'e events \<Rightarrow> nat" where
  "events_len es = length (ev_rest es) + 1"

definition events_is_empty :: "'e events \<Rightarrow> bool" where
  "events_is_empty es = False"

text \<open>The \<open>events!\<close> macro: the head, then every tail expression added in order.\<close>

definition events_macro :: "nat \<Rightarrow> 'e \<Rightarrow> 'e list \<Rightarrow> 'e events option" where
  "events_macro N h ts =
    fold (\<lambda>t acc. case acc of None \<Rightarrow> None | Some es \<Rightarrow> events_add N t es) ts (Some (events_new h))"

text \<open>\<open>EventsIntoIter\<close>: a chain of the optional head and the remaining tail, consumed from
either end.\<close>

record 'e events_into_iter =
  it_once :: "'e option"
  it_rest :: "'e list"

definition events_to_iter :: "'e events \<Rightarrow> 'e events_into_iter" where
  "events_to_iter es = \<lparr>it_once = Some (ev_first es), it_rest = ev_rest es\<rparr>"

definition into_iter_next :: "'e events_into_iter \<Rightarrow> ('e \<times> 'e events_into_iter) option" where
  "into_iter_next it =
    (case it_once it of
       Some e \<Rightarrow> Some (e, it\<lparr>it_once := None\<rparr>)
     | None \<Rightarrow>
         (case it_rest it of
            [] \<Rightarrow> None
          | e # es \<Rightarrow> Some (e, it\<lparr>it_rest := es\<rparr>)))"

definition into_iter_next_back :: "'e events_into_iter \<Rightarrow> ('e \<times> 'e events_into_iter) option" where
  "into_iter_next_back it =
    (case it_rest it of
       [] \<Rightarrow> (case it_once it of Some e \<Rightarrow> Some (e, it\<lparr>it_once := None\<rparr>) | None \<Rightarrow> None)
     | e # es \<Rightarrow> Some (last (e # es), it\<lparr>it_rest := butlast (e # es)\<rparr>))"

text \<open>What is still to be yielded, front to back.\<close>

definition into_iter_pending :: "'e events_into_iter \<Rightarrow> 'e list" where
  "into_iter_pending it = (case it_once it of Some e \<Rightarrow> e # it_rest it | None \<Rightarrow> it_rest it)"

lemma events_iter_nonempty [simp]: "events_iter es \<noteq> []"
  by (simp add: events_iter_def)

lemma length_events_iter [simp]: "length (events_iter es) = events_len es"
  by (simp add: events_iter_def events_len_def)

lemma events_iter_new [simp]: "events_iter (events_new e) = [e]"
  by (simp add: events_iter_def events_new_def)

lemma events_iter_add:
  "events_add N e es = Some es' \<longleftrightarrow>
    length (ev_rest es) < N \<and> ev_first es' = ev_first es \<and> ev_rest es' = ev_rest es @ [e]"
  by (auto simp: events_add_def)

lemma events_macro_fold_None:
  "fold (\<lambda>t acc. case acc of None \<Rightarrow> None | Some es \<Rightarrow> events_add N t es) ts None = None"
  by (induction ts) simp_all

lemma events_macro_fold:
  "fold (\<lambda>t acc. case acc of None \<Rightarrow> None | Some es \<Rightarrow> events_add N t es) ts (Some es) =
    (if length (ev_rest es) + length ts \<le> N \<or> ts = []
     then Some (es\<lparr>ev_rest := ev_rest es @ ts\<rparr>) else None)"
proof (induction ts arbitrary: es)
  case (Cons t ts)
  then show ?case
    by (simp add: events_add_def events_macro_fold_None)
qed simp

lemma into_iter_next_pending:
  "into_iter_next it = None \<longleftrightarrow> into_iter_pending it = []"
  "into_iter_next it = Some (e, it') \<Longrightarrow> into_iter_pending it = e # into_iter_pending it'"
  by (auto simp: into_iter_next_def into_iter_pending_def split: option.splits list.splits)

lemma into_iter_next_back_pending:
  "into_iter_next_back it = None \<longleftrightarrow> into_iter_pending it = []"
  "into_iter_next_back it = Some (e, it') \<Longrightarrow> into_iter_pending it = into_iter_pending it' @ [e]"
  by (auto simp: into_iter_next_back_def into_iter_pending_def split: option.splits list.splits)

section \<open>Properties\<close>

primrec drain_front :: "nat \<Rightarrow> 'e events_into_iter \<Rightarrow> 'e list" where
  "drain_front 0 it = []"
| "drain_front (Suc n) it = (case into_iter_next it of None \<Rightarrow> [] | Some (e, it') \<Rightarrow> e # drain_front n it')"

primrec drain_back :: "nat \<Rightarrow> 'e events_into_iter \<Rightarrow> 'e list" where
  "drain_back 0 it = []"
| "drain_back (Suc n) it = (case into_iter_next_back it of None \<Rightarrow> [] | Some (e, it') \<Rightarrow> e # drain_back n it')"

lemma drain_front_pending: "length (into_iter_pending it) \<le> n \<Longrightarrow> drain_front n it = into_iter_pending it"
proof (induction n arbitrary: it)
  case (Suc n)
  show ?case
  proof (cases "into_iter_next it")
    case None
    moreover from this have "into_iter_pending it = []" by (simp add: into_iter_next_pending(1))
    ultimately show ?thesis by simp
  next
    case (Some x)
    obtain e it' where x: "x = (e, it')" by (cases x)
    with Some have "into_iter_pending it = e # into_iter_pending it'" by (intro into_iter_next_pending(2)) simp
    with Suc Some x show ?thesis by simp
  qed
qed simp

lemma drain_back_pending: "length (into_iter_pending it) \<le> n \<Longrightarrow> drain_back n it = rev (into_iter_pending it)"
proof (induction n arbitrary: it)
  case (Suc n)
  show ?case
  proof (cases "into_iter_next_back it")
    case None
    moreover from this have "into_iter_pending it = []" by (simp add: into_iter_next_back_pending(1))
    ultimately show ?thesis by simp
  next
    case (Some x)
    obtain e it' where x: "x = (e, it')" by (cases x)
    with Some have "into_iter_pending it = into_iter_pending it' @ [e]" by (intro into_iter_next_back_pending(2)) simp
    with Suc Some x show ?thesis by simp
  qed
qed simp

text \<open>The \<open>events!\<close> macro keeps its expressions in order and panics exactly when the tail exceeds
  the collection's capacity, and the consuming iterator yields the same events from the front as the
  borrowing one, and the same reversed from the back.\<close>

theorem events_macro_and_iterators:
  "(case events_macro N h ts of
      None \<Rightarrow> N < length ts
    | Some es \<Rightarrow> length ts \<le> N \<and> events_iter es = h # ts \<and> events_len es = Suc (length ts) \<and>
        drain_front (events_len es) (events_to_iter es) = h # ts \<and>
        drain_back (events_len es) (events_to_iter es) = rev (h # ts))"
proof -
  have p: "into_iter_pending (events_to_iter es) = events_iter es" for es :: "'a events"
    by (simp add: into_iter_pending_def events_to_iter_def events_iter_def)
  have "events_macro N h ts = (if length ts \<le> N then Some \<lparr>ev_first = h, ev_rest = ts\<rparr> else None)"
    using events_macro_fold [of N ts "events_new h"] by (auto simp: events_macro_def events_new_def)
  moreover have "drain_front (events_len es) (events_to_iter es) = events_iter es"
    "drain_back (events_len es) (events_to_iter es) = rev (events_iter es)" for es :: "'a events"
    using drain_front_pending [of "events_to_iter es" "events_len es"]
      drain_back_pending [of "events_to_iter es" "events_len es"] by (simp_all add: p)
  moreover have "events_iter \<lparr>ev_first = h, ev_rest = ts\<rparr> = h # ts" "events_len \<lparr>ev_first = h, ev_rest = ts\<rparr> = Suc (length ts)"
    by (simp_all add: events_iter_def events_len_def)
  ultimately show ?thesis
    by (cases "length ts \<le> N") (simp_all only: if_True if_False option.case refl simp_thms not_le)
qed

end
