(* ===== verification/Kernel_Aggregate.thy ===== *)
theory Kernel_Aggregate
  imports Kernel_Events
begin

text \<open>
  The aggregate root, \<open>crates/mnesis/src/aggregate.rs\<close> (with \<open>error.rs\<close> and the
  \<open>react\<close> dual of \<open>saga.rs\<close>). The user's aggregate is a parameter: its initial state,
  its \<open>apply\<close> (which may panic), and its rehydration limit. \<open>handle\<close> and \<open>react\<close> of the
  user's \<open>Handle\<close> and \<open>React\<close> impls are arguments too.

  A mutating method returns its result together with the root it leaves behind, so a
  panic inside \<open>apply\<close> is visible as the root it poisons.
\<close>

datatype kernel_error =
    PoisonedAggregate
  | VersionMismatch version version
  | RehydrationLimitExceeded nat
  | KernelVersionOverflow

datatype 'd decision_error = DecisionKernel kernel_error | DecisionDomain 'd

record ('s, 'e) aggregate =
  ag_initial :: 's
  ag_apply :: "'s \<Rightarrow> 'e \<Rightarrow> 's call"
  ag_limit :: nat

definition DEFAULT_MAX_REHYDRATION_EVENTS :: nat where
  "DEFAULT_MAX_REHYDRATION_EVENTS = 1000000"

record ('id, 's) aggregate_root =
  root_id :: 'id
  root_state :: "'s option"
  root_version :: "version option"
  root_replayed :: nat

section \<open>Construction and access\<close>

definition root_new :: "('s, 'e) aggregate \<Rightarrow> 'id \<Rightarrow> ('id, 's) aggregate_root" where
  "root_new ag i = \<lparr>root_id = i, root_state = Some (ag_initial ag), root_version = None, root_replayed = 0\<rparr>"

definition root_restore :: "'id \<Rightarrow> 's \<Rightarrow> version \<Rightarrow> ('id, 's) aggregate_root" where
  "root_restore i s v = \<lparr>root_id = i, root_state = Some s, root_version = Some v, root_replayed = 0\<rparr>"

definition root_get_state :: "('id, 's) aggregate_root \<Rightarrow> ('s, kernel_error) result" where
  "root_get_state r = ok_or PoisonedAggregate (root_state r)"

definition root_handle ::
  "('s \<Rightarrow> 'c \<Rightarrow> ('e events option, 'd) result) \<Rightarrow> 'c \<Rightarrow> ('id, 's) aggregate_root
    \<Rightarrow> ('e events option, 'd decision_error) result" where
  "root_handle handle cmd r =
    and_then (map_err DecisionKernel (root_get_state r))
      (\<lambda>s. map_err DecisionDomain (handle s cmd))"

definition root_react ::
  "('s \<Rightarrow> 'u \<Rightarrow> ('e events option, 'd) result) \<Rightarrow> 'u \<Rightarrow> ('id, 's) aggregate_root
    \<Rightarrow> ('e events option, 'd decision_error) result" where
  "root_react react event r =
    and_then (map_err DecisionKernel (root_get_state r))
      (\<lambda>s. map_err DecisionDomain (react s event))"

section \<open>Folding\<close>

text \<open>The loop over \<open>current = current.apply(event)\<close>.\<close>

primrec apply_all :: "('s, 'e) aggregate \<Rightarrow> 'e list \<Rightarrow> 's \<Rightarrow> 's call" where
  "apply_all ag [] s = Returns s"
| "apply_all ag (e # es) s = call_bind (ag_apply ag s e) (apply_all ag es)"

text \<open>\<open>fold_events\<close> takes the state out first: a panic leaves the root without one.\<close>

definition fold_events ::
  "('s, 'e) aggregate \<Rightarrow> 'e list \<Rightarrow> ('id, 's) aggregate_root
    \<Rightarrow> (unit, kernel_error) result call \<times> ('id, 's) aggregate_root" where
  "fold_events ag es r =
    (case root_state r of
       None \<Rightarrow> (Returns (Inl PoisonedAggregate), r)
     | Some current \<Rightarrow>
         let r' = r\<lparr>root_state := None\<rparr> in
         (case apply_all ag es current of
            Panics \<Rightarrow> (Panics, r')
          | Returns s \<Rightarrow> (Returns (Inr ()), r'\<lparr>root_state := Some s\<rparr>)))"

definition apply_events ::
  "('s, 'e) aggregate \<Rightarrow> 'e events \<Rightarrow> ('id, 's) aggregate_root
    \<Rightarrow> (unit, kernel_error) result call \<times> ('id, 's) aggregate_root" where
  "apply_events ag es r = fold_events ag (events_iter es) r"

section \<open>Replay\<close>

definition replay_expected :: "('id, 's) aggregate_root \<Rightarrow> (version, kernel_error) result" where
  "replay_expected r =
    (case root_version r of
       None \<Rightarrow> Inr version_INITIAL
     | Some v \<Rightarrow> ok_or KernelVersionOverflow (version_next v))"

text \<open>The checks of \<open>replay\<close>, in order, ending with the new replay count.\<close>

definition replay_guard ::
  "('s, 'e) aggregate \<Rightarrow> version \<Rightarrow> ('id, 's) aggregate_root \<Rightarrow> (nat, kernel_error) result" where
  "replay_guard ag version r =
    and_then (root_get_state r) (\<lambda>_.
    and_then (replay_expected r) (\<lambda>expected.
      if version \<noteq> expected then Inl (VersionMismatch expected version)
      else let limit = ag_limit ag in
        if root_replayed r \<ge> limit then Inl (RehydrationLimitExceeded limit)
        else ok_or (RehydrationLimitExceeded limit) (checked_add_usize (root_replayed r) 1)))"

definition replay ::
  "('s, 'e) aggregate \<Rightarrow> version \<Rightarrow> 'e \<Rightarrow> ('id, 's) aggregate_root
    \<Rightarrow> (unit, kernel_error) result call \<times> ('id, 's) aggregate_root" where
  "replay ag version event r =
    (case replay_guard ag version r of
       Inl e \<Rightarrow> (Returns (Inl e), r)
     | Inr completed \<Rightarrow>
         (case fold_events ag [event] r of
            (Panics, r') \<Rightarrow> (Panics, r')
          | (Returns (Inl e), r') \<Rightarrow> (Returns (Inl e), r')
          | (Returns (Inr _), r') \<Rightarrow>
              (Returns (Inr ()), r'\<lparr>root_replayed := completed, root_version := Some version\<rparr>)))"

text \<open>A caller's loop over a history, stopping at the first failure.\<close>

primrec replay_all ::
  "('s, 'e) aggregate \<Rightarrow> (version \<times> 'e) list \<Rightarrow> ('id, 's) aggregate_root
    \<Rightarrow> (unit, kernel_error) result call \<times> ('id, 's) aggregate_root" where
  "replay_all ag [] r = (Returns (Inr ()), r)"
| "replay_all ag (ve # ves) r =
    (case replay ag (fst ve) (snd ve) r of
       (Returns (Inr _), r') \<Rightarrow> replay_all ag ves r'
     | stop \<Rightarrow> stop)"

section \<open>Commit\<close>

definition commit_version ::
  "'e events \<Rightarrow> ('id, 's) aggregate_root \<Rightarrow> (version, kernel_error) result" where
  "commit_version es r =
    and_then (root_get_state r) (\<lambda>_.
    and_then (if length (ev_rest es) < 2 ^ 64 then Inr (of_nat (length (ev_rest es)) :: u64)
              else Inl KernelVersionOverflow) (\<lambda>tail.
    and_then (ok_or KernelVersionOverflow (checked_add tail 1)) (\<lambda>count.
    let current = (case root_version r of None \<Rightarrow> 0 | Some v \<Rightarrow> as_u64 v) in
    and_then (ok_or KernelVersionOverflow (checked_add current count)) (\<lambda>ending.
      ok_or KernelVersionOverflow (version_new ending)))))"

definition commit_persisted ::
  "('s, 'e) aggregate \<Rightarrow> 'e events \<Rightarrow> ('id, 's) aggregate_root
    \<Rightarrow> (unit, kernel_error) result call \<times> ('id, 's) aggregate_root" where
  "commit_persisted ag es r =
    (case commit_version es r of
       Inl e \<Rightarrow> (Returns (Inl e), r)
     | Inr v \<Rightarrow> apply_events ag es (r\<lparr>root_version := Some v\<rparr>))"

section \<open>Lemmas\<close>

text \<open>The number of events a root stands on.\<close>

definition root_vnum :: "('id, 's) aggregate_root \<Rightarrow> nat" where
  "root_vnum r = (case root_version r of None \<Rightarrow> 0 | Some v \<Rightarrow> vnum v)"

lemma root_vnum_le_vmax [simp]: "root_vnum r \<le> vmax"
  by (simp add: root_vnum_def split: option.split)

lemma apply_all_append:
  "apply_all ag (xs @ ys) s = call_bind (apply_all ag xs s) (apply_all ag ys)"
proof (induction xs arbitrary: s)
  case (Cons x xs)
  then show ?case by (cases "ag_apply ag s x") simp_all
qed simp

lemma fold_events_poisoned:
  "root_state r = None \<Longrightarrow> fold_events ag es r = (Returns (Inl PoisonedAggregate), r)"
  by (simp add: fold_events_def)

lemma fold_events_live:
  "root_state r = Some s \<Longrightarrow> fold_events ag es r =
    (case apply_all ag es s of
       Panics \<Rightarrow> (Panics, r\<lparr>root_state := None\<rparr>)
     | Returns s' \<Rightarrow> (Returns (Inr ()), r\<lparr>root_state := Some s'\<rparr>))"
  by (simp add: fold_events_def Let_def split: call.split)

lemma replay_expected_Inr:
  "replay_expected r = Inr v \<longleftrightarrow> vnum v = Suc (root_vnum r)"
  by (auto simp: replay_expected_def root_vnum_def result_simps version_next_Some vnum_inject [symmetric]
      split: option.splits)

lemma replay_guard_Inr:
  "replay_guard ag v r = Inr n \<longleftrightarrow>
    root_state r \<noteq> None \<and> vnum v = Suc (root_vnum r) \<and> root_replayed r < ag_limit ag \<and>
    root_replayed r < usize_max \<and> n = Suc (root_replayed r)"
  by (auto simp: replay_guard_def root_get_state_def result_simps replay_expected_Inr [symmetric] Let_def
      checked_add_usize_def split: if_splits)

lemma replay_live:
  assumes "root_state r = Some s" "vnum v = Suc (root_vnum r)" "root_replayed r < ag_limit ag"
    "ag_limit ag \<le> usize_max"
  shows "replay ag v e r =
    (case ag_apply ag s e of
       Panics \<Rightarrow> (Panics, r\<lparr>root_state := None\<rparr>)
     | Returns s' \<Rightarrow> (Returns (Inr ()),
         r\<lparr>root_state := Some s', root_replayed := Suc (root_replayed r), root_version := Some v\<rparr>))"
proof -
  have "replay_guard ag v r = Inr (Suc (root_replayed r))"
    using assms by (simp add: replay_guard_Inr)
  then show ?thesis
    by (simp add: replay_def fold_events_live [OF assms(1)] split: call.split)
qed

lemma commit_version_Inr:
  assumes "root_state r \<noteq> None"
  shows "commit_version es r = Inr v \<longleftrightarrow> vnum v = root_vnum r + events_len es"
proof -
  let ?n = "length (ev_rest es)"
  have cur: "unat (case root_version r of None \<Rightarrow> 0 | Some v \<Rightarrow> as_u64 v) = root_vnum r"
    by (simp add: root_vnum_def vnum_def split: option.split)
  show ?thesis
  proof (cases "?n < 2 ^ 64")
    case True
    then have n: "unat (of_nat ?n :: u64) = ?n" by (simp add: unat_of_nat_small)
    have "commit_version es r = Inr v \<longleftrightarrow>
      (\<exists>c :: u64. unat c = ?n + 1 \<and> (\<exists>w. unat w = root_vnum r + unat c \<and> as_u64 v = (w :: u64)))"
      using assms True n cur
      by (auto simp: commit_version_def root_get_state_def result_simps checked_add_Some Let_def)
    also have "\<dots> \<longleftrightarrow> vnum v = root_vnum r + (?n + 1)"
    proof
      assume v: "vnum v = root_vnum r + (?n + 1)"
      then have "unat (of_nat (?n + 1) :: u64) = ?n + 1"
        using vnum_le_vmax [of v] by (intro unat_of_nat_small) (simp add: vmax_def)
      with v show "\<exists>c :: u64. unat c = ?n + 1 \<and> (\<exists>w. unat w = root_vnum r + unat c \<and> as_u64 v = (w :: u64))"
        by (metis vnum_def)
    qed (auto simp: vnum_def)
    finally show ?thesis by (simp add: events_len_def)
  next
    case False
    with assms vnum_le_vmax [of v] show ?thesis
      by (auto simp: commit_version_def root_get_state_def events_len_def vmax_def simp del: vnum_le_vmax)
  qed
qed

text \<open>A history numbered from the event after \<open>n\<close>.\<close>

definition number_from :: "nat \<Rightarrow> 'e list \<Rightarrow> (version \<times> 'e) list" where
  "number_from n es = zip (map version_of [Suc n ..< Suc n + length es]) es"

lemma number_from_Nil [simp]: "number_from n [] = []"
  by (simp add: number_from_def)

lemma number_from_Cons [simp]:
  "number_from n (e # es) = (version_of (Suc n), e) # number_from (Suc n) es"
  by (simp add: number_from_def upt_rec [of "Suc n"] del: upt_Suc)

lemma replay_all_number_from:
  assumes "root_state r = Some s" "root_vnum r + length es \<le> vmax"
    "root_replayed r + length es \<le> ag_limit ag" "ag_limit ag \<le> usize_max"
  shows "case apply_all ag es s of
      Panics \<Rightarrow> fst (replay_all ag (number_from (root_vnum r) es) r) = Panics \<and>
        root_state (snd (replay_all ag (number_from (root_vnum r) es) r)) = None
    | Returns s' \<Rightarrow> replay_all ag (number_from (root_vnum r) es) r =
        (Returns (Inr ()), r\<lparr>root_state := Some s', root_replayed := root_replayed r + length es,
           root_version := (if es = [] then root_version r else Some (version_of (root_vnum r + length es)))\<rparr>)"
  using assms
proof (induction es arbitrary: r s)
  case Nil
  then show ?case by simp
next
  case (Cons e es)
  let ?v = "version_of (Suc (root_vnum r))"
  have v: "vnum ?v = Suc (root_vnum r)" using Cons.prems by simp
  have step: "replay ag ?v e r =
    (case ag_apply ag s e of
       Panics \<Rightarrow> (Panics, r\<lparr>root_state := None\<rparr>)
     | Returns s' \<Rightarrow> (Returns (Inr ()),
         r\<lparr>root_state := Some s', root_replayed := Suc (root_replayed r), root_version := Some ?v\<rparr>))"
    using Cons.prems v by (intro replay_live) auto
  show ?case
  proof (cases "ag_apply ag s e")
    case Panics
    with step show ?thesis by simp
  next
    case (Returns s1)
    define r1 where "r1 = r\<lparr>root_state := Some s1, root_replayed := Suc (root_replayed r), root_version := Some ?v\<rparr>"
    have n1: "root_vnum r1 = Suc (root_vnum r)" using v by (simp add: r1_def root_vnum_def)
    have IH: "case apply_all ag es s1 of
      Panics \<Rightarrow> fst (replay_all ag (number_from (root_vnum r1) es) r1) = Panics \<and>
        root_state (snd (replay_all ag (number_from (root_vnum r1) es) r1)) = None
    | Returns s' \<Rightarrow> replay_all ag (number_from (root_vnum r1) es) r1 =
        (Returns (Inr ()), r1\<lparr>root_state := Some s', root_replayed := root_replayed r1 + length es,
           root_version := (if es = [] then root_version r1 else Some (version_of (root_vnum r1 + length es)))\<rparr>)"
      using Cons.prems n1 by (intro Cons.IH) (auto simp: r1_def)
    from step Returns IH n1 show ?thesis
      by (auto simp: r1_def split: call.splits)
  qed
qed

text \<open>Where a replay stops when \<open>apply\<close> panics, and when the history is longer than the limit.\<close>

lemma replay_all_panic:
  assumes "root_state r = Some s" "root_vnum r + length es \<le> vmax"
    "root_replayed r + length es \<le> ag_limit ag" "ag_limit ag \<le> usize_max" "apply_all ag es s = Panics"
  shows "\<exists>j < length es. replay_all ag (number_from (root_vnum r) es) r =
    (Panics, r\<lparr>root_state := None, root_replayed := root_replayed r + j,
       root_version := (if j = 0 then root_version r else Some (version_of (root_vnum r + j)))\<rparr>)"
  using assms
proof (induction es arbitrary: r s)
  case (Cons e es)
  let ?v = "version_of (Suc (root_vnum r))"
  have v: "vnum ?v = Suc (root_vnum r)" using Cons.prems by simp
  note step = replay_live [OF Cons.prems(1) v _ Cons.prems(4), of e]
  show ?case
  proof (cases "ag_apply ag s e")
    case Panics
    with step Cons.prems(3) show ?thesis by (intro exI [of _ 0]) simp
  next
    case (Returns s1)
    define r1 where "r1 = r\<lparr>root_state := Some s1, root_replayed := Suc (root_replayed r), root_version := Some ?v\<rparr>"
    have n1: "root_vnum r1 = Suc (root_vnum r)" using v by (simp add: r1_def root_vnum_def)
    have "\<exists>j < length es. replay_all ag (number_from (root_vnum r1) es) r1 =
      (Panics, r1\<lparr>root_state := None, root_replayed := root_replayed r1 + j,
         root_version := (if j = 0 then root_version r1 else Some (version_of (root_vnum r1 + j)))\<rparr>)"
      using Cons.prems n1 Returns by (intro Cons.IH [of r1 s1]) (auto simp: r1_def)
    then obtain j where j: "j < length es" "replay_all ag (number_from (root_vnum r1) es) r1 =
      (Panics, r1\<lparr>root_state := None, root_replayed := root_replayed r1 + j,
         root_version := (if j = 0 then root_version r1 else Some (version_of (root_vnum r1 + j)))\<rparr>)" by blast
    have "replay ag ?v e r = (Returns (Inr ()), r1)" using step Returns Cons.prems(3) by (simp add: r1_def)
    with j n1 show ?thesis by (intro exI [of _ "Suc j"]) (simp add: r1_def)
  qed
qed simp

lemma replay_all_limit:
  assumes "root_state r = Some s" "root_vnum r + length es \<le> vmax" "es \<noteq> []"
    "ag_limit ag < root_replayed r + length es" "ag_limit ag \<le> usize_max" "apply_all ag es s = Returns s'"
  shows "fst (replay_all ag (number_from (root_vnum r) es) r) = Returns (Inl (RehydrationLimitExceeded (ag_limit ag)))"
  using assms
proof (induction es arbitrary: r s)
  case (Cons e es)
  let ?v = "version_of (Suc (root_vnum r))"
  have v: "vnum ?v = Suc (root_vnum r)" using Cons.prems by simp
  show ?case
  proof (cases "root_replayed r < ag_limit ag")
    case False
    then have "replay_guard ag ?v r = Inl (RehydrationLimitExceeded (ag_limit ag))"
      using Cons.prems(1) replay_expected_Inr [of r ?v] v
      by (simp add: replay_guard_def root_get_state_def result_simps Let_def)
    then show ?thesis by (simp add: replay_def)
  next
    case True
    obtain s1 where s1: "ag_apply ag s e = Returns s1" using Cons.prems(6) by (cases "ag_apply ag s e") auto
    define r1 where "r1 = r\<lparr>root_state := Some s1, root_replayed := Suc (root_replayed r), root_version := Some ?v\<rparr>"
    have n1: "root_vnum r1 = Suc (root_vnum r)" using v by (simp add: r1_def root_vnum_def)
    have "fst (replay_all ag (number_from (root_vnum r1) es) r1) = Returns (Inl (RehydrationLimitExceeded (ag_limit ag)))"
      using Cons.prems True n1 s1 by (intro Cons.IH [of r1 s1]) (auto simp: r1_def)
    moreover have "replay ag ?v e r = (Returns (Inr ()), r1)"
      using replay_live [OF Cons.prems(1) v True Cons.prems(5), of e] s1 by (simp add: r1_def)
    ultimately show ?thesis using n1 by simp
  qed
qed simp

lemma commit_persisted_live:
  assumes "root_state r = Some s" "root_vnum r + events_len es \<le> vmax"
  shows "commit_persisted ag es r =
    (case apply_all ag (events_iter es) s of
       Panics \<Rightarrow> (Panics, r\<lparr>root_version := Some (version_of (root_vnum r + events_len es)), root_state := None\<rparr>)
     | Returns s' \<Rightarrow>
         (Returns (Inr ()), r\<lparr>root_version := Some (version_of (root_vnum r + events_len es)), root_state := Some s'\<rparr>))"
proof -
  have "commit_version es r = Inr (version_of (root_vnum r + events_len es))"
    using assms by (simp add: commit_version_Inr events_len_def)
  then show ?thesis using assms(1) by (simp add: commit_persisted_def apply_events_def fold_events_live split: call.split)
qed

section \<open>Properties\<close>

text \<open>C34: Committing a decided batch to a live root, when the batch fits below the last version, is replaying its
  events. If every \<open>apply\<close> returns, the commit succeeds at the batch's end, and the replay reaches the same
  root with only the replay counter moved, provided that counter stays within the rehydration limit; beyond
  the limit the replay is refused, while the commit is not. If an \<open>apply\<close> panics the commit leaves the root
  without a state at the version of the batch's end, and the replay, within the limit, panics too and leaves
  the root without a state at the version of the last event applied before.\<close>

theorem commit_persisted_is_replay:
  assumes "root_state r = Some s" "root_vnum r + events_len es \<le> vmax" "ag_limit ag \<le> usize_max"
  shows "case commit_persisted ag es r of
      (Returns (Inr _), c) \<Rightarrow>
        apply_all ag (events_iter es) s = Returns (the (root_state c)) \<and> root_state c \<noteq> None \<and>
        root_id c = root_id r \<and> root_vnum c = root_vnum r + events_len es \<and> root_replayed c = root_replayed r \<and>
        (if root_replayed r + events_len es \<le> ag_limit ag
         then replay_all ag (number_from (root_vnum r) (events_iter es)) r =
           (Returns (Inr ()), c\<lparr>root_replayed := root_replayed r + events_len es\<rparr>)
         else fst (replay_all ag (number_from (root_vnum r) (events_iter es)) r) =
           Returns (Inl (RehydrationLimitExceeded (ag_limit ag))))
    | (Panics, c) \<Rightarrow>
        apply_all ag (events_iter es) s = Panics \<and> root_state c = None \<and>
        root_id c = root_id r \<and> root_vnum c = root_vnum r + events_len es \<and> root_replayed c = root_replayed r \<and>
        (root_replayed r + events_len es \<le> ag_limit ag \<longrightarrow>
          (\<exists>j < events_len es. replay_all ag (number_from (root_vnum r) (events_iter es)) r =
            (Panics, c\<lparr>root_replayed := root_replayed r + j,
               root_version := (if j = 0 then root_version r else Some (version_of (root_vnum r + j)))\<rparr>)))
    | _ \<Rightarrow> False"
proof -
  let ?n = "root_vnum r + events_len es" and ?ves = "number_from (root_vnum r) (events_iter es)"
  have pos: "0 < ?n" "events_iter es \<noteq> []" by (simp_all add: events_len_def events_iter_def)
  note c = commit_persisted_live [OF assms(1,2), of ag]
  have v: "root_vnum (r\<lparr>root_version := Some (version_of ?n), root_state := x\<rparr>) = ?n" for x
    using assms(2) pos by (simp add: root_vnum_def)
  show ?thesis
  proof (cases "apply_all ag (events_iter es) s")
    case Panics
    with c v [of None] replay_all_panic [OF assms(1), of "events_iter es" ag] assms(2,3) show ?thesis by auto
  next
    case (Returns s')
    have "replay_all ag ?ves r = (Returns (Inr ()), r\<lparr>root_state := Some s',
        root_replayed := root_replayed r + events_len es, root_version := Some (version_of ?n)\<rparr>)"
      if "root_replayed r + events_len es \<le> ag_limit ag"
      using replay_all_number_from [OF assms(1), of "events_iter es" ag] that assms(2,3) Returns pos(2) by simp
    moreover have "fst (replay_all ag ?ves r) = Returns (Inl (RehydrationLimitExceeded (ag_limit ag)))"
      if "\<not> root_replayed r + events_len es \<le> ag_limit ag"
      using replay_all_limit [OF assms(1) _ pos(2) _ assms(3) Returns] that assms(2) by simp
    ultimately show ?thesis using c v [of "Some s'"] Returns by simp
  qed
qed

text \<open>A counter aggregate that panics on the event 0 and replays at most two events.\<close>

definition sample_aggregate :: "(nat, nat) aggregate" where
  "sample_aggregate = \<lparr>ag_initial = 0, ag_apply = (\<lambda>s e. if e = 0 then Panics else Returns (s + e)), ag_limit = 2\<rparr>"

theorem commit_persisted_is_replay_witness:
  "commit_persisted sample_aggregate \<lparr>ev_first = 2, ev_rest = [3]\<rparr> (root_new sample_aggregate ''a'') =
     (Returns (Inr ()), \<lparr>root_id = ''a'', root_state = Some 5, root_version = Some (version_of 2), root_replayed = 0\<rparr>) \<and>
   replay_all sample_aggregate (number_from 0 [2, 3]) (root_new sample_aggregate ''a'') =
     (Returns (Inr ()), \<lparr>root_id = ''a'', root_state = Some 5, root_version = Some (version_of 2), root_replayed = 2\<rparr>) \<and>
   fst (commit_persisted sample_aggregate \<lparr>ev_first = 2, ev_rest = [3, 4]\<rparr> (root_new sample_aggregate ''a'')) = Returns (Inr ()) \<and>
   fst (replay_all sample_aggregate (number_from 0 [2, 3, 4]) (root_new sample_aggregate ''a'')) =
     Returns (Inl (RehydrationLimitExceeded 2)) \<and>
   root_version (snd (commit_persisted sample_aggregate \<lparr>ev_first = 2, ev_rest = [0]\<rparr> (root_new sample_aggregate ''a''))) =
     Some (version_of 2) \<and>
   fst (replay_all sample_aggregate (number_from 0 [2, 0]) (root_new sample_aggregate ''a'')) = Panics"
proof -
  let ?r = "root_new sample_aggregate ''a''"
  let ?a = "\<lparr>ev_first = 2, ev_rest = [3]\<rparr> :: nat events" and ?b = "\<lparr>ev_first = 2, ev_rest = [3, 4]\<rparr> :: nat events"
    and ?c = "\<lparr>ev_first = 2, ev_rest = [0]\<rparr> :: nat events"
  have r: "root_state ?r = Some 0" "root_vnum ?r = 0" "ag_limit sample_aggregate = 2" "root_replayed ?r = 0"
    by (simp_all add: root_new_def sample_aggregate_def root_vnum_def)
  have it: "events_iter ?a = [2, 3]" "events_iter ?b = [2, 3, 4]" "events_iter ?c = [2, 0]"
    "events_len ?a = 2" "events_len ?b = 3" "events_len ?c = 2"
    by (simp_all add: events_iter_def events_len_def)
  have ap: "apply_all sample_aggregate [2, 3] 0 = Returns 5" "apply_all sample_aggregate [2, 3, 4] 0 = Returns 9"
    "apply_all sample_aggregate [2, 0] 0 = Panics" by (simp_all add: sample_aggregate_def)
  have c: "commit_persisted sample_aggregate ?a ?r =
      (Returns (Inr ()), ?r\<lparr>root_version := Some (version_of 2), root_state := Some 5\<rparr>)"
    "commit_persisted sample_aggregate ?b ?r =
      (Returns (Inr ()), ?r\<lparr>root_version := Some (version_of 3), root_state := Some 9\<rparr>)"
    "commit_persisted sample_aggregate ?c ?r = (Panics, ?r\<lparr>root_version := Some (version_of 2), root_state := None\<rparr>)"
    using commit_persisted_live [OF r(1), of _ sample_aggregate] r it ap
    by (simp_all add: vmax_def flip: numeral_2_eq_2 numeral_3_eq_3)
  note P = commit_persisted_is_replay [OF r(1), of _ sample_aggregate]
  have "replay_all sample_aggregate (number_from 0 [2, 3]) ?r =
      (Returns (Inr ()), ?r\<lparr>root_version := Some (version_of 2), root_state := Some 5, root_replayed := 2\<rparr>)"
    using P [of ?a] c(1) r it by (simp add: vmax_def usize_max_def flip: numeral_2_eq_2)
  moreover have "fst (replay_all sample_aggregate (number_from 0 [2, 3, 4]) ?r) = Returns (Inl (RehydrationLimitExceeded 2))"
    using P [of ?b] c(2) r it by (simp add: vmax_def usize_max_def flip: numeral_2_eq_2 numeral_3_eq_3)
  moreover have "fst (replay_all sample_aggregate (number_from 0 [2, 0]) ?r) = Panics"
    using P [of ?c] c(3) r it by (auto simp: vmax_def usize_max_def simp flip: numeral_2_eq_2)
  ultimately show ?thesis using c by (simp add: root_new_def)
qed

text \<open>A root whose \<open>apply\<close> panicked is poisoned for good: every accessor and every mutating
  operation reports \<open>PoisonedAggregate\<close> and leaves the root as it is.\<close>

theorem poisoned_root_is_inert:
  assumes "replay ag v e r = (Panics, r')"
  shows "root_state r' = None \<and> root_get_state r' = Inl PoisonedAggregate \<and>
    root_handle handle cmd r' = Inl (DecisionKernel PoisonedAggregate) \<and>
    root_react react ev r' = Inl (DecisionKernel PoisonedAggregate) \<and>
    replay ag' v' e' r' = (Returns (Inl PoisonedAggregate), r') \<and>
    commit_persisted ag' es r' = (Returns (Inl PoisonedAggregate), r') \<and>
    apply_events ag' es r' = (Returns (Inl PoisonedAggregate), r')"
proof -
  have "root_state r' = None"
    using assms
    by (auto simp: replay_def fold_events_def Let_def split: sum.splits option.splits call.splits)
  then show ?thesis
    by (simp add: root_get_state_def root_handle_def root_react_def replay_def replay_guard_def
        commit_persisted_def commit_version_def apply_events_def fold_events_def ok_or_def)
qed

theorem poisoned_root_is_inert_witness:
  "\<exists>r'. replay sample_aggregate version_INITIAL 0 (root_new sample_aggregate ''a'') = (Panics, r') \<and>
    root_get_state r' = Inl PoisonedAggregate \<and>
    replay sample_aggregate version_INITIAL 1 r' = (Returns (Inl PoisonedAggregate), r')"
proof -
  let ?r = "root_new sample_aggregate ''a''"
  have p: "replay sample_aggregate version_INITIAL 0 ?r = (Panics, ?r\<lparr>root_state := None\<rparr>)"
    by (subst replay_live [of _ 0])
      (simp_all add: root_new_def sample_aggregate_def root_vnum_def usize_max_def)
  have "root_get_state (?r\<lparr>root_state := None\<rparr>) = Inl PoisonedAggregate"
    "replay sample_aggregate version_INITIAL 1 (?r\<lparr>root_state := None\<rparr>) =
      (Returns (Inl PoisonedAggregate), ?r\<lparr>root_state := None\<rparr>)"
    using poisoned_root_is_inert [OF p, of "\<lambda>_ _. Inl () :: (nat events option, unit) result" "()"
      "\<lambda>_ _. Inl () :: (nat events option, unit) result" "()" sample_aggregate version_INITIAL 1 "events_new 1"]
    by simp_all
  with p show ?thesis by blast
qed

text \<open>Replaying one event succeeds exactly when the root is live, the event carries the version
  after the root's, the rehydration limit is not reached, and \<open>apply\<close> returns. Any error leaves the
  root untouched.\<close>

theorem replay_succeeds_iff:
  "(fst (replay ag v e r) = Returns (Inr ()) \<longleftrightarrow>
      (\<exists>s s'. root_state r = Some s \<and> ag_apply ag s e = Returns s' \<and> vnum v = Suc (root_vnum r) \<and>
        root_replayed r < ag_limit ag \<and> root_replayed r < usize_max)) \<and>
    (\<forall>err. fst (replay ag v e r) = Returns (Inl err) \<longrightarrow> snd (replay ag v e r) = r)"
proof (cases "replay_guard ag v r")
  case (Inl err)
  moreover from this have "\<not> (\<exists>n. replay_guard ag v r = Inr n)" by simp
  then have "\<not> (root_state r \<noteq> None \<and> vnum v = Suc (root_vnum r) \<and> root_replayed r < ag_limit ag \<and>
      root_replayed r < usize_max)"
    by (simp add: replay_guard_Inr)
  ultimately show ?thesis by (auto simp: replay_def)
next
  case (Inr n)
  from this [unfolded replay_guard_Inr] obtain s where "root_state r = Some s"
    "vnum v = Suc (root_vnum r)" "root_replayed r < ag_limit ag" "root_replayed r < usize_max" by blast
  with Inr show ?thesis
    by (cases "ag_apply ag s e") (simp_all add: replay_def fold_events_live)
qed

theorem replay_succeeds_iff_witness:
  "fst (replay sample_aggregate version_INITIAL 4 (root_new sample_aggregate ''a'')) = Returns (Inr ())"
  using replay_succeeds_iff [of sample_aggregate version_INITIAL 4 "root_new sample_aggregate ''a''"]
  by (simp add: root_new_def sample_aggregate_def root_vnum_def usize_max_def)

end
