(* ===== verification/Kernel_Fixture.thy ===== *)
theory Kernel_Fixture
  imports Kernel_Aggregate
begin

text \<open>
  The given/when/then fixtures of \<open>crates/mnesis/src/testing.rs\<close>. A failed assertion
  panics, so every fixture step is a \<open>call\<close>; an assertion closure over the state is a
  predicate that says whether it returns.
\<close>

definition fixture_state :: "('id, 's) aggregate_root \<Rightarrow> 's call" where
  "fixture_state r = (case root_get_state r of Inl _ \<Rightarrow> Panics | Inr s \<Rightarrow> Returns s)"

text \<open>The loop of \<open>given\<close>: the running version stays put when it has no successor.\<close>

primrec given_loop ::
  "('s, 'e) aggregate \<Rightarrow> 'e list \<Rightarrow> version \<Rightarrow> ('id, 's) aggregate_root
    \<Rightarrow> ('id, 's) aggregate_root call" where
  "given_loop ag [] version root = Returns root"
| "given_loop ag (event # history) version root =
    (case replay ag version event root of
       (Returns (Inr _), root') \<Rightarrow>
         given_loop ag history (case version_next version of Some next \<Rightarrow> next | None \<Rightarrow> version) root'
     | _ \<Rightarrow> Panics)"

definition fixture_given :: "('s, 'e) aggregate \<Rightarrow> 'id \<Rightarrow> 'e list \<Rightarrow> ('id, 's) aggregate_root call" where
  "fixture_given ag i history = given_loop ag history version_INITIAL (root_new ag i)"

record ('id, 's, 'e, 'd) acted =
  acted_root :: "('id, 's) aggregate_root"
  acted_result :: "('e events option, 'd) result"

text \<open>The fold of the decided events, asserted to succeed.\<close>

definition fixture_apply ::
  "('s, 'e) aggregate \<Rightarrow> 'e events \<Rightarrow> ('id, 's) aggregate_root \<Rightarrow> ('id, 's) aggregate_root call" where
  "fixture_apply ag es root =
    (case apply_events ag es root of (Returns (Inr _), root') \<Rightarrow> Returns root' | _ \<Rightarrow> Panics)"

definition fixture_when ::
  "('s, 'e) aggregate \<Rightarrow> ('s \<Rightarrow> 'c \<Rightarrow> ('e events option, 'd) result) \<Rightarrow> 'c
    \<Rightarrow> ('id, 's) aggregate_root \<Rightarrow> ('id, 's, 'e, 'd) acted call" where
  "fixture_when ag handle cmd root =
    call_bind (fixture_state root) (\<lambda>s.
      let result = handle s cmd in
      call_bind (case result of Inr (Some es) \<Rightarrow> fixture_apply ag es root | _ \<Rightarrow> Returns root)
        (\<lambda>root'. Returns \<lparr>acted_root = root', acted_result = result\<rparr>))"

definition then_expect_events ::
  "'e list \<Rightarrow> ('id, 's, 'e, 'd) acted \<Rightarrow> ('id, 's, 'e, 'd) acted call" where
  "then_expect_events expected a =
    (case acted_result a of
       Inl _ \<Rightarrow> Panics
     | Inr None \<Rightarrow> Panics
     | Inr (Some produced) \<Rightarrow> if events_iter produced = expected then Returns a else Panics)"

definition then_expect_ignored ::
  "('id, 's, 'e, 'd) acted \<Rightarrow> ('id, 's, 'e, 'd) acted call" where
  "then_expect_ignored a = (case acted_result a of Inr None \<Rightarrow> Returns a | _ \<Rightarrow> Panics)"

definition then_expect_error ::
  "'d \<Rightarrow> ('id, 's, 'e, 'd) acted \<Rightarrow> ('id, 's, 'e, 'd) acted call" where
  "then_expect_error expected a =
    (case acted_result a of Inl actual \<Rightarrow> if actual = expected then Returns a else Panics | Inr _ \<Rightarrow> Panics)"

definition then_expect_error_matching ::
  "('d \<Rightarrow> bool) \<Rightarrow> ('id, 's, 'e, 'd) acted \<Rightarrow> ('id, 's, 'e, 'd) acted call" where
  "then_expect_error_matching predicate a =
    (case acted_result a of Inl actual \<Rightarrow> if predicate actual then Returns a else Panics | Inr _ \<Rightarrow> Panics)"

definition then_expect_state ::
  "('s \<Rightarrow> bool) \<Rightarrow> ('id, 's, 'e, 'd) acted \<Rightarrow> ('id, 's, 'e, 'd) acted call" where
  "then_expect_state assertion a =
    call_bind (fixture_state (acted_root a)) (\<lambda>s. if assertion s then Returns a else Panics)"

section \<open>The saga fixture\<close>

record ('id, 's, 'e, 'd, 'k) saga_reacted = "('id, 's, 'e, 'd) acted" +
  reacted_commands :: "'k list"

definition saga_when ::
  "('s, 'e) aggregate \<Rightarrow> ('s \<Rightarrow> 'u \<Rightarrow> ('e events option, 'd) result) \<Rightarrow> ('e \<Rightarrow> 'k option) \<Rightarrow> 'u
    \<Rightarrow> ('id, 's) aggregate_root \<Rightarrow> ('id, 's, 'e, 'd, 'k) saga_reacted call" where
  "saga_when ag react intent_for event root =
    call_bind (fixture_state root) (\<lambda>s.
      let result = react s event in
      (case result of
         Inr (Some es) \<Rightarrow>
           let cmds = List.map_filter intent_for (events_iter es) in
           call_bind (fixture_apply ag es root)
             (\<lambda>root'. Returns \<lparr>acted_root = root', acted_result = result, reacted_commands = cmds\<rparr>)
       | _ \<Rightarrow> Returns \<lparr>acted_root = root, acted_result = result, reacted_commands = []\<rparr>))"

definition then_expect_commands ::
  "'k list \<Rightarrow> ('id, 's, 'e, 'd, 'k) saga_reacted \<Rightarrow> ('id, 's, 'e, 'd, 'k) saga_reacted call" where
  "then_expect_commands expected a = (if reacted_commands a = expected then Returns a else Panics)"

section \<open>What a passing fixture means\<close>

lemma given_loop_replay_all:
  "given_loop ag es (version_of (Suc n)) root =
    (case replay_all ag (number_from n es) root of (Returns (Inr _), root') \<Rightarrow> Returns root' | _ \<Rightarrow> Panics)"
  if "n + length es \<le> vmax"
  using that
proof (induction es arbitrary: n root)
  case (Cons e es)
  have "n + length es < vmax" using Cons.prems by simp
  have next_v: "es \<noteq> [] \<Longrightarrow> version_next (version_of (Suc n)) = Some (version_of (Suc (Suc n)))"
    using Cons.prems by (cases es) (simp_all add: version_next_Some)
  obtain c root' where R: "replay ag (version_of (Suc n)) e root = (c, root')" by fastforce
  show ?case
  proof (cases "es = []")
    case True
    with R show ?thesis by (simp split: call.splits sum.splits)
  next
    case False
    with Cons R next_v show ?thesis by (simp split: call.splits sum.splits)
  qed
qed simp

lemma fixture_given_spec:
  assumes "length es \<le> ag_limit ag" "ag_limit ag \<le> vmax"
  shows "fixture_given ag i es = Returns r \<longleftrightarrow>
    (\<exists>s. apply_all ag es (ag_initial ag) = Returns s \<and>
      r = \<lparr>root_id = i, root_state = Some s,
           root_version = (if es = [] then None else Some (version_of (length es))),
           root_replayed = length es\<rparr>)"
proof -
  have "version_INITIAL = version_of (Suc 0)"
    by (simp add: version_INITIAL_def version_of_def)
  then have "fixture_given ag i es =
    (case replay_all ag (number_from 0 es) (root_new ag i) of
       (Returns (Inr _), root') \<Rightarrow> Returns root' | _ \<Rightarrow> Panics)"
    using given_loop_replay_all [of 0 es ag "root_new ag i"] assms by (simp add: fixture_given_def)
  moreover obtain c r' where R: "replay_all ag (number_from 0 es) (root_new ag i) = (c, r')"
    by fastforce
  moreover have "root_vnum (root_new ag i) = 0" by (simp add: root_vnum_def root_new_def)
  ultimately show ?thesis
    using replay_all_number_from [of "root_new ag i" "ag_initial ag" es ag] assms
    by (cases "apply_all ag es (ag_initial ag)") (auto simp: root_new_def vmax_def usize_max_def)
qed

lemma fixture_when_spec:
  assumes "root_state root = Some s"
  shows "fixture_when ag handle cmd root = Returns a \<longleftrightarrow>
    acted_result a = handle s cmd \<and>
    (case handle s cmd of
       Inr (Some es) \<Rightarrow> (\<exists>s'. apply_all ag (events_iter es) s = Returns s' \<and>
         acted_root a = root\<lparr>root_state := Some s'\<rparr>)
     | _ \<Rightarrow> acted_root a = root)"
  using assms
  by (cases a)
    (auto simp: fixture_when_def fixture_state_def root_get_state_def Let_def fixture_apply_def
      apply_events_def fold_events_live result_simps split: sum.splits option.splits call.splits)

section \<open>Properties\<close>

text \<open>A \<open>given\<close> history within the rehydration limit is accepted by the fixture exactly when
  folding it never panics, and the root handed to \<open>when\<close> stands on the last event's version with the
  folded state.\<close>

theorem fixture_given_folds_history:
  assumes "length es \<le> ag_limit ag" "ag_limit ag \<le> vmax"
  shows "fixture_given ag i es =
    (case apply_all ag es (ag_initial ag) of
       Panics \<Rightarrow> Panics
     | Returns s \<Rightarrow> Returns \<lparr>root_id = i, root_state = Some s,
         root_version = (if es = [] then None else Some (version_of (length es))), root_replayed = length es\<rparr>)"
proof (cases "apply_all ag es (ag_initial ag)")
  case Panics
  then have "fixture_given ag i es \<noteq> Returns r" for r using fixture_given_spec [OF assms, of i r] by simp
  then have "fixture_given ag i es = Panics" by (metis call.exhaust)
  with Panics show ?thesis by simp
next
  case (Returns s)
  then show ?thesis using fixture_given_spec [OF assms, of i] by simp
qed

theorem fixture_given_folds_history_witness:
  "fixture_given sample_aggregate ''a'' [1, 2] =
    Returns \<lparr>root_id = ''a'', root_state = Some 3, root_version = Some (version_of 2), root_replayed = 2\<rparr>"
  using fixture_given_folds_history [of "[1, 2]" sample_aggregate "''a''"]
  by (simp add: sample_aggregate_def vmax_def flip: numeral_2_eq_2)

text \<open>A passing aggregate fixture means what it reads: \<open>given\<close> the history, \<open>when\<close> the command is
  handled, \<open>then\<close> exactly the expected events were decided and folding them onto the given state
  succeeds.\<close>

theorem fixture_pass_means_decision:
  assumes "length es \<le> ag_limit ag" "ag_limit ag \<le> vmax"
  shows "(\<exists>a. call_bind (fixture_given ag i es) (\<lambda>root. call_bind (fixture_when ag handle cmd root)
        (then_expect_events expected)) = Returns a) \<longleftrightarrow>
    (\<exists>s produced s'. apply_all ag es (ag_initial ag) = Returns s \<and> handle s cmd = Inr (Some produced) \<and>
      events_iter produced = expected \<and> apply_all ag expected s = Returns s')"
proof (cases "fixture_given ag i es")
  case Panics
  then have "\<not> (\<exists>s. apply_all ag es (ag_initial ag) = Returns s)"
    using fixture_given_spec [OF assms, of i] by auto
  with Panics show ?thesis by auto
next
  case (Returns root)
  then obtain s where s: "apply_all ag es (ag_initial ag) = Returns s" "root_state root = Some s"
    using fixture_given_spec [OF assms, of i] by auto
  have "(\<exists>a. call_bind (fixture_when ag handle cmd root) (then_expect_events expected) = Returns a) \<longleftrightarrow>
      (\<exists>a produced. fixture_when ag handle cmd root = Returns a \<and> acted_result a = Inr (Some produced) \<and>
        events_iter produced = expected)"
    by (cases "fixture_when ag handle cmd root")
      (auto simp: then_expect_events_def split: sum.splits option.splits if_splits)
  also have "\<dots> \<longleftrightarrow> (\<exists>produced s'. handle s cmd = Inr (Some produced) \<and> events_iter produced = expected \<and>
        apply_all ag expected s = Returns s')" (is "?L \<longleftrightarrow> ?R")
  proof
    assume ?L
    then obtain a produced where a: "fixture_when ag handle cmd root = Returns a"
      "acted_result a = Inr (Some produced)" "events_iter produced = expected" by blast
    with fixture_when_spec [OF s(2), of ag handle cmd a]
    have h: "handle s cmd = Inr (Some produced)" by simp
    with a fixture_when_spec [OF s(2), of ag handle cmd a] show ?R by auto
  next
    assume ?R
    then obtain produced s' where R: "handle s cmd = Inr (Some produced)" "events_iter produced = expected"
      "apply_all ag expected s = Returns s'" by blast
    then have "fixture_when ag handle cmd root =
        Returns \<lparr>acted_root = root\<lparr>root_state := Some s'\<rparr>, acted_result = Inr (Some produced)\<rparr>"
      using fixture_when_spec [OF s(2), of ag handle cmd] by simp
    with R show ?L by simp
  qed
  finally show ?thesis using Returns s(1) by simp
qed

theorem fixture_pass_means_decision_witness:
  "\<exists>a. call_bind (fixture_given sample_aggregate ''a'' [1, 2]) (\<lambda>root.
      call_bind (fixture_when sample_aggregate (\<lambda>s c. Inr (Some (events_new (s + c))) :: (nat events option, nat) result) 4 root)
        (then_expect_events [7])) = Returns a"
  using fixture_pass_means_decision [of "[1, 2]" sample_aggregate "''a''"
    "\<lambda>s c. Inr (Some (events_new (s + c))) :: (nat events option, nat) result" 4 "[7]"]
  by (simp add: sample_aggregate_def vmax_def)

end
