(* ===== verification/Text_Encoding.thy ===== *)
theory Text_Encoding
  imports Prelude
begin

text \<open>
  The UTF-8 facts of the Rust standard library the code relies on:
  \<open>core::str::from_utf8\<close> with its \<open>Utf8Error::valid_up_to\<close>, and
  \<open>str::is_char_boundary\<close>. A \<open>str\<close> is a byte list that \<open>utf8_valid\<close> accepts.
\<close>

definition utf8_cont :: "u8 \<Rightarrow> bool" where
  "utf8_cont b = (0x80 \<le> b \<and> b \<le> 0xBF)"

text \<open>The length of the well-formed UTF-8 sequence the bytes start with, by the table of
well-formed byte sequences.\<close>

fun utf8_char_len :: "bytes \<Rightarrow> nat option" where
  "utf8_char_len [] = None"
| "utf8_char_len (b0 # r) =
    (if b0 < 0x80 then Some 1
     else if 0xC2 \<le> b0 \<and> b0 \<le> 0xDF then
       (case r of b1 # _ \<Rightarrow> if utf8_cont b1 then Some 2 else None | _ \<Rightarrow> None)
     else if 0xE0 \<le> b0 \<and> b0 \<le> 0xEF then
       (case r of b1 # b2 # _ \<Rightarrow>
          if utf8_cont b1 \<and> utf8_cont b2 \<and> (b0 = 0xE0 \<longrightarrow> 0xA0 \<le> b1) \<and> (b0 = 0xED \<longrightarrow> b1 \<le> 0x9F)
          then Some 3 else None
        | _ \<Rightarrow> None)
     else if 0xF0 \<le> b0 \<and> b0 \<le> 0xF4 then
       (case r of b1 # b2 # b3 # _ \<Rightarrow>
          if utf8_cont b1 \<and> utf8_cont b2 \<and> utf8_cont b3 \<and>
             (b0 = 0xF0 \<longrightarrow> 0x90 \<le> b1) \<and> (b0 = 0xF4 \<longrightarrow> b1 \<le> 0x8F)
          then Some 4 else None
        | _ \<Rightarrow> None)
     else None)"

lemma utf8_char_len_bounds:
  "utf8_char_len bs = Some n \<Longrightarrow> 0 < n \<and> n \<le> length bs"
  by (cases bs) (auto split: if_splits list.splits)

function utf8_valid_up_to :: "bytes \<Rightarrow> nat" where
  "utf8_valid_up_to bs =
    (case utf8_char_len bs of None \<Rightarrow> 0 | Some n \<Rightarrow> n + utf8_valid_up_to (drop n bs))"
  by pat_completeness auto

termination utf8_valid_up_to
  by (relation "measure length") (auto dest: utf8_char_len_bounds)

declare utf8_valid_up_to.simps [simp del]

definition utf8_valid :: "bytes \<Rightarrow> bool" where
  "utf8_valid bs \<longleftrightarrow> utf8_valid_up_to bs = length bs"

definition is_char_boundary :: "bytes \<Rightarrow> nat \<Rightarrow> bool" where
  "is_char_boundary s i \<longleftrightarrow>
    (i = 0 \<or> i = length s \<or> (i < length s \<and> \<not> utf8_cont (s ! i)))"

lemma utf8_valid_up_to_le: "utf8_valid_up_to bs \<le> length bs"
proof (induction bs rule: utf8_valid_up_to.induct)
  case (1 bs)
  then show ?case
    by (subst utf8_valid_up_to.simps)
      (fastforce split: option.splits dest: utf8_char_len_bounds)
qed

lemma utf8_valid_Nil [simp]: "utf8_valid []"
  by (simp add: utf8_valid_def utf8_valid_up_to.simps [of "[]"])

lemma utf8_valid_step:
  assumes "utf8_char_len bs = Some n"
  shows "utf8_valid bs \<longleftrightarrow> utf8_valid (drop n bs)"
  using utf8_char_len_bounds [OF assms] assms
  by (auto simp: utf8_valid_def utf8_valid_up_to.simps [of bs])

lemma utf8_valid_char_len:
  assumes "utf8_valid bs" "bs \<noteq> []"
  obtains n where "utf8_char_len bs = Some n"
  using assms by (cases "utf8_char_len bs") (auto simp: utf8_valid_def utf8_valid_up_to.simps [of bs])

lemma utf8_valid_induct [consumes 1, case_names Nil Char]:
  assumes "utf8_valid bs"
    and "P []"
    and "\<And>bs n. bs \<noteq> [] \<Longrightarrow> utf8_char_len bs = Some n \<Longrightarrow> utf8_valid (drop n bs) \<Longrightarrow>
      P (drop n bs) \<Longrightarrow> P bs"
  shows "P bs"
  using assms(1)
proof (induction "length bs" arbitrary: bs rule: less_induct)
  case less
  show ?case
  proof (cases "bs = []")
    case False
    then obtain n where n: "utf8_char_len bs = Some n"
      using utf8_valid_char_len [OF less.prems] by blast
    have v: "utf8_valid (drop n bs)" using less.prems utf8_valid_step [OF n] by simp
    have "length (drop n bs) < length bs" using utf8_char_len_bounds [OF n] by auto
    then have "P (drop n bs)" using less.hyps v by blast
    with False n v show ?thesis by (rule assms(3))
  qed (simp add: assms(2))
qed

lemma utf8_char_len_append:
  "utf8_char_len bs = Some n \<Longrightarrow> utf8_char_len (bs @ cs) = Some n"
  by (cases bs) (auto split: if_splits list.splits)

lemma utf8_char_len_take:
  "utf8_char_len bs = Some n \<Longrightarrow> n \<le> k \<Longrightarrow> utf8_char_len (take k bs) = Some n"
  by (cases bs; cases k)
    (auto split: if_splits list.splits simp: take_Cons split: nat.splits)

lemma utf8_char_len_cont:
  "utf8_char_len bs = Some n \<Longrightarrow> 0 < i \<Longrightarrow> i < n \<Longrightarrow> utf8_cont (bs ! i)"
  by (cases bs) (auto split: if_splits list.splits simp: less_Suc_eq numeral_eq_Suc)

lemma utf8_valid_append: "utf8_valid a \<Longrightarrow> utf8_valid b \<Longrightarrow> utf8_valid (a @ b)"
proof (induction a rule: utf8_valid_induct)
  case (Char bs n)
  then show ?case
    using utf8_char_len_bounds [OF Char(2)]
      utf8_valid_step [OF utf8_char_len_append [OF Char(2), of b]] by simp
qed simp

lemma utf8_valid_take:
  "utf8_valid s \<Longrightarrow> is_char_boundary s i \<Longrightarrow> utf8_valid (take i s)"
proof (induction s arbitrary: i rule: utf8_valid_induct)
  case (Char bs n)
  note b = utf8_char_len_bounds [OF Char(2)]
  show ?case
  proof (cases "n \<le> i")
    case True
    have "is_char_boundary (drop n bs) (i - n)"
      using Char.prems True b by (auto simp: is_char_boundary_def)
    then have "utf8_valid (take (i - n) (drop n bs))" by (rule Char.IH)
    moreover have "take (i - n) (drop n bs) = drop n (take i bs)"
      using True by (simp add: drop_take)
    ultimately show ?thesis
      using utf8_valid_step [OF utf8_char_len_take [OF Char(2) True]] by simp
  next
    case False
    then have "i = 0"
      using Char.prems utf8_char_len_cont [OF Char(2), of i] b
      by (auto simp: is_char_boundary_def)
    then show ?thesis by simp
  qed
qed (simp add: is_char_boundary_def)

end
