(* ===== verification/Error_Label.thy ===== *)
theory Error_Label
  imports Text_Encoding "HOL-Library.Sublist"
begin

text \<open>
  Bounded diagnostic labels, \<open>crates/mnesis/src/error_id.rs\<close>. \<open>ErrorId::from_display\<close>
  drives a \<open>Filler\<close> with the chunks a \<open>Display\<close> implementation writes; the model takes
  that chunk list as its argument. The capacity \<open>N\<close> is the const parameter.
\<close>

definition ELLIPSIS :: bytes where
  "ELLIPSIS = [0xE2, 0x80, 0xA6]"

primrec walk_to_boundary :: "bytes \<Rightarrow> nat \<Rightarrow> nat" where
  "walk_to_boundary s 0 = 0"
| "walk_to_boundary s (Suc pos) =
    (if \<not> is_char_boundary s (Suc pos) then walk_to_boundary s pos else Suc pos)"

definition truncate_at_char_boundary :: "bytes \<Rightarrow> nat \<Rightarrow> nat" where
  "truncate_at_char_boundary s limit =
    (if limit \<ge> length s then length s else walk_to_boundary s limit)"

text \<open>\<open>ArrayString::try_push_str\<close> with its result ignored, and \<open>ArrayString::truncate\<close>.\<close>

definition push_str :: "nat \<Rightarrow> bytes \<Rightarrow> bytes \<Rightarrow> bytes" where
  "push_str N buf s = (if length s \<le> N - length buf then buf @ s else buf)"

record filler =
  fl_buf :: bytes
  fl_truncated :: bool

definition filler_new :: filler where
  "filler_new = \<lparr>fl_buf = [], fl_truncated = False\<rparr>"

definition filler_write_str :: "nat \<Rightarrow> bytes \<Rightarrow> filler \<Rightarrow> filler" where
  "filler_write_str N s f =
    (if fl_truncated f then f
     else let remaining = N - length (fl_buf f) in
       if length s \<le> remaining then f\<lparr>fl_buf := push_str N (fl_buf f) s\<rparr>
       else let end_pos = truncate_at_char_boundary s remaining
            in f\<lparr>fl_buf := push_str N (fl_buf f) (take end_pos s), fl_truncated := True\<rparr>)"

definition append_ellipsis :: "nat \<Rightarrow> bytes \<Rightarrow> bytes" where
  "append_ellipsis N buf =
    (if N < length ELLIPSIS then buf
     else let target = N - length ELLIPSIS;
              cut = truncate_at_char_boundary buf target
          in push_str N (take cut buf) ELLIPSIS)"

definition filler_finish :: "nat \<Rightarrow> filler \<Rightarrow> bytes" where
  "filler_finish N f = (if fl_truncated f then append_ellipsis N (fl_buf f) else fl_buf f)"

definition error_id_from_display :: "nat \<Rightarrow> bytes list \<Rightarrow> bytes" where
  "error_id_from_display N chunks = filler_finish N (fold (filler_write_str N) chunks filler_new)"

definition DEFAULT_ERROR_ID_CAP :: nat where
  "DEFAULT_ERROR_ID_CAP = 64"

section \<open>Cutting on a boundary\<close>

lemma walk_to_boundary: "walk_to_boundary s n \<le> n \<and> is_char_boundary s (walk_to_boundary s n)"
  by (induction n) (auto simp: is_char_boundary_def)

lemma truncate_le: "truncate_at_char_boundary s limit \<le> min limit (length s)"
  using walk_to_boundary [of s limit] by (auto simp: truncate_at_char_boundary_def)

lemma truncate_boundary: "is_char_boundary s (truncate_at_char_boundary s limit)"
  using walk_to_boundary [of s limit]
  by (auto simp: truncate_at_char_boundary_def is_char_boundary_def)

lemma truncate_maximal:
  assumes "is_char_boundary s p" "p \<le> limit" "p \<le> length s"
  shows "p \<le> truncate_at_char_boundary s limit"
proof -
  have "p \<le> walk_to_boundary s n" if "p \<le> n" for n
    using that assms(1) by (induction n) (auto simp: le_Suc_eq)
  with assms show ?thesis by (simp add: truncate_at_char_boundary_def)
qed

lemma ELLIPSIS_valid: "utf8_valid ELLIPSIS"
  by (simp add: utf8_valid_def ELLIPSIS_def utf8_valid_up_to.simps utf8_cont_def)

section \<open>The filler's invariant\<close>

text \<open>After any prefix of the chunks: the buffer is a valid prefix of the text written so
far, within the capacity, and it is the whole text unless truncation was recorded.\<close>

definition filler_inv :: "nat \<Rightarrow> bytes \<Rightarrow> filler \<Rightarrow> bool" where
  "filler_inv N written f \<longleftrightarrow> length (fl_buf f) \<le> N \<and> utf8_valid (fl_buf f) \<and> prefix (fl_buf f) written \<and>
    (if fl_truncated f then N < length written else fl_buf f = written)"

lemma filler_inv_write:
  assumes "filler_inv N written f" "utf8_valid s"
  shows "filler_inv N (written @ s) (filler_write_str N s f)"
proof -
  let ?cut = "truncate_at_char_boundary s (N - length (fl_buf f))"
  have cut: "?cut \<le> N - length (fl_buf f)" "?cut \<le> length s" "utf8_valid (take ?cut s)"
    using truncate_le [of s "N - length (fl_buf f)"] utf8_valid_take [OF assms(2) truncate_boundary]
    by auto
  show ?thesis
    using assms cut
    by (auto simp: filler_inv_def filler_write_str_def push_str_def Let_def
        intro!: utf8_valid_append prefix_prefix take_is_prefix)
qed

lemma filler_inv_fold:
  assumes "\<forall>c \<in> set chunks. utf8_valid c" "filler_inv N written f"
  shows "filler_inv N (written @ concat chunks) (fold (filler_write_str N) chunks f)"
  using assms
proof (induction chunks arbitrary: written f)
  case (Cons c cs)
  have "filler_inv N ((written @ c) @ concat cs) (fold (filler_write_str N) cs (filler_write_str N c f))"
    using Cons.prems by (intro Cons.IH filler_inv_write) auto
  then show ?case by simp
qed simp

lemma filler_inv_display:
  assumes "\<forall>c \<in> set chunks. utf8_valid c"
  shows "filler_inv N (concat chunks) (fold (filler_write_str N) chunks filler_new)"
  using filler_inv_fold [OF assms, of N "[]" filler_new]
  by (simp add: filler_inv_def filler_new_def)

lemma append_ellipsis_spec:
  assumes "utf8_valid buf" "length ELLIPSIS \<le> N"
  obtains p where "append_ellipsis N buf = p @ ELLIPSIS" "prefix p buf" "utf8_valid p"
    "length p + length ELLIPSIS \<le> N"
proof
  let ?p = "take (truncate_at_char_boundary buf (N - length ELLIPSIS)) buf"
  have "length ?p \<le> N - length ELLIPSIS"
    using truncate_le [of buf "N - length ELLIPSIS"] by simp
  with assms(2) show "append_ellipsis N buf = ?p @ ELLIPSIS" "length ?p + length ELLIPSIS \<le> N"
    by (auto simp: append_ellipsis_def push_str_def Let_def)
  show "prefix ?p buf" "utf8_valid ?p"
    using utf8_valid_take [OF assms(1) truncate_boundary] by (auto intro: take_is_prefix)
qed

section \<open>Properties\<close>

text \<open>C39: An error label never exceeds its capacity and is always valid UTF-8. Text that fits is kept
  whole; text that does not is cut on a character boundary and, when the capacity allows one, ends in
  an ellipsis.\<close>

theorem error_id_bounded_utf8:
  assumes "\<forall>c \<in> set chunks. utf8_valid c"
  shows "let label = error_id_from_display N chunks; shown = concat chunks in
    length label \<le> N \<and> utf8_valid label \<and>
    (length shown \<le> N \<longrightarrow> label = shown) \<and>
    (N < length shown \<longrightarrow> (if length ELLIPSIS \<le> N then \<exists>p. label = p @ ELLIPSIS \<and> prefix p shown \<and> utf8_valid p
      else prefix label shown))"
proof -
  let ?f = "fold (filler_write_str N) chunks filler_new"
  have inv: "filler_inv N (concat chunks) ?f" by (rule filler_inv_display [OF assms])
  show ?thesis
  proof (cases "fl_truncated ?f")
    case False
    with inv have "error_id_from_display N chunks = concat chunks" "length (concat chunks) \<le> N" "utf8_valid (concat chunks)"
      by (auto simp: filler_inv_def error_id_from_display_def filler_finish_def)
    then show ?thesis by (simp add: Let_def)
  next
    case True
    with inv have t: "N < length (concat chunks)" "length (fl_buf ?f) \<le> N" "utf8_valid (fl_buf ?f)" "prefix (fl_buf ?f) (concat chunks)"
      by (auto simp: filler_inv_def)
    have label: "error_id_from_display N chunks = append_ellipsis N (fl_buf ?f)"
      using True by (simp add: error_id_from_display_def filler_finish_def)
    show ?thesis
    proof (cases "length ELLIPSIS \<le> N")
      case True
      obtain p where p: "append_ellipsis N (fl_buf ?f) = p @ ELLIPSIS" "prefix p (fl_buf ?f)" "utf8_valid p"
        "length p + length ELLIPSIS \<le> N"
        by (rule append_ellipsis_spec [OF t(3) True])
      have "prefix p (concat chunks)" using p(2) t(4) by (rule prefix_order.trans)
      moreover have "utf8_valid (p @ ELLIPSIS)" using p(3) ELLIPSIS_valid by (rule utf8_valid_append)
      ultimately show ?thesis using p t(1) True by (auto simp: Let_def label)
    next
      case False
      then show ?thesis using t by (simp add: Let_def label append_ellipsis_def)
    qed
  qed
qed

theorem error_id_bounded_utf8_witness:
  "list_all utf8_valid [[0x61, 0x62], [0x63, 0x64, 0x65]] \<and>
    length (error_id_from_display 4 [[0x61, 0x62], [0x63, 0x64, 0x65]]) \<le> 4 \<and>
    error_id_from_display 4 [[0x61, 0x62], [0x63, 0x64, 0x65]] = [0x61] @ ELLIPSIS"
proof -
  have v: "\<forall>c \<in> set [[0x61, 0x62], [0x63, 0x64, 0x65]]. utf8_valid c"
    by (simp add: utf8_valid_def utf8_valid_up_to.simps)
  have "error_id_from_display 4 [[0x61, 0x62], [0x63, 0x64, 0x65]] = [0x61] @ ELLIPSIS"
    by code_simp
  then show ?thesis using v error_id_bounded_utf8 [OF v, of 4] by (simp add: Let_def list_all_iff)
qed

end
