(* ===== verification/Store_Values.thy ===== *)
theory Store_Values
  imports Kernel_Version Error_Label
begin

text \<open>
  Validated field values, \<open>crates/store/src/value.rs\<close>, with the stream key of
  \<open>stream_id.rs\<close> and the batch size of \<open>batch.rs\<close>. Each newtype is a datatype over its
  bytes; its invariant is the predicate its constructors establish.
\<close>

definition MAX_EVENT_TYPE_LEN :: nat where "MAX_EVENT_TYPE_LEN = 2 ^ 16 - 1"
definition MAX_METADATA_LEN :: nat where "MAX_METADATA_LEN = 2 ^ 32 - 2"
definition MAX_PAYLOAD_LEN :: nat where "MAX_PAYLOAD_LEN = 2 ^ 32 - 1"

datatype value_error =
    EventTypeTooLong nat
  | EventTypeInvalidUtf8 nat
  | PayloadTooLong nat
  | MetadataTooLong nat
  | MetadataEmpty
  | SchemaVersionZero

section \<open>Event types, payloads, metadata\<close>

datatype event_type = EventType (et_bytes: bytes)
datatype payload = Payload (payload_bytes: bytes)
datatype metadata = Metadata (metadata_bytes: bytes)

definition event_type_from_static_str :: "bytes \<Rightarrow> event_type call" where
  "event_type_from_static_str s =
    (if length s \<le> MAX_EVENT_TYPE_LEN then Returns (EventType s) else Panics)"

definition event_type_from_bytes :: "bytes \<Rightarrow> (event_type, value_error) result" where
  "event_type_from_bytes bs =
    (if length bs > MAX_EVENT_TYPE_LEN then Inl (EventTypeTooLong (length bs))
     else if utf8_valid bs then Inr (EventType bs)
     else Inl (EventTypeInvalidUtf8 (utf8_valid_up_to bs)))"

definition payload_from_bytes :: "bytes \<Rightarrow> (payload, value_error) result" where
  "payload_from_bytes bs =
    (if length bs > MAX_PAYLOAD_LEN then Inl (PayloadTooLong (length bs)) else Inr (Payload bs))"

definition metadata_from_bytes :: "bytes \<Rightarrow> (metadata, value_error) result" where
  "metadata_from_bytes bs =
    (if bs = [] then Inl MetadataEmpty
     else if length bs > MAX_METADATA_LEN then Inl (MetadataTooLong (length bs))
     else Inr (Metadata bs))"

definition event_type_ok :: "event_type \<Rightarrow> bool" where
  "event_type_ok t \<longleftrightarrow> length (et_bytes t) \<le> MAX_EVENT_TYPE_LEN \<and> utf8_valid (et_bytes t)"

definition payload_ok :: "payload \<Rightarrow> bool" where
  "payload_ok p \<longleftrightarrow> length (payload_bytes p) \<le> MAX_PAYLOAD_LEN"

definition metadata_ok :: "metadata \<Rightarrow> bool" where
  "metadata_ok m \<longleftrightarrow> metadata_bytes m \<noteq> [] \<and> length (metadata_bytes m) \<le> MAX_METADATA_LEN"

lemma event_type_from_bytes_Inr:
  "event_type_from_bytes bs = Inr t \<longleftrightarrow> t = EventType bs \<and> event_type_ok t"
  by (cases t) (auto simp: event_type_from_bytes_def event_type_ok_def)

lemma event_type_from_bytes_ok: "event_type_ok t \<Longrightarrow> event_type_from_bytes (et_bytes t) = Inr t"
  by (cases t) (simp add: event_type_from_bytes_Inr)

lemma payload_from_bytes_Inr:
  "payload_from_bytes bs = Inr p \<longleftrightarrow> p = Payload bs \<and> payload_ok p"
  by (cases p) (auto simp: payload_from_bytes_def payload_ok_def)

lemma payload_from_bytes_ok: "payload_ok p \<Longrightarrow> payload_from_bytes (payload_bytes p) = Inr p"
  by (cases p) (simp add: payload_from_bytes_Inr)

lemma metadata_from_bytes_Inr:
  "metadata_from_bytes bs = Inr m \<longleftrightarrow> m = Metadata bs \<and> metadata_ok m"
  by (cases m) (auto simp: metadata_from_bytes_def metadata_ok_def)

lemma metadata_from_bytes_ok: "metadata_ok m \<Longrightarrow> metadata_from_bytes (metadata_bytes m) = Inr m"
  by (cases m) (simp add: metadata_from_bytes_Inr)

section \<open>Schema versions\<close>

type_synonym schema_version = "32 nonzero"

definition schema_INITIAL :: schema_version where
  "schema_INITIAL = nz 1"

definition schema_from_u32 :: "u32 \<Rightarrow> (schema_version, value_error) result" where
  "schema_from_u32 v = ok_or SchemaVersionZero (nonzero_new v)"

text \<open>\<open>impl From<SchemaVersion> for Version\<close>, by widening; the \<open>expect\<close> panics on zero.\<close>

definition schema_to_version :: "schema_version \<Rightarrow> version call" where
  "schema_to_version sv =
    (case version_new (ucast (get sv)) of Some v \<Rightarrow> Returns v | None \<Rightarrow> Panics)"

lemma schema_from_u32_Inr: "schema_from_u32 w = Inr v \<longleftrightarrow> get v = w"
  by (simp add: schema_from_u32_def result_simps)

lemma schema_from_u32_get [simp]: "schema_from_u32 (get v) = Inr v"
  by (simp add: schema_from_u32_Inr)

lemma unat_ucast_u32_u64: "unat (ucast (w :: u32) :: u64) = unat w"
  using unat_bound [of w] by (simp add: unsigned_ucast_eq take_bit_nat_eq_self)

lemma schema_to_version_total:
  "\<exists>v. schema_to_version sv = Returns v \<and> vnum v = unat (get sv)"
proof -
  have "(ucast (get sv) :: u64) \<noteq> 0"
    using unat_get_pos [of sv] by (simp add: word_unat_eq_iff unat_ucast_u32_u64)
  then obtain v where v: "version_new (ucast (get sv)) = Some v"
    by (metis not_None_eq version_new_None)
  then have "schema_to_version sv = Returns v"
    by (simp add: schema_to_version_def del: version_new_Some)
  with v show ?thesis
    by (simp add: vnum_def unat_ucast_u32_u64)
qed

section \<open>Stream keys\<close>

datatype stream_key = StreamKey (key_bytes: bytes)

definition stream_key_from_slice :: "bytes \<Rightarrow> stream_key" where
  "stream_key_from_slice bs = StreamKey bs"

text \<open>One lowercase hexadecimal digit, and the two of \<open>{byte:02x}\<close>.\<close>

definition hex_digit :: "nat \<Rightarrow> u8" where
  "hex_digit n = (if n < 10 then of_nat (0x30 + n) else of_nat (0x57 + n))"

definition hex_byte :: "u8 \<Rightarrow> bytes" where
  "hex_byte b = [hex_digit (unat b div 16), hex_digit (unat b mod 16)]"

text \<open>The chunks \<open>Display::fmt\<close> writes for a key, and the text they make.\<close>

definition stream_key_display :: "stream_key \<Rightarrow> bytes list" where
  "stream_key_display k =
    (if utf8_valid (key_bytes k) then [key_bytes k]
     else [0x30, 0x78] # map hex_byte (key_bytes k))"

definition to_label :: "stream_key \<Rightarrow> bytes" where
  "to_label k = error_id_from_display DEFAULT_ERROR_ID_CAP (stream_key_display k)"

section \<open>Batch sizes\<close>

definition MAX_BATCH :: nat where "MAX_BATCH = 4096"
definition DEFAULT_BATCH :: nat where "DEFAULT_BATCH = 256"

record batch_size_error =
  bse_requested :: nat
  bse_max :: nat

definition batch_size_new :: "nat \<Rightarrow> (nat, batch_size_error) result" where
  "batch_size_new n =
    (if n = 0 \<or> n > MAX_BATCH then Inl \<lparr>bse_requested = n, bse_max = MAX_BATCH\<rparr> else Inr n)"

lemma batch_size_new_Inr: "batch_size_new n = Inr m \<longleftrightarrow> m = n \<and> 0 < n \<and> n \<le> MAX_BATCH"
  by (auto simp: batch_size_new_def)

section \<open>Properties\<close>

text \<open>Rendering a stream key is not injective: the raw byte key \<open>0xff\<close>, which is not UTF-8, and the
  UTF-8 key spelling its hexadecimal form render to the same text.\<close>

theorem stream_key_display_collides:
  "\<exists>a b. a \<noteq> b \<and> concat (stream_key_display a) = concat (stream_key_display b)"
proof -
  let ?a = "StreamKey [0xFF]" and ?b = "StreamKey [0x30, 0x78, 0x66, 0x66]"
  have "concat (stream_key_display ?a) = concat (stream_key_display ?b)" by code_simp
  then show ?thesis by (intro exI [of _ ?a] exI [of _ ?b]) simp
qed

text \<open>Every constructor of a field value admits exactly the values within its documented bound:
  event types are UTF-8 up to 65535 bytes, payloads up to \<open>2 ^ 32 - 1\<close> bytes, metadata is non-empty up
  to \<open>2 ^ 32 - 2\<close> bytes, schema versions are non-zero, and batch sizes run from 1 to 4096.\<close>

theorem value_constructors_exact:
  "(event_type_from_bytes bs = Inr t \<longleftrightarrow> t = EventType bs \<and> utf8_valid bs \<and> length bs \<le> 65535) \<and>
    (payload_from_bytes bs = Inr p \<longleftrightarrow> p = Payload bs \<and> length bs < 2 ^ 32) \<and>
    (metadata_from_bytes bs = Inr m \<longleftrightarrow> m = Metadata bs \<and> bs \<noteq> [] \<and> length bs < 2 ^ 32 - 1) \<and>
    (schema_from_u32 w = Inr sv \<longleftrightarrow> get sv = w) \<and>
    (batch_size_new n = Inr k \<longleftrightarrow> k = n \<and> 1 \<le> n \<and> n \<le> 4096)"
  by (auto simp: event_type_from_bytes_Inr event_type_ok_def payload_from_bytes_Inr payload_ok_def
      metadata_from_bytes_Inr metadata_ok_def schema_from_u32_Inr batch_size_new_Inr
      MAX_EVENT_TYPE_LEN_def MAX_PAYLOAD_LEN_def MAX_METADATA_LEN_def MAX_BATCH_def)

end
