(* ===== verification/Wire_Frame.thy ===== *)
theory Wire_Frame
  imports Store_Values
begin

text \<open>
  The event frame, \<open>crates/store/src/wire.rs\<close>: an 11-byte V2 header, the event type, the
  metadata, zero padding to the 16-byte boundary, and the payload to the end of the value.
  V1 frames (a 19-byte header with a global sequence in bytes 1 to 8) are read, never
  written. Offsets are natural numbers with the \<open>u32\<close> conversions written out.
\<close>

definition PAYLOAD_ALIGN :: nat where "PAYLOAD_ALIGN = 16"
definition HEADER_FIXED_SIZE :: nat where "HEADER_FIXED_SIZE = 11"
definition HEADER_FIXED_SIZE_V1 :: nat where "HEADER_FIXED_SIZE_V1 = 19"
definition SCHEMA_VERSION_OFFSET :: nat where "SCHEMA_VERSION_OFFSET = 1"
definition SCHEMA_VERSION_OFFSET_V1 :: nat where "SCHEMA_VERSION_OFFSET_V1 = 9"
definition META_LEN_ABSENT :: u32 where "META_LEN_ABSENT = 0xFFFFFFFF"

definition align_padding :: "nat \<Rightarrow> nat \<Rightarrow> nat" where
  "align_padding offset align = (align - offset mod align) mod align"

definition u32_try_from :: "nat \<Rightarrow> nat option" where
  "u32_try_from n = (if n < 2 ^ 32 then Some n else None)"

definition u32_checked_add :: "nat \<Rightarrow> nat \<Rightarrow> nat option" where
  "u32_checked_add a b = (if a + b < 2 ^ 32 then Some (a + b) else None)"

type_synonym range = "nat \<times> nat"

section \<open>Header\<close>

datatype frame_format_version = V1 | V2

definition format_CURRENT :: frame_format_version where
  "format_CURRENT = V2"

fun format_to_u8 :: "frame_format_version \<Rightarrow> u8" where
  "format_to_u8 V1 = 1"
| "format_to_u8 V2 = 2"

definition format_from_u8 :: "u8 \<Rightarrow> frame_format_version option" where
  "format_from_u8 b = (if b = 1 then Some V1 else if b = 2 then Some V2 else None)"

record frame_header =
  fh_format :: frame_format_version
  fh_schema :: u32
  fh_event_type_len :: u16
  fh_metadata_len :: "u32 option"

datatype wire_error = FrameLengthOverflow nat nat nat

datatype decode_error =
    ValueTooShort nat nat
  | UnsupportedFrameVersion u8
  | EventTypeTruncated nat nat
  | MetadataTruncated u32 nat
  | OffsetOverflow nat
  | CorruptSchemaVersion

text \<open>The two \<open>expect\<close>s panic on a length the value newtypes exclude.\<close>

definition header_from_validated_lengths ::
  "frame_format_version \<Rightarrow> u32 \<Rightarrow> nat \<Rightarrow> nat option \<Rightarrow> frame_header call" where
  "header_from_validated_lengths format schema event_type_len metadata_len =
    (if event_type_len \<ge> 2 ^ 16 \<or> (case metadata_len of None \<Rightarrow> False | Some n \<Rightarrow> n \<ge> 2 ^ 32) then Panics
     else Returns \<lparr>fh_format = format, fh_schema = schema, fh_event_type_len = of_nat event_type_len,
                   fh_metadata_len = map_option of_nat metadata_len\<rparr>)"

definition header_write_into :: "frame_header \<Rightarrow> bytes \<Rightarrow> bytes" where
  "header_write_into h buf =
    (let meta_field = (case fh_metadata_len h of None \<Rightarrow> META_LEN_ABSENT | Some n \<Rightarrow> n) in
     buf @ [format_to_u8 (fh_format h)] @ u32_le (fh_schema h) @ u16_le (fh_event_type_len h)
       @ u32_le meta_field)"

definition header_read_from :: "bytes \<Rightarrow> (frame_header, decode_error) result" where
  "header_read_from value =
    (if length value < HEADER_FIXED_SIZE then Inl (ValueTooShort HEADER_FIXED_SIZE (length value))
     else let version_byte = value ! 0 in
     and_then (ok_or (UnsupportedFrameVersion version_byte) (format_from_u8 version_byte)) (\<lambda>format.
     let (schema_off, minimum) =
           (case format of V1 \<Rightarrow> (SCHEMA_VERSION_OFFSET_V1, HEADER_FIXED_SIZE_V1)
                         | V2 \<Rightarrow> (SCHEMA_VERSION_OFFSET, HEADER_FIXED_SIZE));
         fields = take 10 (drop schema_off value)
     in if length fields < 10 then Inl (ValueTooShort minimum (length value))
        else let meta_field = le_word (drop 6 fields)
             in Inr \<lparr>fh_format = format, fh_schema = le_word (take 4 fields),
                     fh_event_type_len = le_word (take 2 (drop 4 fields)),
                     fh_metadata_len = (if meta_field = META_LEN_ABSENT then None else Some meta_field)\<rparr>))"

section \<open>Layout\<close>

record frame_layout =
  fl_event_type :: range
  fl_metadata :: "range option"
  fl_payload :: range
  fl_padding :: nat
  fl_total :: nat

definition compute_from_validated_lengths ::
  "nat \<Rightarrow> nat option \<Rightarrow> nat \<Rightarrow> (frame_layout, wire_error) result" where
  "compute_from_validated_lengths event_type_len metadata_len payload_len =
    (let meta_len = (case metadata_len of None \<Rightarrow> 0 | Some n \<Rightarrow> n) in
     and_then (ok_or (FrameLengthOverflow HEADER_FIXED_SIZE 0 payload_len)
       (Option.bind (checked_add_usize HEADER_FIXED_SIZE event_type_len) (\<lambda>n. checked_add_usize n meta_len)))
     (\<lambda>pre_payload_len.
     let padding = align_padding pre_payload_len PAYLOAD_ALIGN;
         overflow = FrameLengthOverflow pre_payload_len padding payload_len in
     and_then (ok_or overflow
       (Option.bind (checked_add_usize pre_payload_len padding) (\<lambda>n. checked_add_usize n payload_len)))
     (\<lambda>total.
     and_then (ok_or overflow (u32_try_from HEADER_FIXED_SIZE)) (\<lambda>event_type_start.
     and_then (ok_or overflow (u32_try_from event_type_len)) (\<lambda>event_type_len_u32.
     and_then (ok_or overflow (u32_checked_add event_type_start event_type_len_u32)) (\<lambda>event_type_end.
     and_then
       (case metadata_len of
          None \<Rightarrow> Inr None
        | Some n \<Rightarrow>
            and_then (ok_or overflow (u32_try_from n)) (\<lambda>n_u32.
            and_then (ok_or overflow (u32_checked_add event_type_end n_u32)) (\<lambda>end_u32.
              Inr (Some (event_type_end, end_u32)))))
     (\<lambda>metadata_range.
     and_then (ok_or overflow (checked_add_usize pre_payload_len padding)) (\<lambda>payload_start_usize.
     and_then (ok_or overflow (u32_try_from payload_start_usize)) (\<lambda>payload_start.
     and_then (ok_or overflow (u32_try_from payload_len)) (\<lambda>payload_len_u32.
     and_then (ok_or overflow (u32_checked_add payload_start payload_len_u32)) (\<lambda>payload_end.
       Inr \<lparr>fl_event_type = (event_type_start, event_type_end), fl_metadata = metadata_range,
            fl_payload = (payload_start, payload_end), fl_padding = padding, fl_total = total\<rparr>)))))))))))"

section \<open>Encoding\<close>

record frame_offsets =
  fo_event_type :: range
  fo_metadata :: "range option"
  fo_payload :: range

record encoded_frame =
  ef_value :: bytes
  ef_offsets :: frame_offsets

record frame_plan =
  fp_header :: frame_header
  fp_event_type :: bytes
  fp_metadata :: "bytes option"
  fp_payload :: bytes
  fp_layout :: frame_layout

definition plan_frame ::
  "schema_version \<Rightarrow> event_type \<Rightarrow> payload \<Rightarrow> metadata option \<Rightarrow> (frame_plan, wire_error) result call" where
  "plan_frame schema et p m =
    (let md = map_option metadata_bytes m in
     case compute_from_validated_lengths (length (et_bytes et)) (map_option length md) (length (payload_bytes p)) of
       Inl e \<Rightarrow> Returns (Inl e)
     | Inr layout \<Rightarrow>
         call_bind (header_from_validated_lengths format_CURRENT (get schema) (length (et_bytes et))
             (map_option length md))
           (\<lambda>header. Returns (Inr \<lparr>fp_header = header, fp_event_type = et_bytes et, fp_metadata = md,
                                   fp_payload = payload_bytes p, fp_layout = layout\<rparr>)))"

definition frame_execute :: "frame_plan \<Rightarrow> encoded_frame" where
  "frame_execute plan =
    (let buf = header_write_into (fp_header plan) [];
         buf = buf @ fp_event_type plan;
         buf = (case fp_metadata plan of Some m \<Rightarrow> buf @ m | None \<Rightarrow> buf);
         buf = buf @ replicate (fl_padding (fp_layout plan)) 0;
         buf = buf @ fp_payload plan
     in \<lparr>ef_value = buf,
         ef_offsets = \<lparr>fo_event_type = fl_event_type (fp_layout plan),
                       fo_metadata = fl_metadata (fp_layout plan),
                       fo_payload = fl_payload (fp_layout plan)\<rparr>\<rparr>)"

definition encode_frame ::
  "schema_version \<Rightarrow> event_type \<Rightarrow> payload \<Rightarrow> metadata option \<Rightarrow> (encoded_frame, wire_error) result call" where
  "encode_frame schema et p m = call_bind (plan_frame schema et p m) (\<lambda>r. Returns (map_ok frame_execute r))"

section \<open>Decoding\<close>

record decoded_frame =
  df_schema :: schema_version
  df_offsets :: frame_offsets

definition decode_frame_body ::
  "bytes \<Rightarrow> frame_header \<Rightarrow> nat \<Rightarrow> (decoded_frame, decode_error) result" where
  "decode_frame_body value header header_size =
    (let overflow = OffsetOverflow (length value) in
     and_then (map_err (\<lambda>_. CorruptSchemaVersion) (schema_from_u32 (fh_schema header))) (\<lambda>schema.
     let et_len = unat (fh_event_type_len header); et_start = header_size in
     and_then (ok_or overflow (checked_add_usize et_start et_len)) (\<lambda>et_end.
     if length value < et_end then Inl (EventTypeTruncated et_len (length value))
     else and_then
       (case fh_metadata_len header of
          None \<Rightarrow> Inr (None, et_end)
        | Some meta_len \<Rightarrow>
            and_then (ok_or overflow (checked_add_usize et_end (unat meta_len))) (\<lambda>meta_end.
            if length value < meta_end then Inl (MetadataTruncated meta_len (length value))
            else and_then (ok_or overflow (u32_try_from et_end)) (\<lambda>m_start.
              and_then (ok_or overflow (u32_try_from meta_end)) (\<lambda>m_end.
                Inr (Some (m_start, m_end), meta_end)))))
     (\<lambda>(metadata_range, post_meta).
     let padding = align_padding post_meta PAYLOAD_ALIGN in
     and_then (ok_or overflow (checked_add_usize post_meta padding)) (\<lambda>payload_start.
     if payload_start > length value then Inl overflow
     else and_then (ok_or overflow (u32_try_from et_start)) (\<lambda>et_start_u32.
     and_then (ok_or overflow (u32_try_from et_end)) (\<lambda>et_end_u32.
     and_then (ok_or overflow (u32_try_from payload_start)) (\<lambda>payload_start_u32.
     and_then (ok_or overflow (u32_try_from (length value))) (\<lambda>payload_end_u32.
       Inr \<lparr>df_schema = schema,
            df_offsets = \<lparr>fo_event_type = (et_start_u32, et_end_u32), fo_metadata = metadata_range,
                          fo_payload = (payload_start_u32, payload_end_u32)\<rparr>\<rparr>)))))))))"

definition decode_frame :: "bytes \<Rightarrow> (decoded_frame, decode_error) result" where
  "decode_frame value =
    and_then (header_read_from value) (\<lambda>header.
      let header_size = (case fh_format header of V1 \<Rightarrow> HEADER_FIXED_SIZE_V1 | V2 \<Rightarrow> HEADER_FIXED_SIZE)
      in decode_frame_body value header header_size)"

text \<open>The bytes a range of a value names.\<close>

definition subrange :: "bytes \<Rightarrow> range \<Rightarrow> bytes" where
  "subrange value r = take (snd r - fst r) (drop (fst r) value)"

section \<open>Lemmas\<close>

lemma align_padding_aligned: "(n + align_padding n PAYLOAD_ALIGN) mod PAYLOAD_ALIGN = 0"
proof (cases "n mod 16 = 0")
  case False
  have "(n + (16 - n mod 16)) mod 16 = (n mod 16 + (16 - n mod 16)) mod 16"
    by (simp only: mod_add_left_eq)
  also have "n mod 16 + (16 - n mod 16) = 16"
    by (simp add: less_imp_le)
  finally show ?thesis
    using False by (simp add: align_padding_def PAYLOAD_ALIGN_def)
qed (simp add: align_padding_def PAYLOAD_ALIGN_def)

lemma align_padding_bound: "align_padding n PAYLOAD_ALIGN < PAYLOAD_ALIGN"
  by (simp add: align_padding_def PAYLOAD_ALIGN_def)

lemma align_padding_zero: "n mod PAYLOAD_ALIGN = 0 \<Longrightarrow> align_padding n PAYLOAD_ALIGN = 0"
  by (simp add: align_padding_def PAYLOAD_ALIGN_def)

text \<open>Where the payload of a V2 frame starts.\<close>

definition payload_offset :: "nat \<Rightarrow> nat \<Rightarrow> nat" where
  "payload_offset event_type_len meta_len =
    (let pre = HEADER_FIXED_SIZE + event_type_len + meta_len in pre + align_padding pre PAYLOAD_ALIGN)"

definition opt_len :: "nat option \<Rightarrow> nat" where
  "opt_len n = (case n of None \<Rightarrow> 0 | Some k \<Rightarrow> k)"

lemma opt_len_simps [simp]: "opt_len None = 0" "opt_len (Some k) = k"
  by (simp_all add: opt_len_def)

lemma compute_layout_fits:
  assumes "payload_offset e (opt_len m) + p < 2 ^ 32"
  shows "compute_from_validated_lengths e m p = Inr
    \<lparr>fl_event_type = (HEADER_FIXED_SIZE, HEADER_FIXED_SIZE + e),
         fl_metadata = map_option (\<lambda>n. (HEADER_FIXED_SIZE + e, HEADER_FIXED_SIZE + e + n)) m,
         fl_payload = (payload_offset e (opt_len m), payload_offset e (opt_len m) + p),
         fl_padding = align_padding (HEADER_FIXED_SIZE + e + opt_len m) PAYLOAD_ALIGN,
         fl_total = payload_offset e (opt_len m) + p\<rparr>"
  using assms
  by (cases m)
    (simp_all add: compute_from_validated_lengths_def Let_def
      checked_add_usize_def u32_try_from_def u32_checked_add_def payload_offset_def
      HEADER_FIXED_SIZE_def usize_max_def)

lemma compute_layout_overflow:
  assumes "\<not> payload_offset e (opt_len m) + p < 2 ^ 32"
  shows "\<not> is_ok (compute_from_validated_lengths e m p)"
  using assms
  by (cases m)
    (simp_all add: compute_from_validated_lengths_def Let_def Option.bind_def
      checked_add_usize_def u32_try_from_def u32_checked_add_def payload_offset_def
      HEADER_FIXED_SIZE_def)

lemma length_header [simp]: "length (header_write_into h []) = HEADER_FIXED_SIZE"
  by (simp add: header_write_into_def HEADER_FIXED_SIZE_def Let_def)

lemma header_roundtrip:
  assumes "fh_format h = V2" "fh_metadata_len h \<noteq> Some META_LEN_ABSENT"
  shows "header_read_from (header_write_into h [] @ rest) = Inr h"
proof -
  let ?m = "case fh_metadata_len h of None \<Rightarrow> META_LEN_ABSENT | Some n \<Rightarrow> n"
  let ?f = "u32_le (fh_schema h) @ u16_le (fh_event_type_len h) @ u32_le ?m"
  have v: "header_write_into h [] @ rest = 2 # ?f @ rest"
    using assms(1) by (simp add: header_write_into_def Let_def)
  show ?thesis
    unfolding header_read_from_def v Let_def
    using assms
    by (cases h; cases "fh_metadata_len h") (auto simp: HEADER_FIXED_SIZE_def SCHEMA_VERSION_OFFSET_def format_from_u8_def codec_simps)
qed

text \<open>The value \<open>encode_frame\<close> writes, spelled out.\<close>

definition frame_header_of :: "schema_version \<Rightarrow> event_type \<Rightarrow> metadata option \<Rightarrow> frame_header" where
  "frame_header_of schema et m =
    \<lparr>fh_format = V2, fh_schema = get schema, fh_event_type_len = of_nat (length (et_bytes et)),
     fh_metadata_len = map_option (\<lambda>md. of_nat (length (metadata_bytes md))) m\<rparr>"

definition opt_bytes :: "metadata option \<Rightarrow> bytes" where
  "opt_bytes m = (case m of None \<Rightarrow> [] | Some md \<Rightarrow> metadata_bytes md)"

definition frame_value :: "schema_version \<Rightarrow> event_type \<Rightarrow> payload \<Rightarrow> metadata option \<Rightarrow> bytes" where
  "frame_value schema et p m =
    header_write_into (frame_header_of schema et m) [] @ et_bytes et @ opt_bytes m
      @ replicate (align_padding (HEADER_FIXED_SIZE + length (et_bytes et) + length (opt_bytes m)) PAYLOAD_ALIGN) 0
      @ payload_bytes p"

definition frame_offsets_of :: "event_type \<Rightarrow> payload \<Rightarrow> metadata option \<Rightarrow> frame_offsets" where
  "frame_offsets_of et p m =
    (let et_end = HEADER_FIXED_SIZE + length (et_bytes et);
         start = payload_offset (length (et_bytes et)) (length (opt_bytes m)) in
     \<lparr>fo_event_type = (HEADER_FIXED_SIZE, et_end),
      fo_metadata = map_option (\<lambda>md. (et_end, et_end + length (metadata_bytes md))) m,
      fo_payload = (start, start + length (payload_bytes p))\<rparr>)"

definition frame_len :: "event_type \<Rightarrow> payload \<Rightarrow> metadata option \<Rightarrow> nat" where
  "frame_len et p m = payload_offset (length (et_bytes et)) (length (opt_bytes m)) + length (payload_bytes p)"

definition metadata_opt_ok :: "metadata option \<Rightarrow> bool" where
  "metadata_opt_ok m = (case m of None \<Rightarrow> True | Some md \<Rightarrow> metadata_ok md)"

lemma opt_len_opt_bytes:
  "opt_len (map_option length (map_option metadata_bytes m)) = length (opt_bytes m)"
  by (cases m) (simp_all add: opt_bytes_def)

lemma length_frame_value: "length (frame_value schema et p m) = frame_len et p m"
  by (simp add: frame_value_def frame_len_def payload_offset_def Let_def)

lemma encode_frame_Inr:
  assumes "event_type_ok et" "metadata_opt_ok m" "frame_len et p m < 2 ^ 32"
  shows "encode_frame schema et p m =
    Returns (Inr \<lparr>ef_value = frame_value schema et p m, ef_offsets = frame_offsets_of et p m\<rparr>)"
proof -
  have l: "payload_offset (length (et_bytes et)) (opt_len (map_option length (map_option metadata_bytes m)))
      + length (payload_bytes p) < 2 ^ 32"
    using assms(3) by (simp add: opt_len_opt_bytes frame_len_def)
  have h: "header_from_validated_lengths format_CURRENT (get schema) (length (et_bytes et))
      (map_option length (map_option metadata_bytes m)) = Returns (frame_header_of schema et m)"
    using assms(1,2)
    by (cases m) (auto simp: header_from_validated_lengths_def frame_header_of_def format_CURRENT_def
        event_type_ok_def metadata_opt_ok_def metadata_ok_def MAX_EVENT_TYPE_LEN_def MAX_METADATA_LEN_def)
  show ?thesis
    unfolding encode_frame_def plan_frame_def Let_def compute_layout_fits [OF l] h opt_len_opt_bytes
    by (cases m) (simp_all add: h frame_execute_def frame_value_def frame_offsets_of_def Let_def
        opt_bytes_def opt_len_opt_bytes)
qed

lemma encode_frame_overflow:
  assumes "\<not> frame_len et p m < 2 ^ 32"
  shows "\<exists>e. encode_frame schema et p m = Returns (Inl e)"
proof -
  have "\<not> is_ok (compute_from_validated_lengths (length (et_bytes et))
      (map_option length (map_option metadata_bytes m)) (length (payload_bytes p)))"
    using assms by (intro compute_layout_overflow) (simp add: opt_len_opt_bytes frame_len_def)
  then show ?thesis
    by (auto simp: encode_frame_def plan_frame_def Let_def split: sum.splits)
qed
lemma decode_frame_value:
  assumes "event_type_ok et" "metadata_opt_ok m" "frame_len et p m < 2 ^ 32"
  shows "decode_frame (frame_value schema et p m) =
    Inr \<lparr>df_schema = schema, df_offsets = frame_offsets_of et p m\<rparr>"
proof -
  let ?h = "frame_header_of schema et m" and ?v = "frame_value schema et p m"
  have et: "unat (of_nat (length (et_bytes et)) :: u16) = length (et_bytes et)"
    using assms(1) by (intro unat_of_nat_small) (simp add: event_type_ok_def MAX_EVENT_TYPE_LEN_def)
  have md: "unat (of_nat (length (metadata_bytes x)) :: u32) = length (metadata_bytes x)"
    "(of_nat (length (metadata_bytes x)) :: u32) \<noteq> META_LEN_ABSENT" if "m = Some x" for x
  proof -
    show u: "unat (of_nat (length (metadata_bytes x)) :: u32) = length (metadata_bytes x)"
      using assms(2) that by (intro unat_of_nat_small)
        (simp add: metadata_opt_ok_def metadata_ok_def MAX_METADATA_LEN_def)
    have "length (metadata_bytes x) < unat META_LEN_ABSENT"
      using assms(2) that by (simp add: metadata_opt_ok_def metadata_ok_def MAX_METADATA_LEN_def META_LEN_ABSENT_def)
    with u show "(of_nat (length (metadata_bytes x)) :: u32) \<noteq> META_LEN_ABSENT"
      by (metis less_irrefl)
  qed
  have "header_read_from ?v = Inr ?h"
    unfolding frame_value_def using md(2)
    by (intro header_roundtrip) (auto simp: frame_header_of_def)
  then have "decode_frame ?v = decode_frame_body ?v ?h HEADER_FIXED_SIZE"
    by (simp add: decode_frame_def frame_header_of_def)
  also have "\<dots> = Inr \<lparr>df_schema = schema, df_offsets = frame_offsets_of et p m\<rparr>"
    using assms(3) et md(1)
    by (cases m) (auto simp: decode_frame_body_def length_frame_value Let_def frame_header_of_def frame_offsets_of_def
        frame_len_def payload_offset_def checked_add_usize_def u32_try_from_def usize_max_def opt_bytes_def)
  finally show ?thesis .
qed

lemma frame_value_slices:
  "subrange (frame_value schema et p m) (fo_event_type (frame_offsets_of et p m)) = et_bytes et"
  "subrange (frame_value schema et p m) (fo_payload (frame_offsets_of et p m)) = payload_bytes p"
  "map_option (subrange (frame_value schema et p m)) (fo_metadata (frame_offsets_of et p m)) =
    map_option metadata_bytes m"
  by (cases m; simp add: subrange_def frame_value_def frame_offsets_of_def Let_def payload_offset_def opt_bytes_def)+
text \<open>Whatever a decoder accepts, its ranges lie inside the value, in order, with the payload
16-byte aligned and running to the end.\<close>

definition offsets_within :: "bytes \<Rightarrow> frame_offsets \<Rightarrow> bool" where
  "offsets_within value fo \<longleftrightarrow>
    fst (fo_event_type fo) \<le> snd (fo_event_type fo) \<and>
    (case fo_metadata fo of
       None \<Rightarrow> snd (fo_event_type fo) \<le> fst (fo_payload fo)
     | Some (a, b) \<Rightarrow> a = snd (fo_event_type fo) \<and> a \<le> b \<and> b \<le> fst (fo_payload fo)) \<and>
    fst (fo_payload fo) mod PAYLOAD_ALIGN = 0 \<and>
    fst (fo_payload fo) \<le> snd (fo_payload fo) \<and> snd (fo_payload fo) = length value \<and> length value < 2 ^ 32"

lemma decode_frame_body_within:
  assumes "decode_frame_body value h n = Inr d"
  shows "offsets_within value (df_offsets d)"
  using assms
  by (cases "fh_metadata_len h")
    (auto simp: decode_frame_body_def result_simps Let_def checked_add_usize_def u32_try_from_def
      offsets_within_def align_padding_aligned split: if_splits)

lemma decode_frame_within:
  "decode_frame value = Inr d \<Longrightarrow> offsets_within value (df_offsets d)"
  by (auto simp: decode_frame_def result_simps Let_def dest: decode_frame_body_within)

section \<open>Properties\<close>

text \<open>A small valid event at which the properties are evaluated.\<close>

definition sample_type :: event_type where "sample_type = EventType [0x41, 0x42]"
definition sample_payload :: payload where "sample_payload = Payload [1, 2, 3]"
definition sample_metadata :: "metadata option" where "sample_metadata = Some (Metadata [9])"

lemma sample_frame [simp]: "event_type_ok sample_type" "metadata_opt_ok sample_metadata"
  "frame_len sample_type sample_payload sample_metadata = 19"
  by (simp_all add: sample_type_def sample_payload_def sample_metadata_def event_type_ok_def metadata_opt_ok_def
      metadata_ok_def MAX_EVENT_TYPE_LEN_def MAX_METADATA_LEN_def utf8_valid_def utf8_valid_up_to.simps
      frame_len_def payload_offset_def HEADER_FIXED_SIZE_def PAYLOAD_ALIGN_def align_padding_def opt_bytes_def Let_def)

text \<open>C8: Encoding then decoding an event is the identity. For every valid event whose frame fits
  in 32 bits the encoder succeeds, the decoder accepts the bytes with the same schema version and the
  same ranges, the ranges cut the event type, metadata and payload back out unchanged, and the
  payload starts on a 16-byte boundary.\<close>

theorem frame_roundtrip:
  assumes "event_type_ok et" "metadata_opt_ok m" "frame_len et p m < 2 ^ 32"
  shows "\<exists>f. encode_frame schema et p m = Returns (Inr f) \<and>
    decode_frame (ef_value f) = Inr \<lparr>df_schema = schema, df_offsets = ef_offsets f\<rparr> \<and>
    subrange (ef_value f) (fo_event_type (ef_offsets f)) = et_bytes et \<and>
    subrange (ef_value f) (fo_payload (ef_offsets f)) = payload_bytes p \<and>
    map_option (subrange (ef_value f)) (fo_metadata (ef_offsets f)) = map_option metadata_bytes m \<and>
    fst (fo_payload (ef_offsets f)) mod PAYLOAD_ALIGN = 0"
proof -
  have "fst (fo_payload (frame_offsets_of et p m)) mod PAYLOAD_ALIGN = 0"
    using decode_frame_within [OF decode_frame_value [OF assms, of schema]] by (simp add: offsets_within_def)
  then show ?thesis
    using encode_frame_Inr [OF assms, of schema] decode_frame_value [OF assms, of schema]
    by (simp add: frame_value_slices)
qed

theorem frame_roundtrip_witness:
  "\<exists>f. encode_frame (nz 7) sample_type sample_payload sample_metadata = Returns (Inr f) \<and>
    decode_frame (ef_value f) = Inr \<lparr>df_schema = nz 7, df_offsets = ef_offsets f\<rparr> \<and>
    subrange (ef_value f) (fo_payload (ef_offsets f)) = [1, 2, 3]"
proof -
  have "payload_bytes sample_payload = [1, 2, 3]" by (simp add: sample_payload_def)
  then show ?thesis using frame_roundtrip [of sample_type sample_metadata sample_payload "nz 7"] by auto
qed

text \<open>Encoding a valid event never panics, and it fails exactly when the frame would not fit in
  32 bits, with the overflow error.\<close>

theorem encode_frame_fails_iff_too_long:
  assumes "event_type_ok et" "metadata_opt_ok m"
  shows "encode_frame schema et p m \<noteq> Panics \<and>
    ((\<exists>a b c. encode_frame schema et p m = Returns (Inl (FrameLengthOverflow a b c))) \<longleftrightarrow> 2 ^ 32 \<le> frame_len et p m)"
proof (cases "frame_len et p m < 2 ^ 32")
  case True
  with encode_frame_Inr [OF assms True, of schema] show ?thesis by simp
next
  case False
  then obtain e where "encode_frame schema et p m = Returns (Inl e)"
    using encode_frame_overflow [OF False, of schema] by blast
  with False show ?thesis by (cases e) auto
qed

theorem encode_frame_fails_iff_too_long_witness:
  "encode_frame schema_INITIAL (EventType [0x41]) (Payload (replicate (2 ^ 32) 0)) None \<noteq> Panics \<and>
    (\<exists>a b c. encode_frame schema_INITIAL (EventType [0x41]) (Payload (replicate (2 ^ 32) 0)) None =
      Returns (Inl (FrameLengthOverflow a b c)))"
proof -
  have "event_type_ok (EventType [0x41])"
    by (simp add: event_type_ok_def MAX_EVENT_TYPE_LEN_def utf8_valid_def utf8_valid_up_to.simps)
  moreover have "2 ^ 32 \<le> frame_len (EventType [0x41]) (Payload (replicate (2 ^ 32) 0)) None"
    by (simp add: frame_len_def)
  ultimately show ?thesis
    using encode_frame_fails_iff_too_long [of "EventType [0x41]" None schema_INITIAL "Payload (replicate (2 ^ 32) 0)"]
    by (simp add: metadata_opt_ok_def)
qed

text \<open>The decoder never reads outside its input. For arbitrary bytes, whatever it accepts names an
  event type, optional metadata and payload that lie inside the value in that order, with the metadata
  right after the event type and the payload on a 16-byte boundary up to the end.\<close>

theorem decode_frame_ranges_inside:
  assumes "decode_frame value = Inr d"
  shows "let fo = df_offsets d in
    fst (fo_event_type fo) \<le> snd (fo_event_type fo) \<and>
    (case fo_metadata fo of
       None \<Rightarrow> snd (fo_event_type fo) \<le> fst (fo_payload fo)
     | Some m \<Rightarrow> fst m = snd (fo_event_type fo) \<and> fst m \<le> snd m \<and> snd m \<le> fst (fo_payload fo)) \<and>
    fst (fo_payload fo) mod PAYLOAD_ALIGN = 0 \<and>
    fst (fo_payload fo) \<le> snd (fo_payload fo) \<and> snd (fo_payload fo) = length value \<and> length value < 2 ^ 32"
  using decode_frame_within [OF assms]
  by (auto simp: offsets_within_def Let_def case_prod_beta split: option.splits)

theorem decode_frame_ranges_inside_witness:
  "\<exists>d. decode_frame (frame_value (nz 7) sample_type sample_payload sample_metadata) = Inr d \<and>
    fst (fo_payload (df_offsets d)) mod PAYLOAD_ALIGN = 0 \<and> snd (fo_payload (df_offsets d)) = 19"
proof -
  let ?d = "\<lparr>df_schema = nz 7, df_offsets = frame_offsets_of sample_type sample_payload sample_metadata\<rparr>"
  have d: "decode_frame (frame_value (nz 7) sample_type sample_payload sample_metadata) = Inr ?d"
    by (rule decode_frame_value) simp_all
  show ?thesis
    using d decode_frame_ranges_inside [OF d] unfolding Let_def length_frame_value
    by (intro exI [of _ ?d]) (simp add: length_frame_value)
qed

lemma header_read_frame:
  assumes "event_type_ok et" "metadata_opt_ok m"
  shows "header_read_from (header_write_into (frame_header_of schema et m) [] @ rest) = Inr (frame_header_of schema et m)"
    "unat (fh_event_type_len (frame_header_of schema et m)) = length (et_bytes et)"
    "m = Some md \<Longrightarrow> unat (of_nat (length (metadata_bytes md)) :: u32) = length (metadata_bytes md)"
proof -
  have u: "unat (of_nat (length (metadata_bytes x)) :: u32) = length (metadata_bytes x)"
    "length (metadata_bytes x) < unat META_LEN_ABSENT" if "m = Some x" for x
    using assms(2) that
    by (intro unat_of_nat_small, simp_all add: metadata_opt_ok_def metadata_ok_def MAX_METADATA_LEN_def META_LEN_ABSENT_def)
  then have "(of_nat (length (metadata_bytes x)) :: u32) \<noteq> META_LEN_ABSENT" if "m = Some x" for x
    using that by (metis less_irrefl)
  then show "header_read_from (header_write_into (frame_header_of schema et m) [] @ rest) = Inr (frame_header_of schema et m)"
    by (intro header_roundtrip) (auto simp: frame_header_of_def)
  show "unat (fh_event_type_len (frame_header_of schema et m)) = length (et_bytes et)"
    using assms(1) by (simp add: frame_header_of_def event_type_ok_def MAX_EVENT_TYPE_LEN_def unat_of_nat_small)
  show "m = Some md \<Longrightarrow> unat (of_nat (length (metadata_bytes md)) :: u32) = length (metadata_bytes md)"
    by (rule u(1))
qed

text \<open>C40: A frame cut off before its payload is always refused, and the error names the field the cut
  fell into: the header, the event type, the metadata, or the padding, where the error is the offset
  overflow.\<close>

theorem truncated_frame_refused:
  assumes "event_type_ok et" "metadata_opt_ok m" "encode_frame schema et p m = Returns (Inr f)"
    "n < fst (fo_payload (ef_offsets f))"
  shows "decode_frame (take n (ef_value f)) = Inl (
    if n < HEADER_FIXED_SIZE then ValueTooShort HEADER_FIXED_SIZE n
    else if n < HEADER_FIXED_SIZE + length (et_bytes et) then EventTypeTruncated (length (et_bytes et)) n
    else case m of
        Some md \<Rightarrow> if n < HEADER_FIXED_SIZE + length (et_bytes et) + length (metadata_bytes md)
          then MetadataTruncated (of_nat (length (metadata_bytes md))) n else OffsetOverflow n
      | None \<Rightarrow> OffsetOverflow n)"
proof -
  have fit: "frame_len et p m < 2 ^ 32"
    using assms(3) encode_frame_overflow [of et p m schema] by auto
  then have f: "ef_value f = frame_value schema et p m" "ef_offsets f = frame_offsets_of et p m"
    using assms(3) encode_frame_Inr [OF assms(1,2) fit, of schema] by auto
  let ?h = "frame_header_of schema et m" and ?v = "take n (frame_value schema et p m)"
  have n: "n < payload_offset (length (et_bytes et)) (length (opt_bytes m))"
    using assms(4) f(2) by (simp add: frame_offsets_of_def Let_def)
  then have len: "length ?v = n" by (simp add: length_frame_value frame_len_def)
  show ?thesis
  proof (cases "n < HEADER_FIXED_SIZE")
    case True
    then show ?thesis using len by (simp add: f decode_frame_def header_read_from_def)
  next
    case False
    then have "\<exists>rest. ?v = header_write_into ?h [] @ rest" by (simp add: frame_value_def)
    then have "header_read_from ?v = Inr ?h" using header_read_frame(1) [OF assms(1,2)] by metis
    then have "decode_frame ?v = decode_frame_body ?v ?h HEADER_FIXED_SIZE"
      by (simp add: decode_frame_def frame_header_of_def)
    with False n fit len header_read_frame(2,3) [OF assms(1,2)] show ?thesis
      by (cases m) (simp_all add: f decode_frame_body_def Let_def frame_len_def payload_offset_def
        checked_add_usize_def u32_try_from_def usize_max_def opt_bytes_def frame_header_of_def)
  qed
qed

theorem truncated_frame_refused_witness:
  "\<exists>f. encode_frame (nz 7) sample_type sample_payload sample_metadata = Returns (Inr f) \<and>
    decode_frame (take 15 (ef_value f)) = Inl (OffsetOverflow 15) \<and>
    decode_frame (take 12 (ef_value f)) = Inl (EventTypeTruncated 2 12)"
proof -
  obtain f where f: "encode_frame (nz 7) sample_type sample_payload sample_metadata = Returns (Inr f)"
    "fo_payload (ef_offsets f) = fo_payload (frame_offsets_of sample_type sample_payload sample_metadata)"
    using encode_frame_Inr [of sample_type sample_metadata sample_payload "nz 7"] by auto
  moreover have "fst (fo_payload (frame_offsets_of sample_type sample_payload sample_metadata)) = 16"
    by (simp add: frame_offsets_of_def sample_type_def sample_metadata_def payload_offset_def HEADER_FIXED_SIZE_def
        PAYLOAD_ALIGN_def align_padding_def opt_bytes_def Let_def)
  ultimately show ?thesis
    using truncated_frame_refused [OF sample_frame(1,2) f(1), of 15] truncated_frame_refused [OF sample_frame(1,2) f(1), of 12]
    by (intro exI [of _ f]) (simp add: HEADER_FIXED_SIZE_def sample_type_def sample_metadata_def flip: numeral_2_eq_2)
qed

end
