(* ===== verification/Envelopes.thy ===== *)
theory Envelopes
  imports Wire_Frame
begin

text \<open>
  Envelopes, \<open>crates/store/src/envelope.rs\<close>: the owned \<open>PendingEnvelope\<close> of the write
  path with its typestate builder, the non-empty \<open>PendingBatch\<close>, and the
  \<open>PersistedEnvelope\<close> of the read path, a frame value with validated ranges into it.
\<close>

datatype envelope_error =
    RangeOutOfBounds nat nat nat
  | InvalidUtf8 nat nat
  | EventTypeRangeTooLong nat nat
  | MetadataRangeTooLong nat nat
  | MetadataRangeEmpty
  | EnvelopeValue value_error

datatype for_decode_error = FdValue value_error | FdWire wire_error | FdEnvelope envelope_error

section \<open>Pending envelopes\<close>

record pending_envelope =
  pe_version :: version
  pe_event_type :: event_type
  pe_schema :: schema_version
  pe_payload :: payload
  pe_metadata :: "metadata option"

definition pending_ok :: "pending_envelope \<Rightarrow> bool" where
  "pending_ok p \<longleftrightarrow> event_type_ok (pe_event_type p) \<and> payload_ok (pe_payload p) \<and> metadata_opt_ok (pe_metadata p)"

text \<open>The builder's three states.\<close>

record with_version =
  wv_version :: version

record with_event_type =
  we_version :: version
  we_event_type :: event_type

record with_payload =
  wp_version :: version
  wp_event_type :: event_type
  wp_payload :: bytes
  wp_schema :: schema_version
  wp_metadata :: "bytes option"

definition builder_new :: "version \<Rightarrow> with_version" where
  "builder_new v = \<lparr>wv_version = v\<rparr>"

definition builder_event_type :: "bytes \<Rightarrow> with_version \<Rightarrow> with_event_type call" where
  "builder_event_type s b =
    call_bind (event_type_from_static_str s)
      (\<lambda>et. Returns \<lparr>we_version = wv_version b, we_event_type = et\<rparr>)"

definition builder_event_type_bytes :: "bytes \<Rightarrow> with_version \<Rightarrow> (with_event_type, envelope_error) result" where
  "builder_event_type_bytes bs b =
    and_then (map_err EnvelopeValue (event_type_from_bytes bs))
      (\<lambda>et. Inr \<lparr>we_version = wv_version b, we_event_type = et\<rparr>)"

definition builder_payload :: "bytes \<Rightarrow> with_event_type \<Rightarrow> with_payload" where
  "builder_payload p b =
    \<lparr>wp_version = we_version b, wp_event_type = we_event_type b, wp_payload = p,
     wp_schema = schema_INITIAL, wp_metadata = None\<rparr>"

definition builder_schema_version :: "schema_version \<Rightarrow> with_payload \<Rightarrow> with_payload" where
  "builder_schema_version sv b = b\<lparr>wp_schema := sv\<rparr>"

definition builder_metadata :: "bytes \<Rightarrow> with_payload \<Rightarrow> with_payload" where
  "builder_metadata m b = b\<lparr>wp_metadata := Some m\<rparr>"

definition builder_build :: "with_payload \<Rightarrow> (pending_envelope, envelope_error) result" where
  "builder_build b =
    and_then (map_err EnvelopeValue (payload_from_bytes (wp_payload b))) (\<lambda>p.
    and_then (case wp_metadata b of
                None \<Rightarrow> Inr None
              | Some m \<Rightarrow> map_ok Some (map_err EnvelopeValue (metadata_from_bytes m))) (\<lambda>m.
      Inr \<lparr>pe_version = wp_version b, pe_event_type = wp_event_type b, pe_schema = wp_schema b,
           pe_payload = p, pe_metadata = m\<rparr>))"

section \<open>Batches\<close>

record pending_batch =
  pb_first :: pending_envelope
  pb_rest :: "pending_envelope list"

definition batch_of :: "pending_envelope \<Rightarrow> pending_batch" where
  "batch_of only = \<lparr>pb_first = only, pb_rest = []\<rparr>"

definition batch_from_parts :: "pending_envelope \<Rightarrow> pending_envelope list \<Rightarrow> pending_batch" where
  "batch_from_parts first rest = \<lparr>pb_first = first, pb_rest = rest\<rparr>"

definition batch_new :: "pending_envelope list \<Rightarrow> pending_batch option" where
  "batch_new envs = (case envs of [] \<Rightarrow> None | e # es \<Rightarrow> Some \<lparr>pb_first = e, pb_rest = es\<rparr>)"

definition batch_last :: "pending_batch \<Rightarrow> pending_envelope" where
  "batch_last b = (case pb_rest b of [] \<Rightarrow> pb_first b | _ \<Rightarrow> last (pb_rest b))"

definition batch_len :: "pending_batch \<Rightarrow> nat" where
  "batch_len b = min usize_max (1 + length (pb_rest b))"

definition batch_iter :: "pending_batch \<Rightarrow> pending_envelope list" where
  "batch_iter b = pb_first b # pb_rest b"

section \<open>Persisted envelopes\<close>

record persisted_envelope =
  ps_version :: version
  ps_schema :: schema_version
  ps_value :: bytes
  ps_event_type_range :: range
  ps_payload_range :: range
  ps_metadata_range :: "range option"

definition check_range :: "range \<Rightarrow> nat \<Rightarrow> (unit, envelope_error) result" where
  "check_range r len =
    (if snd r > len \<or> fst r > snd r then Inl (RangeOutOfBounds (fst r) (snd r) len) else Inr ())"

definition try_new ::
  "version \<Rightarrow> bytes \<Rightarrow> schema_version \<Rightarrow> range \<Rightarrow> range \<Rightarrow> range option
    \<Rightarrow> (persisted_envelope, envelope_error) result" where
  "try_new version value schema event_type_range payload_range metadata_range =
    (let len = length value in
     and_then (check_range event_type_range len) (\<lambda>_.
     and_then (check_range payload_range len) (\<lambda>_.
     and_then (case metadata_range of None \<Rightarrow> Inr () | Some m \<Rightarrow> check_range m len) (\<lambda>_.
     let et_range_len = snd event_type_range - fst event_type_range in
     if et_range_len > MAX_EVENT_TYPE_LEN then Inl (EventTypeRangeTooLong et_range_len MAX_EVENT_TYPE_LEN)
     else and_then
       (case metadata_range of
          None \<Rightarrow> Inr ()
        | Some m \<Rightarrow>
            let meta_range_len = snd m - fst m in
            if meta_range_len = 0 then Inl MetadataRangeEmpty
            else if meta_range_len > MAX_METADATA_LEN
            then Inl (MetadataRangeTooLong meta_range_len MAX_METADATA_LEN)
            else Inr ()) (\<lambda>_.
     if utf8_valid (subrange value event_type_range)
     then Inr \<lparr>ps_version = version, ps_schema = schema, ps_value = value,
               ps_event_type_range = event_type_range, ps_payload_range = payload_range,
               ps_metadata_range = metadata_range\<rparr>
     else Inl (InvalidUtf8 (fst event_type_range) (snd event_type_range)))))))"

definition ps_event_type :: "persisted_envelope \<Rightarrow> bytes" where
  "ps_event_type e = subrange (ps_value e) (ps_event_type_range e)"

definition ps_payload :: "persisted_envelope \<Rightarrow> bytes" where
  "ps_payload e = subrange (ps_value e) (ps_payload_range e)"

definition ps_metadata :: "persisted_envelope \<Rightarrow> bytes option" where
  "ps_metadata e = map_option (subrange (ps_value e)) (ps_metadata_range e)"

definition ps_event_type_value :: "persisted_envelope \<Rightarrow> event_type" where
  "ps_event_type_value e = EventType (ps_event_type e)"

definition ps_payload_value :: "persisted_envelope \<Rightarrow> payload" where
  "ps_payload_value e = Payload (ps_payload e)"

definition ps_metadata_value :: "persisted_envelope \<Rightarrow> metadata option" where
  "ps_metadata_value e = map_option Metadata (ps_metadata e)"

definition from_persisted :: "persisted_envelope \<Rightarrow> pending_envelope" where
  "from_persisted e =
    \<lparr>pe_version = ps_version e, pe_event_type = ps_event_type_value e, pe_schema = ps_schema e,
     pe_payload = ps_payload_value e, pe_metadata = ps_metadata_value e\<rparr>"

text \<open>An encoded frame as an envelope: the ranges are the encoder's offsets.\<close>

definition envelope_of_frame ::
  "version \<Rightarrow> schema_version \<Rightarrow> range option \<Rightarrow> encoded_frame \<Rightarrow> (persisted_envelope, envelope_error) result" where
  "envelope_of_frame v sv m f =
    try_new v (ef_value f) sv (fo_event_type (ef_offsets f)) (fo_payload (ef_offsets f)) m"

definition for_transformed_decode ::
  "persisted_envelope \<Rightarrow> bytes \<Rightarrow> schema_version \<Rightarrow> bytes \<Rightarrow> (persisted_envelope, for_decode_error) result call" where
  "for_transformed_decode e event_type schema payload =
    (if event_type = ps_event_type e \<and> schema = ps_schema e \<and> payload = ps_payload e
     then Returns (Inr e)
     else
       case (if event_type = ps_event_type e then Inr (ps_event_type_value e)
             else map_err FdValue (event_type_from_bytes event_type)) of
         Inl err \<Rightarrow> Returns (Inl err)
       | Inr event \<Rightarrow>
         (case (if payload = ps_payload e then Inr (ps_payload_value e)
                else map_err FdValue (payload_from_bytes payload)) of
            Inl err \<Rightarrow> Returns (Inl err)
          | Inr data \<Rightarrow>
            call_bind (encode_frame schema event data (ps_metadata_value e)) (\<lambda>r.
              Returns (and_then (map_err FdWire r) (\<lambda>frame.
                map_err FdEnvelope
                  (envelope_of_frame (ps_version e) schema (fo_metadata (ef_offsets frame)) frame))))))"

definition for_decode :: "bytes \<Rightarrow> bytes \<Rightarrow> (persisted_envelope, for_decode_error) result call" where
  "for_decode event_type payload =
    (case and_then (map_err FdValue (event_type_from_bytes event_type)) (\<lambda>et.
            and_then (map_err FdValue (payload_from_bytes payload)) (\<lambda>pl. Inr (et, pl))) of
       Inl err \<Rightarrow> Returns (Inl err)
     | Inr (et, pl) \<Rightarrow>
         call_bind (encode_frame schema_INITIAL et pl None) (\<lambda>r.
           Returns (and_then (map_err FdWire r) (\<lambda>frame.
             map_err FdEnvelope (envelope_of_frame version_INITIAL schema_INITIAL None frame)))))"

section \<open>Lemmas\<close>

lemma batch_new_iter: "batch_new envs = Some b \<longleftrightarrow> batch_iter b = envs"
  by (cases b) (auto simp: batch_new_def batch_iter_def split: list.splits)

lemma batch_last_iter: "batch_last b = last (batch_iter b)"
  by (auto simp: batch_last_def batch_iter_def split: list.splits)

lemma batch_iter_nonempty [simp]: "batch_iter b \<noteq> []"
  by (simp add: batch_iter_def)

lemma builder_build_Inr:
  assumes "event_type_ok (wp_event_type b)"
  shows "builder_build b = Inr p \<longleftrightarrow> pending_ok p \<and>
    pe_version p = wp_version b \<and> pe_event_type p = wp_event_type b \<and> pe_schema p = wp_schema b \<and>
    payload_bytes (pe_payload p) = wp_payload b \<and> map_option metadata_bytes (pe_metadata p) = wp_metadata b"
proof (cases p)
  case (fields v et sv pl m)
  then show ?thesis
    using assms
    by (cases pl; cases m; cases "wp_metadata b")
      (auto simp: builder_build_def result_simps payload_from_bytes_Inr metadata_from_bytes_Inr
        pending_ok_def metadata_opt_ok_def)
qed

text \<open>The invariant of a persisted envelope.\<close>

definition range_within :: "bytes \<Rightarrow> range \<Rightarrow> bool" where
  "range_within value r \<longleftrightarrow> fst r \<le> snd r \<and> snd r \<le> length value \<and> snd r < 2 ^ 32"

definition persisted_ok :: "persisted_envelope \<Rightarrow> bool" where
  "persisted_ok e \<longleftrightarrow> range_within (ps_value e) (ps_event_type_range e) \<and>
    range_within (ps_value e) (ps_payload_range e) \<and>
    (case ps_metadata_range e of None \<Rightarrow> True | Some m \<Rightarrow> range_within (ps_value e) m) \<and>
    pending_ok (from_persisted e)"

lemma length_subrange: "range_within value r \<Longrightarrow> length (subrange value r) = snd r - fst r"
  by (auto simp: range_within_def subrange_def)

lemma try_new_ok:
  assumes "try_new v value sv et pl m = Inr e" "snd et < 2 ^ 32" "snd pl < 2 ^ 32"
    "case m of None \<Rightarrow> True | Some r \<Rightarrow> snd r < 2 ^ 32"
  shows "persisted_ok e \<and> e = \<lparr>ps_version = v, ps_schema = sv, ps_value = value,
    ps_event_type_range = et, ps_payload_range = pl, ps_metadata_range = m\<rparr>"
  using assms
  by (cases m)
    (auto simp: try_new_def result_simps check_range_def Let_def persisted_ok_def range_within_def
      pending_ok_def from_persisted_def event_type_ok_def payload_ok_def metadata_opt_ok_def metadata_ok_def
      ps_event_type_value_def ps_payload_value_def ps_metadata_value_def ps_event_type_def ps_payload_def
      ps_metadata_def subrange_def MAX_PAYLOAD_LEN_def split: if_splits)

lemma try_new_complete:
  assumes "persisted_ok e"
  shows "try_new (ps_version e) (ps_value e) (ps_schema e) (ps_event_type_range e) (ps_payload_range e)
    (ps_metadata_range e) = Inr e"
  using assms
  by (cases "ps_metadata_range e")
    (auto simp: try_new_def check_range_def Let_def persisted_ok_def range_within_def
      pending_ok_def from_persisted_def event_type_ok_def metadata_opt_ok_def metadata_ok_def
      ps_event_type_value_def ps_metadata_value_def ps_event_type_def ps_metadata_def subrange_def)

text \<open>The envelope of a pending event's own frame, and that it reads back as that event.\<close>

definition pending_len :: "pending_envelope \<Rightarrow> nat" where
  "pending_len p = frame_len (pe_event_type p) (pe_payload p) (pe_metadata p)"

definition persisted_of :: "pending_envelope \<Rightarrow> persisted_envelope" where
  "persisted_of p =
    (let fo = frame_offsets_of (pe_event_type p) (pe_payload p) (pe_metadata p) in
     \<lparr>ps_version = pe_version p, ps_schema = pe_schema p,
      ps_value = frame_value (pe_schema p) (pe_event_type p) (pe_payload p) (pe_metadata p),
      ps_event_type_range = fo_event_type fo, ps_payload_range = fo_payload fo,
      ps_metadata_range = fo_metadata fo\<rparr>)"

lemma from_persisted_of [simp]: "from_persisted (persisted_of p) = p"
proof -
  have "map_option Metadata (map_option metadata_bytes m) = m" for m
    by (cases m) simp_all
  then show ?thesis
    by (simp add: from_persisted_def persisted_of_def Let_def ps_event_type_value_def
        ps_payload_value_def ps_metadata_value_def ps_event_type_def ps_payload_def ps_metadata_def
        frame_value_slices del: option.map_comp)
qed

lemma persisted_of_ok:
  assumes "pending_ok p" "pending_len p < 2 ^ 32"
  shows "persisted_ok (persisted_of p)"
  using assms
  by (cases "pe_metadata p")
    (auto simp: persisted_ok_def pending_len_def, auto simp: persisted_of_def frame_offsets_of_def Let_def
      range_within_def length_frame_value frame_len_def payload_offset_def opt_bytes_def)

lemma encode_pending:
  assumes "pending_ok p" "pending_len p < 2 ^ 32"
  shows "encode_frame (pe_schema p) (pe_event_type p) (pe_payload p) (pe_metadata p) =
    Returns (Inr \<lparr>ef_value = ps_value (persisted_of p),
      ef_offsets = \<lparr>fo_event_type = ps_event_type_range (persisted_of p),
        fo_metadata = ps_metadata_range (persisted_of p),
        fo_payload = ps_payload_range (persisted_of p)\<rparr>\<rparr>)"
  using assms by (simp add: encode_frame_Inr pending_ok_def pending_len_def persisted_of_def Let_def)

section \<open>Properties\<close>

text \<open>\<open>PersistedEnvelope::try_new\<close> accepts exactly the well-formed envelopes: every range lies
  inside the value, the event type is valid UTF-8 within its length limit, and the metadata is
  non-empty and within its limit. What it accepts it keeps unchanged.\<close>

theorem try_new_accepts_iff_wellformed:
  assumes "snd et < 2 ^ 32" "snd pl < 2 ^ 32" "case m of None \<Rightarrow> True | Some r \<Rightarrow> snd r < 2 ^ 32"
  shows "try_new v value sv et pl m = Inr e \<longleftrightarrow>
    persisted_ok e \<and> e = \<lparr>ps_version = v, ps_schema = sv, ps_value = value,
      ps_event_type_range = et, ps_payload_range = pl, ps_metadata_range = m\<rparr>"
proof
  assume "try_new v value sv et pl m = Inr e"
  from try_new_ok [OF this assms] show "persisted_ok e \<and> e = \<lparr>ps_version = v, ps_schema = sv, ps_value = value,
      ps_event_type_range = et, ps_payload_range = pl, ps_metadata_range = m\<rparr>" .
next
  assume e: "persisted_ok e \<and> e = \<lparr>ps_version = v, ps_schema = sv, ps_value = value,
      ps_event_type_range = et, ps_payload_range = pl, ps_metadata_range = m\<rparr>"
  then have "persisted_ok e" by (rule conjunct1)
  from try_new_complete [OF this] e show "try_new v value sv et pl m = Inr e" by simp
qed

theorem try_new_accepts_iff_wellformed_witness:
  "\<exists>e. try_new version_INITIAL [0x41, 0x42, 7] schema_INITIAL (0, 2) (2, 3) None = Inr e \<and> ps_event_type e = [0x41, 0x42]"
proof -
  let ?e = "\<lparr>ps_version = version_INITIAL, ps_schema = schema_INITIAL, ps_value = [0x41, 0x42, 7],
      ps_event_type_range = (0, 2), ps_payload_range = (2, 3), ps_metadata_range = None\<rparr>"
  have "ps_event_type ?e = [0x41, 0x42]" by (simp add: ps_event_type_def subrange_def)
  moreover have "persisted_ok ?e"
    by (simp add: persisted_ok_def range_within_def pending_ok_def from_persisted_def ps_event_type_value_def
        ps_event_type_def subrange_def event_type_ok_def MAX_EVENT_TYPE_LEN_def utf8_valid_def utf8_valid_up_to.simps
        ps_payload_value_def ps_payload_def payload_ok_def MAX_PAYLOAD_LEN_def ps_metadata_value_def ps_metadata_def
        metadata_opt_ok_def)
  ultimately show ?thesis
    using try_new_accepts_iff_wellformed [of "(0, 2)" "(2, 3)" None version_INITIAL "[0x41, 0x42, 7]" schema_INITIAL ?e]
    by (intro exI [of _ ?e]) simp
qed

text \<open>The envelope builder yields exactly the fields it was given, and only valid envelopes: it
  fails exactly when the payload is too long, or the metadata is empty or too long.\<close>

theorem builder_build_valid:
  assumes "event_type_ok (wp_event_type b)"
  shows "case builder_build b of
      Inr p \<Rightarrow> pending_ok p \<and> pe_version p = wp_version b \<and> pe_event_type p = wp_event_type b \<and>
        pe_schema p = wp_schema b \<and> payload_bytes (pe_payload p) = wp_payload b \<and>
        map_option metadata_bytes (pe_metadata p) = wp_metadata b
    | Inl err \<Rightarrow>
        err = EnvelopeValue (PayloadTooLong (length (wp_payload b))) \<and> MAX_PAYLOAD_LEN < length (wp_payload b) \<or>
        err = EnvelopeValue MetadataEmpty \<and> wp_metadata b = Some [] \<or>
        (\<exists>m. wp_metadata b = Some m \<and> err = EnvelopeValue (MetadataTooLong (length m)) \<and> MAX_METADATA_LEN < length m)"
proof (cases "builder_build b")
  case (Inl err)
  then show ?thesis
    by (cases "wp_metadata b")
      (auto simp: builder_build_def result_simps payload_from_bytes_def metadata_from_bytes_def map_ok_def
        split: if_splits sum.splits)
next
  case (Inr p)
  then show ?thesis using builder_build_Inr [OF assms, of p] by simp
qed

theorem builder_build_valid_witness:
  "\<exists>p. builder_build (builder_metadata [9] (builder_payload [1, 2] \<lparr>we_version = version_INITIAL, we_event_type = sample_type\<rparr>)) = Inr p \<and>
    payload_bytes (pe_payload p) = [1, 2] \<and> map_option metadata_bytes (pe_metadata p) = Some [9]"
proof -
  let ?b = "builder_metadata [9] (builder_payload [1, 2] \<lparr>we_version = version_INITIAL, we_event_type = sample_type\<rparr>)"
  have b: "wp_payload ?b = [1, 2]" "wp_metadata ?b = Some [9]" "event_type_ok (wp_event_type ?b)"
    by (simp_all add: builder_metadata_def builder_payload_def)
  show ?thesis
    using builder_build_valid [OF b(3)] b(1,2)
    by (cases "builder_build ?b") (auto simp: MAX_PAYLOAD_LEN_def MAX_METADATA_LEN_def)
qed

text \<open>Re-enveloping an event after an upcast yields a well-formed envelope with the upcast's
  event type, schema version and payload, and the stored event's version and metadata. It never
  panics.\<close>

theorem transformed_decode_keeps_identity:
  assumes "persisted_ok e"
  shows "case for_transformed_decode e event_type schema payload of
      Panics \<Rightarrow> False
    | Returns (Inl _) \<Rightarrow> True
    | Returns (Inr e') \<Rightarrow> persisted_ok e' \<and> ps_version e' = ps_version e \<and> ps_schema e' = schema \<and>
        ps_event_type e' = event_type \<and> ps_payload e' = payload \<and> ps_metadata e' = ps_metadata e"
proof (cases "event_type = ps_event_type e \<and> schema = ps_schema e \<and> payload = ps_payload e")
  case True
  with assms show ?thesis by (simp add: for_transformed_decode_def)
next
  case changed: False
  let ?et = "if event_type = ps_event_type e then Inr (ps_event_type_value e) else map_err FdValue (event_type_from_bytes event_type)"
  let ?pl = "if payload = ps_payload e then Inr (ps_payload_value e) else map_err FdValue (payload_from_bytes payload)"
  show ?thesis
  proof (cases "?et")
    case (Inl err)
    show ?thesis unfolding for_transformed_decode_def if_not_P [OF changed] Inl by simp
  next
    case et: (Inr t)
    then have t: "t = EventType event_type" "event_type_ok t"
      using assms by (auto simp: persisted_ok_def pending_ok_def from_persisted_def ps_event_type_value_def
          event_type_from_bytes_Inr result_simps split: if_splits)
    show ?thesis
    proof (cases "?pl")
      case (Inl err)
      show ?thesis unfolding for_transformed_decode_def if_not_P [OF changed] et sum.case Inl by simp
    next
      case pl: (Inr d)
      then have d: "d = Payload payload" "payload_ok d"
        using assms by (auto simp: persisted_ok_def pending_ok_def from_persisted_def ps_payload_value_def
            payload_from_bytes_Inr result_simps split: if_splits)
      define p where "p = \<lparr>pe_version = ps_version e, pe_event_type = t, pe_schema = schema, pe_payload = d,
        pe_metadata = ps_metadata_value e\<rparr>"
      have ok: "pending_ok p"
        using assms t d by (simp add: p_def pending_ok_def persisted_ok_def from_persisted_def)
      have step: "for_transformed_decode e event_type schema payload =
          call_bind (encode_frame schema t d (ps_metadata_value e)) (\<lambda>r.
            Returns (and_then (map_err FdWire r) (\<lambda>frame. map_err FdEnvelope
              (envelope_of_frame (ps_version e) schema (fo_metadata (ef_offsets frame)) frame))))"
        unfolding for_transformed_decode_def if_not_P [OF changed] et sum.case pl ..
      show ?thesis
      proof (cases "pending_len p < 2 ^ 32")
        case False
        then have "\<not> frame_len t d (ps_metadata_value e) < 2 ^ 32" by (simp add: pending_len_def p_def)
        from encode_frame_overflow [OF this, of schema] step show ?thesis by auto
      next
        case True
        have "envelope_of_frame (ps_version e) schema (ps_metadata_range (persisted_of p))
            \<lparr>ef_value = ps_value (persisted_of p), ef_offsets = \<lparr>fo_event_type = ps_event_type_range (persisted_of p),
              fo_metadata = ps_metadata_range (persisted_of p), fo_payload = ps_payload_range (persisted_of p)\<rparr>\<rparr>
            = Inr (persisted_of p)"
          using try_new_complete [OF persisted_of_ok [OF ok True]]
          by (simp add: envelope_of_frame_def persisted_of_def Let_def p_def)
        then have res: "for_transformed_decode e event_type schema payload = Returns (Inr (persisted_of p))"
          using step encode_pending [OF ok True] by (simp add: p_def)
        have fp: "from_persisted (persisted_of p) = p" by simp
        have "ps_metadata_value (persisted_of p) = ps_metadata_value e"
          using arg_cong [OF fp, of pe_metadata] by (simp add: from_persisted_def p_def)
        then have "ps_metadata (persisted_of p) = ps_metadata e"
          by (cases "ps_metadata e"; cases "ps_metadata (persisted_of p)") (simp_all add: ps_metadata_value_def)
        moreover have "ps_event_type (persisted_of p) = event_type" "ps_payload (persisted_of p) = payload"
          using arg_cong [OF fp, of pe_event_type] arg_cong [OF fp, of pe_payload] t(1) d(1)
          by (simp_all add: from_persisted_def p_def ps_event_type_value_def ps_payload_value_def)
        moreover have "ps_version (persisted_of p) = ps_version e" "ps_schema (persisted_of p) = schema"
          by (simp_all add: persisted_of_def p_def Let_def)
        ultimately show ?thesis using res persisted_of_ok [OF ok True] by simp
      qed
    qed
  qed
qed

theorem transformed_decode_keeps_identity_witness:
  "\<exists>e e'. persisted_ok e \<and> for_transformed_decode e [0x43] (nz 2) [5, 6] = Returns (Inr e') \<and>
    ps_event_type e' = [0x43] \<and> ps_payload e' = [5, 6] \<and> ps_metadata e' = Some [9]"
proof -
  let ?p = "\<lparr>pe_version = version_INITIAL, pe_event_type = sample_type, pe_schema = schema_INITIAL,
    pe_payload = sample_payload, pe_metadata = sample_metadata\<rparr>"
  let ?e = "persisted_of ?p" and ?r = "for_transformed_decode (persisted_of ?p) [0x43] (nz 2) [5, 6]"
  have "payload_ok sample_payload" by (simp add: payload_ok_def sample_payload_def MAX_PAYLOAD_LEN_def)
  then have ok: "persisted_ok ?e" by (intro persisted_of_ok) (simp_all add: pending_ok_def pending_len_def)
  have fp: "ps_event_type_value ?e = sample_type" "ps_metadata_value ?e = sample_metadata" "ps_payload_value ?e = sample_payload"
    using from_persisted_of [of ?p] by (simp_all add: from_persisted_def)
  have et: "event_type_from_bytes [0x43] = Inr (EventType [0x43])" "event_type_ok (EventType [0x43])"
    by (simp_all add: event_type_from_bytes_def event_type_ok_def MAX_EVENT_TYPE_LEN_def utf8_valid_def utf8_valid_up_to.simps)
  have pl: "payload_from_bytes [5, 6] = Inr (Payload [5, 6])" by (simp add: payload_from_bytes_def MAX_PAYLOAD_LEN_def)
  have md: "ps_metadata ?e = Some [9]" "ps_event_type ?e = [0x41, 0x42]" "ps_payload ?e = [1, 2, 3]"
    using fp by (auto simp: ps_metadata_value_def sample_metadata_def ps_event_type_value_def sample_type_def
        ps_payload_value_def sample_payload_def)
  let ?q = "\<lparr>pe_version = version_INITIAL, pe_event_type = EventType [0x43], pe_schema = nz 2,
    pe_payload = Payload [5, 6], pe_metadata = sample_metadata\<rparr>"
  have q: "pending_ok ?q" "pending_len ?q < 2 ^ 32"
    using et(2) sample_frame(2) by (simp_all add: pending_ok_def payload_ok_def MAX_PAYLOAD_LEN_def pending_len_def frame_len_def payload_offset_def
        HEADER_FIXED_SIZE_def PAYLOAD_ALIGN_def align_padding_def opt_bytes_def sample_metadata_def Let_def)
  have v: "ps_version ?e = version_INITIAL" by (simp add: persisted_of_def Let_def)
  have "?r = Returns (Inr (persisted_of ?q))"
    using encode_pending [OF q] try_new_complete [OF persisted_of_ok [OF q]] et(1) pl fp(2) md v
    by (simp add: for_transformed_decode_def envelope_of_frame_def persisted_of_def Let_def)
  then show ?thesis
    using transformed_decode_keeps_identity [OF ok, where event_type = "[0x43]" and schema = "nz 2" and payload = "[5, 6]"] ok md(1) by auto
qed

end
