(* ===== verification/Checkpoints.thy ===== *)
theory Checkpoints
  imports Envelopes
begin

text \<open>
  Durable read-side state: the revision-checked projection checkpoints of
  \<open>crates/store/src/checkpoint.rs\<close>, the aggregate snapshots and persist triggers of
  \<open>state.rs\<close>, their in-memory stores (\<open>adapters/inmemory/src/checkpoint.rs\<close> and
  \<open>snapshot.rs\<close>), and the codec bridge that turns a byte store into a typed one. The user's
  codec is a parameter: \<open>encode\<close> and \<open>decode\<close>.

  The locale \<open>checkpoint_store\<close> is the contract of the \<open>CheckpointStore\<close> trait over one
  abstraction function, the record stored for an id.
\<close>

section \<open>Checkpoints\<close>

type_synonym revision = "64 nonzero"

datatype ('s, 'p) checkpoint_hydrated =
    CkAbsent
  | CkStale revision schema_version
  | CkFound revision 'p 's

datatype checkpoint_mode = Advance | Rebuild

record ('s, 'p) checkpoint_write =
  cw_expected :: "revision option"
  cw_schema :: schema_version
  cw_position :: 'p
  cw_state :: 's
  cw_mode :: checkpoint_mode

datatype checkpoint_rejection =
    RejConflict "revision option" "revision option"
  | RejSchemaMismatch schema_version schema_version
  | RejInvalidRebuild
  | RejNonIncreasingPosition
  | RejRevisionOverflow

datatype 'e checkpoint_error = CkStoreError 'e | CkRejected checkpoint_rejection

text \<open>The schema and position checks of \<open>next_revision\<close>, by mode and current record.\<close>

definition check_mode ::
  "('s, 'p::linorder) checkpoint_write \<Rightarrow> (revision \<times> schema_version \<times> 'p) option
    \<Rightarrow> (unit, checkpoint_rejection) result" where
  "check_mode w current =
    (case (cw_mode w, current) of
       (Advance, Some (_, schema, position)) \<Rightarrow>
         if schema \<noteq> cw_schema w then Inl (RejSchemaMismatch schema (cw_schema w))
         else if cw_position w \<le> position then Inl RejNonIncreasingPosition
         else Inr ()
     | (Rebuild, Some (_, schema, _)) \<Rightarrow> if schema \<noteq> cw_schema w then Inr () else Inl RejInvalidRebuild
     | (Rebuild, None) \<Rightarrow> Inl RejInvalidRebuild
     | (Advance, None) \<Rightarrow> Inr ())"

definition next_revision ::
  "('s, 'p::linorder) checkpoint_write \<Rightarrow> (revision \<times> schema_version \<times> 'p) option
    \<Rightarrow> (revision, checkpoint_rejection) result" where
  "next_revision w current =
    (let actual = map_option fst current in
     if cw_expected w \<noteq> actual then Inl (RejConflict (cw_expected w) actual)
     else and_then (check_mode w current) (\<lambda>_.
       let next = (case actual of None \<Rightarrow> Some 1 | Some r \<Rightarrow> checked_add (get r) 1) in
       ok_or RejRevisionOverflow (Option.bind next nonzero_new)))"

section \<open>The in-memory checkpoint store\<close>

record ('s, 'p) ck_record =
  ck_revision :: revision
  ck_schema :: schema_version
  ck_position :: 'p
  ck_state :: 's

type_synonym ('s, 'p) ck_store = "bytes \<rightharpoonup> ('s, 'p) ck_record"

definition ck_new :: "('s, 'p) ck_store" where
  "ck_new = Map.empty"

definition ck_hydrate ::
  "('s, 'p) ck_store \<Rightarrow> bytes \<Rightarrow> schema_version \<Rightarrow> (('s, 'p) checkpoint_hydrated, 'e) result" where
  "ck_hydrate st i schema =
    Inr (case st i of
           None \<Rightarrow> CkAbsent
         | Some record \<Rightarrow>
             if ck_schema record \<noteq> schema then CkStale (ck_revision record) (ck_schema record)
             else CkFound (ck_revision record) (ck_position record) (ck_state record))"

definition ck_commit ::
  "bytes \<Rightarrow> ('s, 'p::linorder) checkpoint_write \<Rightarrow> ('s, 'p) ck_store
    \<Rightarrow> (revision, 'e checkpoint_error) result \<times> ('s, 'p) ck_store" where
  "ck_commit i w st =
    (let current = map_option (\<lambda>r. (ck_revision r, ck_schema r, ck_position r)) (st i) in
     case next_revision w current of
       Inl rej \<Rightarrow> (Inl (CkRejected rej), st)
     | Inr revision \<Rightarrow>
         (Inr revision, st(i \<mapsto> \<lparr>ck_revision = revision, ck_schema = cw_schema w, ck_position = cw_position w,
                          ck_state = cw_state w\<rparr>)))"

section \<open>Snapshots\<close>

datatype ('s, 'p) hydrated = HyAbsent | HyStale schema_version | HyFound 'p 's

definition into_found :: "('s, 'p) hydrated \<Rightarrow> ('p \<times> 's) option" where
  "into_found h = (case h of HyFound p s \<Rightarrow> Some (p, s) | HyAbsent \<Rightarrow> None | HyStale _ \<Rightarrow> None)"

type_synonym ('s, 'p) snap_store = "bytes \<rightharpoonup> (schema_version \<times> 'p \<times> 's)"

definition snap_new :: "('s, 'p) snap_store" where
  "snap_new = Map.empty"

definition snap_hydrate :: "('s, 'p) snap_store \<Rightarrow> bytes \<Rightarrow> schema_version \<Rightarrow> (('s, 'p) hydrated, 'e) result" where
  "snap_hydrate st i schema =
    Inr (case st i of
           None \<Rightarrow> HyAbsent
         | Some (stored, position, state) \<Rightarrow>
             if stored \<noteq> schema then HyStale stored else HyFound position state)"

definition snap_commit ::
  "bytes \<Rightarrow> schema_version \<Rightarrow> 'p \<Rightarrow> 's \<Rightarrow> ('s, 'p) snap_store \<Rightarrow> (unit, 'e) result \<times> ('s, 'p) snap_store" where
  "snap_commit i schema position state st = (Inr (), st(i \<mapsto> (schema, position, state)))"

section \<open>Persist triggers\<close>

definition every_n_events :: "64 nonzero \<Rightarrow> version option \<Rightarrow> version \<Rightarrow> bytes list \<Rightarrow> bool" where
  "every_n_events n old_version new_version event_names =
    (let old_bucket = (case old_version of None \<Rightarrow> 0 | Some v \<Rightarrow> as_u64 v div get n);
         new_bucket = as_u64 new_version div get n
     in new_bucket > old_bucket)"

definition after_event_types :: "bytes list \<Rightarrow> 'p option \<Rightarrow> 'p \<Rightarrow> bytes list \<Rightarrow> bool" where
  "after_event_types types old_position new_position event_names =
    list_ex (\<lambda>name. list_ex (\<lambda>t. t = name) types) event_names"

section \<open>The codec bridge\<close>

record ('x, 'enc, 'dec) codec =
  cd_encode :: "'x \<Rightarrow> (bytes, 'enc) result"
  cd_decode :: "persisted_envelope \<Rightarrow> ('x, 'dec) result"

datatype ('s, 'enc, 'dec) codec_store_error =
    CsStore 's
  | CsEncode 'enc
  | CsDecode 'dec
  | CsEnvelopeSynthesis for_decode_error

text \<open>The bytes of a stored state are wrapped in a synthetic envelope, under the id's label, for
the codec to decode.\<close>

definition decode_state ::
  "('x, 'enc, 'dec) codec \<Rightarrow> bytes \<Rightarrow> bytes \<Rightarrow> ('x, ('s, 'enc, 'dec) codec_store_error) result call" where
  "decode_state cd label bs =
    call_bind (for_decode label bs) (\<lambda>r. Returns (
      and_then (map_err CsEnvelopeSynthesis r) (\<lambda>env. map_err CsDecode (cd_decode cd env))))"

definition codec_hydrate ::
  "('x, 'enc, 'dec) codec \<Rightarrow> (bytes \<Rightarrow> schema_version \<Rightarrow> ((bytes, 'p) hydrated, 'err) result) \<Rightarrow> bytes \<Rightarrow> bytes
    \<Rightarrow> schema_version \<Rightarrow> (('x, 'p) hydrated, ('err, 'enc, 'dec) codec_store_error) result call" where
  "codec_hydrate cd hydrate label i schema =
    (case hydrate i schema of
       Inl e \<Rightarrow> Returns (Inl (CsStore e))
     | Inr HyAbsent \<Rightarrow> Returns (Inr HyAbsent)
     | Inr (HyStale stored) \<Rightarrow> Returns (Inr (HyStale stored))
     | Inr (HyFound position bs) \<Rightarrow>
         call_bind (decode_state cd label bs) (\<lambda>r. Returns (map_ok (HyFound position) r)))"

definition codec_commit ::
  "('x, 'enc, 'dec) codec
    \<Rightarrow> (bytes \<Rightarrow> schema_version \<Rightarrow> 'p \<Rightarrow> bytes \<Rightarrow> 'st \<Rightarrow> (unit, 'err) result \<times> 'st) \<Rightarrow> bytes \<Rightarrow> schema_version
    \<Rightarrow> 'p \<Rightarrow> 'x \<Rightarrow> 'st \<Rightarrow> (unit, ('err, 'enc, 'dec) codec_store_error) result \<times> 'st" where
  "codec_commit cd commit i schema position state st =
    (case cd_encode cd state of
       Inl e \<Rightarrow> (Inl (CsEncode e), st)
     | Inr bs \<Rightarrow> apfst (map_err CsStore) (commit i schema position bs st))"

definition codec_hydrate_checkpoint ::
  "('x, 'enc, 'dec) codec \<Rightarrow> (bytes \<Rightarrow> schema_version \<Rightarrow> ((bytes, 'p) checkpoint_hydrated, 'err) result) \<Rightarrow> bytes
    \<Rightarrow> bytes \<Rightarrow> schema_version \<Rightarrow> (('x, 'p) checkpoint_hydrated, ('err, 'enc, 'dec) codec_store_error) result call" where
  "codec_hydrate_checkpoint cd hydrate label i schema =
    (case hydrate i schema of
       Inl e \<Rightarrow> Returns (Inl (CsStore e))
     | Inr CkAbsent \<Rightarrow> Returns (Inr CkAbsent)
     | Inr (CkStale revision stored) \<Rightarrow> Returns (Inr (CkStale revision stored))
     | Inr (CkFound revision position bs) \<Rightarrow>
         call_bind (decode_state cd label bs) (\<lambda>r. Returns (map_ok (CkFound revision position) r)))"

definition codec_commit_checkpoint ::
  "('x, 'enc, 'dec) codec
    \<Rightarrow> (bytes \<Rightarrow> (bytes, 'p) checkpoint_write \<Rightarrow> 'st \<Rightarrow> (revision, 'err checkpoint_error) result \<times> 'st) \<Rightarrow> bytes
    \<Rightarrow> ('x, 'p) checkpoint_write \<Rightarrow> 'st
    \<Rightarrow> (revision, ('err, 'enc, 'dec) codec_store_error checkpoint_error) result \<times> 'st" where
  "codec_commit_checkpoint cd commit i w st =
    (case cd_encode cd (cw_state w) of
       Inl e \<Rightarrow> (Inl (CkStoreError (CsEncode e)), st)
     | Inr bs \<Rightarrow>
         apfst (map_err (\<lambda>err. case err of CkStoreError e \<Rightarrow> CkStoreError (CsStore e) | CkRejected r \<Rightarrow> CkRejected r))
           (commit i \<lparr>cw_expected = cw_expected w, cw_schema = cw_schema w, cw_position = cw_position w,
                     cw_state = bs, cw_mode = cw_mode w\<rparr> st))"

section \<open>The checkpoint contract\<close>

text \<open>What a reader with a given schema sees of a stored record, and the part of it a writer is
checked against.\<close>

definition ck_view ::
  "(revision \<times> schema_version \<times> 'p \<times> 's) option \<Rightarrow> schema_version \<Rightarrow> ('s, 'p) checkpoint_hydrated" where
  "ck_view stored schema =
    (case stored of
       None \<Rightarrow> CkAbsent
     | Some (r, sv, p, s) \<Rightarrow> if sv \<noteq> schema then CkStale r sv else CkFound r p s)"

definition ck_meta ::
  "(revision \<times> schema_version \<times> 'p \<times> 's) option \<Rightarrow> (revision \<times> schema_version \<times> 'p) option" where
  "ck_meta stored = map_option (\<lambda>(r, sv, p, s). (r, sv, p)) stored"

definition ck_written ::
  "revision \<Rightarrow> ('s, 'p) checkpoint_write \<Rightarrow> (revision \<times> schema_version \<times> 'p \<times> 's) option" where
  "ck_written r w = Some (r, cw_schema w, cw_position w, cw_state w)"

text \<open>A commit that reports success or a rejection says what happened; any other error leaves the
outcome open, as the trait's documentation warns.\<close>

lemma check_mode_Inr:
  "check_mode w cur = Inr () \<longleftrightarrow>
    (case cur of
       None \<Rightarrow> cw_mode w = Advance
     | Some (_, sv, p) \<Rightarrow>
         if cw_mode w = Advance then sv = cw_schema w \<and> p < cw_position w else sv \<noteq> cw_schema w)"
  by (cases "cw_mode w") (auto simp: check_mode_def split: option.splits)

lemma next_revision_Inr:
  "next_revision w cur = Inr r \<longleftrightarrow>
    cw_expected w = map_option fst cur \<and> check_mode w cur = Inr () \<and>
    vnum r = (case cur of None \<Rightarrow> 1 | Some c \<Rightarrow> Suc (vnum (fst c)))"
proof (cases cur)
  case None
  have "nonzero_new 1 = Some r \<longleftrightarrow> vnum r = 1"
    by (auto simp: vnum_def as_u64_def word_unat_eq_iff)
  with None show ?thesis by (auto simp: next_revision_def Let_def result_simps)
next
  case (Some c)
  have "Option.bind (checked_add (get (fst c)) 1) nonzero_new = Some r \<longleftrightarrow> vnum r = Suc (vnum (fst c))"
    by (simp add: bind_eq_Some_conv checked_add_Some vnum_def as_u64_def)
  with Some show ?thesis by (auto simp: next_revision_def Let_def result_simps)
qed

locale checkpoint_store =
  fixes hydrate :: "'st \<Rightarrow> bytes \<Rightarrow> schema_version \<Rightarrow> (('s, 'p::linorder) checkpoint_hydrated, 'err) result"
    and commit :: "bytes \<Rightarrow> ('s, 'p) checkpoint_write \<Rightarrow> 'st \<Rightarrow> (revision, 'err checkpoint_error) result \<times> 'st"
    and stored :: "'st \<Rightarrow> bytes \<Rightarrow> (revision \<times> schema_version \<times> 'p \<times> 's) option"
  assumes hydrate_ok: "hydrate st i sv = Inr h \<Longrightarrow> h = ck_view (stored st i) sv"
    and commit_ok: "commit i w st = (Inr r, st') \<Longrightarrow>
      next_revision w (ck_meta (stored st i)) = Inr r \<and> stored st' i = ck_written r w"
    and commit_rejected: "commit i w st = (Inl (CkRejected rej), st') \<Longrightarrow>
      next_revision w (ck_meta (stored st i)) = Inl rej \<and> stored st' i = stored st i"
    and commit_uncertain: "commit i w st = (Inl (CkStoreError e), st') \<Longrightarrow>
      stored st' i = stored st i \<or>
      (\<exists>r. next_revision w (ck_meta (stored st i)) = Inr r \<and> stored st' i = ck_written r w)"
    and commit_frame: "commit i w st = (res, st') \<Longrightarrow> j \<noteq> i \<Longrightarrow> stored st' j = stored st j"
begin

lemma commit_step:
  assumes "commit i w st = (res, st')"
  shows "stored st' i = stored st i \<or>
    (\<exists>r. next_revision w (ck_meta (stored st i)) = Inr r \<and> stored st' i = ck_written r w)"
proof (cases res)
  case (Inl e)
  with assms show ?thesis by (cases e) (use commit_rejected commit_uncertain in blast)+
next
  case (Inr r)
  with assms show ?thesis using commit_ok by blast
qed

text \<open>A committed record is either kept, or replaced by one whose revision is the successor and, under
an unchanged schema, whose position is further on.\<close>

lemma commit_progress:
  assumes "commit i w st = (res, st')" "stored st j = Some (r, sv, p, s)"
  shows "stored st' j = stored st j \<or>
    (\<exists>r' sv' p' s'. stored st' j = Some (r', sv', p', s') \<and> vnum r' = Suc (vnum r) \<and> (sv' = sv \<longrightarrow> p < p'))"
proof (cases "j = i")
  case False
  with assms(1) show ?thesis using commit_frame by blast
next
  case True
  with commit_step [OF assms(1)] assms(2) show ?thesis
    by (auto simp: next_revision_Inr check_mode_Inr ck_meta_def ck_written_def split: if_splits)
qed

lemma commit_keeps:
  assumes "commit i w st = (res, st')" "stored st j \<noteq> None"
  shows "stored st' j \<noteq> None"
  using assms commit_progress [OF assms(1)] by fastforce

end

section \<open>The in-memory store keeps the contract\<close>

definition ck_stored :: "('s, 'p) ck_store \<Rightarrow> bytes \<Rightarrow> (revision \<times> schema_version \<times> 'p \<times> 's) option" where
  "ck_stored st i = map_option (\<lambda>r. (ck_revision r, ck_schema r, ck_position r, ck_state r)) (st i)"

lemma ck_meta_stored: "ck_meta (ck_stored st i) = map_option (\<lambda>r. (ck_revision r, ck_schema r, ck_position r)) (st i)"
  by (cases "st i") (simp_all add: ck_meta_def ck_stored_def)

interpretation ckm: checkpoint_store ck_hydrate ck_commit ck_stored
proof unfold_locales
  show "h = ck_view (ck_stored st i) sv" if "ck_hydrate st i sv = Inr h" for st :: "('a, 'b) ck_store" and i sv h
    using that by (auto simp: ck_hydrate_def ck_view_def ck_stored_def split: option.splits)
qed (auto simp: ck_commit_def Let_def ck_meta_stored [symmetric] ck_written_def ck_stored_def split: sum.splits)

section \<open>Histories of commits\<close>

inductive ck_step :: "('s, 'p::linorder) ck_store \<Rightarrow> ('s, 'p) ck_store \<Rightarrow> bool" where
  ck_attempt: "ck_commit i w st = (r :: (revision, unit checkpoint_error) result, st') \<Longrightarrow> ck_step st st'"

lemma ck_steps_progress:
  assumes "ck_step\<^sup>*\<^sup>* st st'" "ck_stored st i = Some (r, sv, p, s)"
  shows "\<exists>r' sv' p' s'. ck_stored st' i = Some (r', sv', p', s') \<and>
    (vnum r < vnum r' \<or> (r', sv', p', s') = (r, sv, p, s))"
  using assms
proof (induction rule: rtranclp_induct)
  case base
  then show ?case by simp
next
  case (step y z)
  then obtain r1 sv1 p1 s1 where y: "ck_stored y i = Some (r1, sv1, p1, s1)"
    "vnum r < vnum r1 \<or> (r1, sv1, p1, s1) = (r, sv, p, s)" by blast
  from step.hyps(2) show ?case
  proof (cases rule: ck_step.cases)
    case (ck_attempt j w res)
    from ckm.commit_progress [OF this y(1)] y show ?thesis by fastforce
  qed
qed

section \<open>Properties\<close>

text \<open>C27: A projection checkpoint never goes back. Over any sequence of commit attempts on the store, the
  revision of an id's record only grows, a record with the same revision is the same record, and each
  single attempt that changes the record raises the revision by one and, when the schema stays the
  same, moves the position forward.\<close>

theorem checkpoint_never_regresses:
  assumes "ck_stored st i = Some (r, sv, p, s)" "ck_step\<^sup>*\<^sup>* st st'"
  shows "(\<exists>r' sv' p' s'. ck_stored st' i = Some (r', sv', p', s') \<and> r \<le> r' \<and>
      (r' = r \<longrightarrow> (sv', p', s') = (sv, p, s))) \<and>
    (ck_step st st' \<longrightarrow> ck_stored st' i = ck_stored st i \<or>
      (\<exists>r' sv' p' s'. ck_stored st' i = Some (r', sv', p', s') \<and> vnum r' = Suc (vnum r) \<and> (sv' = sv \<longrightarrow> p < p')))"
proof
  show "\<exists>r' sv' p' s'. ck_stored st' i = Some (r', sv', p', s') \<and> r \<le> r' \<and>
      (r' = r \<longrightarrow> (sv', p', s') = (sv, p, s))"
    using ck_steps_progress [OF assms(2,1)] by (auto simp: version_le_vnum)
  show "ck_step st st' \<longrightarrow> ck_stored st' i = ck_stored st i \<or>
      (\<exists>r' sv' p' s'. ck_stored st' i = Some (r', sv', p', s') \<and> vnum r' = Suc (vnum r) \<and> (sv' = sv \<longrightarrow> p < p'))"
    using ckm.commit_progress [OF _ assms(1)] by (auto elim!: ck_step.cases)
qed

definition sample_ck :: "(nat, nat) ck_store" where
  "sample_ck = [[1] \<mapsto> \<lparr>ck_revision = nz 1, ck_schema = nz 1, ck_position = 10, ck_state = 5\<rparr>]"

definition sample_ck_write :: "(nat, nat) checkpoint_write" where
  "sample_ck_write = \<lparr>cw_expected = Some (nz 1), cw_schema = nz 1, cw_position = 12, cw_state = 7, cw_mode = Advance\<rparr>"

lemma sample_ck_commit:
  obtains r st where "ck_commit [1] sample_ck_write sample_ck = (Inr r :: (revision, unit checkpoint_error) result, st)"
    "ck_stored sample_ck [1] = Some (nz 1, nz 1, 10, 5)" "ck_stored st [1] = Some (r, nz 1, 12, 7)"
proof -
  have one: "vnum (nz 1) = 1" by (simp add: vnum_def as_u64_def)
  have "next_revision sample_ck_write (Some (nz 1, nz 1, 10)) = Inr (version_of 2)"
    by (subst next_revision_Inr) (simp add: sample_ck_write_def check_mode_Inr vmax_def one)
  then have "ck_commit [1] sample_ck_write sample_ck = (Inr (version_of 2) :: (revision, unit checkpoint_error) result,
      sample_ck([1] \<mapsto> \<lparr>ck_revision = version_of 2, ck_schema = nz 1, ck_position = 12, ck_state = 7\<rparr>))"
    by (simp add: ck_commit_def sample_ck_def sample_ck_write_def)
  then show thesis by (rule that) (simp_all add: ck_stored_def sample_ck_def)
qed

theorem checkpoint_never_regresses_witness:
  "\<exists>st r sv p s. ck_step sample_ck st \<and> ck_stored st [1] = Some (r, sv, p, s) \<and> nz 1 \<le> r \<and> p = 12"
proof -
  obtain r st where c: "ck_commit [1] sample_ck_write sample_ck = (Inr r :: (revision, unit checkpoint_error) result, st)"
    "ck_stored sample_ck [1] = Some (nz 1, nz 1, 10, 5)" "ck_stored st [1] = Some (r, nz 1, 12, 7)"
    by (rule sample_ck_commit)
  have step: "ck_step sample_ck st" by (rule ck_attempt [OF c(1)])
  with checkpoint_never_regresses [OF c(2), of st] c(3) show ?thesis by auto
qed

text \<open>Of two writers that expect the same revision of a checkpoint only one succeeds. After a
  commit, and after whatever else has happened since, a write with the same expectation is rejected as
  a conflict and changes nothing.\<close>

theorem checkpoint_single_winner:
  assumes "ck_commit i w st = (Inr r :: (revision, unit checkpoint_error) result, st')" "ck_step\<^sup>*\<^sup>* st' st''"
    "cw_expected w' = cw_expected w"
  shows "\<exists>actual. ck_commit i w' st'' =
    (Inl (CkRejected (RejConflict (cw_expected w) actual)) :: (revision, unit checkpoint_error) result, st'')"
proof -
  have c: "next_revision w (ck_meta (ck_stored st i)) = Inr r" "ck_stored st' i = ck_written r w"
    using ckm.commit_ok [OF assms(1)] by simp_all
  obtain r2 sv2 p2 s2 where s2: "ck_stored st'' i = Some (r2, sv2, p2, s2)" "vnum r \<le> vnum r2"
    using ck_steps_progress [OF assms(2)] c(2) by (fastforce simp: ck_written_def)
  have "cw_expected w' \<noteq> Some r2"
  proof
    assume "cw_expected w' = Some r2"
    with assms(3) c(1) have "vnum r = Suc (vnum r2)" by (auto simp: next_revision_Inr split: option.splits)
    with s2(2) show False by simp
  qed
  moreover have "map_option fst (ck_meta (ck_stored st'' i)) = Some r2" using s2(1) by (simp add: ck_meta_def)
  ultimately have "next_revision w' (ck_meta (ck_stored st'' i)) = Inl (RejConflict (cw_expected w) (Some r2))"
    using assms(3) by (auto simp: next_revision_def Let_def)
  then show ?thesis by (simp add: ck_commit_def ck_meta_stored [symmetric])
qed

theorem checkpoint_single_winner_witness:
  "\<exists>r st actual. ck_commit [1] sample_ck_write sample_ck = (Inr r :: (revision, unit checkpoint_error) result, st) \<and>
    ck_commit [1] sample_ck_write st =
      (Inl (CkRejected (RejConflict (Some (nz 1)) actual)) :: (revision, unit checkpoint_error) result, st)"
proof -
  obtain r st where c: "ck_commit [1] sample_ck_write sample_ck = (Inr r :: (revision, unit checkpoint_error) result, st)"
    by (rule sample_ck_commit)
  from checkpoint_single_winner [OF c, of st sample_ck_write] c show ?thesis
    by (auto simp: sample_ck_write_def)
qed

text \<open>The every-n trigger fires exactly when the step from the old to the new version reaches or
  passes a multiple of \<open>n\<close>.\<close>

theorem every_n_events_fires_on_multiples:
  "every_n_events n old new_version names \<longleftrightarrow>
    (\<exists>m. (case old of None \<Rightarrow> 0 | Some v \<Rightarrow> vnum v) < m * unat (get n) \<and> m * unat (get n) \<le> vnum new_version)"
proof -
  let ?n = "unat (get n)" and ?old = "case old of None \<Rightarrow> 0 | Some v \<Rightarrow> vnum v"
  have pos: "0 < ?n" by simp
  have "every_n_events n old new_version names \<longleftrightarrow> ?old div ?n < vnum new_version div ?n"
    by (cases old) (simp_all add: every_n_events_def Let_def word_less_nat_alt unat_div vnum_def)
  also have "\<dots> \<longleftrightarrow> (\<exists>m. ?old < m * ?n \<and> m * ?n \<le> vnum new_version)"
  proof
    assume l: "?old div ?n < vnum new_version div ?n"
    have "?old < (vnum new_version div ?n) * ?n" using l pos by (simp add: div_less_iff_less_mult)
    moreover have "(vnum new_version div ?n) * ?n \<le> vnum new_version" by (simp add: div_times_less_eq_dividend)
    ultimately show "\<exists>m. ?old < m * ?n \<and> m * ?n \<le> vnum new_version" by blast
  next
    assume "\<exists>m. ?old < m * ?n \<and> m * ?n \<le> vnum new_version"
    then obtain m where m: "?old < m * ?n" "m * ?n \<le> vnum new_version" by blast
    have "?old div ?n < m" using m(1) pos by (simp add: div_less_iff_less_mult)
    moreover have "m \<le> vnum new_version div ?n" using m(2) pos by (simp add: less_eq_div_iff_mult_less_eq)
    ultimately show "?old div ?n < vnum new_version div ?n" by simp
  qed
  finally show ?thesis .
qed

end
