(* ===== verification/Decoded_Streams.thy ===== *)
theory Decoded_Streams
  imports Checkpoints
begin

text \<open>
  The consumer's typed view over raw streams: the phase marker of \<open>crates/store/src/step.rs\<close>
  and the decoding combinators of \<open>decoded.rs\<close>. A stream is the list of the items it has
  yielded; an item of a stream of reads is a result. The two item shapes that implement the sealed
  trait \<open>RawItem\<close> are the constructors of \<open>raw_item\<close>, their typed duals those of
  \<open>typed_item\<close>.
\<close>

section \<open>Steps\<close>

datatype 'a stream_step = StepEvent 'a | CaughtUp

definition step_event :: "'a stream_step \<Rightarrow> 'a option" where
  "step_event s = (case s of StepEvent t \<Rightarrow> Some t | CaughtUp \<Rightarrow> None)"

definition is_caught_up :: "'a stream_step \<Rightarrow> bool" where
  "is_caught_up s = (case s of CaughtUp \<Rightarrow> True | StepEvent _ \<Rightarrow> False)"

definition step_map :: "('a \<Rightarrow> 'b) \<Rightarrow> 'a stream_step \<Rightarrow> 'b stream_step" where
  "step_map f s = (case s of StepEvent t \<Rightarrow> StepEvent (f t) | CaughtUp \<Rightarrow> CaughtUp)"

lemmas step_simps = step_event_def is_caught_up_def step_map_def

section \<open>Decoding\<close>

record 'e decoded =
  dc_event :: 'e
  dc_version :: version
  dc_metadata :: "bytes option"

datatype ('r, 'd) decode_stream_error = DsRead 'r | DsDecode 'd

datatype ('r, 'd, 'h) fold_decoded_error = FdRead 'r | FdDecode 'd | FdHandler 'h

datatype 'p raw_item = StreamItem persisted_envelope | AllItem 'p stream_key persisted_envelope

datatype ('p, 'e) typed_item = StreamTyped "'e decoded" | AllTyped 'p stream_key "'e decoded"

definition item_envelope :: "'p raw_item \<Rightarrow> persisted_envelope" where
  "item_envelope i = (case i of StreamItem env \<Rightarrow> env | AllItem _ _ env \<Rightarrow> env)"

definition retag :: "'p raw_item \<Rightarrow> 'e decoded \<Rightarrow> ('p, 'e) typed_item" where
  "retag i d = (case i of StreamItem _ \<Rightarrow> StreamTyped d | AllItem p k _ \<Rightarrow> AllTyped p k d)"

definition decode_item ::
  "(persisted_envelope \<Rightarrow> ('e, 'd) result) \<Rightarrow> 'p raw_item \<Rightarrow> (('p, 'e) typed_item, ('r, 'd) decode_stream_error) result" where
  "decode_item decode item =
    and_then (map_err DsDecode (decode (item_envelope item))) (\<lambda>event.
      let env = item_envelope item in
      Inr (retag item \<lparr>dc_event = event, dc_version = ps_version env, dc_metadata = ps_metadata env\<rparr>))"

definition decoded_stream ::
  "(persisted_envelope \<Rightarrow> ('e, 'd) result) \<Rightarrow> ('p raw_item, 'r) result list
    \<Rightarrow> (('p, 'e) typed_item, ('r, 'd) decode_stream_error) result list" where
  "decoded_stream decode xs = map (\<lambda>res. and_then (map_err DsRead res) (decode_item decode)) xs"

text \<open>Internal iteration: the handler \<open>f\<close> is a closure over a state of the caller, which a
failing call may have changed as well.\<close>

definition fold_one ::
  "(persisted_envelope \<Rightarrow> ('e, 'd) result) \<Rightarrow> ('e decoded \<Rightarrow> 'h \<Rightarrow> (unit, 'he) result \<times> 'h) \<Rightarrow> persisted_envelope \<Rightarrow> 'h
    \<Rightarrow> (unit, ('r, 'd, 'he) fold_decoded_error) result \<times> 'h" where
  "fold_one decode f env h =
    (case decode env of
       Inl e \<Rightarrow> (Inl (FdDecode e), h)
     | Inr window \<Rightarrow>
         apfst (map_err FdHandler)
           (f \<lparr>dc_event = window, dc_version = ps_version env, dc_metadata = ps_metadata env\<rparr> h))"

fun for_each_decoded ::
  "(persisted_envelope \<Rightarrow> ('e, 'd) result) \<Rightarrow> ('e decoded \<Rightarrow> 'h \<Rightarrow> (unit, 'he) result \<times> 'h)
    \<Rightarrow> ('p raw_item, 'r) result list \<Rightarrow> 'h \<Rightarrow> (unit, ('r, 'd, 'he) fold_decoded_error) result \<times> 'h" where
  "for_each_decoded decode f [] h = (Inr (), h)"
| "for_each_decoded decode f (Inl e # xs) h = (Inl (FdRead e), h)"
| "for_each_decoded decode f (Inr item # xs) h =
    (case fold_one decode f (item_envelope item) h of
       (Inl e, h') \<Rightarrow> (Inl e, h')
     | (Inr _, h') \<Rightarrow> for_each_decoded decode f xs h')"

definition stream_events :: "('i stream_step, 'r) result list \<Rightarrow> ('i, 'r) result list" where
  "stream_events xs =
    List.map_filter (\<lambda>res. case res of
        Inr (StepEvent item) \<Rightarrow> Some (Inr item)
      | Inr CaughtUp \<Rightarrow> None
      | Inl e \<Rightarrow> Some (Inl e)) xs"

definition decoded_steps ::
  "(persisted_envelope \<Rightarrow> ('e, 'd) result) \<Rightarrow> ('p raw_item stream_step, 'r) result list
    \<Rightarrow> (('p, 'e) typed_item stream_step, ('r, 'd) decode_stream_error) result list" where
  "decoded_steps decode xs =
    map (\<lambda>res. and_then (map_err DsRead res) (\<lambda>s. case s of
        CaughtUp \<Rightarrow> Inr CaughtUp
      | StepEvent item \<Rightarrow>
          let env = item_envelope item in
          and_then (map_err DsDecode (decode env)) (\<lambda>event.
            Inr (StepEvent (retag item \<lparr>dc_event = event, dc_version = ps_version env,
              dc_metadata = ps_metadata env\<rparr>))))) xs"

section \<open>The combinators agree\<close>

lemma stream_events_simps [simp]:
  "stream_events [] = []"
  "stream_events (Inl e # xs) = Inl e # stream_events xs"
  "stream_events (Inr (StepEvent i) # xs) = Inr i # stream_events xs"
  "stream_events (Inr CaughtUp # xs) = stream_events xs"
  "stream_events (xs @ ys) = stream_events xs @ stream_events ys"
  by (simp_all add: stream_events_def List.map_filter_def)

lemma decode_then_drop_phase:
  "stream_events (decoded_steps decode xs) = decoded_stream decode (stream_events xs)"
proof (induction xs)
  case (Cons x xs)
  have c: "decoded_steps decode (x # xs) =
      and_then (map_err DsRead x) (\<lambda>s. case s of CaughtUp \<Rightarrow> Inr CaughtUp
        | StepEvent item \<Rightarrow> map_ok StepEvent (decode_item decode item)) # decoded_steps decode xs"
    by (auto simp: decoded_steps_def decode_item_def Let_def map_ok_def and_then_def
        split: stream_step.splits sum.splits)
  show ?case
  proof (cases x)
    case (Inl e)
    with c Cons show ?thesis by (simp add: decoded_stream_def)
  next
    case (Inr s)
    show ?thesis
    proof (cases s)
      case (StepEvent item)
      with Inr c Cons show ?thesis
        by (cases "decode (item_envelope item)")
          (simp_all add: decoded_stream_def decode_item_def Let_def map_ok_def)
    qed (use Inr c Cons in \<open>simp add: decoded_stream_def\<close>)
  qed
qed (simp add: decoded_steps_def decoded_stream_def)

text \<open>What the external stream carries for an item, without the tag beside it.\<close>

definition typed_decoded :: "('p, 'e) typed_item \<Rightarrow> 'e decoded" where
  "typed_decoded t = (case t of StreamTyped d \<Rightarrow> d | AllTyped _ _ d \<Rightarrow> d)"

text \<open>A loop over the external stream that stops at the first error.\<close>

fun fold_typed ::
  "('e decoded \<Rightarrow> 'h \<Rightarrow> (unit, 'he) result \<times> 'h) \<Rightarrow> (('p, 'e) typed_item, ('r, 'd) decode_stream_error) result list
    \<Rightarrow> 'h \<Rightarrow> (unit, ('r, 'd, 'he) fold_decoded_error) result \<times> 'h" where
  "fold_typed f [] h = (Inr (), h)"
| "fold_typed f (Inl (DsRead e) # xs) h = (Inl (FdRead e), h)"
| "fold_typed f (Inl (DsDecode e) # xs) h = (Inl (FdDecode e), h)"
| "fold_typed f (Inr t # xs) h =
    (case f (typed_decoded t) h of
       (Inl e, h') \<Rightarrow> (Inl (FdHandler e), h')
     | (Inr _, h') \<Rightarrow> fold_typed f xs h')"

lemma decode_item_cases:
  "decode_item decode item = (case decode (item_envelope item) of
      Inl e \<Rightarrow> Inl (DsDecode e)
    | Inr ev \<Rightarrow> Inr (retag item \<lparr>dc_event = ev, dc_version = ps_version (item_envelope item),
        dc_metadata = ps_metadata (item_envelope item)\<rparr>))"
  by (simp add: decode_item_def Let_def split: sum.split)

lemma typed_decoded_retag [simp]: "typed_decoded (retag item d) = d"
  by (cases item) (simp_all add: typed_decoded_def retag_def)

lemma for_each_is_fold:
  "for_each_decoded decode f xs h = fold_typed f (decoded_stream decode xs) h"
proof (induction decode f xs h rule: for_each_decoded.induct)
  case (3 decode f item xs h)
  show ?case
  proof (cases "decode (item_envelope item)")
    case (Inl e)
    then show ?thesis by (simp add: fold_one_def decoded_stream_def decode_item_cases)
  next
    case (Inr ev)
    let ?d = "\<lparr>dc_event = ev, dc_version = ps_version (item_envelope item),
        dc_metadata = ps_metadata (item_envelope item)\<rparr>"
    obtain r h' where f: "f ?d h = (r, h')" by fastforce
    show ?thesis
    proof (cases r)
      case (Inl e)
      with f Inr show ?thesis by (simp add: fold_one_def decoded_stream_def decode_item_cases)
    next
      case R: (Inr u)
      with "3.IH" f Inr have "for_each_decoded decode f xs h' = fold_typed f (decoded_stream decode xs) h'"
        by (simp add: fold_one_def)
      with f Inr R show ?thesis by (simp add: fold_one_def decoded_stream_def decode_item_cases)
    qed
  qed
qed (simp_all add: decoded_stream_def)

section \<open>Properties\<close>

text \<open>The typed views of a stream agree. Decoding with the phase kept and then dropping the phase
  gives the same items as dropping the phase and then decoding, and the internal loop
  \<open>for_each_decoded\<close> calls its handler on the same decoded items, in the same order and up to the
  same first error, as a loop over the external stream \<open>decoded\<close>.\<close>

theorem decoded_views_agree:
  "stream_events (decoded_steps decode steps) = decoded_stream decode (stream_events steps) \<and>
    for_each_decoded decode f items h = fold_typed f (decoded_stream decode items) h"
  by (simp only: decode_then_drop_phase for_each_is_fold simp_thms)

end
