(* ===== verification/Projections.thy ===== *)
theory Projections
  imports Decoded_Streams
begin

text \<open>
  The projection stepper of \<open>crates/store/src/projection.rs\<close>. The projector, the persist
  trigger and the event's name are the user's code, so they are parameters (\<open>projector\<close>,
  \<open>trigger\<close>, \<open>name\<close>); \<open>apply_attributed\<close> may fail or panic. The checkpoint store is a parameter
  too: \<open>hydrate\<close> and \<open>commit\<close> with the contract of the locale \<open>checkpoint_store\<close>.

  \<open>flush\<close> is split at its only suspension point, the write: \<open>flush_begin\<close> is what has
  happened when the write starts, which is also the state a cancelled write leaves behind.
\<close>

section \<open>The projector\<close>

record ('s, 'e, 'ae) projector =
  pj_initial :: 's
  pj_apply_attributed :: "'s \<Rightarrow> stream_key option \<Rightarrow> 'e \<Rightarrow> ('s, 'ae) result call"

definition default_apply_attributed ::
  "('s \<Rightarrow> 'e \<Rightarrow> ('s, 'ae) result call) \<Rightarrow> 's \<Rightarrow> stream_key option \<Rightarrow> 'e \<Rightarrow> ('s, 'ae) result call" where
  "default_apply_attributed apply_event state key event = apply_event state event"

definition stream_into_parts :: "'e decoded \<Rightarrow> version \<times> stream_key option \<times> 'e decoded" where
  "stream_into_parts d = (dc_version d, None, d)"

definition all_into_parts :: "'p \<times> stream_key \<times> 'e decoded \<Rightarrow> 'p \<times> stream_key option \<times> 'e decoded" where
  "all_into_parts i = (fst i, Some (fst (snd i)), snd (snd i))"

section \<open>The stepper\<close>

record ('s, 'p) projection =
  pr_id :: bytes
  pr_schema :: schema_version
  pr_state :: "'s option"
  pr_revision :: "revision option"
  pr_checkpoint :: "'p option"
  pr_observed :: "'p option"
  pr_reload_required :: bool
  pr_rebuilt_from :: "schema_version option"

datatype projection_state_error = Poisoned | ReloadRequired

datatype ('ae, 'err) projection_error =
    PjApply 'ae
  | PjCommit "'err checkpoint_error"
  | PjState projection_state_error
  | PjNonIncreasingPosition

definition assemble ::
  "(bytes \<Rightarrow> schema_version \<Rightarrow> (('s, 'p) checkpoint_hydrated, 'err) result) \<Rightarrow> ('s, 'e, 'ae) projector \<Rightarrow> bytes
    \<Rightarrow> schema_version \<times> checkpoint_mode \<Rightarrow> (('s, 'p) projection, 'err checkpoint_error) result" where
  "assemble hydrate projector i schema =
    (let (schema_version, mode) = schema in
     and_then (map_err CkStoreError (hydrate i schema_version)) (\<lambda>hydrated.
     and_then
       (case (mode, hydrated) of
          (Advance, CkFound revision position state) \<Rightarrow> Inr (state, Some position, Some revision, None)
        | (Advance, CkAbsent) \<Rightarrow> Inr (pj_initial projector, None, None, None)
        | (Advance, CkStale _ stored_schema) \<Rightarrow> Inl (CkRejected (RejSchemaMismatch stored_schema schema_version))
        | (Rebuild, CkStale revision stored_schema) \<Rightarrow>
            Inr (pj_initial projector, None, Some revision, Some stored_schema)
        | (Rebuild, CkAbsent) \<Rightarrow> Inl (CkRejected RejInvalidRebuild)
        | (Rebuild, CkFound _ _ _) \<Rightarrow> Inl (CkRejected RejInvalidRebuild))
       (\<lambda>(state, checkpoint, revision, rebuilt_from).
          Inr \<lparr>pr_id = i, pr_schema = schema_version, pr_state = Some state, pr_revision = revision,
            pr_checkpoint = checkpoint, pr_observed = checkpoint, pr_reload_required = False,
            pr_rebuilt_from = rebuilt_from\<rparr>)))"

definition load_projection ::
  "(bytes \<Rightarrow> schema_version \<Rightarrow> (('s, 'p) checkpoint_hydrated, 'err) result) \<Rightarrow> ('s, 'e, 'ae) projector \<Rightarrow> bytes
    \<Rightarrow> schema_version \<Rightarrow> (('s, 'p) projection, 'err checkpoint_error) result" where
  "load_projection hydrate projector i schema_version = assemble hydrate projector i (schema_version, Advance)"

definition rebuild_projection ::
  "(bytes \<Rightarrow> schema_version \<Rightarrow> (('s, 'p) checkpoint_hydrated, 'err) result) \<Rightarrow> ('s, 'e, 'ae) projector \<Rightarrow> bytes
    \<Rightarrow> schema_version \<Rightarrow> (('s, 'p) projection, 'err checkpoint_error) result" where
  "rebuild_projection hydrate projector i schema_version = assemble hydrate projector i (schema_version, Rebuild)"

definition projection_state :: "('s, 'p) projection \<Rightarrow> ('s, projection_state_error) result" where
  "projection_state pr = (if pr_reload_required pr then Inl ReloadRequired else ok_or Poisoned (pr_state pr))"

datatype ('s, 'p) flush_start =
    FlushRefused projection_state_error
  | FlushNothing
  | FlushWrite "('s, 'p) checkpoint_write" "('s, 'p) projection"

definition flush_begin :: "('s, 'p) projection \<Rightarrow> ('s, 'p) flush_start" where
  "flush_begin pr =
    (case projection_state pr of
       Inl e \<Rightarrow> FlushRefused e
     | Inr state \<Rightarrow>
       (case (case pr_observed pr of None \<Rightarrow> None | Some p \<Rightarrow> if Some p \<noteq> pr_checkpoint pr then Some p else None) of
          None \<Rightarrow> FlushNothing
        | Some position \<Rightarrow>
            let mode = (if pr_checkpoint pr = None \<and> pr_revision pr \<noteq> None then Rebuild else Advance) in
            FlushWrite \<lparr>cw_expected = pr_revision pr, cw_schema = pr_schema pr, cw_position = position,
                cw_state = state, cw_mode = mode\<rparr> (pr\<lparr>pr_reload_required := True\<rparr>)))"

definition flush ::
  "(bytes \<Rightarrow> ('s, 'p) checkpoint_write \<Rightarrow> 'st \<Rightarrow> (revision, 'err checkpoint_error) result \<times> 'st)
    \<Rightarrow> ('s, 'p) projection \<Rightarrow> 'st \<Rightarrow> (unit, ('ae, 'err) projection_error) result \<times> ('s, 'p) projection \<times> 'st" where
  "flush commit pr st =
    (case flush_begin pr of
       FlushRefused e \<Rightarrow> (Inl (PjState e), pr, st)
     | FlushNothing \<Rightarrow> (Inr (), pr, st)
     | FlushWrite w pr' \<Rightarrow>
       (case commit (pr_id pr) w st of
          (Inl e, st') \<Rightarrow> (Inl (PjCommit e), pr', st')
        | (Inr revision, st') \<Rightarrow>
            (Inr (), pr'\<lparr>pr_revision := Some revision, pr_checkpoint := Some (cw_position w),
                      pr_reload_required := False\<rparr>, st')))"

definition advance ::
  "('s, 'e, 'ae) projector \<Rightarrow> ('p::linorder option \<Rightarrow> 'p \<Rightarrow> bytes list \<Rightarrow> bool) \<Rightarrow> ('e \<Rightarrow> bytes)
    \<Rightarrow> ('i \<Rightarrow> 'p \<times> stream_key option \<times> 'e decoded)
    \<Rightarrow> (bytes \<Rightarrow> ('s, 'p) checkpoint_write \<Rightarrow> 'st \<Rightarrow> (revision, 'err checkpoint_error) result \<times> 'st)
    \<Rightarrow> 'i \<Rightarrow> ('s, 'p) projection \<Rightarrow> 'st
    \<Rightarrow> (unit, ('ae, 'err) projection_error) result call \<times> ('s, 'p) projection \<times> 'st" where
  "advance projector trigger name into_parts commit item pr st =
    (case projection_state pr of
       Inl e \<Rightarrow> (Returns (Inl (PjState e)), pr, st)
     | Inr state \<Rightarrow>
       let (position, key, decoded) = into_parts item in
       if (case pr_observed pr of None \<Rightarrow> False | Some previous \<Rightarrow> position \<le> previous)
       then (Returns (Inl PjNonIncreasingPosition), pr, st)
       else case pj_apply_attributed projector state key (dc_event decoded) of
         Panics \<Rightarrow> (Panics, pr\<lparr>pr_state := None\<rparr>, st)
       | Returns (Inl e) \<Rightarrow> (Returns (Inl (PjApply e)), pr\<lparr>pr_state := None\<rparr>, st)
       | Returns (Inr folded) \<Rightarrow>
           let pr = pr\<lparr>pr_state := Some folded, pr_observed := Some position\<rparr> in
           if trigger (pr_checkpoint pr) position [name (dc_event decoded)]
           then apfst Returns (flush commit pr st)
           else (Returns (Inr ()), pr, st))"

section \<open>The read model a position stands for\<close>

text \<open>Folding the whole log up to a position, each event once.\<close>

primrec fold_items ::
  "('s, 'e, 'ae) projector \<Rightarrow> ('i \<Rightarrow> 'p \<times> stream_key option \<times> 'e decoded) \<Rightarrow> 'i list \<Rightarrow> 's \<Rightarrow> 's option" where
  "fold_items projector into_parts [] s = Some s"
| "fold_items projector into_parts (i # is) s =
    (case into_parts i of (_, key, d) \<Rightarrow>
      (case pj_apply_attributed projector s key (dc_event d) of
         Returns (Inr s') \<Rightarrow> fold_items projector into_parts is s'
       | Returns (Inl _) \<Rightarrow> None
       | Panics \<Rightarrow> None))"

definition upto :: "('i \<Rightarrow> 'p::linorder \<times> 'x) \<Rightarrow> 'i list \<Rightarrow> 'p option \<Rightarrow> 'i list" where
  "upto into_parts log p = filter (\<lambda>i. case p of None \<Rightarrow> False | Some q \<Rightarrow> fst (into_parts i) \<le> q) log"

definition read_model ::
  "('s, 'e, 'ae) projector \<Rightarrow> ('i \<Rightarrow> 'p::linorder \<times> stream_key option \<times> 'e decoded) \<Rightarrow> 'i list \<Rightarrow> 'p option \<Rightarrow> 's option" where
  "read_model projector into_parts log p = fold_items projector into_parts (upto into_parts log p) (pj_initial projector)"

text \<open>At-least-once delivery in log order: the next event after the last one seen, or again an
event that was already seen.\<close>

definition deliverable ::
  "('i \<Rightarrow> 'p::linorder \<times> 'x) \<Rightarrow> 'i list \<Rightarrow> 'p option \<Rightarrow> 'i \<Rightarrow> bool" where
  "deliverable into_parts log seen i \<longleftrightarrow>
    (case seen of
       None \<Rightarrow> log \<noteq> [] \<and> hd log = i
     | Some q \<Rightarrow> (i \<in> set log \<and> fst (into_parts i) \<le> q) \<or>
         (\<exists>rest. filter (\<lambda>j. q < fst (into_parts j)) log = i # rest))"

section \<open>Workers over one checkpoint\<close>

text \<open>Any number of workers, each an instance of the same projection, over one store: they load or
rebuild, are fed, flush, are cancelled in the middle of a write whose outcome is open, and crash.\<close>

inductive proj_step ::
  "('s, 'e, 'ae) projector \<Rightarrow> ('p::linorder option \<Rightarrow> 'p \<Rightarrow> bytes list \<Rightarrow> bool) \<Rightarrow> ('e \<Rightarrow> bytes)
    \<Rightarrow> ('i \<Rightarrow> 'p \<times> stream_key option \<times> 'e decoded)
    \<Rightarrow> ('st \<Rightarrow> bytes \<Rightarrow> schema_version \<Rightarrow> (('s, 'p) checkpoint_hydrated, 'err) result)
    \<Rightarrow> (bytes \<Rightarrow> ('s, 'p) checkpoint_write \<Rightarrow> 'st \<Rightarrow> (revision, 'err checkpoint_error) result \<times> 'st)
    \<Rightarrow> bytes \<Rightarrow> schema_version \<Rightarrow> 'i list
    \<Rightarrow> 'st \<times> (nat \<rightharpoonup> ('s, 'p) projection) \<Rightarrow> 'st \<times> (nat \<rightharpoonup> ('s, 'p) projection) \<Rightarrow> bool"
  for projector trigger name into_parts hydrate commit pid schema log where
  ps_load: "load_projection (hydrate st) projector pid schema = Inr pr \<Longrightarrow>
    proj_step projector trigger name into_parts hydrate commit pid schema log (st, ws) (st, ws(n \<mapsto> pr))"
| ps_rebuild: "rebuild_projection (hydrate st) projector pid schema = Inr pr \<Longrightarrow>
    proj_step projector trigger name into_parts hydrate commit pid schema log (st, ws) (st, ws(n \<mapsto> pr))"
| ps_advance: "ws n = Some pr \<Longrightarrow> deliverable into_parts log (pr_observed pr) item \<Longrightarrow>
    advance projector trigger name into_parts commit item pr st = (r, pr', st') \<Longrightarrow>
    proj_step projector trigger name into_parts hydrate commit pid schema log (st, ws) (st', ws(n \<mapsto> pr'))"
| ps_flush: "ws n = Some pr \<Longrightarrow>
    flush commit pr st = (r :: (unit, (unit, 'err) projection_error) result, pr', st') \<Longrightarrow>
    proj_step projector trigger name into_parts hydrate commit pid schema log (st, ws) (st', ws(n \<mapsto> pr'))"
| ps_cancel: "ws n = Some pr \<Longrightarrow> flush_begin pr = FlushWrite w pr' \<Longrightarrow>
    st' = st \<or> st' = snd (commit (pr_id pr) w st) \<Longrightarrow>
    proj_step projector trigger name into_parts hydrate commit pid schema log (st, ws) (st', ws(n \<mapsto> pr'))"
| ps_crash: "proj_step projector trigger name into_parts hydrate commit pid schema log (st, ws) (st, ws(n := None))"

definition worker_inv ::
  "('s, 'e, 'ae) projector \<Rightarrow> ('i \<Rightarrow> 'p::linorder \<times> stream_key option \<times> 'e decoded) \<Rightarrow> 'i list \<Rightarrow> bytes \<Rightarrow> schema_version
    \<Rightarrow> ('s, 'p) projection \<Rightarrow> bool" where
  "worker_inv projector into_parts log pid schema pr \<longleftrightarrow> pr_id pr = pid \<and> pr_schema pr = schema \<and>
    (\<forall>s. pr_state pr = Some s \<longrightarrow> read_model projector into_parts log (pr_observed pr) = Some s)"

definition record_inv ::
  "('s, 'e, 'ae) projector \<Rightarrow> ('i \<Rightarrow> 'p::linorder \<times> stream_key option \<times> 'e decoded) \<Rightarrow> 'i list \<Rightarrow> schema_version
    \<Rightarrow> (revision \<times> schema_version \<times> 'p \<times> 's) option \<Rightarrow> bool" where
  "record_inv projector into_parts log schema stored \<longleftrightarrow>
    (\<forall>r p s. stored = Some (r, schema, p, s) \<longrightarrow> read_model projector into_parts log (Some p) = Some s)"

lemma fold_items_append:
  "fold_items projector into_parts (is @ js) s =
    Option.bind (fold_items projector into_parts is s) (fold_items projector into_parts js)"
  by (induction "is" arbitrary: s) (auto split: call.splits sum.splits prod.splits)

lemma filter_upto_sorted:
  fixes f :: "'i \<Rightarrow> 'p::linorder"
  assumes "sorted_wrt (<) (map f (xs @ i # rest))"
  shows "filter (\<lambda>j. f j \<le> f i) (xs @ i # rest) = xs @ [i]"
  using assms by (auto simp: sorted_wrt_append filter_id_conv filter_empty_conv not_le)

lemma upto_next:
  assumes "sorted_wrt (<) (map (\<lambda>i. fst (into_parts i)) log)" "deliverable into_parts log seen i"
    "\<not> (case seen of None \<Rightarrow> False | Some q \<Rightarrow> fst (into_parts i) \<le> q)"
  shows "upto into_parts log (Some (fst (into_parts i))) = upto into_parts log seen @ [i]"
proof -
  let ?f = "\<lambda>i. fst (into_parts i)" and ?old = "\<lambda>j. case seen of None \<Rightarrow> False | Some q \<Rightarrow> fst (into_parts j) \<le> q"
  obtain rest where rest: "filter (\<lambda>j. \<not> ?old j) log = i # rest"
  proof (cases seen)
    case None
    with assms(2) that [of "tl log"] show thesis by (cases log) (auto simp: deliverable_def)
  next
    case (Some q)
    with assms(2,3) that show thesis by (auto simp: deliverable_def not_le)
  qed
  have down: "?old j \<Longrightarrow> ?f k \<le> ?f j \<Longrightarrow> ?old k" for j k by (cases seen) auto
  have split: "log = filter ?old log @ filter (\<lambda>j. \<not> ?old j) log"
    using assms(1)
  proof (induction log)
    case (Cons x xs)
    show ?case
    proof (cases "?old x")
      case False
      with Cons.prems down have "\<forall>j \<in> set xs. \<not> ?old j" by (auto dest: less_imp_le)
      then have "filter ?old xs = []" "filter (\<lambda>j. \<not> ?old j) xs = xs" by (simp_all add: filter_empty_conv)
      with False show ?thesis by simp
    qed (use Cons in auto)
  qed simp
  have s: "sorted_wrt (<) (map ?f (filter ?old log @ i # rest))" using assms(1) split rest by simp
  have l: "filter ?old log @ i # rest = log" using split rest by simp
  from filter_upto_sorted [OF s] show ?thesis unfolding l by (simp add: upto_def)
qed

lemma read_model_next:
  assumes "sorted_wrt (<) (map (\<lambda>i. fst (into_parts i)) log)" "deliverable into_parts log seen i"
    "\<not> (case seen of None \<Rightarrow> False | Some q \<Rightarrow> fst (into_parts i) \<le> q)"
    "into_parts i = (position, key, d)" "read_model projector into_parts log seen = Some s"
    "pj_apply_attributed projector s key (dc_event d) = Returns (Inr s')"
  shows "read_model projector into_parts log (Some position) = Some s'"
  using upto_next [OF assms(1-3)] assms(4-6) by (simp add: read_model_def fold_items_append)

context checkpoint_store
begin

lemma load_inv:
  assumes "assemble (hydrate st) projector pid (schema, m) = Inr pr"
    "record_inv projector into_parts log schema (stored st pid)"
  shows "worker_inv projector into_parts log pid schema pr"
proof -
  obtain h where h: "hydrate st pid schema = Inr h"
    using assms(1) by (cases "hydrate st pid schema") (simp_all add: assemble_def)
  have v: "h = ck_view (stored st pid) schema" by (rule hydrate_ok [OF h])
  have init: "read_model projector into_parts log None = Some (pj_initial projector)"
    by (simp add: read_model_def upto_def)
  show ?thesis
  proof (cases h)
    case (CkFound r p s)
    with v have "stored st pid = Some (r, schema, p, s)"
      by (auto simp: ck_view_def split: option.splits if_splits)
    with assms(2) have "read_model projector into_parts log (Some p) = Some s" by (simp add: record_inv_def)
    with assms(1) h CkFound show ?thesis
      by (cases m) (auto simp: assemble_def worker_inv_def)
  qed (use assms(1) h init in \<open>cases m; auto simp: assemble_def worker_inv_def\<close>)+
qed

lemma write_inv:
  assumes "worker_inv projector into_parts log pid schema pr" "flush_begin pr = FlushWrite w pr'"
    "record_inv projector into_parts log schema (stored st pid)"
    "stored st' pid = stored st pid \<or> (\<exists>r. stored st' pid = ck_written r w)"
  shows "record_inv projector into_parts log schema (stored st' pid)"
    "worker_inv projector into_parts log pid schema pr'" "pr_id pr = pid"
    "pr' = pr\<lparr>pr_reload_required := True\<rparr>"
proof -
  obtain s where s: "pr_state pr = Some s" "\<not> pr_reload_required pr" "cw_state w = s"
    "pr_observed pr = Some (cw_position w)" "cw_schema w = pr_schema pr" "pr' = pr\<lparr>pr_reload_required := True\<rparr>"
    using assms(2) by (auto simp: flush_begin_def projection_state_def ok_or_def Let_def
        split: if_splits option.splits sum.splits)
  with assms(1) have "read_model projector into_parts log (Some (cw_position w)) = Some s"
    by (auto simp: worker_inv_def)
  with assms(3,4) s show "record_inv projector into_parts log schema (stored st' pid)"
    by (auto simp: record_inv_def ck_written_def)
  show "worker_inv projector into_parts log pid schema pr'" "pr_id pr = pid" "pr' = pr\<lparr>pr_reload_required := True\<rparr>"
    using assms(1) s by (auto simp: worker_inv_def)
qed

lemma flush_inv:
  assumes "worker_inv projector into_parts log pid schema pr"
    "record_inv projector into_parts log schema (stored st pid)"
    "flush commit pr st = (r, pr', st')"
  shows "record_inv projector into_parts log schema (stored st' pid) \<and> worker_inv projector into_parts log pid schema pr'"
proof (cases "flush_begin pr")
  case (FlushWrite w pr1)
  obtain res st1 where c: "commit (pr_id pr) w st = (res, st1)" by fastforce
  with FlushWrite assms(3) have st: "st' = st1" by (auto simp: flush_def split: sum.splits)
  have pid: "pr_id pr = pid" using assms(1) by (simp add: worker_inv_def)
  have "stored st' pid = stored st pid \<or> (\<exists>r. stored st' pid = ck_written r w)"
    using commit_step [OF c] pid st by auto
  note W = write_inv [OF assms(1) FlushWrite assms(2) this]
  show ?thesis
  proof (cases res)
    case (Inl e)
    with FlushWrite c assms(3) have "pr' = pr1" by (simp add: flush_def)
    with W show ?thesis by simp
  next
    case (Inr rv)
    with FlushWrite c assms(3) have "pr_id pr' = pr_id pr1" "pr_schema pr' = pr_schema pr1" "pr_state pr' = pr_state pr1"
      "pr_observed pr' = pr_observed pr1" by (auto simp: flush_def)
    with W show ?thesis by (simp add: worker_inv_def)
  qed
qed (use assms in \<open>auto simp: flush_def\<close>)

lemma advance_inv:
  fixes projector :: "('s, 'e, 'ae) projector"
  assumes "worker_inv projector into_parts log pid schema pr"
    "record_inv projector into_parts log schema (stored st pid)"
    "sorted_wrt (<) (map (\<lambda>i. fst (into_parts i)) log)" "deliverable into_parts log (pr_observed pr) item"
    "advance projector trigger name into_parts commit item pr st = (r, pr', st')"
  shows "record_inv projector into_parts log schema (stored st' pid) \<and> worker_inv projector into_parts log pid schema pr'"
proof (cases "projection_state pr")
  case (Inl e)
  with assms show ?thesis by (auto simp: advance_def)
next
  case (Inr s)
  then have s: "pr_state pr = Some s"
    by (auto simp: projection_state_def ok_or_def split: if_splits option.splits)
  obtain position key d where p: "into_parts item = (position, key, d)" by (cases "into_parts item")
  let ?dup = "case pr_observed pr of None \<Rightarrow> False | Some previous \<Rightarrow> position \<le> previous"
  let ?apply = "pj_apply_attributed projector s key (dc_event d)"
  have poisoned: "worker_inv projector into_parts log pid schema (pr\<lparr>pr_state := None\<rparr>)"
    using assms(1) by (simp add: worker_inv_def)
  consider (dup) ?dup | (fail) "\<not> ?dup" "pr' = pr\<lparr>pr_state := None\<rparr>" "st' = st"
    | (ok) s' where "\<not> ?dup" "?apply = Returns (Inr s')"
    using assms(5) Inr p by (cases ?apply) (auto simp: advance_def split: sum.splits if_splits)
  then show ?thesis
  proof cases
    case dup
    with assms Inr p show ?thesis by (auto simp: advance_def)
  next
    case fail
    with poisoned assms(2) show ?thesis by simp
  next
    case (ok s')
    let ?pr = "pr\<lparr>pr_state := Some s', pr_observed := Some position\<rparr>"
    have m: "read_model projector into_parts log (pr_observed pr) = Some s"
      using assms(1) s by (simp add: worker_inv_def)
    have "read_model projector into_parts log (Some position) = Some s'"
      by (rule read_model_next [OF assms(3,4) _ p m ok(2)]) (use ok(1) p in \<open>simp split: option.splits\<close>)
    then have w: "worker_inv projector into_parts log pid schema ?pr"
      using assms(1) by (simp add: worker_inv_def)
    show ?thesis
    proof (cases "trigger (pr_checkpoint ?pr) position [name (dc_event d)]")
      case True
      with assms(5) Inr p ok obtain r' where "flush commit ?pr st = (r' :: (unit, ('ae, 'err) projection_error) result, pr', st')"
        by (cases "flush commit ?pr st :: (unit, ('ae, 'err) projection_error) result \<times> _") (auto simp: advance_def Let_def)
      from flush_inv [OF w assms(2) this] show ?thesis .
    next
      case False
      with assms(2,5) Inr p ok w show ?thesis by (auto simp: advance_def Let_def)
    qed
  qed
qed

lemma proj_step_inv:
  assumes "proj_step projector trigger name into_parts hydrate commit pid schema log (st, ws) (st', ws')"
    "sorted_wrt (<) (map (\<lambda>i. fst (into_parts i)) log)"
    "record_inv projector into_parts log schema (stored st pid)"
    "\<And>n pr. ws n = Some pr \<Longrightarrow> worker_inv projector into_parts log pid schema pr"
  shows "record_inv projector into_parts log schema (stored st' pid) \<and>
    (\<forall>n pr. ws' n = Some pr \<longrightarrow> worker_inv projector into_parts log pid schema pr)"
  using assms(1)
proof (cases rule: proj_step.cases)
  case (ps_load pr n)
  then have "worker_inv projector into_parts log pid schema pr"
    using load_inv [OF _ assms(3)] by (simp add: load_projection_def)
  with ps_load assms(3,4) show ?thesis by auto
next
  case (ps_rebuild pr n)
  then have "worker_inv projector into_parts log pid schema pr"
    using load_inv [OF _ assms(3)] by (simp add: rebuild_projection_def)
  with ps_rebuild assms(3,4) show ?thesis by auto
next
  case (ps_advance n pr item r pr')
  from advance_inv [OF assms(4) [OF ps_advance(2)] assms(3,2) ps_advance(3,4)] show ?thesis
    using assms(4) ps_advance(1) by auto
next
  case (ps_flush n pr r pr')
  from flush_inv [OF assms(4) [OF ps_flush(2)] assms(3) ps_flush(3)] show ?thesis
    using assms(4) ps_flush(1) by auto
next
  case (ps_crash n)
  with assms(3,4) show ?thesis by (auto split: if_splits)
next
  case (ps_cancel n pr w pr')
  have wi: "worker_inv projector into_parts log pid schema pr" by (rule assms(4) [OF ps_cancel(2)])
  then have pid: "pr_id pr = pid" by (simp add: worker_inv_def)
  have "stored st' pid = stored st pid \<or> (\<exists>r. stored st' pid = ck_written r w)"
    using ps_cancel(4) commit_step [of pid w st "fst (commit pid w st)" "snd (commit pid w st)"] pid by auto
  from write_inv(1,2) [OF wi ps_cancel(3) assms(3) this] show ?thesis using assms(4) ps_cancel(1) by auto
qed

lemma proj_steps_inv:
  assumes "(proj_step projector trigger name into_parts hydrate commit pid schema log)\<^sup>*\<^sup>* a b"
    "sorted_wrt (<) (map (\<lambda>i. fst (into_parts i)) log)"
    "record_inv projector into_parts log schema (stored (fst a) pid)"
    "\<forall>n pr. snd a n = Some pr \<longrightarrow> worker_inv projector into_parts log pid schema pr"
  shows "record_inv projector into_parts log schema (stored (fst b) pid) \<and>
    (\<forall>n pr. snd b n = Some pr \<longrightarrow> worker_inv projector into_parts log pid schema pr)"
  using assms
proof (induction rule: rtranclp_induct)
  case (step y z)
  then show ?case
    using proj_step_inv [of projector trigger name into_parts pid schema log "fst y" "snd y" "fst z" "snd z"] by simp
qed simp

end

section \<open>Properties\<close>

text \<open>C7: Each event takes effect exactly once in a projection. Any number of workers load, rebuild, are fed
  events at least once and in order, flush, fail, have a write cancelled whose outcome is unknown, and
  crash. At every moment the stored checkpoint of the schema holds the fold of exactly the events up to its
  position, and the state a worker shows is the fold of exactly the events up to the position it last
  observed.\<close>

theorem projection_exactly_once:
  assumes "(proj_step projector trigger name into_parts ck_hydrate ck_commit pid schema log)\<^sup>*\<^sup>* (st0, Map.empty) (st, ws)"
    "sorted_wrt (<) (map (\<lambda>i. fst (into_parts i)) log)"
    "\<forall>r p s. ck_stored st0 pid \<noteq> Some (r, schema, p, s)"
  shows "(\<forall>r p s. ck_stored st pid = Some (r, schema, p, s) \<longrightarrow> read_model projector into_parts log (Some p) = Some s) \<and>
    (\<forall>n pr s. ws n = Some pr \<longrightarrow> projection_state pr = Inr s \<longrightarrow>
      read_model projector into_parts log (pr_observed pr) = Some s)"
proof -
  have R: "record_inv projector into_parts log schema (ck_stored st pid) \<and>
      (\<forall>n pr. ws n = Some pr \<longrightarrow> worker_inv projector into_parts log pid schema pr)"
    using ckm.proj_steps_inv [OF assms(1,2)] assms(3) by (simp add: record_inv_def)
  then have "pr_state pr = Some s \<Longrightarrow> ws n = Some pr \<Longrightarrow> read_model projector into_parts log (pr_observed pr) = Some s" for n pr s
    by (simp add: worker_inv_def)
  with R show ?thesis
    by (auto simp: record_inv_def projection_state_def ok_or_def split: if_splits option.splits)
qed

definition sample_projector :: "(nat, nat, unit) projector" where
  "sample_projector = \<lparr>pj_initial = 0, pj_apply_attributed = default_apply_attributed (\<lambda>s e. Returns (Inr (s + e)))\<rparr>"

definition sample_log :: "nat decoded list" where
  "sample_log = [\<lparr>dc_event = 5, dc_version = version_INITIAL, dc_metadata = None\<rparr>,
                 \<lparr>dc_event = 7, dc_version = version_of 2, dc_metadata = None\<rparr>]"

definition sample_trigger :: "version option \<Rightarrow> version \<Rightarrow> bytes list \<Rightarrow> bool" where
  "sample_trigger c p names = True"

definition sample_name :: "nat \<Rightarrow> bytes" where
  "sample_name e = [65]"

definition sample_loaded :: "(nat, version) projection" where
  "sample_loaded = \<lparr>pr_id = [1], pr_schema = nz 1, pr_state = Some 0, pr_revision = None, pr_checkpoint = None,
     pr_observed = None, pr_reload_required = False, pr_rebuilt_from = None\<rparr>"

definition sample_flushed :: "revision \<Rightarrow> (nat, version) projection" where
  "sample_flushed r = sample_loaded\<lparr>pr_state := Some 5, pr_revision := Some r, pr_checkpoint := Some (version_INITIAL),
     pr_observed := Some (version_INITIAL)\<rparr>"

definition sample_ck_store :: "revision \<Rightarrow> (nat, version) ck_store" where
  "sample_ck_store r = [[1] \<mapsto> \<lparr>ck_revision = r, ck_schema = nz 1, ck_position = version_INITIAL, ck_state = 5\<rparr>]"

lemma sample_load: "load_projection (ck_hydrate ck_new) sample_projector [1] (nz 1) = Inr sample_loaded"
  by (simp add: load_projection_def assemble_def ck_hydrate_def ck_new_def sample_projector_def sample_loaded_def)

lemma sample_flush:
  obtains r where
    "flush ck_commit (sample_loaded\<lparr>pr_state := Some 5, pr_observed := Some (version_INITIAL)\<rparr>) ck_new =
      (Inr () :: (unit, (unit, unit) projection_error) result, sample_flushed r, sample_ck_store r)"
proof -
  obtain r :: revision where r: "vnum r = 1" by (metis vnum_INITIAL)
  have "next_revision \<lparr>cw_expected = None, cw_schema = nz 1, cw_position = version_INITIAL, cw_state = 5 :: nat, cw_mode = Advance\<rparr>
      (None :: (revision \<times> schema_version \<times> version) option) = Inr r"
    by (subst next_revision_Inr) (simp add: check_mode_Inr r)
  then have "flush ck_commit (sample_loaded\<lparr>pr_state := Some 5, pr_observed := Some (version_INITIAL)\<rparr>) ck_new =
      (Inr () :: (unit, (unit, unit) projection_error) result, sample_flushed r, sample_ck_store r)"
    by (simp add: flush_def flush_begin_def projection_state_def ok_or_def sample_loaded_def ck_commit_def ck_new_def
        sample_flushed_def sample_ck_store_def)
  then show thesis by (rule that)
qed

lemma sample_advance:
  obtains r where
    "advance sample_projector sample_trigger sample_name stream_into_parts ck_commit (hd sample_log) sample_loaded ck_new =
      (Returns (Inr ()) :: (unit, (unit, unit) projection_error) result call, sample_flushed r, sample_ck_store r)"
proof -
  obtain r where "flush ck_commit (sample_loaded\<lparr>pr_state := Some 5, pr_observed := Some (version_INITIAL)\<rparr>) ck_new =
      (Inr () :: (unit, (unit, unit) projection_error) result, sample_flushed r, sample_ck_store r)"
    by (rule sample_flush)
  then show thesis
    by (intro that) (simp add: advance_def projection_state_def ok_or_def sample_loaded_def sample_log_def
        stream_into_parts_def sample_projector_def default_apply_attributed_def sample_trigger_def)
qed

theorem projection_exactly_once_witness:
  "\<exists>st ws r. (proj_step sample_projector sample_trigger sample_name stream_into_parts
        (ck_hydrate :: _ \<Rightarrow> _ \<Rightarrow> _ \<Rightarrow> (_, unit) result) ck_commit [1] (nz 1) sample_log)\<^sup>*\<^sup>* (ck_new, Map.empty) (st, ws) \<and>
    ck_stored st [1] = Some (r, nz 1, version_INITIAL, 5) \<and>
    read_model sample_projector stream_into_parts sample_log (Some (version_INITIAL)) = Some 5"
proof -
  let ?step = "proj_step sample_projector sample_trigger sample_name stream_into_parts
        (ck_hydrate :: _ \<Rightarrow> _ \<Rightarrow> _ \<Rightarrow> (_, unit) result) ck_commit [1] (nz 1) sample_log"
  obtain r where a: "advance sample_projector sample_trigger sample_name stream_into_parts ck_commit (hd sample_log)
      sample_loaded ck_new =
      (Returns (Inr ()) :: (unit, (unit, unit) projection_error) result call, sample_flushed r, sample_ck_store r)"
    by (rule sample_advance)
  let ?ws = "[0 \<mapsto> sample_loaded]"
  have "?step (ck_new, Map.empty) (ck_new, ?ws)" by (rule ps_load) (rule sample_load)
  moreover have "?step (ck_new, ?ws) (sample_ck_store r, ?ws(0 \<mapsto> sample_flushed r))"
    by (rule ps_advance [OF _ _ a]) (simp_all add: deliverable_def sample_loaded_def sample_log_def)
  ultimately have s: "?step\<^sup>*\<^sup>* (ck_new, Map.empty) (sample_ck_store r, ?ws(0 \<mapsto> sample_flushed r))"
    by (meson converse_rtranclp_into_rtranclp r_into_rtranclp)
  have k: "ck_stored (sample_ck_store r) [1] = Some (r, nz 1, version_INITIAL, 5)"
    by (simp add: ck_stored_def sample_ck_store_def)
  have srt: "sorted_wrt (<) (map (\<lambda>i. fst (stream_into_parts i)) sample_log)"
    by (simp add: sample_log_def stream_into_parts_def version_less_vnum vmax_def)
  have "\<forall>q p s. ck_stored (ck_new :: (nat, version) ck_store) [1] \<noteq> Some (q, nz 1, p, s)"
    by (simp add: ck_stored_def ck_new_def)
  from projection_exactly_once [OF s srt this] k s show ?thesis by blast
qed

text \<open>C38: A flush that reports success is durable. If the worker had anything unflushed, loading the
  projection again, with the same schema, resumes at the position it had observed, with the state it
  showed and the revision it was told.\<close>

theorem flush_then_load_resumes:
  assumes "flush ck_commit pr st = (Inr () :: (unit, ('ae, 'err) projection_error) result, pr', st')"
    "pr_observed pr = Some p" "pr_checkpoint pr \<noteq> Some p"
  shows "\<exists>s. projection_state pr = Inr s \<and>
    load_projection (ck_hydrate st') projector (pr_id pr) (pr_schema pr) =
      (Inr \<lparr>pr_id = pr_id pr, pr_schema = pr_schema pr, pr_state = Some s, pr_revision = pr_revision pr',
         pr_checkpoint = Some p, pr_observed = Some p, pr_reload_required = False, pr_rebuilt_from = None\<rparr>
        :: (_, 'err checkpoint_error) result)"
proof -
  obtain s where s: "projection_state pr = Inr s"
    using assms(1) by (cases "projection_state pr") (auto simp: flush_def flush_begin_def)
  obtain w where w: "flush_begin pr = FlushWrite w (pr\<lparr>pr_reload_required := True\<rparr>)"
    "cw_state w = s" "cw_position w = p" "cw_schema w = pr_schema pr"
    using s assms(2,3) by (simp add: flush_begin_def Let_def)
  then obtain r where c: "ck_commit (pr_id pr) w st = (Inr r :: (revision, 'err checkpoint_error) result, st')"
    "pr_revision pr' = Some r"
    using assms(1) by (auto simp: flush_def split: prod.splits sum.splits)
  have "ck_stored st' (pr_id pr) = Some (r, pr_schema pr, p, s)"
    using ckm.commit_ok [OF c(1)] w by (simp add: ck_written_def)
  then have "ck_hydrate st' (pr_id pr) (pr_schema pr) = (Inr (CkFound r p s) :: (_, 'err) result)"
    by (auto simp: ck_hydrate_def ck_stored_def)
  with s c(2) show ?thesis by (simp add: load_projection_def assemble_def)
qed

theorem flush_then_load_resumes_witness:
  "\<exists>st pr. load_projection (ck_hydrate st) sample_projector [1] (nz 1) = (Inr pr :: (_, unit checkpoint_error) result) \<and>
    pr_state pr = Some 5 \<and> pr_checkpoint pr = Some (version_INITIAL)"
proof -
  let ?pr = "sample_loaded\<lparr>pr_state := Some 5, pr_observed := Some (version_INITIAL)\<rparr>"
  obtain r where f: "flush ck_commit ?pr ck_new =
      (Inr () :: (unit, (unit, unit) projection_error) result, sample_flushed r, sample_ck_store r)"
    by (rule sample_flush)
  from flush_then_load_resumes [OF f, of "version_INITIAL" sample_projector] obtain pr where
    "load_projection (ck_hydrate (sample_ck_store r)) sample_projector [1] (nz 1) = (Inr pr :: (_, unit checkpoint_error) result)"
    "pr_state pr = Some 5" "pr_checkpoint pr = Some version_INITIAL"
    by (auto simp: sample_loaded_def projection_state_def ok_or_def)
  then show ?thesis by blast
qed

text \<open>An instance whose fold failed or panicked, or whose write failed, is dead: it shows no state, and
  any later advance or flush is refused without touching the instance or the store. The fold failure
  itself left the store unchanged, and a rejected position leaves instance and store as they were.\<close>

theorem failed_projection_is_inert:
  fixes projector :: "('s, 'e, 'ae) projector"
    and commit :: "bytes \<Rightarrow> ('s, 'p::linorder) checkpoint_write \<Rightarrow> 'st \<Rightarrow> (revision, 'err checkpoint_error) result \<times> 'st"
  assumes "advance projector trigger name into_parts commit item pr st = (r, pr', st')" "r \<noteq> Returns (Inr ())"
  shows "(\<exists>e. projection_state pr' = Inl e \<and>
      (\<forall>trigger' item' st2. advance projector trigger' name into_parts commit item' pr' st2 = (Returns (Inl (PjState e)), pr', st2)) \<and>
      (\<forall>st2. flush commit pr' st2 = (Inl (PjState e) :: (unit, ('ae, 'err) projection_error) result, pr', st2)) \<and>
      ((\<forall>ce. r \<noteq> Returns (Inl (PjCommit ce))) \<longrightarrow> st' = st)) \<or>
    (r = Returns (Inl PjNonIncreasingPosition) \<and> pr' = pr \<and> st' = st)"
proof -
  have dead: "projection_state q = Inl e \<Longrightarrow>
      (\<forall>trigger' item' st2. advance projector trigger' name into_parts commit item' q st2 = (Returns (Inl (PjState e)), q, st2)) \<and>
      (\<forall>st2. flush commit q st2 = (Inl (PjState e) :: (unit, ('ae, 'err) projection_error) result, q, st2))" for q e
    by (simp add: advance_def flush_def flush_begin_def)
  have none: "\<exists>e. projection_state (q\<lparr>pr_state := None\<rparr>) = Inl e" for q
    by (simp add: projection_state_def ok_or_def)
  have fl: "(\<exists>e. projection_state q' = Inl e) \<and> ((\<forall>ce. x \<noteq> Inl (PjCommit ce)) \<longrightarrow> sb = sa)"
    if "flush commit q sa = (x :: (unit, ('ae, 'err) projection_error) result, q', sb)" "x \<noteq> Inr ()" for q sa x q' sb
    using that by (auto simp: flush_def flush_begin_def projection_state_def Let_def split: flush_start.splits sum.splits prod.splits
        option.splits if_splits)
  show ?thesis
  proof (cases "projection_state pr")
    case (Inl e)
    with assms have "r = Returns (Inl (PjState e))" "pr' = pr" "st' = st" by (auto simp: advance_def)
    with Inl dead show ?thesis by blast
  next
    case (Inr s)
    obtain position key d where p: "into_parts item = (position, key, d)" by (cases "into_parts item")
    show ?thesis
    proof (cases "case pr_observed pr of None \<Rightarrow> False | Some previous \<Rightarrow> position \<le> previous")
      case True
      with assms(1) Inr p show ?thesis by (simp add: advance_def)
    next
      case False
      let ?pr = "\<lambda>s'. pr\<lparr>pr_state := Some s', pr_observed := Some position\<rparr>"
      have "(\<exists>e. projection_state pr' = Inl e) \<and> ((\<forall>ce. r \<noteq> Returns (Inl (PjCommit ce))) \<longrightarrow> st' = st)"
      proof (cases "pj_apply_attributed projector s key (dc_event d)")
        case (Returns x)
        show ?thesis
        proof (cases x)
          case (Inr s')
          with \<open>projection_state pr = Inr s\<close> Returns False p assms obtain y where
            "r = Returns y" "flush commit (?pr s') st = (y, pr', st')"
            by (cases "flush commit (?pr s') st :: (unit, ('ae, 'err) projection_error) result \<times> _")
              (auto simp: advance_def Let_def split: if_splits)
          with fl [of "?pr s'" st y pr' st'] assms(2) show ?thesis by auto
        qed (use \<open>projection_state pr = Inr s\<close> Returns False p assms none in \<open>auto simp: advance_def\<close>)
      qed (use Inr False p assms none in \<open>auto simp: advance_def\<close>)
      with dead show ?thesis by blast
    qed
  qed
qed

definition failing_projector :: "(nat, nat, unit) projector" where
  "failing_projector = \<lparr>pj_initial = 0, pj_apply_attributed = default_apply_attributed (\<lambda>s e. Returns (Inl ()))\<rparr>"

theorem failed_projection_is_inert_witness:
  "\<exists>pr e. advance failing_projector sample_trigger sample_name stream_into_parts ck_commit (hd sample_log)
      sample_loaded ck_new = (Returns (Inl (PjApply ())) :: (unit, (unit, unit) projection_error) result call, pr, ck_new) \<and>
    flush ck_commit pr ck_new = (Inl (PjState e) :: (unit, (unit, unit) projection_error) result, pr, ck_new)"
proof -
  obtain pr where a: "advance failing_projector sample_trigger sample_name stream_into_parts ck_commit (hd sample_log)
      sample_loaded ck_new = (Returns (Inl (PjApply ())) :: (unit, (unit, unit) projection_error) result call, pr, ck_new)"
    by (simp add: advance_def projection_state_def ok_or_def sample_loaded_def sample_log_def
        stream_into_parts_def failing_projector_def default_apply_attributed_def)
  from failed_projection_is_inert [OF a] a show ?thesis by auto
qed

end
