(* ===== verification/Append_Contract.thy ===== *)
theory Append_Contract
  imports Envelopes Kernel_Aggregate
begin

text \<open>
  The append contract every adapter shares, \<open>crates/store/src/store.rs\<close> and
  \<open>error.rs\<close>: \<open>validate_append_versions\<close>, the error types around it, and the
  \<open>RawEventStore\<close> interface as a locale. The locale states what a store promises of
  \<open>append\<close>, \<open>read_stream\<close> and \<open>read_all\<close> over two abstraction functions: the history of
  one stream and the global log.
\<close>

section \<open>Errors\<close>

datatype append_validation_error =
    AvConflict bytes "version option" "version option"
  | AvVersionOverflow

datatype 'a append_error =
    AppendConflict bytes "version option" "version option"
  | AppendStore 'a

datatype ('a, 'enc, 'dec) store_error =
    SeConflict bytes "version option" "version option"
  | SeStreamNotFound bytes
  | SeAdapter 'a
  | SeEncode 'enc
  | SeDecode 'dec
  | SeKernel kernel_error
  | SeVersionOverflow
  | SeEnvelopeSynthesis for_decode_error
  | SeEnvelope envelope_error

definition store_error_is_conflict :: "('a, 'enc, 'dec) store_error \<Rightarrow> bool" where
  "store_error_is_conflict e = (case e of SeConflict _ _ _ \<Rightarrow> True | _ \<Rightarrow> False)"

datatype ('a, 'enc, 'dec, 'up, 'ver) load_with_error =
    LwStore "('a, 'enc, 'dec) store_error"
  | LwUpcast 'up
  | LwVerification 'ver

definition load_with_of_kernel :: "kernel_error \<Rightarrow> ('a, 'enc, 'dec, 'up, 'ver) load_with_error" where
  "load_with_of_kernel e = LwStore (SeKernel e)"

section \<open>Version validation\<close>

text \<open>The running-counter loop over the batch.\<close>

primrec validate_sequence ::
  "stream_key \<Rightarrow> pending_envelope list \<Rightarrow> u64 \<Rightarrow> (unit, append_validation_error) result" where
  "validate_sequence k [] next_v = Inr ()"
| "validate_sequence k (env # envs) next_v =
    and_then (ok_or AvVersionOverflow (checked_add next_v 1)) (\<lambda>next_v.
      if as_u64 (pe_version env) \<noteq> next_v
      then Inl (AvConflict (to_label k) (version_new next_v) (Some (pe_version env)))
      else validate_sequence k envs next_v)"

definition validate_append_versions ::
  "u64 \<Rightarrow> version option \<Rightarrow> pending_batch \<Rightarrow> stream_key \<Rightarrow> (unit, append_validation_error) result" where
  "validate_append_versions current expected envelopes k =
    (let actual = (if current = 0 then None else version_new current) in
     if expected \<noteq> actual then Inl (AvConflict (to_label k) expected actual)
     else validate_sequence k (batch_iter envelopes) current)"

text \<open>A run of envelopes that continues a stream of \<open>n\<close> events.\<close>

definition run_from :: "nat \<Rightarrow> pending_envelope list \<Rightarrow> bool" where
  "run_from n es \<longleftrightarrow> map (\<lambda>e. vnum (pe_version e)) es = [Suc n ..< Suc n + length es]"

definition head_version :: "nat \<Rightarrow> version option" where
  "head_version n = (if n = 0 then None else Some (version_of n))"

lemma head_version_inject:
  assumes "m \<le> vmax" "n \<le> vmax"
  shows "head_version m = head_version n \<longleftrightarrow> m = n"
proof
  assume eq: "head_version m = head_version n"
  show "m = n"
  proof (cases "m = 0 \<or> n = 0")
    case True
    with eq show ?thesis by (auto simp: head_version_def split: if_splits)
  next
    case False
    with eq have "version_of m = version_of n" by (simp add: head_version_def)
    then have "vnum (version_of m) = vnum (version_of n)" by simp
    with False assms show ?thesis by simp
  qed
qed simp

lemma run_from_Nil [simp]: "run_from n []"
  by (simp add: run_from_def)

lemma run_from_Cons [simp]:
  "run_from n (e # es) \<longleftrightarrow> vnum (pe_version e) = Suc n \<and> run_from (Suc n) es"
  by (simp add: run_from_def upt_rec [of "Suc n"] del: upt_Suc)

lemma run_from_append: "run_from n (es @ fs) \<longleftrightarrow> run_from n es \<and> run_from (n + length es) fs"
  by (induction es arbitrary: n) auto

lemma validate_sequence_Inr:
  "validate_sequence k es c = Inr () \<longleftrightarrow> run_from (unat c) es"
proof (induction es arbitrary: c)
  case (Cons e es)
  show ?case
  proof (cases "checked_add c 1")
    case None
    then have "2 ^ 64 \<le> unat c + 1" by (simp add: checked_add_None)
    moreover have "vnum (pe_version e) \<noteq> Suc (unat c)"
      using calculation vnum_le_vmax [of "pe_version e"] by (simp add: vmax_def del: vnum_le_vmax)
    ultimately show ?thesis using None by simp
  next
    case (Some d)
    then have "unat d = Suc (unat c)" by (simp add: checked_add_Some)
    with Some Cons show ?thesis
      by (auto simp: vnum_def word_unat_eq_iff)
  qed
qed simp

lemma head_version_actual:
  "(if c = 0 then None else version_new c) = head_version (unat c)"
proof (cases "c = 0")
  case False
  then have "version_new c = Some (version_of (unat c))"
    by (simp add: version_of_def as_u64_def del: nonzero_new_Some)
  with False show ?thesis by (simp add: head_version_def unat_eq_0)
qed (simp add: head_version_def)

lemma validate_append_versions_Inr:
  "validate_append_versions c expected b k = Inr () \<longleftrightarrow>
    expected = head_version (unat c) \<and> run_from (unat c) (batch_iter b)"
  by (simp add: validate_append_versions_def head_version_actual Let_def validate_sequence_Inr)

lemma validate_append_versions_conflict:
  "expected \<noteq> head_version (unat c) \<Longrightarrow>
    validate_append_versions c expected b k = Inl (AvConflict (to_label k) expected (head_version (unat c)))"
  by (simp add: validate_append_versions_def head_version_actual Let_def)

section \<open>The store interface\<close>

definition batch_ok :: "pending_batch \<Rightarrow> bool" where
  "batch_ok b \<longleftrightarrow> (\<forall>p \<in> set (batch_iter b). pending_ok p)"

text \<open>
  \<open>inv\<close> is the provider's invariant, \<open>hist s k\<close> the committed events of stream \<open>k\<close>, and
  \<open>log s\<close> the global log in position order. A committed append extends both; a failed
  one changes nothing; reads return exactly the abstract histories.
\<close>

locale raw_event_store =
  fixes inv :: "'st \<Rightarrow> bool"
    and append :: "stream_key \<Rightarrow> version option \<Rightarrow> pending_batch \<Rightarrow> 'st
      \<Rightarrow> ('pos::linorder, 'err append_error) result call \<times> 'st"
    and read_stream :: "'st \<Rightarrow> stream_key \<Rightarrow> version \<Rightarrow> (persisted_envelope, 'err) result list"
    and read_all :: "'st \<Rightarrow> 'pos option \<Rightarrow> ('pos \<times> stream_key \<times> persisted_envelope, 'err) result list"
    and hist :: "'st \<Rightarrow> stream_key \<Rightarrow> pending_envelope list"
    and log :: "'st \<Rightarrow> ('pos \<times> stream_key \<times> pending_envelope) list"
  assumes hist_run: "inv s \<Longrightarrow> run_from 0 (hist s k)"
    and hist_ok: "inv s \<Longrightarrow> p \<in> set (hist s k) \<Longrightarrow> pending_ok p \<and> pending_len p < 2 ^ 32"
    and hist_log: "inv s \<Longrightarrow> hist s k = map (snd \<circ> snd) (filter (\<lambda>x. fst (snd x) = k) (log s))"
    and log_sorted: "inv s \<Longrightarrow> sorted_wrt (<) (map fst (log s))"
    and append_ok: "inv s \<Longrightarrow> batch_ok b \<Longrightarrow> append k e b s = (Returns (Inr pos), s') \<Longrightarrow>
      inv s' \<and> e = head_version (length (hist s k)) \<and> run_from (length (hist s k)) (batch_iter b) \<and>
      (\<exists>ps. length ps = length (batch_iter b) \<and> last ps = pos \<and>
        log s' = log s @ zip ps (map (Pair k) (batch_iter b)))"
    and append_err: "inv s \<Longrightarrow> batch_ok b \<Longrightarrow> append k e b s = (Returns (Inl err), s') \<Longrightarrow> s' = s"
    and append_total: "inv s \<Longrightarrow> batch_ok b \<Longrightarrow> fst (append k e b s) \<noteq> Panics"
    and append_conflict: "inv s \<Longrightarrow> e \<noteq> head_version (length (hist s k)) \<Longrightarrow>
      fst (append k e b s) =
        Returns (Inl (AppendConflict (to_label k) e (head_version (length (hist s k)))))"
    and read_stream_spec: "inv s \<Longrightarrow> read_stream s k from =
      map (Inr \<circ> persisted_of) (filter (\<lambda>p. from \<le> pe_version p) (hist s k))"
    and read_all_spec: "inv s \<Longrightarrow> read_all s after =
      map (\<lambda>(pos, k, p). Inr (pos, k, persisted_of p))
        (filter (\<lambda>x. case after of None \<Rightarrow> True | Some a \<Rightarrow> a < fst x) (log s))"
begin

lemma hist_append:
  assumes "inv s" "batch_ok b" "append k e b s = (Returns (Inr pos), s')"
  shows "hist s' k = hist s k @ batch_iter b" "k' \<noteq> k \<Longrightarrow> hist s' k' = hist s k'"
proof -
  obtain ps where ps: "inv s'" "length ps = length (batch_iter b)"
    "log s' = log s @ zip ps (map (Pair k) (batch_iter b))"
    using append_ok [OF assms] by blast
  have all_k: "filter (\<lambda>x. fst (snd x) = k) (zip ps (map (Pair k) es)) = zip ps (map (Pair k) es)"
    if "length ps = length es" for ps :: "'b list" and es :: "pending_envelope list"
    using that by (induction ps es rule: list_induct2) auto
  have none_k: "filter (\<lambda>x. fst (snd x) = k') (zip ps (map (Pair k) es)) = []"
    if "k' \<noteq> k" for ps :: "'b list" and es :: "pending_envelope list"
    using that by (auto simp: filter_empty_conv dest: set_zip_rightD)
  have "map (snd \<circ> snd) (zip ps (map (Pair k) (batch_iter b))) = batch_iter b"
    by (rule nth_equalityI) (auto simp: ps(2))
  then show "hist s' k = hist s k @ batch_iter b"
    using ps(1-3) assms(1) by (simp add: hist_log all_k)
  show "k' \<noteq> k \<Longrightarrow> hist s' k' = hist s k'"
    using ps(1,3) assms(1) none_k by (simp add: hist_log)
qed

text \<open>What was just appended is what a reader resuming at the batch's first version sees.\<close>

lemma read_your_writes:
  assumes "inv s" "batch_ok b" "append k e b s = (Returns (Inr pos), s')"
  shows "read_stream s' k (pe_version (pb_first b)) = map (Inr \<circ> persisted_of) (batch_iter b)"
proof -
  let ?h = "hist s k" and ?es = "batch_iter b"
  have inv': "inv s'" and run: "run_from (length ?h) ?es"
    using append_ok [OF assms] by auto
  have first: "vnum (pe_version (pb_first b)) = Suc (length ?h)"
    using run by (simp add: batch_iter_def)
  have old: "\<forall>p \<in> set ?h. vnum (pe_version p) \<le> length ?h"
  proof
    fix p assume "p \<in> set ?h"
    then have "vnum (pe_version p) \<in> set (map (\<lambda>e. vnum (pe_version e)) ?h)" by auto
    also have "\<dots> = set [Suc 0 ..< Suc 0 + length ?h]"
      using hist_run [OF assms(1), of k] unfolding run_from_def by simp
    finally show "vnum (pe_version p) \<le> length ?h" by auto
  qed
  have new: "\<forall>p \<in> set ?es. Suc (length ?h) \<le> vnum (pe_version p)"
  proof
    fix p assume "p \<in> set ?es"
    then have "vnum (pe_version p) \<in> set (map (\<lambda>e. vnum (pe_version e)) ?es)" by auto
    also have "\<dots> = set [Suc (length ?h) ..< Suc (length ?h) + length ?es]"
      using run unfolding run_from_def by simp
    finally show "Suc (length ?h) \<le> vnum (pe_version p)" by auto
  qed
  have "filter (\<lambda>p. pe_version (pb_first b) \<le> pe_version p) ?h = []"
    using old first by (auto simp: filter_empty_conv version_le_vnum)
  moreover have "filter (\<lambda>p. pe_version (pb_first b) \<le> pe_version p) ?es = ?es"
    using new first by (auto simp: filter_id_conv version_le_vnum)
  ultimately show ?thesis
    by (simp add: read_stream_spec [OF inv'] hist_append [OF assms])
qed

text \<open>The same expectation never wins twice: after a commit it is stale.\<close>

lemma stale_expectation_conflicts:
  assumes "inv s" "batch_ok b" "append k e b s = (Returns (Inr pos), s')"
  shows "\<exists>l a. fst (append k e b' s') = Returns (Inl (AppendConflict l e a))"
proof -
  have inv': "inv s'" and e: "e = head_version (length (hist s k))"
    and run: "run_from (length (hist s k)) (batch_iter b)"
    using append_ok [OF assms] by auto
  have len: "length (hist s' k) > length (hist s k)"
    using hist_append(1) [OF assms] by simp
  have bound: "length (hist s' k) \<le> vmax"
  proof (cases "hist s' k" rule: rev_cases)
    case (snoc ys y)
    have "vnum (pe_version y) = length (hist s' k)"
      using hist_run [OF inv', of k] snoc by (simp add: run_from_append)
    then show ?thesis by (metis vnum_le_vmax)
  qed (simp add: vmax_def)
  have "head_version (length (hist s k)) \<noteq> head_version (length (hist s' k))"
    using len bound by (simp add: head_version_inject)
  with e show ?thesis using append_conflict [OF inv', of e k b'] by auto
qed

end

section \<open>Properties\<close>

text \<open>Append validation accepts a batch on a stream of \<open>n\<close> events exactly when the expected
  version is the stream's head and the batch carries the versions \<open>n + 1, n + 2, ...\<close>. A wrong
  expectation is a conflict that reports the expected and the actual head.\<close>

theorem append_validation_exact:
  "(validate_append_versions c expected b k = Inr () \<longleftrightarrow>
      expected = (if c = 0 then None else Some (version_of (unat c))) \<and>
      map (\<lambda>e. vnum (pe_version e)) (batch_iter b) = [Suc (unat c) ..< Suc (unat c) + length (batch_iter b)]) \<and>
    (expected \<noteq> head_version (unat c) \<longrightarrow>
      validate_append_versions c expected b k = Inl (AvConflict (to_label k) expected (head_version (unat c))))"
proof -
  have "head_version (unat c) = (if c = 0 then None else Some (version_of (unat c)))"
    by (simp add: head_version_def unat_eq_0)
  then show ?thesis
    using validate_append_versions_Inr [of c expected b k] validate_append_versions_conflict [of expected c b k]
    by (simp add: run_from_def)
qed

theorem append_validation_exact_witness:
  "let e = \<lparr>pe_version = version_of 3, pe_event_type = EventType [], pe_schema = schema_INITIAL, pe_payload = Payload [],
      pe_metadata = None\<rparr> in
    validate_append_versions 2 (Some (version_of 2)) (batch_of e) (StreamKey [1]) = Inr () \<and>
    validate_append_versions 2 None (batch_of e) (StreamKey [1]) =
      Inl (AvConflict (to_label (StreamKey [1])) None (Some (version_of 2)))"
proof -
  let ?e = "\<lparr>pe_version = version_of 3, pe_event_type = EventType [], pe_schema = schema_INITIAL, pe_payload = Payload [],
      pe_metadata = None\<rparr>"
  show ?thesis
    using append_validation_exact [of 2 "Some (version_of 2)" "batch_of ?e" "StreamKey [1]"]
      append_validation_exact [of 2 None "batch_of ?e" "StreamKey [1]"]
    by (simp add: Let_def batch_of_def batch_iter_def vmax_def head_version_def upt_rec)
qed

end
