(* ===== verification/Import_Plan.thy ===== *)
theory Import_Plan
  imports Append_Contract
begin

text \<open>
  The import contract, \<open>crates/store/src/import.rs\<close>: the run and route validators, the
  pure per-section planner, and the two importers over a store's \<open>append\<close> and
  \<open>atomic_append_many\<close>. The locale \<open>atomic_event_store\<close> adds the \<open>AtomicAppend\<close> contract
  to \<open>raw_event_store\<close>; its lemmas show that a whole-chunk import is all or nothing.
\<close>

section \<open>Data\<close>

datatype atomicity = WholeChunk | PerStream

datatype stream_outcome =
    OutComplete version
  | OutCorrupt "version option"
  | OutMismatch "version option" version

definition outcome_is_complete :: "stream_outcome \<Rightarrow> bool" where
  "outcome_is_complete o' = (case o' of OutComplete _ \<Rightarrow> True | _ \<Rightarrow> False)"

definition outcome_reached :: "stream_outcome \<Rightarrow> version option" where
  "outcome_reached o' =
    (case o' of OutComplete v \<Rightarrow> Some v | OutCorrupt r \<Rightarrow> r | OutMismatch r _ \<Rightarrow> r)"

record stream_report =
  sr_stream :: stream_key
  sr_outcome :: stream_outcome

definition report_unfinished :: "stream_report list \<Rightarrow> stream_report list" where
  "report_unfinished rs = filter (\<lambda>r. \<not> outcome_is_complete (sr_outcome r)) rs"

definition report_all_complete :: "stream_report list \<Rightarrow> bool" where
  "report_all_complete rs = list_all (\<lambda>r. outcome_is_complete (sr_outcome r)) rs"

datatype abort_reason = AbortCorrupt | AbortMismatch version version

datatype invalid_run = NonSequential nat version version | RunVersionOverflow nat

record invalid_route =
  ir_target :: stream_key
  ir_first_index :: nat
  ir_index :: nat

datatype 'e import_error =
    ImportInvalidRun invalid_run
  | ImportInvalidRoute invalid_route
  | ImportAborted stream_key abort_reason
  | ImportStore 'e
  | ImportVersionOverflow

datatype import_block = BlockEvent persisted_envelope | BlockCorrupt

record stream_section =
  ss_origin :: bytes
  ss_blocks :: "import_block list"

record planned_append =
  pa_target :: stream_key
  pa_expected :: "version option"
  pa_head :: pending_envelope
  pa_tail :: "pending_envelope list"

definition pa_batch :: "planned_append \<Rightarrow> pending_batch" where
  "pa_batch w = batch_from_parts (pa_head w) (pa_tail w)"

datatype 'e atomic_append_error =
    AtomicInvalidRun invalid_run
  | AtomicInvalidRoute invalid_route
  | AtomicConflict nat "version option"
  | AtomicStore 'e

section \<open>Validators\<close>

primrec validate_run :: "nat \<Rightarrow> pending_envelope list \<Rightarrow> version option \<Rightarrow> (unit, invalid_run) result" where
  "validate_run index [] next_v = Inr ()"
| "validate_run index (env # envs) next_v =
    and_then (ok_or (RunVersionOverflow index) next_v) (\<lambda>expected.
      let actual = pe_version env in
      if actual \<noteq> expected then Inl (NonSequential index expected actual)
      else validate_run index envs (version_next expected))"

primrec validate_runs_from :: "nat \<Rightarrow> planned_append list \<Rightarrow> (unit, invalid_run) result" where
  "validate_runs_from index [] = Inr ()"
| "validate_runs_from index (w # ws) =
    and_then (validate_run index (batch_iter (pa_batch w))
        (case pa_expected w of None \<Rightarrow> Some version_INITIAL | Some v \<Rightarrow> version_next v))
      (\<lambda>_. validate_runs_from (Suc index) ws)"

definition validate_atomic_runs :: "planned_append list \<Rightarrow> (unit, invalid_run) result" where
  "validate_atomic_runs writes = validate_runs_from 0 writes"

primrec distinct_targets_from ::
  "nat \<Rightarrow> stream_key list \<Rightarrow> (bytes \<rightharpoonup> nat) \<Rightarrow> (unit, invalid_route) result" where
  "distinct_targets_from index [] seen = Inr ()"
| "distinct_targets_from index (t # ts) seen =
    (case seen (key_bytes t) of
       Some first \<Rightarrow> Inl \<lparr>ir_target = t, ir_first_index = first, ir_index = index\<rparr>
     | None \<Rightarrow> distinct_targets_from (Suc index) ts (seen(key_bytes t \<mapsto> index)))"

definition validate_distinct_targets :: "stream_key list \<Rightarrow> (unit, invalid_route) result" where
  "validate_distinct_targets targets = distinct_targets_from 0 targets Map.empty"

definition route_sections ::
  "stream_section list \<Rightarrow> (bytes \<Rightarrow> stream_key) \<Rightarrow> (stream_key list, invalid_route) result" where
  "route_sections sections route =
    (let targets = map (\<lambda>s. route (ss_origin s)) sections in
     and_then (validate_distinct_targets targets) (\<lambda>_. Inr targets))"

section \<open>The section planner\<close>

datatype halt = HaltComplete | HaltCorrupt | HaltGap version

datatype section_plan =
    PlanEmpty
  | PlanFirstCorrupt
  | PlanRun version "version option" pending_envelope "pending_envelope list" version halt

datatype plan_error = PlanVersionOverflow

text \<open>The loop over the blocks after the first, with the tail collected so far and the last
version taken.\<close>

primrec plan_blocks ::
  "import_block list \<Rightarrow> pending_envelope list \<Rightarrow> version
    \<Rightarrow> (pending_envelope list \<times> version \<times> halt, plan_error) result" where
  "plan_blocks [] tail last_v = Inr (tail, last_v, HaltComplete)"
| "plan_blocks (block # blocks) tail last_v =
    (case block of
       BlockCorrupt \<Rightarrow> Inr (tail, last_v, HaltCorrupt)
     | BlockEvent event \<Rightarrow>
         and_then (ok_or PlanVersionOverflow (version_next last_v)) (\<lambda>expected_next.
           if ps_version event \<noteq> expected_next then Inr (tail, last_v, HaltGap (ps_version event))
           else plan_blocks blocks (tail @ [from_persisted event]) (ps_version event)))"

definition plan_section :: "stream_section \<Rightarrow> (section_plan, plan_error) result" where
  "plan_section s =
    (case ss_blocks s of
       [] \<Rightarrow> Inr PlanEmpty
     | BlockCorrupt # _ \<Rightarrow> Inr PlanFirstCorrupt
     | BlockEvent first_event # blocks \<Rightarrow>
         let first = ps_version first_event;
             expected_version = version_new (as_u64 first - 1);
             head = from_persisted first_event in
         and_then (plan_blocks blocks [] first) (\<lambda>(tail, last_v, halt).
           Inr (PlanRun first expected_version head tail last_v halt)))"

section \<open>Importers\<close>

definition halt_outcome :: "halt \<Rightarrow> version \<Rightarrow> stream_outcome" where
  "halt_outcome h last_v =
    (case h of HaltComplete \<Rightarrow> OutComplete last_v
             | HaltCorrupt \<Rightarrow> OutCorrupt (Some last_v)
             | HaltGap got \<Rightarrow> OutMismatch (Some last_v) got)"

type_synonym ('st, 'pos, 'err) append_op =
  "stream_key \<Rightarrow> version option \<Rightarrow> pending_batch \<Rightarrow> 'st \<Rightarrow> ('pos, 'err append_error) result call \<times> 'st"

type_synonym ('st, 'pos, 'err) atomic_op =
  "planned_append list \<Rightarrow> 'st \<Rightarrow> ('pos option, 'err atomic_append_error) result call \<times> 'st"

primrec import_sections ::
  "('st, 'pos, 'err) append_op \<Rightarrow> (stream_section \<times> stream_key) list \<Rightarrow> stream_report list \<Rightarrow> 'st
    \<Rightarrow> (stream_report list, 'err import_error) result call \<times> 'st" where
  "import_sections app [] reports st = (Returns (Inr reports), st)"
| "import_sections app (st_pair # rest) reports st =
    (let target = snd st_pair in
     case plan_section (fst st_pair) of
       Inl PlanVersionOverflow \<Rightarrow> (Returns (Inl ImportVersionOverflow), st)
     | Inr PlanEmpty \<Rightarrow> import_sections app rest reports st
     | Inr PlanFirstCorrupt \<Rightarrow>
         import_sections app rest
           (reports @ [\<lparr>sr_stream = target, sr_outcome = OutCorrupt None\<rparr>]) st
     | Inr (PlanRun first expected head tail last_v halt) \<Rightarrow>
         (case app target expected (batch_from_parts head tail) st of
            (Panics, st') \<Rightarrow> (Panics, st')
          | (Returns (Inr _), st') \<Rightarrow>
              import_sections app rest
                (reports @ [\<lparr>sr_stream = target, sr_outcome = halt_outcome halt last_v\<rparr>]) st'
          | (Returns (Inl (AppendConflict _ _ _)), st') \<Rightarrow>
              import_sections app rest
                (reports @ [\<lparr>sr_stream = target, sr_outcome = OutMismatch None first\<rparr>]) st'
          | (Returns (Inl (AppendStore e)), st') \<Rightarrow> (Returns (Inl (ImportStore e)), st')))"

definition import_per_stream ::
  "('st, 'pos, 'err) append_op \<Rightarrow> stream_section list \<Rightarrow> (bytes \<Rightarrow> stream_key) \<Rightarrow> 'st
    \<Rightarrow> (stream_report list, 'err import_error) result call \<times> 'st" where
  "import_per_stream app sections route st =
    (case route_sections sections route of
       Inl e \<Rightarrow> (Returns (Inl (ImportInvalidRoute e)), st)
     | Inr targets \<Rightarrow> import_sections app (zip sections targets) [] st)"

text \<open>Phase 1 of the whole-chunk import: plan everything, abort on the first halt.\<close>

primrec plan_chunk ::
  "(stream_section \<times> stream_key) list \<Rightarrow> planned_append list \<Rightarrow> version list \<Rightarrow> version list
    \<Rightarrow> (planned_append list \<times> version list \<times> version list, 'err import_error) result" where
  "plan_chunk [] writes firsts lasts = Inr (writes, firsts, lasts)"
| "plan_chunk (st_pair # rest) writes firsts lasts =
    (let target = snd st_pair in
     case plan_section (fst st_pair) of
       Inl PlanVersionOverflow \<Rightarrow> Inl ImportVersionOverflow
     | Inr PlanEmpty \<Rightarrow> plan_chunk rest writes firsts lasts
     | Inr PlanFirstCorrupt \<Rightarrow> Inl (ImportAborted target AbortCorrupt)
     | Inr (PlanRun first expected head tail last_v halt) \<Rightarrow>
         (case halt of
            HaltCorrupt \<Rightarrow> Inl (ImportAborted target AbortCorrupt)
          | HaltGap got \<Rightarrow>
              and_then (ok_or ImportVersionOverflow (version_next last_v)) (\<lambda>expected_next.
                Inl (ImportAborted target (AbortMismatch expected_next got)))
          | HaltComplete \<Rightarrow>
              plan_chunk rest
                (writes @ [\<lparr>pa_target = target, pa_expected = expected, pa_head = head, pa_tail = tail\<rparr>])
                (firsts @ [first]) (lasts @ [last_v])))"

definition get_or_first :: "'a list \<Rightarrow> nat \<Rightarrow> 'a option" where
  "get_or_first xs i = (if i < length xs then Some (xs ! i) else case xs of [] \<Rightarrow> None | x # _ \<Rightarrow> Some x)"

definition map_atomic_conflict ::
  "version list \<Rightarrow> planned_append list \<Rightarrow> nat \<Rightarrow> version option \<Rightarrow> 'err import_error" where
  "map_atomic_conflict firsts writes index actual =
    (case (get_or_first firsts index, get_or_first writes index) of
       (Some got, Some write) \<Rightarrow>
         (case (case actual of Some head \<Rightarrow> version_next head | None \<Rightarrow> Some version_INITIAL) of
            None \<Rightarrow> ImportVersionOverflow
          | Some expected \<Rightarrow> ImportAborted (pa_target write) (AbortMismatch expected got))
     | _ \<Rightarrow> ImportVersionOverflow)"

definition import_whole_chunk ::
  "('st, 'pos, 'err) atomic_op \<Rightarrow> stream_section list \<Rightarrow> (bytes \<Rightarrow> stream_key) \<Rightarrow> 'st
    \<Rightarrow> (stream_report list, 'err import_error) result call \<times> 'st" where
  "import_whole_chunk atomic sections route st =
    (case route_sections sections route of
       Inl e \<Rightarrow> (Returns (Inl (ImportInvalidRoute e)), st)
     | Inr targets \<Rightarrow>
       (case plan_chunk (zip sections targets) [] [] [] of
          Inl e \<Rightarrow> (Returns (Inl e), st)
        | Inr (writes, firsts, lasts) \<Rightarrow>
          (case atomic writes st of
             (Panics, st') \<Rightarrow> (Panics, st')
           | (Returns (Inr _), st') \<Rightarrow>
               (Returns (Inr (map (\<lambda>(w, l). \<lparr>sr_stream = pa_target w, sr_outcome = OutComplete l\<rparr>)
                 (zip writes lasts))), st')
           | (Returns (Inl (AtomicConflict index actual)), st') \<Rightarrow>
               (Returns (Inl (map_atomic_conflict firsts writes index actual)), st')
           | (Returns (Inl (AtomicStore e)), st') \<Rightarrow> (Returns (Inl (ImportStore e)), st')
           | (Returns (Inl (AtomicInvalidRoute e)), st') \<Rightarrow> (Returns (Inl (ImportInvalidRoute e)), st')
           | (Returns (Inl (AtomicInvalidRun e)), st') \<Rightarrow> (Returns (Inl (ImportInvalidRun e)), st'))))"

definition import_events ::
  "('st, 'pos, 'err) append_op \<Rightarrow> ('st, 'pos, 'err) atomic_op \<Rightarrow> atomicity \<Rightarrow> stream_section list
    \<Rightarrow> (bytes \<Rightarrow> stream_key) \<Rightarrow> 'st \<Rightarrow> (stream_report list, 'err import_error) result call \<times> 'st" where
  "import_events app atomic a sections route st =
    (case a of PerStream \<Rightarrow> import_per_stream app sections route st
             | WholeChunk \<Rightarrow> import_whole_chunk atomic sections route st)"

section \<open>Lemmas: validators\<close>

lemma validate_run_Inr:
  "validate_run i es (case pa of None \<Rightarrow> Some version_INITIAL | Some v \<Rightarrow> version_next v) = Inr () \<longleftrightarrow>
    run_from (case pa of None \<Rightarrow> 0 | Some v \<Rightarrow> vnum v) es"
proof (induction es arbitrary: pa)
  case (Cons e es)
  show ?case
  proof (cases "case pa of None \<Rightarrow> Some version_INITIAL | Some v \<Rightarrow> version_next v")
    case None
    then obtain v where "pa = Some v" "vnum v = vmax"
      by (auto simp: version_next_None split: option.splits)
    with None vnum_le_vmax [of "pe_version e"] show ?thesis
      by (auto simp del: vnum_le_vmax)
  next
    case (Some x)
    then have x: "vnum x = Suc (case pa of None \<Rightarrow> 0 | Some v \<Rightarrow> vnum v)"
      by (auto simp: version_next_Some split: option.splits)
    have "pe_version e = x \<longleftrightarrow> vnum (pe_version e) = vnum x" by (simp add: vnum_inject)
    with Some x Cons [of "Some x"] show ?thesis by auto
  qed
qed simp

lemma validate_atomic_runs_Inr:
  "validate_atomic_runs ws = Inr () \<longleftrightarrow>
    (\<forall>w \<in> set ws. run_from (case pa_expected w of None \<Rightarrow> 0 | Some v \<Rightarrow> vnum v) (batch_iter (pa_batch w)))"
proof -
  have "validate_runs_from i ws = Inr () \<longleftrightarrow>
    (\<forall>w \<in> set ws. run_from (case pa_expected w of None \<Rightarrow> 0 | Some v \<Rightarrow> vnum v) (batch_iter (pa_batch w)))" for i
    by (induction ws arbitrary: i) (simp_all add: result_simps validate_run_Inr)
  then show ?thesis by (simp add: validate_atomic_runs_def)
qed

lemma distinct_targets_from_Inr:
  "distinct_targets_from i ts seen = Inr () \<longleftrightarrow> distinct ts \<and> key_bytes ` set ts \<inter> dom seen = {}"
proof (induction ts arbitrary: i seen)
  case (Cons t ts)
  have inj: "key_bytes t \<in> key_bytes ` set ts \<longleftrightarrow> t \<in> set ts"
    by (auto simp: image_iff) (metis stream_key.expand)
  have "key_bytes ` set ts \<inter> dom (seen(key_bytes t \<mapsto> i)) = {} \<longleftrightarrow>
      t \<notin> set ts \<and> key_bytes ` set ts \<inter> dom seen = {}"
    by (simp add: inj)
  with Cons [of "Suc i" "seen(key_bytes t \<mapsto> i)"] show ?case
    by (cases "seen (key_bytes t)") (auto simp: domIff simp del: fun_upd_apply)
qed simp

lemma validate_distinct_targets_Inr: "validate_distinct_targets ts = Inr () \<longleftrightarrow> distinct ts"
  by (simp add: validate_distinct_targets_def distinct_targets_from_Inr)

section \<open>Lemmas: the planner\<close>

text \<open>Why a run of \<open>n\<close> blocks ending at \<open>last_v\<close> stopped.\<close>

definition halts_at :: "import_block list \<Rightarrow> nat \<Rightarrow> version \<Rightarrow> halt \<Rightarrow> bool" where
  "halts_at bs n last_v h =
    (case h of
       HaltComplete \<Rightarrow> n = length bs
     | HaltCorrupt \<Rightarrow> n < length bs \<and> bs ! n = BlockCorrupt
     | HaltGap got \<Rightarrow> n < length bs \<and>
         (case bs ! n of BlockCorrupt \<Rightarrow> False
          | BlockEvent e \<Rightarrow> ps_version e = got \<and> vnum got \<noteq> Suc (vnum last_v)))"

lemma halts_at_Cons [simp]: "halts_at (b # bs) (Suc n) last_v h = halts_at bs n last_v h"
  by (cases h) (simp_all add: halts_at_def)

lemma pe_version_from_persisted [simp]: "pe_version (from_persisted e) = ps_version e"
  by (simp add: from_persisted_def)

lemma plan_blocks_Inr:
  assumes "plan_blocks bs tail last_v = Inr (tail', last', h)"
  shows "\<exists>evs. tail' = tail @ map from_persisted evs \<and> take (length evs) bs = map BlockEvent evs \<and>
    run_from (vnum last_v) (map from_persisted evs) \<and>
    vnum last' = vnum last_v + length evs \<and> halts_at bs (length evs) last' h"
  using assms
proof (induction bs arbitrary: tail last_v)
  case Nil
  then show ?case by (simp add: halts_at_def)
next
  case (Cons b bs)
  show ?case
  proof (cases b)
    case BlockCorrupt
    with Cons.prems show ?thesis by (intro exI [of _ "[]"]) (simp add: halts_at_def)
  next
    case (BlockEvent e)
    then obtain nx where nx: "version_next last_v = Some nx"
      using Cons.prems by (auto simp: result_simps split: if_splits)
    then have nxn: "vnum nx = Suc (vnum last_v)" by (simp add: version_next_Some)
    show ?thesis
    proof (cases "ps_version e = nx")
      case True
      have "plan_blocks bs (tail @ [from_persisted e]) nx = Inr (tail', last', h)"
        using Cons.prems BlockEvent nx True by simp
      from Cons.IH [OF this] obtain evs where
        "tail' = (tail @ [from_persisted e]) @ map from_persisted evs"
        "take (length evs) bs = map BlockEvent evs" "run_from (vnum nx) (map from_persisted evs)"
        "vnum last' = vnum nx + length evs" "halts_at bs (length evs) last' h"
        by blast
      with BlockEvent True nxn show ?thesis by (intro exI [of _ "e # evs"]) simp
    next
      case False
      with nxn have "vnum (ps_version e) \<noteq> Suc (vnum last_v)" by (metis vnum_inject)
      with False Cons.prems BlockEvent nx show ?thesis
        by (intro exI [of _ "[]"]) (auto simp: halts_at_def)
    qed
  qed
qed

lemma version_new_pred: "version_new (as_u64 v - 1) = head_version (vnum v - 1)"
proof -
  have "as_u64 v \<noteq> 0" by (simp add: as_u64_def)
  then have "unat (as_u64 v - 1) = vnum v - 1"
    by (simp add: vnum_def unat_minus_one)
  moreover have "(if c = 0 then None else version_new c) = version_new c" for c
    by (simp add: version_new_def nonzero_new_def)
  ultimately show ?thesis
    by (metis head_version_actual)
qed

lemma plan_section_run:
  assumes "plan_section s = Inr (PlanRun first expected head tail last_v h)"
  shows "\<exists>evs. head # tail = map from_persisted evs \<and>
    take (length evs) (ss_blocks s) = map BlockEvent evs \<and>
    expected = head_version (vnum first - 1) \<and> run_from (vnum first - 1) (head # tail) \<and>
    vnum last_v = vnum first + length tail \<and> halts_at (ss_blocks s) (length evs) last_v h"
proof -
  obtain e bs where bs: "ss_blocks s = BlockEvent e # bs"
    using assms by (auto simp: plan_section_def split: list.splits import_block.splits)
  have f: "first = ps_version e" "head = from_persisted e" "expected = version_new (as_u64 first - 1)"
    "plan_blocks bs [] first = Inr (tail, last_v, h)"
    using assms bs by (auto simp: plan_section_def Let_def result_simps)
  from plan_blocks_Inr [OF f(4)] obtain evs where
    "tail = map from_persisted evs" "take (length evs) bs = map BlockEvent evs"
    "run_from (vnum first) tail" "vnum last_v = vnum first + length evs"
    "halts_at bs (length evs) last_v h"
    by auto
  moreover have "Suc (vnum first - 1) = vnum first" by simp
  ultimately show ?thesis
    using bs f by (intro exI [of _ "e # evs"]) (simp add: version_new_pred)
qed

section \<open>The atomic-append contract\<close>

definition planned_ok :: "planned_append \<Rightarrow> bool" where
  "planned_ok w \<longleftrightarrow> batch_ok (pa_batch w)"

text \<open>The log entries a list of writes stands for, in order.\<close>

definition planned_entries :: "planned_append list \<Rightarrow> (stream_key \<times> pending_envelope) list" where
  "planned_entries ws = concat (map (\<lambda>w. map (Pair (pa_target w)) (batch_iter (pa_batch w))) ws)"

lemma entries_filter:
  "distinct (map pa_target ws) \<Longrightarrow> w \<in> set ws \<Longrightarrow>
    map snd (filter (\<lambda>x. fst x = pa_target w) (planned_entries ws)) = batch_iter (pa_batch w)"
proof (induction ws)
  case (Cons v ws)
  have none: "filter (\<lambda>x. fst x = k) (planned_entries ws) = []" if "k \<notin> pa_target ` set ws" for k
    using that by (auto simp: filter_empty_conv planned_entries_def)
  have split: "planned_entries (v # ws) = map (Pair (pa_target v)) (batch_iter (pa_batch v)) @ planned_entries ws"
    by (simp add: planned_entries_def)
  show ?case
  proof (cases "w = v")
    case True
    with Cons.prems none [of "pa_target w"] show ?thesis
      by (simp add: split comp_def filter_map)
  next
    case False
    with Cons.prems have w: "w \<in> set ws" by simp
    then have "pa_target v \<noteq> pa_target w" using Cons.prems(1) by auto
    with Cons w show ?thesis by (simp add: split filter_map comp_def)
  qed
qed simp

lemma entries_filter_other:
  "k \<notin> pa_target ` set ws \<Longrightarrow> filter (\<lambda>x. fst x = k) (planned_entries ws) = []"
  by (auto simp: filter_empty_conv planned_entries_def)

lemma filter_zip_snd:
  "length ps = length es \<Longrightarrow>
    map (snd \<circ> snd) (filter (\<lambda>x. fst (snd x) = k) (zip ps es)) = map snd (filter (\<lambda>x. fst x = k) es)"
  by (induction ps es rule: list_induct2) auto

locale atomic_event_store = raw_event_store inv append read_stream read_all hist log
  for inv :: "'st \<Rightarrow> bool"
    and append :: "('st, 'pos::linorder, 'err) append_op"
    and read_stream and read_all and hist and log +
  fixes atomic :: "('st, 'pos, 'err) atomic_op"
  assumes atomic_ok: "inv s \<Longrightarrow> \<forall>w \<in> set ws. planned_ok w \<Longrightarrow> atomic ws s = (Returns (Inr pos), s') \<Longrightarrow>
      inv s' \<and> distinct (map pa_target ws) \<and>
      (\<forall>w \<in> set ws. pa_expected w = head_version (length (hist s (pa_target w))) \<and>
        run_from (length (hist s (pa_target w))) (batch_iter (pa_batch w))) \<and>
      (\<exists>ps. length ps = length (planned_entries ws) \<and> log s' = log s @ zip ps (planned_entries ws) \<and>
        pos = (if ws = [] then None else Some (last ps)))"
    and atomic_err: "inv s \<Longrightarrow> \<forall>w \<in> set ws. planned_ok w \<Longrightarrow> atomic ws s = (Returns (Inl e), s') \<Longrightarrow> s' = s"
    and atomic_total: "inv s \<Longrightarrow> \<forall>w \<in> set ws. planned_ok w \<Longrightarrow> fst (atomic ws s) \<noteq> Panics"
begin

lemma atomic_hist:
  assumes "inv s" "\<forall>w \<in> set ws. planned_ok w" "atomic ws s = (Returns (Inr pos), s')"
  shows "w \<in> set ws \<Longrightarrow> hist s' (pa_target w) = hist s (pa_target w) @ batch_iter (pa_batch w)"
    and "k \<notin> pa_target ` set ws \<Longrightarrow> hist s' k = hist s k"
proof -
  obtain ps where ps: "inv s'" "distinct (map pa_target ws)" "length ps = length (planned_entries ws)"
    "log s' = log s @ zip ps (planned_entries ws)"
    using atomic_ok [OF assms] by blast
  show "w \<in> set ws \<Longrightarrow> hist s' (pa_target w) = hist s (pa_target w) @ batch_iter (pa_batch w)"
    using ps assms(1) entries_filter [OF ps(2), of w]
    by (simp add: hist_log filter_zip_snd)
  show "k \<notin> pa_target ` set ws \<Longrightarrow> hist s' k = hist s k"
    using ps assms(1) entries_filter_other [of k ws] by (simp add: hist_log filter_zip_snd)
qed

end

section \<open>Whole-chunk import\<close>

text \<open>A section whose blocks are all events, and the write that carries them.\<close>

definition carries :: "stream_section \<Rightarrow> stream_key \<Rightarrow> planned_append \<Rightarrow> bool" where
  "carries s t w \<longleftrightarrow> pa_target w = t \<and>
    (\<exists>evs. ss_blocks s = map BlockEvent evs \<and> batch_iter (pa_batch w) = map from_persisted evs)"

lemma plan_section_Empty: "plan_section s = Inr PlanEmpty \<longleftrightarrow> ss_blocks s = []"
  by (auto simp: plan_section_def Let_def result_simps split: list.splits import_block.splits)

lemma plan_section_complete:
  assumes "plan_section s = Inr (PlanRun first expected head tail last_v HaltComplete)"
  shows "carries s t \<lparr>pa_target = t, pa_expected = expected, pa_head = head, pa_tail = tail\<rparr>"
proof -
  obtain evs where "head # tail = map from_persisted evs" "take (length evs) (ss_blocks s) = map BlockEvent evs"
    "halts_at (ss_blocks s) (length evs) last_v HaltComplete"
    using plan_section_run [OF assms] by (elim exE conjE) (rule that)
  then show ?thesis
    by (auto simp: carries_def halts_at_def pa_batch_def batch_from_parts_def batch_iter_def)
qed

lemma plan_chunk_Inr:
  assumes "plan_chunk ps ws fs ls = (Inr (ws', fs', ls') :: (_, 'err import_error) result)"
  shows "\<exists>vs. ws' = ws @ vs \<and>
    (\<forall>p \<in> set ps. ss_blocks (fst p) = [] \<or> (\<exists>w \<in> set vs. carries (fst p) (snd p) w)) \<and>
    (\<forall>w \<in> set vs. \<exists>p \<in> set ps. ss_blocks (fst p) \<noteq> [] \<and> carries (fst p) (snd p) w)"
  using assms
proof (induction ps arbitrary: ws fs ls)
  case Nil
  then show ?case by simp
next
  case (Cons p ps)
  show ?case
  proof (cases "plan_section (fst p)")
    case (Inl e)
    with Cons.prems show ?thesis by (cases e) simp
  next
    case (Inr plan)
    show ?thesis
    proof (cases plan)
      case PlanEmpty
      with Inr have "ss_blocks (fst p) = []" by (simp add: plan_section_Empty)
      moreover have "plan_chunk ps ws fs ls = (Inr (ws', fs', ls') :: (_, 'err import_error) result)"
        using Cons.prems Inr PlanEmpty by simp
      ultimately show ?thesis using Cons.IH [of ws fs ls] by auto
    next
      case PlanFirstCorrupt
      with Cons.prems Inr show ?thesis by simp
    next
      case (PlanRun first expected head tail last_v h)
      with Cons.prems Inr have h: "h = HaltComplete"
        by (cases h) (auto simp: result_simps)
      let ?w = "\<lparr>pa_target = snd p, pa_expected = expected, pa_head = head, pa_tail = tail\<rparr>"
      have c: "carries (fst p) (snd p) ?w"
        using plan_section_complete Inr PlanRun h by simp
      have ne: "ss_blocks (fst p) \<noteq> []"
        using Inr PlanRun plan_section_Empty [of "fst p"] by auto
      have "plan_chunk ps (ws @ [?w]) (fs @ [first]) (ls @ [last_v]) =
          (Inr (ws', fs', ls') :: (_, 'err import_error) result)"
        using Cons.prems Inr PlanRun h by simp
      from Cons.IH [OF this] obtain vs where "ws' = (ws @ [?w]) @ vs"
        "\<forall>p \<in> set ps. ss_blocks (fst p) = [] \<or> (\<exists>w \<in> set vs. carries (fst p) (snd p) w)"
        "\<forall>w \<in> set vs. \<exists>p \<in> set ps. ss_blocks (fst p) \<noteq> [] \<and> carries (fst p) (snd p) w"
        by blast
      with c ne show ?thesis by (intro exI [of _ "?w # vs"]) auto
    qed
  qed
qed

definition sections_ok :: "stream_section list \<Rightarrow> bool" where
  "sections_ok ss \<longleftrightarrow> (\<forall>s \<in> set ss. \<forall>b \<in> set (ss_blocks s).
    case b of BlockEvent e \<Rightarrow> persisted_ok e | BlockCorrupt \<Rightarrow> True)"

lemma carries_ok:
  assumes "sections_ok ss" "s \<in> set ss" "carries s t w"
  shows "planned_ok w"
proof -
  obtain evs where evs: "ss_blocks s = map BlockEvent evs" "batch_iter (pa_batch w) = map from_persisted evs"
    using assms(3) by (auto simp: carries_def)
  then have "\<forall>e \<in> set evs. persisted_ok e"
    using assms(1,2) by (fastforce simp: sections_ok_def)
  with evs show ?thesis by (auto simp: planned_ok_def batch_ok_def persisted_ok_def)
qed

lemma route_sections_Inr:
  "route_sections ss route = Inr ts \<longleftrightarrow> ts = map (\<lambda>s. route (ss_origin s)) ss \<and> distinct ts"
  by (auto simp: route_sections_def Let_def result_simps validate_distinct_targets_Inr)

context atomic_event_store
begin

lemma whole_chunk_plan:
  assumes "sections_ok ss" "ts = map (\<lambda>s. route (ss_origin s)) ss"
    "plan_chunk (zip ss ts) [] [] [] = (Inr (ws, fs, ls) :: (_, 'x import_error) result)"
  shows "\<forall>w \<in> set ws. planned_ok w"
proof -
  obtain vs where "ws = vs" "\<forall>w \<in> set vs. \<exists>p \<in> set (zip ss ts). carries (fst p) (snd p) w"
    using plan_chunk_Inr [OF assms(3)] by auto
  then show ?thesis
    using carries_ok [OF assms(1)] by (metis in_set_zipE prod.collapse)
qed

text \<open>Any failure leaves the store as it was.\<close>

lemma import_whole_chunk_error:
  assumes "inv s" "sections_ok ss" "import_whole_chunk atomic ss route s = (Returns (Inl e), s')"
  shows "s' = s"
proof (cases "route_sections ss route")
  case (Inl e)
  with assms(3) show ?thesis by (simp add: import_whole_chunk_def)
next
  case (Inr ts)
  show ?thesis
  proof (cases "plan_chunk (zip ss ts) [] [] [] :: (_, 'err import_error) result")
    case (Inl e)
    with assms(3) Inr show ?thesis by (simp add: import_whole_chunk_def)
  next
    case P: (Inr p)
    obtain ws fs ls where p: "p = (ws, fs, ls)" by (cases p)
    have ok: "\<forall>w \<in> set ws. planned_ok w"
      using whole_chunk_plan [OF assms(2), of ts route ws fs ls] P p Inr by (simp add: route_sections_Inr)
    obtain r s'' where at: "atomic ws s = (r, s'')" by fastforce
    show ?thesis
      using assms(3) Inr P p at atomic_err [OF assms(1) ok] atomic_total [OF assms(1) ok]
      by (auto simp: import_whole_chunk_def split: call.splits sum.splits atomic_append_error.splits)
  qed
qed

text \<open>Success means every section was made of events and all of them were appended.\<close>

lemma import_whole_chunk_success:
  assumes "inv s" "sections_ok ss" "import_whole_chunk atomic ss route s = (Returns (Inr reports), s')"
  shows "inv s'"
    and "\<And>sec. sec \<in> set ss \<Longrightarrow> \<exists>evs. ss_blocks sec = map BlockEvent evs \<and>
      hist s' (route (ss_origin sec)) = hist s (route (ss_origin sec)) @ map from_persisted evs"
    and "\<And>k. k \<notin> (\<lambda>sec. route (ss_origin sec)) ` set ss \<Longrightarrow> hist s' k = hist s k"
proof -
  obtain ts where ts: "route_sections ss route = Inr ts"
    using assms(3) by (cases "route_sections ss route") (auto simp: import_whole_chunk_def)
  then have ts': "ts = map (\<lambda>s. route (ss_origin s)) ss" "distinct ts"
    by (auto simp: route_sections_Inr)
  obtain ws fs ls where P: "plan_chunk (zip ss ts) [] [] [] = (Inr (ws, fs, ls) :: (_, 'err import_error) result)"
    using assms(3) ts
    by (cases "plan_chunk (zip ss ts) [] [] [] :: (_, 'err import_error) result") (auto simp: import_whole_chunk_def)
  have ok: "\<forall>w \<in> set ws. planned_ok w" using whole_chunk_plan [OF assms(2) ts'(1) P] .
  obtain pos where at: "atomic ws s = (Returns (Inr pos), s')"
    using assms(3) ts P
    by (cases "atomic ws s")
      (auto simp: import_whole_chunk_def split: call.splits sum.splits atomic_append_error.splits)
  note H = atomic_hist [OF assms(1) ok at]
  obtain W: "\<forall>p \<in> set (zip ss ts). ss_blocks (fst p) = [] \<or> (\<exists>w \<in> set ws. carries (fst p) (snd p) w)"
    and B: "\<forall>w \<in> set ws. \<exists>p \<in> set (zip ss ts). ss_blocks (fst p) \<noteq> [] \<and> carries (fst p) (snd p) w"
    using plan_chunk_Inr [OF P] by auto
  have zip: "set (zip ss ts) = (\<lambda>sec. (sec, route (ss_origin sec))) ` set ss"
    by (auto simp: ts'(1) zip_map2 zip_same_conv_map)
  have inj: "inj_on (\<lambda>sec. route (ss_origin sec)) (set ss)"
    using ts' by (simp add: distinct_map)
  show "inv s'" using atomic_ok [OF assms(1) ok at] by blast
  show "\<exists>evs. ss_blocks sec = map BlockEvent evs \<and>
      hist s' (route (ss_origin sec)) = hist s (route (ss_origin sec)) @ map from_persisted evs"
    if sec: "sec \<in> set ss" for sec
  proof (cases "ss_blocks sec = []")
    case True
    have "route (ss_origin sec) \<notin> pa_target ` set ws"
    proof
      assume "route (ss_origin sec) \<in> pa_target ` set ws"
      then obtain w where w: "w \<in> set ws" "pa_target w = route (ss_origin sec)" by auto
      then obtain sec' where "sec' \<in> set ss" "ss_blocks sec' \<noteq> []" "carries sec' (route (ss_origin sec')) w"
        using B zip by auto
      with w sec inj True show False by (auto simp: carries_def inj_on_def)
    qed
    with True H(2) show ?thesis by simp
  next
    case False
    then obtain w where w: "w \<in> set ws" "carries sec (route (ss_origin sec)) w"
      using W zip sec by force
    then show ?thesis using H(1) [OF w(1)] unfolding carries_def by metis
  qed
  show "hist s' k = hist s k" if "k \<notin> (\<lambda>sec. route (ss_origin sec)) ` set ss" for k
  proof (rule H(2))
    show "k \<notin> pa_target ` set ws"
      using that B zip by (auto simp: carries_def)
  qed
qed

end

section \<open>Properties\<close>

text \<open>The section planner takes the longest contiguous run of intact events from the front of a
  section. The planned batch is exactly those events in order, numbered without gaps; the expected
  version is the one before the first event; and the planner stops only at the end of the section, at
  a corrupt block, or at an event whose version is not the successor of the last one taken.\<close>

theorem plan_section_longest_run:
  assumes "plan_section s = Inr (PlanRun first expected head tail last_v h)"
  shows "\<exists>evs. head # tail = map from_persisted evs \<and>
    take (length evs) (ss_blocks s) = map BlockEvent evs \<and>
    expected = head_version (vnum first - 1) \<and> run_from (vnum first - 1) (head # tail) \<and>
    vnum last_v = vnum first + length tail \<and>
    (case h of
       HaltComplete \<Rightarrow> ss_blocks s = map BlockEvent evs
     | HaltCorrupt \<Rightarrow> length evs < length (ss_blocks s) \<and> ss_blocks s ! length evs = BlockCorrupt
     | HaltGap got \<Rightarrow> length evs < length (ss_blocks s) \<and>
         (\<exists>e. ss_blocks s ! length evs = BlockEvent e \<and> ps_version e = got \<and> vnum got \<noteq> Suc (vnum last_v)))"
proof -
  from plan_section_run [OF assms] obtain evs where e: "head # tail = map from_persisted evs"
    "take (length evs) (ss_blocks s) = map BlockEvent evs"
    "expected = head_version (vnum first - 1)" "run_from (vnum first - 1) (head # tail)"
    "vnum last_v = vnum first + length tail" "halts_at (ss_blocks s) (length evs) last_v h"
    by (elim exE conjE) (rule that)
  show ?thesis
    using e by (intro exI [of _ evs]) (cases h; auto simp: halts_at_def split: import_block.splits)
qed

definition sample_persisted :: "nat \<Rightarrow> persisted_envelope" where
  "sample_persisted n = \<lparr>ps_version = version_of n, ps_schema = schema_INITIAL, ps_value = [],
    ps_event_type_range = (0, 0), ps_payload_range = (0, 0), ps_metadata_range = None\<rparr>"

definition sample_block :: "nat \<Rightarrow> import_block" where
  "sample_block n = BlockEvent (sample_persisted n)"

theorem plan_section_longest_run_witness:
  "\<exists>expected head tail last_v. plan_section \<lparr>ss_origin = [], ss_blocks = [sample_block 3, sample_block 4, BlockCorrupt]\<rparr> =
      Inr (PlanRun (version_of 3) expected head tail last_v HaltCorrupt) \<and>
    expected = Some (version_of 2) \<and> length tail = 1 \<and> vnum last_v = 4"
proof -
  let ?s = "\<lparr>ss_origin = [], ss_blocks = [sample_block 3, sample_block 4, BlockCorrupt]\<rparr>"
  have "version_next (version_of 3) = Some (version_of 4)" by (simp add: version_next_Some vmax_def)
  then obtain expected head tail last_v where
    p: "plan_section ?s = Inr (PlanRun (version_of 3) expected head tail last_v HaltCorrupt)" "length tail = 1"
    by (simp add: plan_section_def sample_block_def sample_persisted_def Let_def)
  have "vnum (version_of 3) = 3" by (simp add: vmax_def)
  then show ?thesis
    using p plan_section_longest_run [OF p(1)] by (auto simp: head_version_def)
qed

text \<open>The pre-flight validators of an atomic append accept exactly what they should: every write's
  batch continues its expected version without gaps, and no two writes name the same stream.\<close>

theorem atomic_validators_exact:
  "(validate_atomic_runs ws = Inr () \<longleftrightarrow>
      (\<forall>w \<in> set ws. run_from (case pa_expected w of None \<Rightarrow> 0 | Some v \<Rightarrow> vnum v) (batch_iter (pa_batch w)))) \<and>
    (validate_distinct_targets (map pa_target ws) = Inr () \<longleftrightarrow> distinct (map pa_target ws))"
  by (simp add: validate_atomic_runs_Inr validate_distinct_targets_Inr)

theorem atomic_validators_exact_witness:
  "validate_distinct_targets [StreamKey [1], StreamKey [2]] = Inr () \<and>
    validate_distinct_targets [StreamKey [1], StreamKey [1]] \<noteq> Inr ()"
proof -
  let ?w = "\<lambda>k. \<lparr>pa_target = StreamKey [k], pa_expected = None, pa_head = from_persisted (sample_persisted 1), pa_tail = []\<rparr>"
  show ?thesis
    using atomic_validators_exact [of "[?w 1, ?w 2]"] atomic_validators_exact [of "[?w 1, ?w 1]"] by simp
qed

end
