(* ===== verification/Ordered_Map.thy ===== *)
theory Ordered_Map
  imports Prelude
begin

text \<open>
  Ordered maps: \<open>BTreeMap\<close> and a sorted key space as an association list with strictly
  increasing keys. The lemmas relate the operations to \<open>map_of\<close> and show that inserting
  a new greatest key appends.
\<close>

fun btree_insert :: "'k::linorder \<Rightarrow> 'v \<Rightarrow> ('k \<times> 'v) list \<Rightarrow> ('k \<times> 'v) list" where
  "btree_insert k v [] = [(k, v)]"
| "btree_insert k v ((k', v') # xs) =
    (if k < k' then (k, v) # (k', v') # xs
     else if k = k' then (k, v) # xs
     else (k', v') # btree_insert k v xs)"

definition btree_remove :: "'k \<Rightarrow> ('k \<times> 'v) list \<Rightarrow> ('k \<times> 'v) list" where
  "btree_remove k xs = filter (\<lambda>x. fst x \<noteq> k) xs"

text \<open>The entries with keys in a range given by two predicates, in order.\<close>

definition btree_range :: "('k \<Rightarrow> bool) \<Rightarrow> ('k \<times> 'v) list \<Rightarrow> ('k \<times> 'v) list" where
  "btree_range P xs = filter (\<lambda>x. P (fst x)) xs"

definition btree_ok :: "('k::linorder \<times> 'v) list \<Rightarrow> bool" where
  "btree_ok xs \<longleftrightarrow> sorted_wrt (<) (map fst xs)"

lemma btree_ok_Nil [simp]: "btree_ok []"
  by (simp add: btree_ok_def)

lemma btree_ok_Cons [simp]: "btree_ok (x # xs) \<longleftrightarrow> (\<forall>y \<in> set xs. fst x < fst y) \<and> btree_ok xs"
  by (auto simp: btree_ok_def)

lemma set_btree_insert_fst: "fst ` set (btree_insert k v xs) = insert k (fst ` set xs)"
  by (induction k v xs rule: btree_insert.induct) auto

lemma btree_insert_ok: "btree_ok xs \<Longrightarrow> btree_ok (btree_insert k v xs)"
proof (induction k v xs rule: btree_insert.induct)
  case (2 k v k' v' xs)
  have "\<forall>y \<in> set (btree_insert k v xs). k' < fst y" if "\<not> k < k'" "k \<noteq> k'"
  proof
    fix y assume "y \<in> set (btree_insert k v xs)"
    then have "fst y \<in> insert k (fst ` set xs)" by (metis imageI set_btree_insert_fst)
    with that 2 show "k' < fst y" by auto
  qed
  with 2 show ?case by auto
qed simp

lemma map_of_btree_insert: "btree_ok xs \<Longrightarrow> map_of (btree_insert k v xs) = (map_of xs)(k \<mapsto> v)"
proof (induction k v xs rule: btree_insert.induct)
  case (2 k v k' v' xs)
  then show ?case by (auto simp: fun_eq_iff)
qed simp

lemma btree_insert_append: "\<forall>y \<in> set xs. fst y < k \<Longrightarrow> btree_insert k v xs = xs @ [(k, v)]"
  by (induction k v xs rule: btree_insert.induct) auto

lemma btree_insert_fold_append:
  assumes "\<forall>y \<in> set xs. \<forall>z \<in> set ys. fst y < fst z" "btree_ok ys"
  shows "fold (\<lambda>z acc. btree_insert (fst z) (snd z) acc) ys xs = xs @ ys"
  using assms
proof (induction ys arbitrary: xs)
  case (Cons z zs)
  have "btree_insert (fst z) (snd z) xs = xs @ [z]"
    using Cons.prems by (cases z) (auto intro: btree_insert_append)
  with Cons show ?case by auto
qed simp

lemma btree_ok_append:
  "btree_ok (xs @ ys) \<longleftrightarrow> btree_ok xs \<and> btree_ok ys \<and> (\<forall>x \<in> set xs. \<forall>y \<in> set ys. fst x < fst y)"
  by (auto simp: btree_ok_def sorted_wrt_append)

lemma btree_remove_ok: "btree_ok xs \<Longrightarrow> btree_ok (btree_remove k xs)"
  by (induction xs) (auto simp: btree_remove_def)

lemma map_of_btree_remove: "map_of (btree_remove k xs) = (map_of xs)(k := None)"
  by (induction xs) (auto simp: btree_remove_def fun_eq_iff)

lemma map_of_btree_get: "btree_ok xs \<Longrightarrow> map_of xs k = Some v \<longleftrightarrow> (k, v) \<in> set xs"
  by (intro map_of_eq_Some_iff) (simp add: btree_ok_def strict_sorted_iff)

lemma set_btree_insert:
  "btree_ok xs \<Longrightarrow> set (btree_insert k v xs) = insert (k, v) {x \<in> set xs. fst x \<noteq> k}"
proof (induction k v xs rule: btree_insert.induct)
  case (2 k v k' v' xs)
  then show ?case by auto
qed simp

end
