(* ===== verification/Wake_Registry.thy ===== *)
theory Wake_Registry
  imports Prelude "HOL-Library.Multiset"
begin

text \<open>
  Wake routing: the per-stream registry of \<open>crates/wake/src/lib.rs\<close> and the global
  event count of \<open>crates/wake-nostd/src/lib.rs\<close>, both providers of the \<open>WakeSource\<close>
  traits of \<open>crates/store/src/wake.rs\<close>.

  A \<open>tokio::sync::watch\<close> channel is modelled by its value, the number of sends it has
  seen, and whether its sender is alive; a receiver that marked \<open>n\<close> sends as seen is
  resolved by \<open>changed\<close> once the channel moved past \<open>n\<close> or closed. Channels live in a
  heap, because a stream's entry is removed and re-created over time.
\<close>

section \<open>The wake contract\<close>

text \<open>
  \<open>watches w r k\<close>: registration \<open>r\<close> is live in \<open>w\<close> and covers stream \<open>k\<close>. The promise of
  \<open>arm\<close>: a wake of a covered stream after \<open>arm\<close> resolves the wait, whatever other wakes
  surround it, as long as no more than \<open>capacity\<close> of them happen before the wait is polled.
\<close>

locale wake_source =
  fixes wake :: "bytes \<Rightarrow> 'w \<Rightarrow> 'w"
    and arm :: "'w \<Rightarrow> 'r \<Rightarrow> 'a"
    and ready :: "'w \<Rightarrow> 'a \<Rightarrow> bool"
    and watches :: "'w \<Rightarrow> 'r \<Rightarrow> bytes \<Rightarrow> bool"
    and capacity :: nat
  assumes wake_resolves: "watches w r k \<Longrightarrow> k \<in> set ks \<Longrightarrow> length ks \<le> capacity \<Longrightarrow>
      ready (fold wake ks w) (arm w r)"
    and arm_fresh: "watches w r k \<Longrightarrow> \<not> ready w (arm w r)"
begin

lemma one_wake_resolves: "watches w r k \<Longrightarrow> 0 < capacity \<Longrightarrow> ready (wake k w) (arm w r)"
  using wake_resolves [of w r k "[k]"] by simp

end

section \<open>StreamNotifiers\<close>

datatype notify_error = SubscriberOverflow

record watch =
  w_value :: u64
  w_sends :: nat
  w_open :: bool

record entry =
  en_chan :: nat
  en_subscribers :: nat

text \<open>Channel 0 is the store-wide \<open>$all\<close> generation.\<close>

record notifiers =
  nt_map :: "bytes \<rightharpoonup> entry"
  nt_chans :: "nat \<Rightarrow> watch"
  nt_fresh :: nat

record wake_reg =
  wr_chan :: nat
  wr_guard :: "bytes option"

record wake_wait =
  ww_chan :: nat
  ww_seen :: nat

definition watch_new :: watch where
  "watch_new = \<lparr>w_value = 0, w_sends = 0, w_open = True\<rparr>"

definition send_modify :: "watch \<Rightarrow> watch" where
  "send_modify c = c\<lparr>w_value := w_value c + 1, w_sends := Suc (w_sends c)\<rparr>"

definition notifiers_new :: notifiers where
  "notifiers_new = \<lparr>nt_map = Map.empty, nt_chans = (\<lambda>_. watch_new), nt_fresh = 1\<rparr>"

definition bump :: "nat \<Rightarrow> notifiers \<Rightarrow> notifiers" where
  "bump c n = n\<lparr>nt_chans := (nt_chans n)(c := send_modify (nt_chans n c))\<rparr>"

definition register_entry ::
  "bytes \<Rightarrow> notifiers \<Rightarrow> (wake_reg, notify_error) result \<times> notifiers" where
  "register_entry key n =
    (let (entry, n) =
       (case nt_map n key of
          Some e \<Rightarrow> (e, n)
        | None \<Rightarrow>
            let c = nt_fresh n; e = \<lparr>en_chan = c, en_subscribers = 0\<rparr> in
            (e, n\<lparr>nt_map := (nt_map n)(key \<mapsto> e), nt_chans := (nt_chans n)(c := watch_new),
                  nt_fresh := Suc c\<rparr>))
     in case checked_add_usize (en_subscribers entry) 1 of
          None \<Rightarrow> (Inl SubscriberOverflow, n)
        | Some m \<Rightarrow>
            (Inr \<lparr>wr_chan = en_chan entry, wr_guard = Some key\<rparr>,
             n\<lparr>nt_map := (nt_map n)(key \<mapsto> entry\<lparr>en_subscribers := m\<rparr>)\<rparr>))"

definition nt_register ::
  "bytes option \<Rightarrow> notifiers \<Rightarrow> (wake_reg, notify_error) result \<times> notifiers" where
  "nt_register stream n =
    (case stream of
       None \<Rightarrow> (Inr \<lparr>wr_chan = 0, wr_guard = None\<rparr>, n)
     | Some s \<Rightarrow> register_entry s n)"

definition nt_wake :: "bytes \<Rightarrow> notifiers \<Rightarrow> notifiers" where
  "nt_wake stream n =
    (let n = (case nt_map n stream of Some e \<Rightarrow> bump (en_chan e) n | None \<Rightarrow> n) in bump 0 n)"

definition nt_generation :: "notifiers \<Rightarrow> bytes \<Rightarrow> u64" where
  "nt_generation n stream =
    (case nt_map n stream of None \<Rightarrow> 0 | Some e \<Rightarrow> w_value (nt_chans n (en_chan e)))"

definition nt_all_generation :: "notifiers \<Rightarrow> u64" where
  "nt_all_generation n = w_value (nt_chans n 0)"

definition nt_active_streams :: "notifiers \<Rightarrow> nat" where
  "nt_active_streams n = card (dom (nt_map n))"

text \<open>Removing the last subscriber's entry drops the sender, which closes the channel.\<close>

definition nt_release :: "bytes \<Rightarrow> notifiers \<Rightarrow> notifiers" where
  "nt_release key n =
    (case nt_map n key of
       None \<Rightarrow> n
     | Some e \<Rightarrow>
         if en_subscribers e \<le> 1
         then n\<lparr>nt_map := (nt_map n)(key := None),
                nt_chans := (nt_chans n)(en_chan e := (nt_chans n (en_chan e))\<lparr>w_open := False\<rparr>)\<rparr>
         else n\<lparr>nt_map := (nt_map n)(key \<mapsto> e\<lparr>en_subscribers := en_subscribers e - 1\<rparr>)\<rparr>)"

definition reg_drop :: "wake_reg \<Rightarrow> notifiers \<Rightarrow> notifiers" where
  "reg_drop r n = (case wr_guard r of None \<Rightarrow> n | Some key \<Rightarrow> nt_release key n)"

definition nt_arm :: "notifiers \<Rightarrow> wake_reg \<Rightarrow> wake_wait" where
  "nt_arm n r = \<lparr>ww_chan = wr_chan r, ww_seen = w_sends (nt_chans n (wr_chan r))\<rparr>"

definition nt_ready :: "notifiers \<Rightarrow> wake_wait \<Rightarrow> bool" where
  "nt_ready n a \<longleftrightarrow> w_sends (nt_chans n (ww_chan a)) \<noteq> ww_seen a \<or> \<not> w_open (nt_chans n (ww_chan a))"

section \<open>The registry as a transition system\<close>

text \<open>The registry together with the live registrations, and its steps.\<close>

type_synonym wake_system = "notifiers \<times> wake_reg multiset"

inductive wake_step :: "wake_system \<Rightarrow> wake_system \<Rightarrow> bool" where
  step_register: "nt_register s n = (Inr r, n') \<Longrightarrow> wake_step (n, regs) (n', add_mset r regs)"
| step_refuse: "nt_register s n = (Inl e, n') \<Longrightarrow> wake_step (n, regs) (n', regs)"
| step_wake: "wake_step (n, regs) (nt_wake k n, regs)"
| step_drop: "r \<in># regs \<Longrightarrow> wake_step (n, regs) (reg_drop r n, regs - {#r#})"

inductive wake_reachable :: "wake_system \<Rightarrow> bool" where
  reach_init: "wake_reachable (notifiers_new, {#})"
| reach_step: "wake_reachable s \<Longrightarrow> wake_step s s' \<Longrightarrow> wake_reachable s'"

definition guards :: "bytes \<Rightarrow> wake_reg multiset \<Rightarrow> wake_reg multiset" where
  "guards k regs = filter_mset (\<lambda>r. wr_guard r = Some k) regs"

text \<open>An entry exists exactly for the streams with live registrations, counts them, and its
channel is open, not shared, and the one they all hold.\<close>

definition entry_inv :: "notifiers \<Rightarrow> wake_reg multiset \<Rightarrow> bytes \<Rightarrow> entry \<Rightarrow> bool" where
  "entry_inv n regs k e \<longleftrightarrow> en_subscribers e = size (guards k regs) \<and> guards k regs \<noteq> {#} \<and>
    size (guards k regs) \<le> usize_max \<and> (\<forall>r \<in># guards k regs. wr_chan r = en_chan e) \<and>
    0 < en_chan e \<and> en_chan e < nt_fresh n \<and> w_open (nt_chans n (en_chan e))"

definition wake_inv :: "wake_system \<Rightarrow> bool" where
  "wake_inv s \<longleftrightarrow>
    0 < nt_fresh (fst s) \<and> w_open (nt_chans (fst s) 0) \<and>
    (\<forall>r \<in># snd s. wr_guard r = None \<longrightarrow> wr_chan r = 0) \<and>
    (\<forall>k. nt_map (fst s) k = None \<longrightarrow> guards k (snd s) = {#}) \<and>
    (\<forall>k e. nt_map (fst s) k = Some e \<longrightarrow> entry_inv (fst s) (snd s) k e) \<and>
    (\<forall>k k' e e'. nt_map (fst s) k = Some e \<and> nt_map (fst s) k' = Some e' \<and> en_chan e = en_chan e'
      \<longrightarrow> k = k')"

definition nt_watches :: "wake_system \<Rightarrow> wake_reg \<Rightarrow> bytes \<Rightarrow> bool" where
  "nt_watches s r k \<longleftrightarrow> wake_inv s \<and> r \<in># snd s \<and> (wr_guard r = None \<or> wr_guard r = Some k)"

section \<open>GlobalWake\<close>

record global_wake =
  gw_generation :: u32
  gw_notified :: nat

text \<open>\<open>gw_notified\<close> counts the \<open>notify\<close> calls, by which a listener knows whether it was
notified since it registered.\<close>

record global_wait =
  gx_seen :: u32
  gx_listener :: "nat option"

definition gw_new :: global_wake where
  "gw_new = \<lparr>gw_generation = 0, gw_notified = 0\<rparr>"

definition gw_wake :: "bytes \<Rightarrow> global_wake \<Rightarrow> global_wake" where
  "gw_wake stream g =
    (let g = g\<lparr>gw_generation := gw_generation g + 1\<rparr> in g\<lparr>gw_notified := Suc (gw_notified g)\<rparr>)"

definition gw_arm :: "global_wake \<Rightarrow> unit \<Rightarrow> global_wait" where
  "gw_arm g r = \<lparr>gx_seen = gw_generation g, gx_listener = None\<rparr>"

text \<open>One poll: the first registers the listener and re-checks the generation, later ones
ask the listener.\<close>

definition gw_poll :: "global_wake \<Rightarrow> global_wait \<Rightarrow> bool \<times> global_wait" where
  "gw_poll g a =
    (case gx_listener a of
       None \<Rightarrow>
         let a' = a\<lparr>gx_listener := Some (gw_notified g)\<rparr> in
         if gw_generation g \<noteq> gx_seen a then (True, a') else (False, a')
     | Some n \<Rightarrow> (gw_notified g \<noteq> n, a))"

definition gw_ready :: "global_wake \<Rightarrow> global_wait \<Rightarrow> bool" where
  "gw_ready g a = fst (gw_poll g a)"

definition gw_watches :: "global_wake \<Rightarrow> unit \<Rightarrow> bytes \<Rightarrow> bool" where
  "gw_watches g r k = True"

section \<open>Lemmas\<close>

lemma bump_simps [simp]:
  "nt_map (bump c n) = nt_map n" "nt_fresh (bump c n) = nt_fresh n"
  "w_sends (nt_chans (bump c n) d) = w_sends (nt_chans n d) + (if c = d then 1 else 0)"
  "w_open (nt_chans (bump c n) d) = w_open (nt_chans n d)"
  by (simp_all add: bump_def send_modify_def)

lemma nt_wake_simps [simp]:
  "nt_map (nt_wake k n) = nt_map n" "nt_fresh (nt_wake k n) = nt_fresh n"
  "w_open (nt_chans (nt_wake k n) d) = w_open (nt_chans n d)"
  by (simp_all add: nt_wake_def Let_def split: option.split)

lemma nt_wake_sends:
  "w_sends (nt_chans n d) \<le> w_sends (nt_chans (nt_wake k n) d)"
  "w_sends (nt_chans (nt_wake k n) 0) = Suc (w_sends (nt_chans n 0)) +
    (case nt_map n k of Some e \<Rightarrow> if en_chan e = 0 then 1 else 0 | None \<Rightarrow> 0)"
  "nt_map n k = Some e \<Longrightarrow> w_sends (nt_chans n (en_chan e)) < w_sends (nt_chans (nt_wake k n) (en_chan e))"
  by (simp_all add: nt_wake_def Let_def split: option.split)

lemma nt_wake_other:
  "d \<noteq> 0 \<Longrightarrow> (\<And>e. nt_map n k = Some e \<Longrightarrow> en_chan e \<noteq> d) \<Longrightarrow>
    w_sends (nt_chans (nt_wake k n) d) = w_sends (nt_chans n d)"
  by (auto simp: nt_wake_def Let_def split: option.split)

lemma wake_inv_wake: "wake_inv (n, regs) \<Longrightarrow> wake_inv (nt_wake k n, regs)"
  by (simp add: wake_inv_def entry_inv_def)

lemma wake_inv_init: "wake_inv (notifiers_new, {#})"
  by (simp add: wake_inv_def notifiers_new_def watch_new_def guards_def)

lemma guards_add [simp]:
  "guards k (add_mset r regs) = (if wr_guard r = Some k then add_mset r (guards k regs) else guards k regs)"
  by (simp add: guards_def)

lemma register_entry_fresh:
  "nt_map n key = None \<Longrightarrow> register_entry key n =
    (Inr \<lparr>wr_chan = nt_fresh n, wr_guard = Some key\<rparr>,
     n\<lparr>nt_map := (nt_map n)(key \<mapsto> \<lparr>en_chan = nt_fresh n, en_subscribers = 1\<rparr>),
       nt_chans := (nt_chans n)(nt_fresh n := watch_new), nt_fresh := Suc (nt_fresh n)\<rparr>)"
  by (simp add: register_entry_def Let_def checked_add_usize_def usize_max_def)

lemma register_entry_existing:
  "nt_map n key = Some e \<Longrightarrow> register_entry key n =
    (if en_subscribers e < usize_max
     then (Inr \<lparr>wr_chan = en_chan e, wr_guard = Some key\<rparr>,
           n\<lparr>nt_map := (nt_map n)(key \<mapsto> e\<lparr>en_subscribers := Suc (en_subscribers e)\<rparr>)\<rparr>)
     else (Inl SubscriberOverflow, n))"
  by (simp add: register_entry_def checked_add_usize_def Suc_le_eq)

lemma register_entry_Inl: "register_entry key n = (Inl e, n') \<Longrightarrow> n' = n"
  by (cases "nt_map n key")
    (auto simp: register_entry_fresh register_entry_existing split: if_splits)

lemma nt_register_Inl: "nt_register s n = (Inl e, n') \<Longrightarrow> n' = n"
  by (auto simp: nt_register_def register_entry_Inl split: option.splits)

lemma entry_inv_frame:
  assumes "entry_inv n regs k e" "guards k regs' = guards k regs" "nt_fresh n \<le> nt_fresh n'"
    "w_open (nt_chans n' (en_chan e)) = w_open (nt_chans n (en_chan e))"
  shows "entry_inv n' regs' k e"
  using assms by (simp add: entry_inv_def)

lemma wake_invI:
  assumes "0 < nt_fresh n" "w_open (nt_chans n 0)"
    "\<And>r. r \<in># regs \<Longrightarrow> wr_guard r = None \<Longrightarrow> wr_chan r = 0"
    "\<And>k. nt_map n k = None \<Longrightarrow> guards k regs = {#}"
    "\<And>k e. nt_map n k = Some e \<Longrightarrow> entry_inv n regs k e"
    "\<And>k k' e e'. nt_map n k = Some e \<Longrightarrow> nt_map n k' = Some e' \<Longrightarrow> en_chan e = en_chan e' \<Longrightarrow> k = k'"
  shows "wake_inv (n, regs)"
  using assms by (auto simp: wake_inv_def)

lemma wake_invD:
  assumes "wake_inv (n, regs)"
  shows "0 < nt_fresh n" "w_open (nt_chans n 0)"
    "r \<in># regs \<Longrightarrow> wr_guard r = None \<Longrightarrow> wr_chan r = 0"
    "nt_map n k = None \<Longrightarrow> guards k regs = {#}"
    "nt_map n k = Some e \<Longrightarrow> entry_inv n regs k e"
    "nt_map n k = Some e \<Longrightarrow> nt_map n k' = Some e' \<Longrightarrow> en_chan e = en_chan e' \<Longrightarrow> k = k'"
  using assms by (auto simp: wake_inv_def)

lemma wake_inv_register_entry:
  assumes inv: "wake_inv (n, regs)" and reg: "register_entry key n = (Inr r, n')"
  shows "wake_inv (n', add_mset r regs)"
proof (cases "nt_map n key")
  case None
  let ?e = "\<lparr>en_chan = nt_fresh n, en_subscribers = 1\<rparr>"
  have r: "r = \<lparr>wr_chan = nt_fresh n, wr_guard = Some key\<rparr>"
    and n': "nt_map n' = (nt_map n)(key \<mapsto> ?e)" "nt_chans n' = (nt_chans n)(nt_fresh n := watch_new)"
      "nt_fresh n' = Suc (nt_fresh n)"
    using reg None by (auto simp: register_entry_fresh)
  have sep: "en_chan e < nt_fresh n" if "nt_map n k = Some e" for k e
    using wake_invD(5) [OF inv that] by (simp add: entry_inv_def)
  have old: "entry_inv n' (add_mset r regs) k e" if "nt_map n k = Some e" "k \<noteq> key" for k e
    by (rule entry_inv_frame [OF wake_invD(5) [OF inv that(1)]]) (use that n' r sep [OF that(1)] in simp_all)
  have new: "entry_inv n' (add_mset r regs) key ?e"
    using wake_invD(4) [OF inv None] wake_invD(1) [OF inv] n' r
    by (simp add: entry_inv_def usize_max_def watch_new_def)
  show ?thesis
  proof (rule wake_invI)
    show "w_open (nt_chans n' 0)" using wake_invD(1,2) [OF inv] n' by (simp add: watch_new_def)
    show "guards k (add_mset r regs) = {#}" if "nt_map n' k = None" for k
      using that wake_invD(4) [OF inv, of k] n' r by (auto split: if_splits)
    show "entry_inv n' (add_mset r regs) k e" if "nt_map n' k = Some e" for k e
      using that old [of k e] new n' by (auto split: if_splits)
    show "k = k'" if "nt_map n' k = Some e" "nt_map n' k' = Some e'" "en_chan e = en_chan e'" for k k' e e'
      using that sep [of k e] sep [of k' e'] wake_invD(6) [OF inv, of k e k' e'] n' by (auto split: if_splits)
  qed (use wake_invD(3) [OF inv] n' r in auto)
next
  case (Some e)
  let ?e = "e\<lparr>en_subscribers := Suc (en_subscribers e)\<rparr>"
  have r: "r = \<lparr>wr_chan = en_chan e, wr_guard = Some key\<rparr>" and lt: "en_subscribers e < usize_max"
    and n': "n' = n\<lparr>nt_map := (nt_map n)(key \<mapsto> ?e)\<rparr>"
    using reg Some by (auto simp: register_entry_existing split: if_splits)
  have old: "entry_inv n' (add_mset r regs) k e" if "nt_map n k = Some e" "k \<noteq> key" for k e
    by (rule entry_inv_frame [OF wake_invD(5) [OF inv that(1)]]) (use that n' r in simp_all)
  have new: "entry_inv n' (add_mset r regs) key ?e"
    using wake_invD(5) [OF inv Some] lt n' r by (simp add: entry_inv_def)
  have sep: "en_chan e' \<noteq> en_chan e" if "nt_map n k = Some e'" "k \<noteq> key" for k e'
    using wake_invD(6) [OF inv that(1) Some] that(2) by blast
  show ?thesis
  proof (rule wake_invI)
    show "guards k (add_mset r regs) = {#}" if "nt_map n' k = None" for k
      using that wake_invD(4) [OF inv, of k] n' r by (auto split: if_splits)
    show "entry_inv n' (add_mset r regs) k e" if "nt_map n' k = Some e" for k e
      using that old [of k e] new n' by (auto split: if_splits)
    show "k = k'" if "nt_map n' k = Some e1" "nt_map n' k' = Some e2" "en_chan e1 = en_chan e2" for k k' e1 e2
      using that sep [of k e1] sep [of k' e2] wake_invD(6) [OF inv, of k e1 k' e2] n' by (auto split: if_splits)
  qed (use wake_invD(1,2,3) [OF inv] n' r in auto)
qed

lemma wake_inv_register:
  assumes "wake_inv (n, regs)" "nt_register s n = (Inr r, n')"
  shows "wake_inv (n', add_mset r regs)"
proof (cases s)
  case None
  with assms have "n' = n" "r = \<lparr>wr_chan = 0, wr_guard = None\<rparr>" by (auto simp: nt_register_def)
  with assms(1) show ?thesis by (auto simp: wake_inv_def entry_inv_def)
next
  case (Some key)
  with assms show ?thesis by (simp add: nt_register_def wake_inv_register_entry)
qed

lemma wake_inv_drop:
  assumes inv: "wake_inv (n, regs)" and r: "r \<in># regs"
  shows "wake_inv (reg_drop r n, regs - {#r#})"
proof (cases "wr_guard r")
  case None
  then have "guards k (regs - {#r#}) = guards k regs" for k
    by (simp add: guards_def)
  with inv None r show ?thesis
    by (auto simp: wake_inv_def entry_inv_def reg_drop_def dest: in_diffD)
next
  case (Some key)
  let ?regs = "regs - {#r#}"
  have g: "guards key ?regs = guards key regs - {#r#}" "k \<noteq> key \<Longrightarrow> guards k ?regs = guards k regs" for k
    using Some by (simp_all add: guards_def)
  have rg: "r \<in># guards key regs" using r Some by (simp add: guards_def)
  then obtain e where e: "nt_map n key = Some e"
    using inv by (cases "nt_map n key") (auto simp: wake_inv_def)
  have E: "entry_inv n regs key e" using inv e by (simp add: wake_inv_def)
  have sep: "en_chan e' \<noteq> en_chan e" if "nt_map n k = Some e'" "k \<noteq> key" for k e'
    using wake_invD(6) [OF inv that(1) e] that(2) by blast
  have zero: "en_chan e \<noteq> 0" using E by (simp add: entry_inv_def)
  show ?thesis
  proof (cases "en_subscribers e \<le> 1")
    case True
    let ?n = "n\<lparr>nt_map := (nt_map n)(key := None),
      nt_chans := (nt_chans n)(en_chan e := (nt_chans n (en_chan e))\<lparr>w_open := False\<rparr>)\<rparr>"
    have "size (guards key regs) = 1"
      using E True rg by (auto simp: entry_inv_def nonempty_has_size)
    then obtain a where "guards key regs = {#a#}" using size_1_singleton_mset by metis
    with rg have "guards key regs = {#r#}" by simp
    then have empty: "guards key ?regs = {#}" using g by simp
    have "entry_inv ?n ?regs k e'" if "nt_map n k = Some e'" "k \<noteq> key" for k e'
      by (rule entry_inv_frame [OF wake_invD(5) [OF inv that(1)]])
        (use that sep [OF that] g(2) [OF that(2)] in simp_all)
    moreover have "reg_drop r n = ?n" using Some e True by (simp add: reg_drop_def nt_release_def)
    moreover have "wake_inv (?n, ?regs)"
    proof (rule wake_invI)
      show "guards k ?regs = {#}" if "nt_map ?n k = None" for k
        using that empty g(2) [of k] wake_invD(4) [OF inv, of k] by (cases "k = key") auto
    qed (use wake_invD(1,2,3,6) [OF inv] zero calculation(1) in \<open>auto dest: in_diffD split: if_splits\<close>)
    ultimately show ?thesis by simp
  next
    case False
    let ?e = "e\<lparr>en_subscribers := en_subscribers e - 1\<rparr>"
    let ?n = "n\<lparr>nt_map := (nt_map n)(key \<mapsto> ?e)\<rparr>"
    have sz: "size (guards key ?regs) = en_subscribers e - 1"
      using E rg g(1) by (simp add: entry_inv_def size_Diff_singleton)
    then have ne: "guards key ?regs \<noteq> {#}" using False by force
    have "\<forall>r' \<in># guards key ?regs. wr_chan r' = en_chan e"
      using E g(1) by (auto simp: entry_inv_def dest: in_diffD)
    with E sz ne have "entry_inv ?n ?regs key ?e"
      by (auto simp: entry_inv_def)
    moreover have "entry_inv ?n ?regs k e'" if "nt_map n k = Some e'" "k \<noteq> key" for k e'
      by (rule entry_inv_frame [OF wake_invD(5) [OF inv that(1)]]) (use that g(2) [OF that(2)] in simp_all)
    moreover have "reg_drop r n = ?n" using Some e False by (simp add: reg_drop_def nt_release_def)
    moreover have "wake_inv (?n, ?regs)"
    proof (rule wake_invI)
      show "guards k ?regs = {#}" if "nt_map ?n k = None" for k
        using that g(2) [of k] wake_invD(4) [OF inv, of k] by (cases "k = key") auto
      show "k = k'" if "nt_map ?n k = Some e1" "nt_map ?n k' = Some e2" "en_chan e1 = en_chan e2" for k k' e1 e2
        using that sep [of k e1] sep [of k' e2] wake_invD(6) [OF inv, of k e1 k' e2] by (auto split: if_splits)
    qed (use wake_invD(1,2,3) [OF inv] calculation(1,2) in \<open>auto dest: in_diffD split: if_splits\<close>)
    ultimately show ?thesis by simp
  qed
qed

theorem wake_inv_step: "wake_step s s' \<Longrightarrow> wake_inv s \<Longrightarrow> wake_inv s'"
proof (induction rule: wake_step.induct)
  case (step_register s n r n' regs)
  then show ?case by (blast intro: wake_inv_register)
next
  case (step_refuse s n e n' regs)
  then show ?case using nt_register_Inl by blast
next
  case (step_wake n regs k)
  then show ?case by (rule wake_inv_wake)
next
  case (step_drop r regs n)
  then show ?case by (blast intro: wake_inv_drop)
qed

lemma wake_inv_reachable: "wake_reachable s \<Longrightarrow> wake_inv s"
  by (induction rule: wake_reachable.induct) (auto intro: wake_inv_init wake_inv_step)

text \<open>The system as a wake source: waking leaves the registrations alone.\<close>

definition sys_wake :: "bytes \<Rightarrow> wake_system \<Rightarrow> wake_system" where
  "sys_wake k s = (nt_wake k (fst s), snd s)"

definition sys_arm :: "wake_system \<Rightarrow> wake_reg \<Rightarrow> wake_wait" where
  "sys_arm s r = nt_arm (fst s) r"

definition sys_ready :: "wake_system \<Rightarrow> wake_wait \<Rightarrow> bool" where
  "sys_ready s a = nt_ready (fst s) a"

lemma fold_sys_wake_sends:
  "w_sends (nt_chans (fst s) c) \<le> w_sends (nt_chans (fst (fold sys_wake ks s)) c)"
proof (induction ks arbitrary: s)
  case (Cons k ks)
  have "w_sends (nt_chans (fst s) c) \<le> w_sends (nt_chans (fst (sys_wake k s)) c)"
    by (simp add: sys_wake_def nt_wake_sends)
  also have "\<dots> \<le> w_sends (nt_chans (fst (fold sys_wake ks (sys_wake k s))) c)"
    by (rule Cons.IH)
  finally show ?case by simp
qed simp

lemma nt_watches_wake: "nt_watches s r k \<Longrightarrow> nt_watches (sys_wake j s) r k"
  by (cases s) (simp add: nt_watches_def sys_wake_def wake_inv_wake)

lemma wake_advances:
  assumes "nt_watches s r k"
  shows "w_sends (nt_chans (fst s) (wr_chan r)) < w_sends (nt_chans (fst (sys_wake k s)) (wr_chan r))"
proof (cases "wr_guard r")
  case None
  with assms have "wr_chan r = 0"
    using wake_invD(3) [of "fst s" "snd s" r] by (simp add: nt_watches_def)
  then show ?thesis by (simp add: sys_wake_def nt_wake_sends(2))
next
  case (Some key)
  with assms have g: "r \<in># guards k (snd s)" and inv: "wake_inv (fst s, snd s)"
    by (auto simp: nt_watches_def guards_def)
  then obtain e where e: "nt_map (fst s) k = Some e"
    using wake_invD(4) [OF inv, of k] by (cases "nt_map (fst s) k") auto
  with g have "wr_chan r = en_chan e"
    using wake_invD(5) [OF inv e] by (simp add: entry_inv_def)
  with e show ?thesis by (simp add: sys_wake_def nt_wake_sends(3))
qed

lemma fold_wake_advances:
  assumes "nt_watches s r k" "k \<in> set ks"
  shows "w_sends (nt_chans (fst s) (wr_chan r)) < w_sends (nt_chans (fst (fold sys_wake ks s)) (wr_chan r))"
  using assms
proof (induction ks arbitrary: s)
  case (Cons j ks)
  have le: "w_sends (nt_chans (fst s) (wr_chan r)) \<le> w_sends (nt_chans (fst (sys_wake j s)) (wr_chan r))"
    by (simp add: sys_wake_def nt_wake_sends)
  show ?case
  proof (cases "j = k")
    case True
    then show ?thesis
      using wake_advances [OF Cons.prems(1)] fold_sys_wake_sends [of "sys_wake k s" "wr_chan r" ks]
      by simp
  next
    case False
    with Cons.prems have "k \<in> set ks" by simp
    with Cons.IH [OF nt_watches_wake [OF Cons.prems(1), of j]] le show ?thesis by simp
  qed
qed simp

lemma nt_watches_open:
  assumes "nt_watches s r k"
  shows "w_open (nt_chans (fst s) (wr_chan r))"
proof (cases "wr_guard r")
  case None
  with assms show ?thesis
    using wake_invD(2,3) [of "fst s" "snd s"] by (auto simp: nt_watches_def)
next
  case (Some key)
  with assms have g: "r \<in># guards k (snd s)" and inv: "wake_inv (fst s, snd s)"
    by (auto simp: nt_watches_def guards_def)
  then obtain e where e: "nt_map (fst s) k = Some e"
    using wake_invD(4) [OF inv, of k] by (cases "nt_map (fst s) k") auto
  with g wake_invD(5) [OF inv e] show ?thesis by (auto simp: entry_inv_def)
qed

interpretation sn: wake_source sys_wake sys_arm sys_ready nt_watches "2 ^ 63 - 1"
proof unfold_locales
  fix s r k ks
  assume "nt_watches s r k" "k \<in> set ks"
  then show "sys_ready (fold sys_wake ks s) (sys_arm s r)"
    using fold_wake_advances [of s r k ks] by (simp add: sys_ready_def sys_arm_def nt_ready_def nt_arm_def)
next
  fix s r k
  assume "nt_watches s r k"
  then show "\<not> sys_ready s (sys_arm s r)"
    using nt_watches_open [of s r k] by (simp add: sys_ready_def sys_arm_def nt_ready_def nt_arm_def)
qed

lemma gw_fold:
  "gw_generation (fold gw_wake ks g) = gw_generation g + of_nat (length ks)"
  "gw_notified (fold gw_wake ks g) = gw_notified g + length ks"
  by (induction ks arbitrary: g) (simp_all add: gw_wake_def Let_def)

interpretation gw: wake_source gw_wake gw_arm gw_ready gw_watches "2 ^ 32 - 1"
proof unfold_locales
  fix g r k and ks :: "bytes list"
  assume k: "k \<in> set ks" "length ks \<le> 2 ^ 32 - 1"
  then have "unat (of_nat (length ks) :: u32) = length ks"
    by (intro unat_of_nat_small) simp
  with k have "(of_nat (length ks) :: u32) \<noteq> 0"
    by (cases ks) (auto simp: word_unat_eq_iff)
  then show "gw_ready (fold gw_wake ks g) (gw_arm g r)"
    by (simp add: gw_ready_def gw_poll_def gw_arm_def gw_fold Let_def)
qed (simp add: gw_ready_def gw_poll_def gw_arm_def Let_def)

text \<open>Routing is exact: a wake of another stream leaves a per-stream wait parked.\<close>

lemma sys_wake_other_stream:
  assumes "wake_inv s" "r \<in># snd s" "wr_guard r = Some k" "j \<noteq> k"
  shows "\<not> sys_ready (sys_wake j s) (sys_arm s r)"
proof -
  have inv: "wake_inv (fst s, snd s)" and g: "r \<in># guards k (snd s)"
    using assms by (simp_all add: guards_def)
  then obtain e where e: "nt_map (fst s) k = Some e"
    using wake_invD(4) [OF inv, of k] by (cases "nt_map (fst s) k") auto
  have E: "entry_inv (fst s) (snd s) k e" by (rule wake_invD(5) [OF inv e])
  then have c: "wr_chan r = en_chan e" "en_chan e \<noteq> 0" using g by (auto simp: entry_inv_def)
  have "w_sends (nt_chans (nt_wake j (fst s)) (en_chan e)) = w_sends (nt_chans (fst s) (en_chan e))"
    using c wake_invD(6) [OF inv _ e] assms(4) by (intro nt_wake_other) auto
  with c E show ?thesis
    by (simp add: sys_ready_def sys_wake_def sys_arm_def nt_ready_def nt_arm_def entry_inv_def)
qed

section \<open>Properties\<close>

text \<open>In every reachable state of the wake registry a stream has an entry exactly when it has live
  registrations, the entry counts them, and its channel is open and belongs to no other stream, so
  nothing leaks and nothing is removed too early.\<close>

theorem wake_registry_tracks_registrations:
  assumes "wake_reachable (n, regs)"
  shows "(nt_map n k = None \<longleftrightarrow> filter_mset (\<lambda>r. wr_guard r = Some k) regs = {#}) \<and>
    (\<forall>e. nt_map n k = Some e \<longrightarrow>
      en_subscribers e = size (filter_mset (\<lambda>r. wr_guard r = Some k) regs) \<and>
      w_open (nt_chans n (en_chan e)) \<and>
      (\<forall>k' e'. nt_map n k' = Some e' \<and> en_chan e' = en_chan e \<longrightarrow> k' = k))"
proof -
  have inv: "wake_inv (n, regs)" using assms by (rule wake_inv_reachable)
  show ?thesis
    using wake_invD(4,5) [OF inv, of k] wake_invD(6) [OF inv]
    by (cases "nt_map n k") (auto simp: entry_inv_def guards_def)
qed

definition sample_registered :: "wake_reg \<times> notifiers" where
  "sample_registered =
    (\<lparr>wr_chan = 1, wr_guard = Some [7]\<rparr>,
     notifiers_new\<lparr>nt_map := [[7] \<mapsto> \<lparr>en_chan = 1, en_subscribers = 1\<rparr>],
       nt_chans := (nt_chans notifiers_new)(1 := watch_new), nt_fresh := 2\<rparr>)"

lemma sample_registered: "wake_reachable (snd sample_registered, {#fst sample_registered#})"
proof -
  have "nt_register (Some [7]) notifiers_new = (Inr (fst sample_registered), snd sample_registered)"
    by (simp add: nt_register_def register_entry_fresh notifiers_new_def sample_registered_def)
  from step_register [OF this] reach_init show ?thesis by (auto intro: reach_step)
qed

theorem wake_registry_tracks_registrations_witness:
  "wake_reachable (snd sample_registered, {#fst sample_registered#}) \<and>
    nt_map (snd sample_registered) [7] \<noteq> None \<and> nt_map (snd sample_registered) [8] = None"
proof -
  have g: "wr_guard (fst sample_registered) = Some [7]" by (simp add: sample_registered_def)
  have "nt_map (snd sample_registered) [7] \<noteq> None"
    using wake_registry_tracks_registrations [OF sample_registered, of "[7]"] g by simp
  moreover have "nt_map (snd sample_registered) [8] = None"
    using wake_registry_tracks_registrations [OF sample_registered, of "[8]"] g by simp
  ultimately show ?thesis using sample_registered by blast
qed

text \<open>C35: No wakeup is lost. In every reachable state, a wait armed by a live registration is pending,
  and it is ready after any sequence of wakes that touches a stream it covers, even when the wakes come
  before the wait is first polled.\<close>

theorem no_lost_wakeup:
  assumes "wake_reachable s" "r \<in># snd s" "wr_guard r = None \<or> wr_guard r = Some k" "k \<in> set ks"
  shows "\<not> nt_ready (fst s) (nt_arm (fst s) r) \<and> nt_ready (fold nt_wake ks (fst s)) (nt_arm (fst s) r)"
proof -
  have w: "nt_watches s r k"
    using assms wake_inv_reachable by (simp add: nt_watches_def)
  have "fst (fold sys_wake ks s) = fold nt_wake ks (fst s)" for ks s
    by (induction ks arbitrary: s) (simp_all add: sys_wake_def)
  moreover have "sys_ready (fold sys_wake ks s) (sys_arm s r)"
    using fold_wake_advances [OF w assms(4)] by (simp add: sys_ready_def sys_arm_def nt_ready_def nt_arm_def)
  ultimately show ?thesis
    using sn.arm_fresh [OF w] by (simp add: sys_ready_def sys_arm_def)
qed

theorem no_lost_wakeup_witness:
  "let (r, n) = sample_registered in
    \<not> nt_ready n (nt_arm n r) \<and> nt_ready (fold nt_wake [[1], [7], [2]] n) (nt_arm n r)"
  using no_lost_wakeup [OF sample_registered, of "fst sample_registered" "[7]" "[[1], [7], [2]]"]
  by (simp add: sample_registered_def)

text \<open>Wakes are routed exactly. A wait of a single-stream registration is not resolved by any
  number of wakes of other streams.\<close>

theorem wake_routing_exact:
  assumes "wake_reachable s" "r \<in># snd s" "wr_guard r = Some k" "k \<notin> set ks"
  shows "\<not> nt_ready (fold nt_wake ks (fst s)) (nt_arm (fst s) r)"
proof -
  obtain n regs where s: "s = (n, regs)" by (cases s)
  have inv: "wake_inv (n, regs)" using assms(1) s by (simp add: wake_inv_reachable)
  have g: "r \<in># guards k regs" using assms(2,3) s by (simp add: guards_def)
  then obtain e where e: "nt_map n k = Some e"
    using wake_invD(4) [OF inv, of k] by (cases "nt_map n k") auto
  have E: "wr_chan r = en_chan e" "en_chan e \<noteq> 0" "w_open (nt_chans n (en_chan e))"
    using wake_invD(5) [OF inv e] g by (auto simp: entry_inv_def)
  have "nt_map (fold nt_wake ks n) = nt_map n \<and>
      w_sends (nt_chans (fold nt_wake ks n) (en_chan e)) = w_sends (nt_chans n (en_chan e)) \<and>
      w_open (nt_chans (fold nt_wake ks n) (en_chan e)) = w_open (nt_chans n (en_chan e))"
    using assms(4)
  proof (induction ks rule: rev_induct)
    case (snoc j ks)
    have "en_chan e' \<noteq> en_chan e" if "nt_map n j = Some e'" for e'
      using wake_invD(6) [OF inv that e] snoc.prems by auto
    moreover have IH: "nt_map (fold nt_wake ks n) = nt_map n" using snoc by simp
    ultimately have "w_sends (nt_chans (nt_wake j (fold nt_wake ks n)) (en_chan e)) =
        w_sends (nt_chans (fold nt_wake ks n) (en_chan e))"
      by (intro nt_wake_other) (use E(2) in auto)
    with snoc show ?case by simp
  qed simp
  with E show ?thesis by (simp add: s nt_ready_def nt_arm_def)
qed

theorem wake_routing_exact_witness:
  "let (r, n) = sample_registered in \<not> nt_ready (fold nt_wake [[1], [2]] n) (nt_arm n r)"
  using wake_routing_exact [OF sample_registered, of "fst sample_registered" "[7]" "[[1], [2]]"]
  by (simp add: sample_registered_def)

text \<open>The global wake counts its wakes in 32 bits. A wait first polled after \<open>n\<close> wakes is
  resolved at once exactly when \<open>n\<close> is not a multiple of \<open>2 ^ 32\<close>; a wait that has been polled before
  is resolved by any further wake.\<close>

theorem global_wake_bound:
  "(gw_ready (fold gw_wake ks g) (gw_arm g ()) \<longleftrightarrow> length ks mod 2 ^ 32 \<noteq> 0) \<and>
    (gw_ready (fold gw_wake ks g) (snd (gw_poll g (gw_arm g ()))) \<longleftrightarrow> ks \<noteq> [])"
proof -
  have "unat (of_nat (length ks) :: u32) = length ks mod 2 ^ 32" by (simp add: unat_of_nat)
  then have "(of_nat (length ks) :: u32) = 0 \<longleftrightarrow> length ks mod 2 ^ 32 = 0"
    by (simp add: word_unat_eq_iff)
  then show ?thesis
    by (auto simp: gw_ready_def gw_poll_def gw_arm_def gw_fold Let_def)
qed

end
