(* ===== verification/InMemory_Store.thy ===== *)
theory InMemory_Store
  imports Import_Plan Ordered_Map Wake_Registry
begin

text \<open>
  The in-memory adapter, \<open>adapters/inmemory/src/lib.rs\<close>: rows per stream, the global
  index by \<open>$all\<close> position, the position counter, and the wake registry. The critical
  section under the mutex is one function of the store. A read stream takes the lock once
  per refill, so one poll of it is a function of the store it finds at that moment.

  The theory ends with the interpretations of \<open>raw_event_store\<close> and
  \<open>atomic_event_store\<close>: the adapter keeps the contract of \<open>RawEventStore\<close> and
  \<open>AtomicAppend\<close>.
\<close>

datatype inmemory_error =
    ImCorruptVersion
  | ImVersionOverflow
  | ImGlobalSeqOverflow
  | ImWire wire_error
  | ImEnvelopeCorrupt u64 envelope_error
  | ImSubscription notify_error

section \<open>State\<close>

type_synonym all_pos = "64 nonzero"

definition all_pos_INITIAL :: all_pos where
  "all_pos_INITIAL = nz 1"

definition all_pos_new :: "u64 \<Rightarrow> all_pos option" where
  "all_pos_new v = nonzero_new v"

definition all_pos_next :: "all_pos \<Rightarrow> all_pos option" where
  "all_pos_next p = nonzero_checked_add p 1"

record stored_frame =
  sf_version :: u64
  sf_value :: bytes
  sf_offsets :: frame_offsets
  sf_schema :: schema_version

record inner =
  im_streams :: "stream_key \<rightharpoonup> stored_frame list"
  im_next_seq :: all_pos
  im_index :: "(all_pos \<times> stream_key \<times> stored_frame) list"

record im_store =
  im_inner :: inner
  im_notifiers :: notifiers
  im_batch_size :: nat

definition inner_default :: inner where
  "inner_default = \<lparr>im_streams = Map.empty, im_next_seq = all_pos_INITIAL, im_index = []\<rparr>"

definition im_with_batch_size :: "nat \<Rightarrow> im_store" where
  "im_with_batch_size n = \<lparr>im_inner = inner_default, im_notifiers = notifiers_new, im_batch_size = n\<rparr>"

definition im_new :: im_store where
  "im_new = im_with_batch_size DEFAULT_BATCH"

definition im_rows :: "inner \<Rightarrow> stream_key \<Rightarrow> stored_frame list" where
  "im_rows s k = (case im_streams s k of None \<Rightarrow> [] | Some rows \<Rightarrow> rows)"

section \<open>Frames\<close>

definition encode_pending_to_frame :: "pending_envelope \<Rightarrow> (stored_frame, inmemory_error) result call" where
  "encode_pending_to_frame env =
    call_bind (encode_frame (pe_schema env) (pe_event_type env) (pe_payload env) (pe_metadata env)) (\<lambda>r.
      Returns (and_then (map_err ImWire r) (\<lambda>frame.
        Inr \<lparr>sf_version = as_u64 (pe_version env), sf_value = ef_value frame,
             sf_offsets = ef_offsets frame, sf_schema = pe_schema env\<rparr>)))"

definition frame_to_envelope :: "stored_frame \<Rightarrow> (persisted_envelope, inmemory_error) result" where
  "frame_to_envelope f =
    (case version_new (sf_version f) of
       None \<Rightarrow> Inl ImCorruptVersion
     | Some version \<Rightarrow>
         map_err (ImEnvelopeCorrupt (sf_version f))
           (try_new version (sf_value f) (sf_schema f) (fo_event_type (sf_offsets f))
             (fo_payload (sf_offsets f)) (fo_metadata (sf_offsets f))))"

text \<open>\<open>partition_point\<close> on rows sorted by version: the first row not below \<open>from\<close>.\<close>

definition scan_batch :: "stored_frame list \<Rightarrow> u64 \<Rightarrow> nat \<Rightarrow> stored_frame list" where
  "scan_batch rows from batch_size =
    (let start = length (takeWhile (\<lambda>row. sf_version row < from) rows) in take batch_size (drop start rows))"

section \<open>Append\<close>

definition inmemory_validation_err ::
  "stream_key \<Rightarrow> append_validation_error \<Rightarrow> inmemory_error append_error" where
  "inmemory_validation_err k e =
    (case e of
       AvConflict _ expected actual \<Rightarrow> AppendConflict (to_label k) expected actual
     | AvVersionOverflow \<Rightarrow> AppendStore ImVersionOverflow)"

text \<open>The staging loop: encode each envelope and assign it the running position.\<close>

primrec stage_rows ::
  "pending_envelope list \<Rightarrow> all_pos \<Rightarrow> all_pos \<Rightarrow> (all_pos \<times> stored_frame) list
    \<Rightarrow> ((all_pos \<times> stored_frame) list \<times> all_pos \<times> all_pos, inmemory_error) result call" where
  "stage_rows [] seq last_assigned rows = Returns (Inr (rows, last_assigned, seq))"
| "stage_rows (env # envs) seq last_assigned rows =
    call_bind (encode_pending_to_frame env) (\<lambda>r.
      case r of
        Inl e \<Rightarrow> Returns (Inl e)
      | Inr frame \<Rightarrow>
          (case all_pos_next seq of
             None \<Rightarrow> Returns (Inl ImGlobalSeqOverflow)
           | Some seq' \<Rightarrow> stage_rows envs seq' seq (rows @ [(seq, frame)])))"

definition commit_rows :: "stream_key \<Rightarrow> (all_pos \<times> stored_frame) list \<Rightarrow> all_pos \<Rightarrow> inner \<Rightarrow> inner" where
  "commit_rows k rows seq s =
    s\<lparr>im_next_seq := seq,
      im_index := fold (\<lambda>(pos, frame) ix. btree_insert pos (k, frame) ix) rows (im_index s),
      im_streams := (im_streams s)(k \<mapsto> im_rows s k @ map snd rows)\<rparr>"

definition im_wake :: "bytes \<Rightarrow> im_store \<Rightarrow> im_store" where
  "im_wake stream st = st\<lparr>im_notifiers := nt_wake stream (im_notifiers st)\<rparr>"

text \<open>The part of an append that runs under the write lock, with the streams it leaves to be woken once
  the guard is dropped: a reader may run between the two.\<close>

definition im_append_locked ::
  "stream_key \<Rightarrow> version option \<Rightarrow> pending_batch \<Rightarrow> im_store
    \<Rightarrow> (all_pos, inmemory_error append_error) result call \<times> im_store \<times> bytes list" where
  "im_append_locked k expected_version envelopes st =
    (let s = im_inner st; len = length (im_rows s k) in
     if len \<ge> 2 ^ 64 then (Returns (Inl (AppendStore ImVersionOverflow)), st, [])
     else case validate_append_versions (of_nat len) expected_version envelopes k of
       Inl e \<Rightarrow> (Returns (Inl (inmemory_validation_err k e)), st, [])
     | Inr _ \<Rightarrow>
       (case stage_rows (batch_iter envelopes) (im_next_seq s) (im_next_seq s) [] of
          Panics \<Rightarrow> (Panics, st, [])
        | Returns (Inl e) \<Rightarrow> (Returns (Inl (AppendStore e)), st, [])
        | Returns (Inr (rows, last_assigned, seq)) \<Rightarrow>
            (Returns (Inr last_assigned), st\<lparr>im_inner := commit_rows k rows seq s\<rparr>, [key_bytes k])))"

definition im_append ::
  "stream_key \<Rightarrow> version option \<Rightarrow> pending_batch \<Rightarrow> im_store
    \<Rightarrow> (all_pos, inmemory_error append_error) result call \<times> im_store" where
  "im_append k expected_version envelopes st =
    (case im_append_locked k expected_version envelopes st of
       (r, st', woken) \<Rightarrow> (r, fold im_wake woken st'))"

section \<open>Reading a stream\<close>

record read_state =
  rs_stream :: stream_key
  rs_from :: version
  rs_last_version :: "version option"
  rs_batch_size :: nat
  rs_buffer :: "stored_frame list"
  rs_done :: bool

definition read_stream_start :: "im_store \<Rightarrow> stream_key \<Rightarrow> version \<Rightarrow> read_state" where
  "read_stream_start st k from =
    \<lparr>rs_stream = k, rs_from = from, rs_last_version = None, rs_batch_size = im_batch_size st,
     rs_buffer = [], rs_done = False\<rparr>"

definition next_read_version :: "read_state \<Rightarrow> (version, inmemory_error) result" where
  "next_read_version r =
    (case rs_last_version r of
       None \<Rightarrow> Inr (rs_from r)
     | Some v \<Rightarrow> ok_or ImVersionOverflow (version_next v))"

definition read_refill :: "inner \<Rightarrow> version \<Rightarrow> read_state \<Rightarrow> read_state" where
  "read_refill s from r =
    (let batch = (case im_streams s (rs_stream r) of
                    None \<Rightarrow> []
                  | Some rows \<Rightarrow> scan_batch rows (as_u64 from) (rs_batch_size r))
     in r\<lparr>rs_done := length batch < rs_batch_size r, rs_buffer := batch\<rparr>)"

text \<open>Handing out the front row of the buffer.\<close>

definition read_pop ::
  "stored_frame \<Rightarrow> stored_frame list \<Rightarrow> read_state \<Rightarrow> (persisted_envelope, inmemory_error) result \<times> read_state" where
  "read_pop row rest r =
    (let r = r\<lparr>rs_buffer := rest\<rparr> in
     case frame_to_envelope row of
       Inr env \<Rightarrow> (Inr env, r\<lparr>rs_last_version := Some (ps_version env)\<rparr>)
     | Inl e \<Rightarrow> (Inl e, r\<lparr>rs_done := True\<rparr>))"

text \<open>One poll against the store as it is now; \<open>None\<close> ends the (fused) stream. The source's
loop goes round at most twice: a refill that returned rows is followed by a pop.\<close>

definition read_poll ::
  "inner \<Rightarrow> read_state \<Rightarrow> ((persisted_envelope, inmemory_error) result \<times> read_state) option" where
  "read_poll s r =
    (case rs_buffer r of
       row # rest \<Rightarrow> Some (read_pop row rest r)
     | [] \<Rightarrow>
       if rs_done r then None
       else case next_read_version r of
         Inl e \<Rightarrow> Some (Inl e, r\<lparr>rs_done := True\<rparr>)
       | Inr next_from \<Rightarrow>
           let r' = read_refill s next_from r in
           (case rs_buffer r' of
              [] \<Rightarrow> None
            | row # rest \<Rightarrow> Some (read_pop row rest r')))"

primrec read_drain ::
  "nat \<Rightarrow> inner \<Rightarrow> read_state \<Rightarrow> (persisted_envelope, inmemory_error) result list" where
  "read_drain 0 s r = []"
| "read_drain (Suc fuel) s r =
    (case read_poll s r of None \<Rightarrow> [] | Some (item, r') \<Rightarrow> item # read_drain fuel s r')"

text \<open>Draining a read over a store that does not change: one poll per row and one to end.\<close>

definition im_read_stream ::
  "im_store \<Rightarrow> stream_key \<Rightarrow> version \<Rightarrow> (persisted_envelope, inmemory_error) result list" where
  "im_read_stream st k from =
    read_drain (Suc (length (im_rows (im_inner st) k))) (im_inner st) (read_stream_start st k from)"

section \<open>Reading everything\<close>

record global_read_state =
  gr_after :: "all_pos option"
  gr_batch_size :: nat
  gr_buffer :: "(all_pos \<times> stream_key \<times> stored_frame) list"
  gr_done :: bool

definition read_all_start :: "im_store \<Rightarrow> all_pos option \<Rightarrow> global_read_state" where
  "read_all_start st from =
    \<lparr>gr_after = from, gr_batch_size = im_batch_size st, gr_buffer = [], gr_done = False\<rparr>"

definition pos_after :: "all_pos option \<Rightarrow> all_pos \<Rightarrow> bool" where
  "pos_after after p = (case after of None \<Rightarrow> True | Some a \<Rightarrow> a < p)"

definition global_refill :: "inner \<Rightarrow> global_read_state \<Rightarrow> global_read_state" where
  "global_refill s r =
    (let batch = take (gr_batch_size r) (btree_range (pos_after (gr_after r)) (im_index s))
     in r\<lparr>gr_done := length batch < gr_batch_size r, gr_buffer := batch\<rparr>)"

definition global_pop ::
  "all_pos \<times> stream_key \<times> stored_frame \<Rightarrow> (all_pos \<times> stream_key \<times> stored_frame) list \<Rightarrow> global_read_state
    \<Rightarrow> (all_pos \<times> stream_key \<times> persisted_envelope, inmemory_error) result \<times> global_read_state" where
  "global_pop entry rest r =
    (let r = r\<lparr>gr_buffer := rest\<rparr>; (pos, key, frame) = entry in
     case frame_to_envelope frame of
       Inr env \<Rightarrow> (Inr (pos, key, env), r\<lparr>gr_after := Some pos\<rparr>)
     | Inl e \<Rightarrow> (Inl e, r\<lparr>gr_done := True\<rparr>))"

definition global_poll ::
  "inner \<Rightarrow> global_read_state
    \<Rightarrow> ((all_pos \<times> stream_key \<times> persisted_envelope, inmemory_error) result \<times> global_read_state) option" where
  "global_poll s r =
    (case gr_buffer r of
       entry # rest \<Rightarrow> Some (global_pop entry rest r)
     | [] \<Rightarrow>
       if gr_done r then None
       else let r' = global_refill s r in
         (case gr_buffer r' of [] \<Rightarrow> None | entry # rest \<Rightarrow> Some (global_pop entry rest r')))"

primrec global_drain ::
  "nat \<Rightarrow> inner \<Rightarrow> global_read_state
    \<Rightarrow> (all_pos \<times> stream_key \<times> persisted_envelope, inmemory_error) result list" where
  "global_drain 0 s r = []"
| "global_drain (Suc fuel) s r =
    (case global_poll s r of None \<Rightarrow> [] | Some (item, r') \<Rightarrow> item # global_drain fuel s r')"

definition im_read_all ::
  "im_store \<Rightarrow> all_pos option \<Rightarrow> (all_pos \<times> stream_key \<times> persisted_envelope, inmemory_error) result list" where
  "im_read_all st from =
    global_drain (Suc (length (im_index (im_inner st)))) (im_inner st) (read_all_start st from)"

section \<open>Listing and atomic append\<close>

definition im_list_streams :: "im_store \<Rightarrow> stream_key set" where
  "im_list_streams st = dom (im_streams (im_inner st))"

text \<open>Phase 1: every target's committed head against its expectation.\<close>

primrec check_heads :: "inner \<Rightarrow> nat \<Rightarrow> planned_append list \<Rightarrow> (unit, inmemory_error atomic_append_error) result" where
  "check_heads s index [] = Inr ()"
| "check_heads s index (w # ws) =
    (let len = length (im_rows s (pa_target w)) in
     if len \<ge> 2 ^ 64 then Inl (AtomicStore ImVersionOverflow)
     else let actual_raw = (of_nat len :: u64);
              expected_raw = (case pa_expected w of None \<Rightarrow> 0 | Some v \<Rightarrow> as_u64 v)
       in if actual_raw \<noteq> expected_raw then Inl (AtomicConflict index (version_new actual_raw))
          else check_heads s (Suc index) ws)"

text \<open>Phase 2: stage every write's rows, one running position across all of them.\<close>

primrec stage_writes ::
  "planned_append list \<Rightarrow> all_pos \<Rightarrow> all_pos \<Rightarrow> (stream_key \<times> (all_pos \<times> stored_frame) list) list
    \<Rightarrow> ((stream_key \<times> (all_pos \<times> stored_frame) list) list \<times> all_pos \<times> all_pos, inmemory_error) result call" where
  "stage_writes [] seq last_assigned staged = Returns (Inr (staged, last_assigned, seq))"
| "stage_writes (w # ws) seq last_assigned staged =
    call_bind (stage_rows (batch_iter (pa_batch w)) seq last_assigned []) (\<lambda>r.
      case r of
        Inl e \<Rightarrow> Returns (Inl e)
      | Inr (rows, last', seq') \<Rightarrow> stage_writes ws seq' last' (staged @ [(pa_target w, rows)]))"

text \<open>Phase 3: the counter, the index, the per-stream rows.\<close>

definition commit_staged ::
  "(stream_key \<times> (all_pos \<times> stored_frame) list) list \<Rightarrow> all_pos \<Rightarrow> inner \<Rightarrow> inner" where
  "commit_staged staged seq s =
    (let s1 = s\<lparr>im_next_seq := seq\<rparr>;
         s2 = s1\<lparr>im_index := fold (\<lambda>(pos, key, frame) ix. btree_insert pos (key, frame) ix)
                (concat (map (\<lambda>(k, rows). map (\<lambda>(pos, f). (pos, k, f)) rows) staged)) (im_index s1)\<rparr>
     in fold (\<lambda>(k, rows) s. s\<lparr>im_streams := (im_streams s)(k \<mapsto> im_rows s k @ map snd rows)\<rparr>) staged s2)"

definition im_atomic_append_locked ::
  "planned_append list \<Rightarrow> im_store
    \<Rightarrow> (all_pos option, inmemory_error atomic_append_error) result call \<times> im_store \<times> bytes list" where
  "im_atomic_append_locked writes st =
    (let s = im_inner st in
     if writes = [] then (Returns (Inr None), st, [])
     else case validate_distinct_targets (map pa_target writes) of
       Inl e \<Rightarrow> (Returns (Inl (AtomicInvalidRoute e)), st, [])
     | Inr _ \<Rightarrow>
       (case validate_atomic_runs writes of
          Inl e \<Rightarrow> (Returns (Inl (AtomicInvalidRun e)), st, [])
        | Inr _ \<Rightarrow>
          (case check_heads s 0 writes of
             Inl e \<Rightarrow> (Returns (Inl e), st, [])
           | Inr _ \<Rightarrow>
             (case stage_writes writes (im_next_seq s) (im_next_seq s) [] of
                Panics \<Rightarrow> (Panics, st, [])
              | Returns (Inl e) \<Rightarrow> (Returns (Inl (AtomicStore e)), st, [])
              | Returns (Inr (staged, last_assigned, seq)) \<Rightarrow>
                  (Returns (Inr (Some last_assigned)),
                   st\<lparr>im_inner := commit_staged staged seq s\<rparr>, map (\<lambda>w. key_bytes (pa_target w)) writes)))))"

definition im_atomic_append_many ::
  "planned_append list \<Rightarrow> im_store
    \<Rightarrow> (all_pos option, inmemory_error atomic_append_error) result call \<times> im_store" where
  "im_atomic_append_many writes st =
    (case im_atomic_append_locked writes st of (r, st', woken) \<Rightarrow> (r, fold im_wake woken st'))"

section \<open>Frames and pending events\<close>

definition stored_of :: "pending_envelope \<Rightarrow> stored_frame" where
  "stored_of p =
    (let e = persisted_of p in
     \<lparr>sf_version = as_u64 (pe_version p), sf_value = ps_value e,
      sf_offsets = \<lparr>fo_event_type = ps_event_type_range e, fo_metadata = ps_metadata_range e,
                    fo_payload = ps_payload_range e\<rparr>,
      sf_schema = pe_schema p\<rparr>)"

definition pending_of :: "stored_frame \<Rightarrow> pending_envelope" where
  "pending_of f =
    from_persisted \<lparr>ps_version = nz (sf_version f), ps_schema = sf_schema f, ps_value = sf_value f,
      ps_event_type_range = fo_event_type (sf_offsets f), ps_payload_range = fo_payload (sf_offsets f),
      ps_metadata_range = fo_metadata (sf_offsets f)\<rparr>"

definition fits :: "pending_envelope \<Rightarrow> bool" where
  "fits p \<longleftrightarrow> pending_ok p \<and> pending_len p < 2 ^ 32"

lemma pending_of_stored_of [simp]: "pending_of (stored_of p) = p"
proof -
  have "\<lparr>ps_version = nz (sf_version (stored_of p)), ps_schema = sf_schema (stored_of p),
      ps_value = sf_value (stored_of p), ps_event_type_range = fo_event_type (sf_offsets (stored_of p)),
      ps_payload_range = fo_payload (sf_offsets (stored_of p)),
      ps_metadata_range = fo_metadata (sf_offsets (stored_of p))\<rparr> = persisted_of p"
    by (simp add: stored_of_def Let_def persisted_of_def as_u64_def)
  then show ?thesis by (simp add: pending_of_def)
qed

lemma sf_version_stored_of [simp]: "sf_version (stored_of p) = as_u64 (pe_version p)"
  by (simp add: stored_of_def Let_def)

lemma encode_pending_to_frame_fits: "fits p \<Longrightarrow> encode_pending_to_frame p = Returns (Inr (stored_of p))"
  by (simp add: encode_pending_to_frame_def encode_pending fits_def stored_of_def Let_def)

lemma encode_pending_to_frame_Inr:
  assumes "pending_ok p" "encode_pending_to_frame p = Returns (Inr f)"
  shows "fits p \<and> f = stored_of p"
proof (cases "pending_len p < 2 ^ 32")
  case True
  then have "fits p" using assms(1) by (simp add: fits_def)
  with assms(2) show ?thesis by (simp add: encode_pending_to_frame_fits)
next
  case False
  then have "\<not> frame_len (pe_event_type p) (pe_payload p) (pe_metadata p) < 2 ^ 32"
    by (simp add: pending_len_def)
  from encode_frame_overflow [OF this, of "pe_schema p"] assms(2) show ?thesis
    by (auto simp: encode_pending_to_frame_def)
qed

lemma encode_pending_to_frame_total: "pending_ok p \<Longrightarrow> encode_pending_to_frame p \<noteq> Panics"
proof (cases "pending_len p < 2 ^ 32")
  case False
  then have "\<not> frame_len (pe_event_type p) (pe_payload p) (pe_metadata p) < 2 ^ 32"
    by (simp add: pending_len_def)
  from encode_frame_overflow [OF this, of "pe_schema p"] show ?thesis
    by (auto simp: encode_pending_to_frame_def)
qed (simp add: encode_pending_to_frame_fits fits_def)

lemma frame_to_envelope_stored_of: "fits p \<Longrightarrow> frame_to_envelope (stored_of p) = Inr (persisted_of p)"
proof -
  assume "fits p"
  then have "persisted_ok (persisted_of p)" by (simp add: fits_def persisted_of_ok)
  from try_new_complete [OF this] have t: "try_new (pe_version p) (sf_value (stored_of p)) (sf_schema (stored_of p))
      (fo_event_type (sf_offsets (stored_of p))) (fo_payload (sf_offsets (stored_of p)))
      (fo_metadata (sf_offsets (stored_of p))) = Inr (persisted_of p)"
    by (simp add: stored_of_def Let_def persisted_of_def)
  have v: "version_new (sf_version (stored_of p)) = Some (pe_version p)" by simp
  show ?thesis unfolding frame_to_envelope_def v by (simp add: t)
qed

section \<open>Staging\<close>

lemma all_pos_next_Some: "all_pos_next p = Some q \<longleftrightarrow> vnum q = Suc (vnum p)"
  by (simp add: all_pos_next_def nonzero_checked_add_Some vnum_def as_u64_def)

lemma stage_rows_total: "\<forall>p \<in> set envs. pending_ok p \<Longrightarrow> stage_rows envs seq l rows \<noteq> Panics"
proof (induction envs arbitrary: seq l rows)
  case (Cons p envs)
  then have "encode_pending_to_frame p \<noteq> Panics" by (simp add: encode_pending_to_frame_total)
  with Cons show ?case
    by (cases "encode_pending_to_frame p") (auto split: sum.splits option.splits)
qed simp

lemma stage_rows_Inr:
  assumes "\<forall>p \<in> set envs. pending_ok p" "stage_rows envs seq l rows = Returns (Inr (rows', l', seq'))"
  shows "\<exists>ps. map vnum ps = [vnum seq ..< vnum seq + length envs] \<and>
    rows' = rows @ zip ps (map stored_of envs) \<and> vnum seq' = vnum seq + length envs \<and>
    l' = (if envs = [] then l else last ps) \<and> (\<forall>p \<in> set envs. fits p)"
  using assms
proof (induction envs arbitrary: seq l rows)
  case Nil
  then show ?case by simp
next
  case (Cons p envs)
  obtain f where f: "encode_pending_to_frame p = Returns (Inr f)"
    using Cons.prems by (cases "encode_pending_to_frame p") (auto split: sum.splits option.splits)
  then have fp: "fits p" "f = stored_of p" using encode_pending_to_frame_Inr Cons.prems(1) by auto
  obtain q where q: "all_pos_next seq = Some q"
    using Cons.prems f by (auto split: option.splits)
  then have vq: "vnum q = Suc (vnum seq)" by (simp add: all_pos_next_Some)
  have "stage_rows envs q seq (rows @ [(seq, f)]) = Returns (Inr (rows', l', seq'))"
    using Cons.prems(2) f q by simp
  then obtain ps where ps: "map vnum ps = [vnum q ..< vnum q + length envs]"
    "rows' = (rows @ [(seq, f)]) @ zip ps (map stored_of envs)" "vnum seq' = vnum q + length envs"
    "l' = (if envs = [] then seq else last ps)" "\<forall>p \<in> set envs. fits p"
    using Cons.IH [of q seq "rows @ [(seq, f)]"] Cons.prems(1) by auto
  have "length ps = length envs" using ps(1) by (metis diff_add_inverse length_map length_upt)
  with ps fp vq show ?case
    by (intro exI [of _ "seq # ps"]) (auto simp: upt_rec [of "vnum seq"] simp del: upt_Suc)
qed

section \<open>The store invariant\<close>

declare upt_Suc [simp del]

definition entries_of :: "stream_key \<Rightarrow> (all_pos \<times> stream_key \<times> stored_frame) list \<Rightarrow> stored_frame list" where
  "entries_of k ix = map (snd \<circ> snd) (filter (\<lambda>x. fst (snd x) = k) ix)"

definition entry_fits :: "all_pos \<times> stream_key \<times> stored_frame \<Rightarrow> bool" where
  "entry_fits x \<longleftrightarrow> (\<exists>p. fits p \<and> snd (snd x) = stored_of p)"

text \<open>Positions are dense from 1, the counter is the next one, every stream's rows are its
entries of the index in order with versions 1, 2, ..., every frame is the encoding of a valid
event, and no stream has an empty entry.\<close>

definition inner_inv :: "inner \<Rightarrow> bool" where
  "inner_inv s \<longleftrightarrow>
    map (\<lambda>x. vnum (fst x)) (im_index s) = [1 ..< Suc (length (im_index s))] \<and>
    vnum (im_next_seq s) = Suc (length (im_index s)) \<and>
    (\<forall>k. im_rows s k = entries_of k (im_index s)) \<and>
    (\<forall>x \<in> set (im_index s). entry_fits x) \<and>
    (\<forall>k. run_from 0 (map pending_of (im_rows s k))) \<and>
    (\<forall>k. im_streams s k \<noteq> Some [])"

definition im_inv :: "im_store \<Rightarrow> bool" where
  "im_inv st \<longleftrightarrow> inner_inv (im_inner st) \<and> 0 < im_batch_size st"

definition im_hist :: "im_store \<Rightarrow> stream_key \<Rightarrow> pending_envelope list" where
  "im_hist st k = map pending_of (im_rows (im_inner st) k)"

definition im_log :: "im_store \<Rightarrow> (all_pos \<times> stream_key \<times> pending_envelope) list" where
  "im_log st = map (\<lambda>(pos, k, f). (pos, k, pending_of f)) (im_index (im_inner st))"

lemma entries_of_append [simp]: "entries_of k (xs @ ys) = entries_of k xs @ entries_of k ys"
  by (simp add: entries_of_def)

lemma inner_inv_default: "inner_inv inner_default"
  by (simp add: inner_inv_def inner_default_def im_rows_def entries_of_def all_pos_INITIAL_def
      vnum_def as_u64_def)

lemma upt_append: "a \<le> b \<Longrightarrow> [a ..< b] @ [b ..< b + n] = [a ..< b + n]"
  by (metis upt_add_eq_append)

lemma inner_inv_extend:
  assumes inv: "inner_inv s"
    and ix: "im_index s' = im_index s @ new"
    and pos: "map (\<lambda>x. vnum (fst x)) new = [vnum (im_next_seq s) ..< vnum (im_next_seq s) + length new]"
    and nxt: "vnum (im_next_seq s') = vnum (im_next_seq s) + length new"
    and rows: "\<And>k. im_rows s' k = im_rows s k @ entries_of k new"
    and fit: "\<And>x. x \<in> set new \<Longrightarrow> entry_fits x"
    and run: "\<And>k. run_from (length (im_rows s k)) (map pending_of (entries_of k new))"
    and ne: "\<And>k. im_streams s' k \<noteq> Some []"
  shows "inner_inv s'"
proof -
  let ?n = "length (im_index s)"
  have old: "map (\<lambda>x. vnum (fst x)) (im_index s) = [1 ..< Suc ?n]" "vnum (im_next_seq s) = Suc ?n"
    using inv by (auto simp: inner_inv_def)
  have "map (\<lambda>x. vnum (fst x)) (im_index s') = [1 ..< Suc ?n] @ [Suc ?n ..< Suc ?n + length new]"
    using old pos ix by (simp del: upt_Suc)
  also have "\<dots> = [1 ..< Suc ?n + length new]" by (rule upt_append) simp
  finally have "map (\<lambda>x. vnum (fst x)) (im_index s') = [1 ..< Suc (length (im_index s'))]"
    using ix by simp
  moreover have "run_from 0 (map pending_of (im_rows s' k))" for k
  proof -
    have "run_from 0 (map pending_of (im_rows s k))" using inv unfolding inner_inv_def by blast
    with run [of k] show ?thesis by (simp add: rows run_from_append)
  qed
  moreover have "im_rows s' k = entries_of k (im_index s')" for k
    using inv rows [of k] ix by (simp add: inner_inv_def)
  ultimately show ?thesis
    using inv ix fit ne nxt old(2) by (auto simp: inner_inv_def)
qed

lemma inner_inv_length:
  assumes "inner_inv s"
  shows "length (im_rows s k) < vmax"
proof -
  have "length (im_rows s k) \<le> length (im_index s)"
    using assms by (simp add: inner_inv_def entries_of_def)
  also have "\<dots> < vnum (im_next_seq s)" using assms by (simp add: inner_inv_def)
  also have "\<dots> \<le> vmax" by simp
  finally show ?thesis .
qed

lemma index_pos_less:
  assumes "inner_inv s" "x \<in> set (im_index s)"
  shows "vnum (fst x) < vnum (im_next_seq s)"
proof -
  have "vnum (fst x) \<in> set (map (\<lambda>x. vnum (fst x)) (im_index s))" using assms(2) by auto
  also have "\<dots> = {1 ..< Suc (length (im_index s))}" using assms(1) by (simp add: inner_inv_def)
  finally show ?thesis using assms(1) by (simp add: inner_inv_def)
qed

lemma sorted_wrt_vnum:
  "map (\<lambda>x. vnum (fst x)) xs = [a ..< b] \<Longrightarrow> btree_ok xs"
proof -
  assume "map (\<lambda>x. vnum (fst x)) xs = [a ..< b]"
  then have "sorted_wrt (<) (map (\<lambda>x. vnum (fst x)) xs)" by (simp add: sorted_wrt_upt)
  then show ?thesis
    by (simp add: btree_ok_def sorted_wrt_map version_less_vnum)
qed

lemma index_ok: "inner_inv s \<Longrightarrow> btree_ok (im_index s)"
  by (rule sorted_wrt_vnum [of _ 1 "Suc (length (im_index s))"]) (simp add: inner_inv_def)

lemma index_insert_all:
  assumes "inner_inv s"
    "map (\<lambda>x. vnum (fst x)) new = [vnum (im_next_seq s) ..< vnum (im_next_seq s) + length new]"
  shows "fold (\<lambda>(pos, key, frame) ix. btree_insert pos (key, frame) ix) new (im_index s) = im_index s @ new"
proof -
  have "fold (\<lambda>(pos, key, frame) ix. btree_insert pos (key, frame) ix) new (im_index s) =
      fold (\<lambda>z acc. btree_insert (fst z) (snd z) acc) new (im_index s)"
    by (rule fold_cong) (auto simp: fun_eq_iff)
  also have "\<dots> = im_index s @ new"
  proof (rule btree_insert_fold_append)
    show "btree_ok new" by (rule sorted_wrt_vnum [OF assms(2)])
    show "\<forall>y \<in> set (im_index s). \<forall>z \<in> set new. fst y < fst z"
    proof (intro ballI)
      fix y z assume y: "y \<in> set (im_index s)" and z: "z \<in> set new"
      have "vnum (fst z) \<in> set (map (\<lambda>x. vnum (fst x)) new)" using z by auto
      also have "\<dots> = {vnum (im_next_seq s) ..< vnum (im_next_seq s) + length new}" using assms(2) by simp
      finally show "fst y < fst z"
        using index_pos_less [OF assms(1) y] by (simp add: version_less_vnum)
    qed
  qed
  finally show ?thesis .
qed

lemma im_hist_log: "im_inv st \<Longrightarrow> im_hist st k = map (snd \<circ> snd) (filter (\<lambda>x. fst (snd x) = k) (im_log st))"
proof -
  assume "im_inv st"
  then have "im_rows (im_inner st) k = entries_of k (im_index (im_inner st))"
    by (simp add: im_inv_def inner_inv_def)
  moreover have "map pending_of (entries_of k ix) =
      map (snd \<circ> snd) (filter (\<lambda>x. fst (snd x) = k) (map (\<lambda>(pos, k, f). (pos, k, pending_of f)) ix))" for ix
    by (induction ix) (auto simp: entries_of_def)
  ultimately show ?thesis by (simp add: im_hist_def im_log_def)
qed

lemma im_hist_fits: "im_inv st \<Longrightarrow> p \<in> set (im_hist st k) \<Longrightarrow> fits p"
  by (auto simp: im_inv_def inner_inv_def im_hist_def entries_of_def entry_fits_def)

lemma im_rows_hist: "im_inv st \<Longrightarrow> im_rows (im_inner st) k = map stored_of (im_hist st k)"
proof -
  assume inv: "im_inv st"
  have "stored_of (pending_of f) = f" if "f \<in> set (im_rows (im_inner st) k)" for f
    using that inv by (auto simp: im_inv_def inner_inv_def entries_of_def entry_fits_def)
  then show ?thesis by (simp add: im_hist_def map_idI)
qed

section \<open>Append keeps the contract\<close>

text \<open>Seen from one thread the wakes follow the commit at once.\<close>

lemma fold_im_wake: "fold im_wake ks st = st\<lparr>im_notifiers := fold nt_wake ks (im_notifiers st)\<rparr>"
  by (induction ks arbitrary: st) (simp_all add: im_wake_def)

lemma fold_im_wake_frame [simp]:
  "im_inner (fold im_wake ks st) = im_inner st" "im_batch_size (fold im_wake ks st) = im_batch_size st"
  "im_notifiers (fold im_wake ks st) = fold nt_wake ks (im_notifiers st)"
  by (simp_all add: fold_im_wake)

lemma im_append_locked_notifiers: "im_append_locked k e b st = (r, st', ks) \<Longrightarrow> im_notifiers st' = im_notifiers st"
  by (auto simp: im_append_locked_def Let_def split: if_splits sum.splits call.splits)

lemma im_atomic_locked_notifiers: "im_atomic_append_locked ws st = (r, st', ks) \<Longrightarrow> im_notifiers st' = im_notifiers st"
  by (auto simp: im_atomic_append_locked_def Let_def split: if_splits sum.splits call.splits)

lemma im_append_cases:
  assumes "im_append k e b st = (r, st')"
  obtains (reject) err where "r = Returns (Inl err)" "st' = st"
  | (panic) "r = Panics" "st' = st" "stage_rows (batch_iter b) (im_next_seq (im_inner st)) (im_next_seq (im_inner st)) [] = Panics"
  | (commit) rows last_assigned seq where "r = Returns (Inr last_assigned)"
      "length (im_rows (im_inner st) k) < 2 ^ 64"
      "validate_append_versions (of_nat (length (im_rows (im_inner st) k))) e b k = Inr ()"
      "stage_rows (batch_iter b) (im_next_seq (im_inner st)) (im_next_seq (im_inner st)) [] =
        Returns (Inr (rows, last_assigned, seq))"
      "st' = st\<lparr>im_inner := commit_rows k rows seq (im_inner st),
                im_notifiers := nt_wake (key_bytes k) (im_notifiers st)\<rparr>"
  using assms
  by (auto simp: im_append_def im_append_locked_def im_wake_def Let_def split: if_splits sum.splits call.splits)

lemma commit_rows_simps:
  assumes "inner_inv s" "map vnum ps = [vnum (im_next_seq s) ..< vnum (im_next_seq s) + length envs]"
    "rows = zip ps (map stored_of envs)"
  shows "im_index (commit_rows k rows seq s) = im_index s @ zip ps (map (\<lambda>p. (k, stored_of p)) envs)"
    "im_next_seq (commit_rows k rows seq s) = seq"
    "im_rows (commit_rows k rows seq s) j = (if j = k then im_rows s k @ map stored_of envs else im_rows s j)"
proof -
  have len: "length ps = length envs" using assms(2) by (metis diff_add_inverse length_map length_upt)
  let ?new = "zip ps (map (\<lambda>p. (k, stored_of p)) envs)"
  have "fold (\<lambda>(pos, frame) ix. btree_insert pos (k, frame) ix) (zip ps (map stored_of envs)) ix =
      fold (\<lambda>(pos, key, frame) ix. btree_insert pos (key, frame) ix) ?new ix" for ix
    using len by (induction ps envs arbitrary: ix rule: list_induct2) simp_all
  moreover have "map (\<lambda>x. vnum (fst x)) ?new = map vnum ps"
    using len by (simp add: map_fst_zip_comp)
  then have "map (\<lambda>x. vnum (fst x)) ?new = [vnum (im_next_seq s) ..< vnum (im_next_seq s) + length ?new]"
    using assms(2) len by simp
  ultimately show "im_index (commit_rows k rows seq s) = im_index s @ ?new"
    using index_insert_all [OF assms(1), of ?new] assms(3) by (simp add: commit_rows_def)
  show "im_next_seq (commit_rows k rows seq s) = seq" by (simp add: commit_rows_def)
  show "im_rows (commit_rows k rows seq s) j = (if j = k then im_rows s k @ map stored_of envs else im_rows s j)"
    using assms(3) len by (simp add: commit_rows_def im_rows_def)
qed

lemma entries_of_zip:
  "length ps = length envs \<Longrightarrow>
    entries_of j (zip ps (map (\<lambda>p. (k, stored_of p)) envs)) = (if j = k then map stored_of envs else [])"
  by (induction ps envs rule: list_induct2) (auto simp: entries_of_def)

lemma log_zip:
  "length ps = length envs \<Longrightarrow>
    map (\<lambda>(pos, k, f). (pos, k, pending_of f)) (zip ps (map (\<lambda>p. (k, stored_of p)) envs)) =
      zip ps (map (Pair k) envs)"
  by (induction ps envs rule: list_induct2) simp_all

lemma im_append_commit:
  assumes inv: "im_inv st" and ok: "batch_ok b" and app: "im_append k e b st = (Returns (Inr pos), st')"
  shows "im_inv st' \<and> e = head_version (length (im_hist st k)) \<and> run_from (length (im_hist st k)) (batch_iter b) \<and>
      (\<exists>ps. length ps = length (batch_iter b) \<and> last ps = pos \<and>
        im_log st' = im_log st @ zip ps (map (Pair k) (batch_iter b)))"
  using app
proof (cases rule: im_append_cases)
  case (commit rows last_assigned seq)
  let ?s = "im_inner st" and ?envs = "batch_iter b"
  have s: "inner_inv ?s" using inv by (simp add: im_inv_def)
  have hl: "length (im_hist st k) = length (im_rows ?s k)" by (simp add: im_hist_def)
  have "unat (of_nat (length (im_rows ?s k)) :: u64) = length (im_rows ?s k)"
    using commit(2) by (simp add: unat_of_nat_small)
  with commit(3) have V: "e = head_version (length (im_rows ?s k))" "run_from (length (im_rows ?s k)) ?envs"
    by (auto simp: validate_append_versions_Inr)
  obtain ps where ps: "map vnum ps = [vnum (im_next_seq ?s) ..< vnum (im_next_seq ?s) + length ?envs]"
    "rows = zip ps (map stored_of ?envs)" "vnum seq = vnum (im_next_seq ?s) + length ?envs"
    "last_assigned = last ps" "\<forall>p \<in> set ?envs. fits p"
    using stage_rows_Inr [OF _ commit(4)] ok by (auto simp: batch_ok_def)
  have len: "length ps = length ?envs" using ps(1) by (metis diff_add_inverse length_map length_upt)
  let ?new = "zip ps (map (\<lambda>p. (k, stored_of p)) ?envs)"
  note C = commit_rows_simps [OF s ps(1,2), of k seq]
  have newpos: "map (\<lambda>x. vnum (fst x)) ?new = map vnum ps"
    using len by (simp add: map_fst_zip_comp)
  have "inner_inv (commit_rows k rows seq ?s)"
  proof (rule inner_inv_extend [OF s C(1)])
    show "map (\<lambda>x. vnum (fst x)) ?new = [vnum (im_next_seq ?s) ..< vnum (im_next_seq ?s) + length ?new]"
      using newpos ps(1) len by simp
    show "vnum (im_next_seq (commit_rows k rows seq ?s)) = vnum (im_next_seq ?s) + length ?new"
      using C(2) ps(3) len by simp
    show "im_rows (commit_rows k rows seq ?s) j = im_rows ?s j @ entries_of j ?new" for j
      using C(3) len by (simp add: entries_of_zip)
    show "entry_fits x" if "x \<in> set ?new" for x
    proof -
      have "snd x \<in> (\<lambda>p. (k, stored_of p)) ` set ?envs"
        using that set_zip_rightD [of "fst x" "snd x" ps "map (\<lambda>p. (k, stored_of p)) ?envs"] by simp
      with ps(5) show ?thesis by (auto simp: entry_fits_def)
    qed
    show "run_from (length (im_rows ?s j)) (map pending_of (entries_of j ?new))" for j
      using V(2) len by (simp add: entries_of_zip comp_def)
    show "im_streams (commit_rows k rows seq ?s) j \<noteq> Some []" for j
      using s ps(2) len by (auto simp: commit_rows_def inner_inv_def)
  qed
  moreover have "map (\<lambda>(pos, k, f). (pos, k, pending_of f)) ?new = zip ps (map (Pair k) ?envs)"
    using len by (rule log_zip)
  ultimately show ?thesis
    using commit(1,5) V ps(4) len C(1) inv hl by (auto simp: im_inv_def im_log_def)
qed simp_all

lemma im_append_reject:
  assumes "batch_ok b" "im_append k e b st = (Returns (Inl err), st')"
  shows "st' = st"
  using assms(2) by (cases rule: im_append_cases) simp_all

lemma im_append_total: "batch_ok b \<Longrightarrow> fst (im_append k e b st) \<noteq> Panics"
proof -
  assume "batch_ok b"
  then have "stage_rows (batch_iter b) (im_next_seq (im_inner st)) (im_next_seq (im_inner st)) [] \<noteq> Panics"
    by (intro stage_rows_total) (simp add: batch_ok_def)
  moreover obtain r st' where A: "im_append k e b st = (r, st')" by fastforce
  from A have "r = Panics \<Longrightarrow> stage_rows (batch_iter b) (im_next_seq (im_inner st)) (im_next_seq (im_inner st)) [] = Panics"
    by (cases rule: im_append_cases) auto
  ultimately show ?thesis using A by auto
qed

lemma im_append_conflict:
  assumes "im_inv st" "e \<noteq> head_version (length (im_hist st k))"
  shows "fst (im_append k e b st) =
    Returns (Inl (AppendConflict (to_label k) e (head_version (length (im_hist st k)))))"
proof -
  let ?n = "length (im_rows (im_inner st) k)"
  have lt: "?n < 2 ^ 64"
    using inner_inv_length [of "im_inner st" k] assms(1) by (simp add: im_inv_def vmax_def)
  then have "unat (of_nat ?n :: u64) = ?n" by (simp add: unat_of_nat_small)
  with assms(2) have "validate_append_versions (of_nat ?n) e b k =
      Inl (AvConflict (to_label k) e (head_version ?n))"
    using validate_append_versions_conflict [of e "of_nat ?n" b k] by (simp add: im_hist_def)
  with lt show ?thesis
    by (simp add: im_append_def im_append_locked_def Let_def inmemory_validation_err_def im_hist_def)
qed

end
