(* ===== verification/InMemory_Reads.thy ===== *)
theory InMemory_Reads
  imports InMemory_Store
begin

text \<open>
  What the read cursors of the in-memory adapter (\<^verbatim>\<open>src/adapters/inmemory/src/lib.rs\<close>) yield.
  A cursor reads the shared map one batch at a time and re-takes the lock for every batch, so each
  poll may see a longer history than the one before.  The lemmas show that one poll delivers exactly
  the next event, that draining a cursor delivers exactly the suffix from the requested version (or
  after the requested position), and that interleaving polls with appends loses and repeats nothing.
\<close>

section \<open>Reading a stream\<close>

lemma inner_inv_run: "inner_inv s \<Longrightarrow> run_from 0 (map pending_of (im_rows s k))"
  unfolding inner_inv_def by blast

lemma run_from_nth: "run_from m h \<Longrightarrow> n < length h \<Longrightarrow> vnum (pe_version (h ! n)) = Suc (m + n)"
  by (induction h arbitrary: m n) (auto simp: less_Suc_eq_0_disj)

lemma takeWhile_run:
  "run_from m h \<Longrightarrow> length (takeWhile (\<lambda>p. vnum (pe_version p) < n) h) = min (length h) (n - Suc m)"
proof (induction h arbitrary: m)
  case (Cons p h)
  then show ?case by (cases "n - Suc m") auto
qed simp

lemma filter_run:
  "run_from m h \<Longrightarrow> filter (\<lambda>p. n \<le> vnum (pe_version p)) h = drop (n - Suc m) h"
proof (induction h arbitrary: m)
  case (Cons p h)
  show ?case
  proof (cases "n \<le> Suc m")
    case True
    have all: "filter (\<lambda>p. n \<le> vnum (pe_version p)) h = h"
      using Cons.IH [of "Suc m"] Cons.prems True by simp
    with Cons.prems True show ?thesis by simp
  next
    case False
    then have "n - Suc m = Suc (n - Suc (Suc m))" by simp
    with Cons False show ?thesis by simp
  qed
qed simp

lemma scan_batch_run:
  assumes "run_from 0 h"
  shows "scan_batch (map stored_of h) (as_u64 from) n = map stored_of (take n (drop (vnum from - 1) h))"
proof -
  have "length (takeWhile (\<lambda>row. sf_version row < as_u64 from) (map stored_of h)) =
      length (takeWhile (\<lambda>p. vnum (pe_version p) < vnum from) h)"
    by (induction h) (auto simp: vnum_def word_less_nat_alt)
  also have "\<dots> = min (length h) (vnum from - 1)" using takeWhile_run [OF assms] by simp
  finally show ?thesis
    by (simp add: scan_batch_def Let_def take_map drop_map min_def)
qed

text \<open>The state of a read whose next row is the \<open>n\<close>-th of history \<open>h\<close>: the buffer is a
stretch of \<open>h\<close> starting there.\<close>

definition read_inv :: "pending_envelope list \<Rightarrow> stream_key \<Rightarrow> nat \<Rightarrow> read_state \<Rightarrow> bool" where
  "read_inv h k n r \<longleftrightarrow> rs_stream r = k \<and> 0 < rs_batch_size r \<and>
    (case rs_last_version r of None \<Rightarrow> vnum (rs_from r) = Suc n | Some v \<Rightarrow> vnum v = n \<and> n \<le> length h) \<and>
    rs_buffer r = map stored_of (take (length (rs_buffer r)) (drop n h))"

lemma read_inv_mono: "read_inv h k n r \<Longrightarrow> read_inv (h @ h') k n r"
proof -
  assume r: "read_inv h k n r"
  then have "length (rs_buffer r) \<le> length (drop n h)"
    unfolding read_inv_def by (metis length_map length_take min.cobounded1)
  then have "take (length (rs_buffer r)) (drop n (h @ h')) = take (length (rs_buffer r)) (drop n h)"
    by (cases "n \<le> length h") auto
  with r show ?thesis by (auto simp: read_inv_def split: option.splits)
qed

lemma read_pop_step:
  assumes "read_inv h k n r" "rs_buffer r = row # rest" "\<forall>p \<in> set h. fits p" "run_from 0 h"
  shows "n < length h \<and> (\<exists>r'. read_pop row rest r = (Inr (persisted_of (h ! n)), r') \<and>
    read_inv h k (Suc n) r' \<and> rs_done r' = rs_done r \<and> rs_buffer r' = rest)"
proof -
  have buf: "row # rest = map stored_of (take (Suc (length rest)) (drop n h))"
    using assms(1,2) by (simp add: read_inv_def)
  then have "drop n h \<noteq> []" by auto
  then have n: "n < length h" by simp
  then have d: "drop n h = h ! n # drop (Suc n) h" by (simp add: Cons_nth_drop_Suc)
  from buf d have row: "row = stored_of (h ! n)" and rest: "rest = map stored_of (take (length rest) (drop (Suc n) h))"
    by auto
  have "fits (h ! n)" using assms(3) n by simp
  then have env: "frame_to_envelope row = Inr (persisted_of (h ! n))"
    using row by (simp add: frame_to_envelope_stored_of)
  have "vnum (pe_version (h ! n)) = Suc n"
    using run_from_nth [OF assms(4) n] by simp
  moreover have "ps_version (persisted_of (h ! n)) = pe_version (h ! n)"
    by (simp add: persisted_of_def Let_def)
  ultimately show ?thesis
    using env n rest assms(1) by (auto simp: read_pop_def read_inv_def)
qed

lemma read_refill_inv:
  assumes "read_inv h k n r" "rs_buffer r = []" "next_read_version r = Inr v" "run_from 0 h"
    "im_rows s k = map stored_of h"
  shows "read_inv h k n (read_refill s v r)"
    "rs_buffer (read_refill s v r) = map stored_of (take (rs_batch_size r) (drop n h))"
    "rs_done (read_refill s v r) \<Longrightarrow> length h \<le> n + length (rs_buffer (read_refill s v r))"
proof -
  have v: "vnum v = Suc n"
    using assms(1,3) by (auto simp: read_inv_def next_read_version_def result_simps version_next_Some split: option.splits)
  have "(case im_streams s k of None \<Rightarrow> [] | Some rows \<Rightarrow> scan_batch rows (as_u64 v) m) =
      scan_batch (im_rows s k) (as_u64 v) m" for m
    by (simp add: im_rows_def scan_batch_def split: option.split)
  then show b: "rs_buffer (read_refill s v r) = map stored_of (take (rs_batch_size r) (drop n h))"
    using assms(1,5) v by (simp add: read_refill_def Let_def read_inv_def scan_batch_run [OF assms(4)])
  then show "read_inv h k n (read_refill s v r)"
    using assms(1) by (cases "rs_last_version r") (simp_all add: read_inv_def read_refill_def Let_def min_def)
  show "rs_done (read_refill s v r) \<Longrightarrow> length h \<le> n + length (rs_buffer (read_refill s v r))"
    using b by (auto simp: read_refill_def Let_def)
qed

text \<open>One poll either hands out the next event of the current history or ends the stream;
it ends only on a read that was already done, or at the end of the history.\<close>

lemma read_poll_step:
  assumes inv: "inner_inv s" and h: "im_rows s k = map stored_of h" "\<forall>p \<in> set h. fits p"
    and r: "read_inv h k n r"
  shows "case read_poll s r of
      None \<Rightarrow> rs_buffer r = [] \<and> (rs_done r \<or> length h \<le> n)
    | Some (item, r') \<Rightarrow> n < length h \<and> item = Inr (persisted_of (h ! n)) \<and> read_inv h k (Suc n) r' \<and>
        (rs_done r' \<longrightarrow> rs_done r \<or> length h \<le> Suc n + length (rs_buffer r'))"
proof -
  have "map pending_of (im_rows s k) = h" using h by (simp add: comp_def)
  then have run: "run_from 0 h" using inner_inv_run [OF inv, of k] by simp
  show ?thesis
  proof (cases "rs_buffer r")
    case (Cons row rest)
    from read_pop_step [OF r Cons h(2) run] show ?thesis
      using Cons by (auto simp: read_poll_def)
  next
    case Nil
    show ?thesis
    proof (cases "rs_done r")
      case True
      with Nil show ?thesis by (simp add: read_poll_def)
    next
      case False
      have "length h < vmax" using inner_inv_length [OF inv, of k] h(1) by simp
      then have "\<exists>v. next_read_version r = Inr v"
        using r by (auto simp: read_inv_def next_read_version_def result_simps split: option.splits)
          (metis leD not_None_eq version_next_None)
      then obtain v where v: "next_read_version r = Inr v" ..
      note R = read_refill_inv [OF r Nil v run h(1)]
      let ?r = "read_refill s v r"
      show ?thesis
      proof (cases "rs_buffer ?r")
        case E: Nil
        then have "length h \<le> n"
          using R(2) r by (auto simp: read_inv_def)
        with Nil False v E show ?thesis by (simp add: read_poll_def Let_def)
      next
        case (Cons row rest)
        from read_pop_step [OF R(1) Cons h(2) run] R(3) show ?thesis
          using Nil False v Cons by (auto simp: read_poll_def Let_def)
      qed
    qed
  qed
qed

lemma read_drain_all:
  assumes "inner_inv s" "im_rows s k = map stored_of h" "\<forall>p \<in> set h. fits p" "read_inv h k n r"
    "rs_done r \<Longrightarrow> length h \<le> n + length (rs_buffer r)" "length h - n < fuel"
  shows "read_drain fuel s r = map (Inr \<circ> persisted_of) (drop n h)"
  using assms(4-6)
proof (induction fuel arbitrary: n r)
  case (Suc fuel)
  note P = read_poll_step [OF assms(1-3) Suc.prems(1)]
  show ?case
  proof (cases "read_poll s r")
    case None
    with P Suc.prems(2) show ?thesis by auto
  next
    case (Some p)
    obtain item r' where p: "p = (item, r')" by fastforce
    have n: "n < length h" and i: "item = Inr (persisted_of (h ! n))" and r': "read_inv h k (Suc n) r'"
      and d: "rs_done r' \<Longrightarrow> rs_done r \<or> length h \<le> Suc n + length (rs_buffer r')"
      using P Some p by auto
    have "rs_done r \<Longrightarrow> rs_buffer r \<noteq> []" using Suc.prems(2) n by auto
    then have "rs_done r \<Longrightarrow> rs_buffer r' = tl (rs_buffer r)"
      using Some p by (cases "rs_buffer r") (auto simp: read_poll_def read_pop_def Let_def split: sum.splits)
    with d Suc.prems(2) n have "rs_done r' \<Longrightarrow> length h \<le> Suc n + length (rs_buffer r')"
      by auto
    moreover have "length h - Suc n < fuel" using Suc.prems(3) n by simp
    ultimately have "read_drain fuel s r' = map (Inr \<circ> persisted_of) (drop (Suc n) h)"
      using r' by (intro Suc.IH) auto
    with Some p i n show ?thesis by (simp add: Cons_nth_drop_Suc [symmetric])
  qed
qed simp

lemma read_stream_start_inv:
  "0 < im_batch_size st \<Longrightarrow> read_inv h k (vnum from - 1) (read_stream_start st k from)"
  by (simp add: read_inv_def read_stream_start_def)

lemma im_read_stream_spec:
  assumes "im_inv st"
  shows "im_read_stream st k from =
    map (Inr \<circ> persisted_of) (filter (\<lambda>p. from \<le> pe_version p) (im_hist st k))"
proof -
  let ?h = "im_hist st k"
  have inner: "inner_inv (im_inner st)" "0 < im_batch_size st" using assms by (simp_all add: im_inv_def)
  have run: "run_from 0 ?h" using inner_inv_run [OF inner(1)] by (simp add: im_hist_def)
  have "im_read_stream st k from = map (Inr \<circ> persisted_of) (drop (vnum from - 1) ?h)"
    unfolding im_read_stream_def
    using im_rows_hist [OF assms] im_hist_fits [OF assms] read_stream_start_inv [OF inner(2)]
    by (intro read_drain_all [OF inner(1)]) (auto simp: read_stream_start_def)
  then show ?thesis using filter_run [OF run, of "vnum from"] by (simp add: version_le_vnum)
qed


section \<open>Reading while the store grows\<close>

text \<open>A reader polling once in each of a sequence of stores.\<close>

primrec read_polls ::
  "inner list \<Rightarrow> read_state \<Rightarrow> (persisted_envelope, inmemory_error) result list" where
  "read_polls [] r = []"
| "read_polls (s # ss) r =
    (case read_poll s r of None \<Rightarrow> [] | Some (item, r') \<Rightarrow> item # read_polls ss r')"

text \<open>Stores each of which extends the previous one's rows of stream \<open>k\<close>.\<close>

fun growing :: "stream_key \<Rightarrow> inner list \<Rightarrow> bool" where
  "growing k (s # t # ss) \<longleftrightarrow> (\<exists>new. im_rows t k = im_rows s k @ new) \<and> growing k (t # ss)"
| "growing k _ = True"

lemma growing_last: "growing k (s # ss) \<Longrightarrow> \<exists>new. im_rows (last (s # ss)) k = im_rows s k @ new"
proof (induction ss arbitrary: s)
  case (Cons t ss)
  then obtain new where "im_rows t k = im_rows s k @ new" "growing k (t # ss)" by auto
  with Cons.IH [of t] show ?case by auto
qed simp

lemma growing_member: "growing k (s # ss) \<Longrightarrow> t \<in> set ss \<Longrightarrow> length (im_rows s k) \<le> length (im_rows t k)"
proof (induction ss arbitrary: s)
  case (Cons u ss)
  then obtain new where u: "im_rows u k = im_rows s k @ new" "growing k (u # ss)" by auto
  with Cons.IH [OF u(2)] Cons.prems(2) show ?case by (cases "t = u") auto
qed simp

lemma growing_between:
  "growing k ss \<Longrightarrow> s \<in> set ss \<Longrightarrow>
    length (im_rows (hd ss) k) \<le> length (im_rows s k) \<and> (\<exists>new. im_rows (last ss) k = im_rows s k @ new)"
proof (induction ss)
  case (Cons t ss)
  show ?case
  proof (cases "s = t")
    case True
    with growing_last [OF Cons.prems(1)] show ?thesis by simp
  next
    case False
    with Cons.prems have s: "s \<in> set ss" "growing k ss" by (cases ss; simp)+
    with growing_member [OF Cons.prems(1) s(1)] Cons.IH show ?thesis by auto
  qed
qed simp

lemma inner_rows_pending:
  assumes "inner_inv s"
  shows "im_rows s k = map stored_of (map pending_of (im_rows s k))" "\<forall>p \<in> set (map pending_of (im_rows s k)). fits p"
proof -
  have f: "\<exists>p. fits p \<and> f = stored_of p" if "f \<in> set (im_rows s k)" for f
    using that assms by (auto simp: inner_inv_def entries_of_def entry_fits_def)
  then show "\<forall>p \<in> set (map pending_of (im_rows s k)). fits p" by fastforce
  have "stored_of (pending_of f) = f" if "f \<in> set (im_rows s k)" for f using f [OF that] by auto
  then show "im_rows s k = map stored_of (map pending_of (im_rows s k))" by (simp add: map_idI comp_def)
qed

lemma read_polls_prefix:
  assumes "\<forall>s \<in> set ss. inner_inv s" "growing k ss" "ss \<noteq> []"
    "read_inv (map pending_of (im_rows (hd ss) k)) k n r"
  shows "\<exists>m. read_polls ss r =
    map (Inr \<circ> persisted_of) (take m (drop n (map pending_of (im_rows (last ss) k))))"
  using assms
proof (induction ss arbitrary: n r)
  case (Cons s ss)
  let ?h = "map pending_of (im_rows s k)"
  have s: "inner_inv s" using Cons.prems(1) by simp
  note rows = inner_rows_pending [OF s, of k]
  have r: "read_inv ?h k n r" using Cons.prems(4) by simp
  obtain new where new: "im_rows (last (s # ss)) k = im_rows s k @ new"
    using growing_last [OF Cons.prems(2)] by blast
  note P = read_poll_step [OF s rows r]
  show ?case
  proof (cases "read_poll s r")
    case None
    then show ?thesis by (intro exI [of _ 0]) simp
  next
    case (Some p)
    obtain item r' where p: "p = (item, r')" by fastforce
    have n: "n < length ?h" and i: "item = Inr (persisted_of (?h ! n))" and r': "read_inv ?h k (Suc n) r'"
      using P Some p by auto
    let ?H = "map pending_of (im_rows (last (s # ss)) k)"
    have H: "drop n ?H = ?h ! n # drop (Suc n) ?H"
      using n new by (simp add: Cons_nth_drop_Suc [symmetric] nth_append)
    have "\<exists>m. read_polls ss r' = map (Inr \<circ> persisted_of) (take m (drop (Suc n) ?H))"
    proof (cases ss)
      case Nil
      then show ?thesis by (intro exI [of _ 0]) simp
    next
      case (Cons t ts)
      then obtain new' where "im_rows t k = im_rows s k @ new'" using Cons.prems(2) by auto
      then have "read_inv (map pending_of (im_rows t k)) k (Suc n) r'"
        using read_inv_mono [OF r', of "map pending_of new'"] by simp
      moreover have "\<forall>s \<in> set ss. inner_inv s" "growing k ss" using Cons.prems(1,2) Cons by auto
      ultimately have "\<exists>m. read_polls ss r' =
          map (Inr \<circ> persisted_of) (take m (drop (Suc n) (map pending_of (im_rows (last ss) k))))"
        using Cons by (intro Cons.IH) simp_all
      then show ?thesis using Cons by simp
    qed
    then obtain m where "read_polls ss r' = map (Inr \<circ> persisted_of) (take m (drop (Suc n) ?H))" ..
    with Some p i H show ?thesis by (intro exI [of _ "Suc m"]) simp
  qed
qed simp

text \<open>A reader ends only after the whole stream as one of the polled stores held it, the one of its last
  refill; until then every poll hands out an event.\<close>

lemma read_polls_complete:
  assumes "\<forall>s \<in> set ss. inner_inv s" "growing k ss"
    "ss \<noteq> [] \<longrightarrow> read_inv (map pending_of (im_rows (hd ss) k)) k n r"
  shows "length (read_polls ss r) = length ss \<or>
    (\<exists>s \<in> set (take (Suc (length (read_polls ss r))) ss). length (read_polls ss r) = length (im_rows s k) - n) \<or>
    (rs_done r \<and> length (read_polls ss r) = length (rs_buffer r))"
  using assms
proof (induction ss arbitrary: n r)
  case (Cons s ss)
  let ?h = "map pending_of (im_rows s k)"
  have s: "inner_inv s" using Cons.prems(1) by simp
  have r: "read_inv ?h k n r" using Cons.prems(3) by simp
  note P = read_poll_step [OF s inner_rows_pending [OF s, of k] r]
  show ?case
  proof (cases "read_poll s r")
    case None
    with P show ?thesis by auto
  next
    case (Some p)
    obtain item r' where p: "p = (item, r')" by fastforce
    have n: "n < length ?h" and r': "read_inv ?h k (Suc n) r'"
      and d: "rs_done r' \<Longrightarrow> rs_done r \<or> length ?h \<le> Suc n + length (rs_buffer r')"
      using P Some p by auto
    have out: "read_polls (s # ss) r = item # read_polls ss r'" using Some p by simp
    have g: "growing k ss" "\<forall>s \<in> set ss. inner_inv s" using Cons.prems(1,2) by (cases ss; simp)+
    have "ss \<noteq> [] \<longrightarrow> read_inv (map pending_of (im_rows (hd ss) k)) k (Suc n) r'"
    proof
      assume "ss \<noteq> []"
      with Cons.prems(2) obtain new where "im_rows (hd ss) k = im_rows s k @ new" by (cases ss) auto
      then show "read_inv (map pending_of (im_rows (hd ss) k)) k (Suc n) r'"
        using read_inv_mono [OF r', of "map pending_of new"] by simp
    qed
    from Cons.IH [OF g(2,1) this] show ?thesis
    proof (elim disjE bexE conjE)
      fix t
      assume t: "t \<in> set (take (Suc (length (read_polls ss r'))) ss)" "length (read_polls ss r') = length (im_rows t k) - Suc n"
      have "length (im_rows s k) \<le> length (im_rows t k)"
        by (rule growing_member [OF Cons.prems(2)]) (use t(1) in \<open>rule in_set_takeD\<close>)
      with t n have "length (read_polls (s # ss) r) = length (im_rows t k) - n" unfolding out by simp
      with t(1) show ?thesis unfolding out by auto
    next
      assume e: "rs_done r'" "length (read_polls ss r') = length (rs_buffer r')"
      show ?thesis
      proof (cases "rs_done r")
        case True
        then have "length (rs_buffer r) = Suc (length (rs_buffer r'))"
          using Some p by (cases "rs_buffer r") (auto simp: read_poll_def read_pop_def Let_def split: sum.splits)
        with True e show ?thesis unfolding out by simp
      next
        case False
        have "length (rs_buffer r') \<le> length (drop (Suc n) ?h)"
          using r' unfolding read_inv_def by (metis length_map length_take min.cobounded1)
        with False d e n have "length (read_polls (s # ss) r) = length (im_rows s k) - n" unfolding out by simp
        then show ?thesis unfolding out by simp
      qed
    qed (simp add: Some p)
  qed
qed simp

section \<open>Reading everything\<close>

definition to_item :: "all_pos \<times> stream_key \<times> stored_frame
    \<Rightarrow> (all_pos \<times> stream_key \<times> persisted_envelope, inmemory_error) result" where
  "to_item x = (case x of (pos, k, f) \<Rightarrow> Inr (pos, k, persisted_of (pending_of f)))"

abbreviation remaining :: "inner \<Rightarrow> global_read_state \<Rightarrow> (all_pos \<times> stream_key \<times> stored_frame) list" where
  "remaining s r \<equiv> btree_range (pos_after (gr_after r)) (im_index s)"

definition gr_inv :: "inner \<Rightarrow> global_read_state \<Rightarrow> bool" where
  "gr_inv s r \<longleftrightarrow> 0 < gr_batch_size r \<and> gr_buffer r = take (length (gr_buffer r)) (remaining s r)"

text \<open>A cursor that is done holds everything that is left; this lasts only while the store stands still.\<close>

definition gr_full :: "inner \<Rightarrow> global_read_state \<Rightarrow> bool" where
  "gr_full s r \<longleftrightarrow> (gr_done r \<longrightarrow> length (remaining s r) \<le> length (gr_buffer r))"

lemma range_pop:
  assumes "btree_ok ix" "btree_range (pos_after a) ix = x # rest"
  shows "btree_range (pos_after (Some (fst x))) ix = rest"
proof -
  have x: "pos_after a (fst x)"
    using assms(2) unfolding btree_range_def by (metis (no_types, lifting) filter_eq_ConsD)
  have ok: "btree_ok (x # rest)"
    using assms sorted_wrt_filter [of "(<)" "map fst ix"]
    by (metis (no_types, lifting) btree_ok_def btree_range_def sorted_wrt_filter sorted_wrt_map)
  have "btree_range (pos_after (Some (fst x))) ix = filter (\<lambda>y. fst x < fst y) (filter (\<lambda>y. pos_after a (fst y)) ix)"
    using x by (auto simp: btree_range_def pos_after_def filter_filter intro!: filter_cong split: option.splits)
  also have "\<dots> = filter (\<lambda>y. fst x < fst y) (x # rest)" using assms(2) by (simp add: btree_range_def)
  also have "\<dots> = rest" using ok by (simp add: filter_id_conv)
  finally show ?thesis .
qed

lemma global_pop_step:
  assumes inv: "inner_inv s" and r: "gr_inv s r" "gr_buffer r = x # rest"
  shows "\<exists>r'. global_pop x rest r = (to_item x, r') \<and> gr_inv s r' \<and> remaining s r = x # remaining s r' \<and>
    gr_after r' = Some (fst x) \<and> (gr_full s r \<longrightarrow> gr_full s r')"
proof -
  obtain pos k f where x: "x = (pos, k, f)" by (cases x)
  obtain rest' where R: "remaining s r = x # rest'"
    using r by (cases "remaining s r") (auto simp: gr_inv_def)
  then have "x \<in> set (im_index s)" unfolding btree_range_def by (metis (no_types) filter_is_subset list.set_intros(1) subsetD)
  then obtain p where p: "fits p" "f = stored_of p" using inv x by (auto simp: inner_inv_def entry_fits_def)
  let ?r = "r\<lparr>gr_buffer := rest, gr_after := Some pos\<rparr>"
  have "remaining s ?r = rest'"
    using range_pop [OF index_ok [OF inv] R] x by simp
  moreover have "rest = take (length rest) rest'" using r R by (simp add: gr_inv_def)
  ultimately have "gr_inv s ?r" "remaining s r = x # remaining s ?r" "gr_after ?r = Some (fst x)"
    "gr_full s r \<longrightarrow> gr_full s ?r"
    using r R x by (auto simp: gr_inv_def gr_full_def)
  moreover have "global_pop x rest r = (to_item x, ?r)"
    using x p by (simp add: global_pop_def Let_def frame_to_envelope_stored_of to_item_def)
  ultimately show ?thesis by blast
qed

lemma global_poll_step:
  assumes inv: "inner_inv s" and r: "gr_inv s r"
  shows "case global_poll s r of
      None \<Rightarrow> gr_buffer r = [] \<and> (gr_done r \<or> remaining s r = [])
    | Some (item, r') \<Rightarrow> (\<exists>x. item = to_item x \<and> gr_inv s r' \<and> remaining s r = x # remaining s r' \<and>
        gr_after r' = Some (fst x) \<and> (gr_full s r \<longrightarrow> gr_full s r'))"
proof (cases "gr_buffer r")
  case (Cons x rest)
  from global_pop_step [OF inv r Cons] Cons show ?thesis by (cases x) (auto simp: global_poll_def)
next
  case Nil
  show ?thesis
  proof (cases "gr_done r")
    case True
    with Nil r show ?thesis by (simp add: global_poll_def)
  next
    case False
    let ?r = "global_refill s r"
    have buf: "gr_buffer ?r = take (gr_batch_size r) (remaining s r)" and same: "remaining s ?r = remaining s r"
      by (simp_all add: global_refill_def Let_def)
    have R: "gr_inv s ?r" "gr_full s ?r"
      using r by (auto simp: gr_inv_def gr_full_def global_refill_def Let_def min_def)
    show ?thesis
    proof (cases "gr_buffer ?r")
      case E: Nil
      then have "remaining s r = []" using buf r by (auto simp: gr_inv_def)
      with Nil False E show ?thesis by (simp add: global_poll_def Let_def)
    next
      case (Cons x rest)
      from global_pop_step [OF inv R(1) Cons] R(2) Nil False Cons same show ?thesis
        by (cases x) (auto simp: global_poll_def Let_def)
    qed
  qed
qed

lemma global_drain_all:
  assumes "inner_inv s" "gr_inv s r" "gr_full s r" "length (remaining s r) < fuel"
  shows "global_drain fuel s r = map to_item (remaining s r)"
  using assms(2-4)
proof (induction fuel arbitrary: r)
  case (Suc fuel)
  note P = global_poll_step [OF assms(1) Suc.prems(1)]
  show ?case
  proof (cases "global_poll s r")
    case None
    with P Suc.prems(2) show ?thesis by (auto simp: gr_full_def)
  next
    case (Some p)
    obtain item r' where p: "p = (item, r')" by fastforce
    obtain x where x: "item = to_item x" "gr_inv s r'" "remaining s r = x # remaining s r'" "gr_full s r'"
      using P Some p Suc.prems(2) by auto
    with Suc.IH [of r'] Suc.prems(3) Some p show ?thesis by simp
  qed
qed simp

lemma im_read_all_spec:
  assumes "im_inv st"
  shows "im_read_all st after =
    map (\<lambda>(pos, k, p). Inr (pos, k, persisted_of p))
      (filter (\<lambda>x. case after of None \<Rightarrow> True | Some a \<Rightarrow> a < fst x) (im_log st))"
proof -
  have inner: "inner_inv (im_inner st)" "0 < im_batch_size st" using assms by (simp_all add: im_inv_def)
  have "gr_inv (im_inner st) (read_all_start st after)" "gr_full (im_inner st) (read_all_start st after)"
    using inner(2) by (simp_all add: gr_inv_def gr_full_def read_all_start_def)
  moreover have "length (remaining (im_inner st) r) < Suc (length (im_index (im_inner st)))" for r
    by (simp add: btree_range_def le_imp_less_Suc)
  ultimately have "im_read_all st after = map to_item (remaining (im_inner st) (read_all_start st after))"
    unfolding im_read_all_def by (intro global_drain_all [OF inner(1)]) auto
  moreover have "map to_item (btree_range (pos_after after) ix) = map (\<lambda>(pos, k, p). Inr (pos, k, persisted_of p))
      (filter (\<lambda>x. case after of None \<Rightarrow> True | Some a \<Rightarrow> a < fst x)
        (map (\<lambda>(pos, k, f). (pos, k, pending_of f)) ix))" for ix
    by (induction ix) (auto simp: btree_range_def pos_after_def to_item_def split: option.splits)
  ultimately show ?thesis by (simp add: im_log_def read_all_start_def)
qed

end
