(* ===== verification/InMemory_Atomic.thy ===== *)
theory InMemory_Atomic
  imports InMemory_Reads
begin

text \<open>
  The in-memory adapter's \<^verbatim>\<open>atomic_append_many\<close> (\<^verbatim>\<open>src/adapters/inmemory/src/lib.rs\<close>) and the
  interpretations of the store contracts \<^verbatim>\<open>raw_event_store\<close> and \<^verbatim>\<open>atomic_event_store\<close> on the adapter.
\<close>

section \<open>Atomic append\<close>

lemma check_heads_Inr:
  "check_heads s i ws = Inr () \<longleftrightarrow>
    (\<forall>w \<in> set ws. length (im_rows s (pa_target w)) < 2 ^ 64 \<and>
      pa_expected w = head_version (length (im_rows s (pa_target w))))"
proof (induction ws arbitrary: i)
  case (Cons w ws)
  let ?n = "length (im_rows s (pa_target w))"
  show ?case
  proof (cases "?n < 2 ^ 64")
    case True
    then have u: "unat (of_nat ?n :: u64) = ?n" by (simp add: unat_of_nat_small)
    have "(of_nat ?n :: u64) = (case pa_expected w of None \<Rightarrow> 0 | Some v \<Rightarrow> as_u64 v) \<longleftrightarrow>
        pa_expected w = head_version ?n"
    proof (cases "pa_expected w")
      case None
      then show ?thesis using u by (auto simp: head_version_def word_unat_eq_iff)
    next
      case (Some v)
      have "vnum v = ?n \<longleftrightarrow> ?n \<noteq> 0 \<and> v = version_of ?n"
      proof
        assume "vnum v = ?n"
        then show "?n \<noteq> 0 \<and> v = version_of ?n" using vnum_pos [of v] version_of_vnum [of v] by simp
      next
        assume "?n \<noteq> 0 \<and> v = version_of ?n"
        then show "vnum v = ?n" using True by (simp add: vmax_def)
      qed
      with Some u show ?thesis by (auto simp: head_version_def word_unat_eq_iff vnum_def)
    qed
    with True Cons show ?thesis by (auto simp: Let_def)
  qed (auto simp: Let_def)
qed simp

text \<open>The index entries of staged writes.\<close>

definition flat_entries ::
  "(stream_key \<times> (all_pos \<times> stored_frame) list) list \<Rightarrow> (all_pos \<times> stream_key \<times> stored_frame) list" where
  "flat_entries staged = concat (map (\<lambda>(k, rows). map (\<lambda>(pos, f). (pos, k, f)) rows) staged)"

definition stored_entries :: "planned_append list \<Rightarrow> (stream_key \<times> stored_frame) list" where
  "stored_entries ws = map (\<lambda>(k, p). (k, stored_of p)) (planned_entries ws)"

lemma stored_entries_Cons:
  "stored_entries (w # ws) =
    map (\<lambda>p. (pa_target w, stored_of p)) (batch_iter (pa_batch w)) @ stored_entries ws"
  by (simp add: stored_entries_def planned_entries_def)

lemma stage_writes_total: "\<forall>w \<in> set ws. planned_ok w \<Longrightarrow> stage_writes ws seq l acc \<noteq> Panics"
proof (induction ws arbitrary: seq l acc)
  case (Cons w ws)
  have "stage_rows (batch_iter (pa_batch w)) seq l [] \<noteq> Panics"
    using Cons.prems by (intro stage_rows_total) (simp add: planned_ok_def batch_ok_def)
  with Cons show ?case
    by (cases "stage_rows (batch_iter (pa_batch w)) seq l []") (auto split: sum.splits)
qed simp

lemma zip_map_entries:
  "length ps = length es \<Longrightarrow>
    map (\<lambda>(pos, f). (pos, k, f)) (zip ps (map stored_of es)) = zip ps (map (\<lambda>p. (k, stored_of p)) es)"
  by (induction ps es rule: list_induct2) simp_all

lemma stage_writes_Inr:
  assumes "\<forall>w \<in> set ws. planned_ok w" "stage_writes ws seq l acc = Returns (Inr (staged, l', seq'))"
  shows "\<exists>rs ps. staged = acc @ rs \<and> length ps = length (stored_entries ws) \<and>
    map vnum ps = [vnum seq ..< vnum seq + length ps] \<and> flat_entries rs = zip ps (stored_entries ws) \<and>
    vnum seq' = vnum seq + length ps \<and> l' = (if ws = [] then l else last ps) \<and>
    (\<forall>x \<in> set rs. snd x \<noteq> []) \<and> (\<forall>w \<in> set ws. \<forall>p \<in> set (batch_iter (pa_batch w)). fits p)"
  using assms
proof (induction ws arbitrary: seq l acc)
  case Nil
  then show ?case by (simp add: stored_entries_def planned_entries_def flat_entries_def)
next
  case (Cons w ws)
  let ?es = "batch_iter (pa_batch w)"
  obtain rows l1 seq1 where st: "stage_rows ?es seq l [] = Returns (Inr (rows, l1, seq1))"
    using Cons.prems(2) by (cases "stage_rows ?es seq l []") (auto split: sum.splits)
  obtain ps where ps: "map vnum ps = [vnum seq ..< vnum seq + length ?es]" "rows = zip ps (map stored_of ?es)"
    "vnum seq1 = vnum seq + length ?es" "l1 = last ps" "\<forall>p \<in> set ?es. fits p"
    using stage_rows_Inr [OF _ st] Cons.prems(1) by (auto simp: planned_ok_def batch_ok_def)
  have len: "length ps = length ?es" using ps(1) by (metis diff_add_inverse length_map length_upt)
  have "stage_writes ws seq1 l1 (acc @ [(pa_target w, rows)]) = Returns (Inr (staged, l', seq'))"
    using Cons.prems(2) st by simp
  then obtain rs qs where R: "staged = (acc @ [(pa_target w, rows)]) @ rs" "length qs = length (stored_entries ws)"
    "map vnum qs = [vnum seq1 ..< vnum seq1 + length qs]" "flat_entries rs = zip qs (stored_entries ws)"
    "vnum seq' = vnum seq1 + length qs" "l' = (if ws = [] then l1 else last qs)"
    "\<forall>x \<in> set rs. snd x \<noteq> []" "\<forall>w \<in> set ws. \<forall>p \<in> set (batch_iter (pa_batch w)). fits p"
    using Cons.IH [of seq1 l1 "acc @ [(pa_target w, rows)]"] Cons.prems(1) by auto
  have "map vnum (ps @ qs) = [vnum seq ..< vnum seq + length (ps @ qs)]"
    using ps(1,3) R(3) len upt_append [of "vnum seq" "vnum seq + length ps" "length qs"] by (simp add: add.assoc)
  moreover have "flat_entries ((pa_target w, rows) # rs) = zip (ps @ qs) (stored_entries (w # ws))"
    using R(4) ps(2) len by (simp add: flat_entries_def stored_entries_Cons zip_map_entries)
  moreover have "ws = [] \<longleftrightarrow> qs = []"
  proof -
    have "stored_entries ws = [] \<longleftrightarrow> ws = []"
      by (cases ws) (auto simp: stored_entries_def planned_entries_def batch_iter_def)
    then show ?thesis using R(2) by (metis length_0_conv)
  qed
  then have "l' = last (ps @ qs)" using R(6) ps(4) by (simp add: last_append)
  moreover have "rows \<noteq> []" using ps(2) len by (cases ps) auto
  ultimately show ?case
    using R ps len
    by (intro exI [of _ "(pa_target w, rows) # rs"] exI [of _ "ps @ qs"]) (auto simp: stored_entries_Cons)
qed

definition push_rows :: "stream_key \<times> (all_pos \<times> stored_frame) list \<Rightarrow> inner \<Rightarrow> inner" where
  "push_rows x s = s\<lparr>im_streams := (im_streams s)(fst x \<mapsto> im_rows s (fst x) @ map snd (snd x))\<rparr>"

lemma push_rows_simps [simp]:
  "im_index (push_rows x s) = im_index s" "im_next_seq (push_rows x s) = im_next_seq s"
  "im_rows (push_rows x s) j = im_rows s j @ (if j = fst x then map snd (snd x) else [])"
  "snd x \<noteq> [] \<Longrightarrow> \<forall>j. im_streams s j \<noteq> Some [] \<Longrightarrow> im_streams (push_rows x s) j \<noteq> Some []"
  by (auto simp: push_rows_def im_rows_def)

lemma fold_streams:
  fixes staged s
  defines "t \<equiv> fold push_rows staged s"
  shows "im_index t = im_index s" "im_next_seq t = im_next_seq s"
    "im_rows t j = im_rows s j @ entries_of j (flat_entries staged)"
    "\<forall>x \<in> set staged. snd x \<noteq> [] \<Longrightarrow> \<forall>j. im_streams s j \<noteq> Some [] \<Longrightarrow> im_streams t j \<noteq> Some []"
  unfolding t_def
proof (induction staged arbitrary: s)
  case (Cons x staged)
  obtain k rows where x: "x = (k, rows)" by fastforce
  have e: "entries_of j (flat_entries (x # staged)) =
      (if j = k then map snd rows else []) @ entries_of j (flat_entries staged)" for j
  proof -
    have "entries_of j (map (\<lambda>(pos, f). (pos, k, f)) rows) = (if j = k then map snd rows else [])"
      by (induction rows) (auto simp: entries_of_def)
    then show ?thesis by (simp add: flat_entries_def x)
  qed
  {
    case 1
    show ?case using Cons.IH(1) by simp
  next
    case 2
    show ?case using Cons.IH(2) by simp
  next
    case 3
    show ?case using Cons.IH(3) [of "push_rows x s"] e by (simp add: x)
  next
    case 4
    then show ?case using Cons.IH(4) [of "push_rows x s"] by (simp add: push_rows_simps(4))
  }
qed (simp_all add: flat_entries_def entries_of_def)

lemma entry_filter_stored:
  "map snd (filter (\<lambda>x. fst x = k) (stored_entries ws)) =
    map stored_of (map snd (filter (\<lambda>x. fst x = k) (planned_entries ws)))"
  by (simp add: stored_entries_def filter_map comp_def case_prod_beta)

lemma entries_of_stored:
  assumes "length ps = length (stored_entries ws)"
  shows "entries_of k (zip ps (stored_entries ws)) =
    map stored_of (map snd (filter (\<lambda>x. fst x = k) (planned_entries ws)))"
proof -
  have "entries_of k (zip ps es) = map snd (filter (\<lambda>x. fst x = k) es)" if "length ps = length es" for ps es
    using that by (induction ps es rule: list_induct2) (auto simp: entries_of_def)
  then show ?thesis using assms entry_filter_stored [of k ws] by simp
qed

lemma log_stored:
  assumes "length ps = length (stored_entries ws)"
  shows "map (\<lambda>(pos, k, f). (pos, k, pending_of f)) (zip ps (stored_entries ws)) = zip ps (planned_entries ws)"
proof -
  have "map (\<lambda>(pos, k, f). (pos, k, pending_of f)) (zip ps (map (\<lambda>(k, p). (k, stored_of p)) es)) = zip ps es"
    if "length ps = length es" for ps and es :: "(stream_key \<times> pending_envelope) list"
    using that by (induction ps es rule: list_induct2) auto
  then show ?thesis using assms by (simp add: stored_entries_def)
qed

lemma planned_run:
  assumes "distinct (map pa_target ws)" "\<forall>w \<in> set ws. run_from (g (pa_target w)) (batch_iter (pa_batch w))"
  shows "run_from (g k) (map snd (filter (\<lambda>x. fst x = k) (planned_entries ws)))"
proof (cases "k \<in> pa_target ` set ws")
  case True
  then show ?thesis using assms entries_filter [OF assms(1)] by auto
next
  case False
  then have "filter (\<lambda>x. fst x = k) (planned_entries ws) = []" by (rule entries_filter_other)
  then show ?thesis by simp
qed

lemma im_atomic_cases:
  assumes "im_atomic_append_many ws st = (r, st')"
  obtains (empty) "ws = []" "r = Returns (Inr None)" "st' = st"
  | (reject) err where "r = Returns (Inl err)" "st' = st"
  | (panic) "r = Panics" "stage_writes ws (im_next_seq (im_inner st)) (im_next_seq (im_inner st)) [] = Panics"
  | (commit) staged last_assigned seq where "ws \<noteq> []" "r = Returns (Inr (Some last_assigned))"
      "validate_distinct_targets (map pa_target ws) = Inr ()" "validate_atomic_runs ws = Inr ()"
      "check_heads (im_inner st) 0 ws = Inr ()"
      "stage_writes ws (im_next_seq (im_inner st)) (im_next_seq (im_inner st)) [] =
        Returns (Inr (staged, last_assigned, seq))"
      "im_inner st' = commit_staged staged seq (im_inner st)" "im_batch_size st' = im_batch_size st"
  using assms unfolding im_atomic_append_many_def im_atomic_append_locked_def Let_def
  by (auto split: if_splits sum.splits call.splits)

lemma commit_staged_simps:
  assumes "inner_inv s"
    "map (\<lambda>x. vnum (fst x)) (flat_entries staged) =
      [vnum (im_next_seq s) ..< vnum (im_next_seq s) + length (flat_entries staged)]"
  shows "im_index (commit_staged staged seq s) = im_index s @ flat_entries staged"
    "im_next_seq (commit_staged staged seq s) = seq"
    "im_rows (commit_staged staged seq s) j = im_rows s j @ entries_of j (flat_entries staged)"
    "\<forall>x \<in> set staged. snd x \<noteq> [] \<Longrightarrow> im_streams (commit_staged staged seq s) j \<noteq> Some []"
proof -
  have ne: "\<forall>j. im_streams s j \<noteq> Some []" using assms(1) by (simp add: inner_inv_def)
  have rows: "im_rows (s\<lparr>im_next_seq := seq, im_index := ix\<rparr>) j = im_rows s j" for ix
    by (simp add: im_rows_def)
  note F = fold_streams [of staged "s\<lparr>im_next_seq := seq, im_index := im_index s @ flat_entries staged\<rparr>"]
  have eq: "commit_staged staged seq s =
      fold push_rows staged (s\<lparr>im_next_seq := seq, im_index := im_index s @ flat_entries staged\<rparr>)"
    using index_insert_all [OF assms] by (simp add: commit_staged_def Let_def flat_entries_def push_rows_def [abs_def] case_prod_beta')
  show "im_index (commit_staged staged seq s) = im_index s @ flat_entries staged"
    unfolding eq using F(1) by simp
  show "im_next_seq (commit_staged staged seq s) = seq" unfolding eq using F(2) by simp
  show "im_rows (commit_staged staged seq s) j = im_rows s j @ entries_of j (flat_entries staged)"
    unfolding eq using F(3) [of j] rows by simp
  show "im_streams (commit_staged staged seq s) j \<noteq> Some []" if "\<forall>x \<in> set staged. snd x \<noteq> []"
    unfolding eq using F(4) [OF that, of j] ne by simp
qed

lemma atomic_commit_inv:
  assumes s: "inner_inv s" and ok: "\<forall>w \<in> set ws. planned_ok w"
    and distinct: "distinct (map pa_target ws)"
    and run: "\<forall>w \<in> set ws. run_from (length (im_rows s (pa_target w))) (batch_iter (pa_batch w))"
    and stage: "stage_writes ws (im_next_seq s) (im_next_seq s) [] = Returns (Inr (staged, l, seq))"
  shows "inner_inv (commit_staged staged seq s) \<and>
    (\<exists>ps. length ps = length (planned_entries ws) \<and> (ws \<noteq> [] \<longrightarrow> l = last ps) \<and>
      im_index (commit_staged staged seq s) = im_index s @ zip ps (stored_entries ws))"
proof -
  obtain ps where ps: "length ps = length (stored_entries ws)"
    "map vnum ps = [vnum (im_next_seq s) ..< vnum (im_next_seq s) + length ps]"
    "flat_entries staged = zip ps (stored_entries ws)" "vnum seq = vnum (im_next_seq s) + length ps"
    "l = (if ws = [] then im_next_seq s else last ps)" "\<forall>x \<in> set staged. snd x \<noteq> []"
    "\<forall>w \<in> set ws. \<forall>p \<in> set (batch_iter (pa_batch w)). fits p"
    using stage_writes_Inr [OF ok stage] by auto
  let ?new = "flat_entries staged" and ?t = "commit_staged staged seq s"
  have len: "length ?new = length ps" using ps(1,3) by simp
  have pos: "map (\<lambda>x. vnum (fst x)) ?new = [vnum (im_next_seq s) ..< vnum (im_next_seq s) + length ?new]"
    using ps(1-3) len by (simp add: map_fst_zip_comp)
  note C = commit_staged_simps [OF s pos, of seq]
  have "inner_inv ?t"
  proof (rule inner_inv_extend [OF s C(1) pos])
    show "vnum (im_next_seq ?t) = vnum (im_next_seq s) + length ?new" using C(2) ps(4) len by simp
    show "im_rows ?t k = im_rows s k @ entries_of k ?new" for k by (rule C(3))
    show "entry_fits x" if "x \<in> set ?new" for x
    proof -
      have "snd x \<in> set (stored_entries ws)"
        using that ps(3) set_zip_rightD [of "fst x" "snd x" ps "stored_entries ws"] by simp
      then obtain w p where "w \<in> set ws" "p \<in> set (batch_iter (pa_batch w))" "snd (snd x) = stored_of p"
        by (auto simp: stored_entries_def planned_entries_def)
      with ps(7) show ?thesis unfolding entry_fits_def by blast
    qed
    show "run_from (length (im_rows s k)) (map pending_of (entries_of k ?new))" for k
      using planned_run [OF distinct run, of k] entries_of_stored [OF ps(1), of k] ps(3)
      by (simp add: comp_def)
    show "im_streams ?t k \<noteq> Some []" for k using C(4) [OF ps(6)] .
  qed
  moreover have "length (stored_entries ws) = length (planned_entries ws)" by (simp add: stored_entries_def)
  ultimately show ?thesis using ps C(1) by auto
qed

lemma im_atomic_commit:
  assumes inv: "im_inv st" and ok: "\<forall>w \<in> set ws. planned_ok w"
    and app: "im_atomic_append_many ws st = (Returns (Inr pos), st')"
  shows "im_inv st' \<and> distinct (map pa_target ws) \<and>
      (\<forall>w \<in> set ws. pa_expected w = head_version (length (im_hist st (pa_target w))) \<and>
        run_from (length (im_hist st (pa_target w))) (batch_iter (pa_batch w))) \<and>
      (\<exists>ps. length ps = length (planned_entries ws) \<and> im_log st' = im_log st @ zip ps (planned_entries ws) \<and>
        pos = (if ws = [] then None else Some (last ps)))"
  using app
proof (cases rule: im_atomic_cases)
  case empty
  with inv show ?thesis by (simp add: planned_entries_def)
next
  case (commit staged last_assigned seq)
  let ?s = "im_inner st"
  have s: "inner_inv ?s" using inv by (simp add: im_inv_def)
  have d: "distinct (map pa_target ws)" using commit(3) by (simp add: validate_distinct_targets_Inr)
  have head: "pa_expected w = head_version (length (im_rows ?s (pa_target w)))" if "w \<in> set ws" for w
    using commit(5) that by (simp add: check_heads_Inr)
  have run: "run_from (length (im_rows ?s (pa_target w))) (batch_iter (pa_batch w))" if w: "w \<in> set ws" for w
  proof -
    have "(case pa_expected w of None \<Rightarrow> 0 | Some v \<Rightarrow> vnum v) = length (im_rows ?s (pa_target w))"
      using head [OF w] inner_inv_length [OF s, of "pa_target w"] by (simp add: head_version_def)
    moreover have "run_from (case pa_expected w of None \<Rightarrow> 0 | Some v \<Rightarrow> vnum v) (batch_iter (pa_batch w))"
      using commit(4) w by (simp add: validate_atomic_runs_Inr)
    ultimately show ?thesis by simp
  qed
  obtain ps where ps: "inner_inv (commit_staged staged seq ?s)" "length ps = length (planned_entries ws)"
    "last_assigned = last ps" "im_index (commit_staged staged seq ?s) = im_index ?s @ zip ps (stored_entries ws)"
    using atomic_commit_inv [OF s ok d _ commit(6)] run commit(1) by blast
  have "length ps = length (stored_entries ws)" using ps(2) by (simp add: stored_entries_def)
  then have "im_log st' = im_log st @ zip ps (planned_entries ws)"
    using commit(7) ps(4) log_stored [of ps ws] by (simp add: im_log_def)
  moreover have "im_inv st'" using commit(7,8) ps(1) inv by (simp add: im_inv_def)
  moreover have "pos = (if ws = [] then None else Some (last ps))" using commit(1,2) ps(3) by simp
  moreover have "length (im_hist st k) = length (im_rows ?s k)" for k by (simp add: im_hist_def)
  ultimately show ?thesis using d head run ps(2) by auto
qed simp_all

lemma im_atomic_reject:
  "im_atomic_append_many ws st = (Returns (Inl err), st') \<Longrightarrow> st' = st"
  by (erule im_atomic_cases) simp_all

lemma im_atomic_total:
  assumes "\<forall>w \<in> set ws. planned_ok w"
  shows "fst (im_atomic_append_many ws st) \<noteq> Panics"
proof -
  obtain r st' where A: "im_atomic_append_many ws st = (r, st')" by fastforce
  then have "r \<noteq> Panics" using stage_writes_total [OF assms] by (cases rule: im_atomic_cases) simp_all
  with A show ?thesis by simp
qed

section \<open>The store's contracts\<close>

interpretation im: raw_event_store im_inv im_append im_read_stream im_read_all im_hist im_log
proof unfold_locales
  fix st k
  assume inv: "im_inv st"
  show "run_from 0 (im_hist st k)"
    using inv inner_inv_run by (simp add: im_inv_def im_hist_def)
  show "pending_ok p \<and> pending_len p < 2 ^ 32" if "p \<in> set (im_hist st k)" for p
    using im_hist_fits [OF inv that] by (simp add: fits_def)
  show "im_hist st k = map (snd \<circ> snd) (filter (\<lambda>x. fst (snd x) = k) (im_log st))"
    using inv by (rule im_hist_log)
  have "map fst (im_log st) = map fst (im_index (im_inner st))" by (simp add: im_log_def case_prod_beta comp_def)
  then show "sorted_wrt (<) (map fst (im_log st))"
    using index_ok [of "im_inner st"] inv by (simp add: im_inv_def btree_ok_def)
qed (simp_all add: im_append_commit im_append_reject im_append_total im_append_conflict
    im_read_stream_spec im_read_all_spec)

interpretation ima: atomic_event_store im_inv im_append im_read_stream im_read_all im_hist im_log
  im_atomic_append_many
  by unfold_locales (rule im_atomic_commit, assumption+, rule im_atomic_reject, assumption,
      rule im_atomic_total, assumption)

section \<open>When an append commits\<close>

lemma stage_rows_complete:
  assumes "\<forall>p \<in> set envs. fits p" "vnum seq + length envs \<le> vmax"
  shows "\<exists>rows' l' seq'. stage_rows envs seq l rows = Returns (Inr (rows', l', seq'))"
  using assms
proof (induction envs arbitrary: seq l rows)
  case (Cons p envs)
  have "all_pos_next seq = Some (version_of (Suc (vnum seq)))"
    using Cons.prems(2) by (simp add: all_pos_next_Some)
  moreover have "vnum (version_of (Suc (vnum seq))) + length envs \<le> vmax" using Cons.prems(2) by simp
  ultimately show ?case
    using Cons.IH [of "version_of (Suc (vnum seq))" seq "rows @ [(seq, stored_of p)]"] Cons.prems(1)
    by (simp add: encode_pending_to_frame_fits)
qed simp

lemma im_append_complete:
  assumes inv: "im_inv st" and e: "e = head_version (length (im_hist st k))"
    and run: "run_from (length (im_hist st k)) (batch_iter b)" and fit: "\<forall>p \<in> set (batch_iter b). fits p"
    and room: "length (im_log st) + length (batch_iter b) < vmax"
  shows "\<exists>pos st'. im_append k e b st = (Returns (Inr pos), st')"
proof -
  let ?s = "im_inner st"
  have s: "inner_inv ?s" using inv by (simp add: im_inv_def)
  have len: "length (im_hist st k) = length (im_rows ?s k)" by (simp add: im_hist_def)
  have small: "length (im_rows ?s k) < 2 ^ 64" using inner_inv_length [OF s, of k] by (simp add: vmax_def)
  then have "unat (of_nat (length (im_rows ?s k)) :: u64) = length (im_rows ?s k)"
    by (simp add: unat_of_nat_small)
  then have V: "validate_append_versions (of_nat (length (im_rows ?s k))) e b k = Inr ()"
    using e run len by (simp add: validate_append_versions_Inr)
  have "vnum (im_next_seq ?s) = Suc (length (im_log st))" using s by (simp add: inner_inv_def im_log_def)
  then obtain rows l seq where "stage_rows (batch_iter b) (im_next_seq ?s) (im_next_seq ?s) [] = Returns (Inr (rows, l, seq))"
    using stage_rows_complete [OF fit, of "im_next_seq ?s"] room by fastforce
  with V small show ?thesis by (simp add: im_append_def im_append_locked_def Let_def)
qed

lemma im_append_commits_fits:
  assumes "im_inv st" "batch_ok b" "im_append k e b st = (Returns (Inr pos), st')"
  shows "(\<forall>p \<in> set (batch_iter b). fits p) \<and> length (im_log st) + length (batch_iter b) < vmax"
proof -
  have inv': "im_inv st'" and "e = head_version (length (im_hist st k))"
    using im_append_commit [OF assms] by auto
  obtain ps where ps: "length ps = length (batch_iter b)" "im_log st' = im_log st @ zip ps (map (Pair k) (batch_iter b))"
    using im_append_commit [OF assms] by blast
  have "vnum (im_next_seq (im_inner st')) = Suc (length (im_log st'))"
    using inv' by (simp add: im_inv_def inner_inv_def im_log_def)
  then have "length (im_log st') < vmax" by (metis Suc_le_lessD vnum_le_vmax)
  moreover have "fits p" if "p \<in> set (batch_iter b)" for p
    using im_hist_fits [OF inv', of p k] im.hist_append(1) [OF assms] that by simp
  ultimately show ?thesis using ps by simp
qed

section \<open>Histories of the store\<close>

text \<open>The store's writing operations as steps, whatever their result.\<close>

inductive im_step :: "im_store \<Rightarrow> im_store \<Rightarrow> bool" where
  step_append: "batch_ok b \<Longrightarrow> im_append k e b st = (r, st') \<Longrightarrow> im_step st st'"
| step_atomic: "\<forall>w \<in> set ws. planned_ok w \<Longrightarrow> im_atomic_append_many ws st = (r, st') \<Longrightarrow> im_step st st'"

inductive im_reachable :: "im_store \<Rightarrow> bool" where
  reachable_new: "batch_size_new n = Inr m \<Longrightarrow> im_reachable (im_with_batch_size m)"
| reachable_step: "im_reachable st \<Longrightarrow> im_step st st' \<Longrightarrow> im_reachable st'"

lemma im_step_cases:
  assumes "im_step st st'" "im_inv st"
  shows "im_inv st' \<and> (\<forall>k. \<exists>new. im_rows (im_inner st') k = im_rows (im_inner st) k @ new)"
  using assms
proof (cases rule: im_step.cases)
  case (step_append b k e r)
  consider (ok) pos where "r = Returns (Inr pos)" | (err) x where "r = Returns (Inl x)" | (panic) "r = Panics"
    by (cases r) (metis sum.exhaust)+
  then show ?thesis
  proof cases
    case ok
    with step_append assms(2) have a: "im_append k e b st = (Returns (Inr pos), st')" by simp
    have inv': "im_inv st'" using im_append_commit [OF assms(2) step_append(1) a] by simp
    have "\<exists>new. im_hist st' j = im_hist st j @ new" for j
      using im.hist_append [OF assms(2) step_append(1) a] by (cases "j = k") auto
    with inv' assms(2) show ?thesis by (metis im_rows_hist map_append)
  next
    case err
    with step_append im_append_reject [of b k e st x st'] have "st' = st" by simp
    with assms(2) show ?thesis by simp
  next
    case panic
    with step_append im_append_total [of b k e st] show ?thesis by simp
  qed
next
  case (step_atomic ws r)
  consider (ok) pos where "r = Returns (Inr pos)" | (err) x where "r = Returns (Inl x)" | (panic) "r = Panics"
    by (cases r) (metis sum.exhaust)+
  then show ?thesis
  proof cases
    case ok
    with step_atomic have a: "im_atomic_append_many ws st = (Returns (Inr pos), st')" by simp
    have inv': "im_inv st'" using im_atomic_commit [OF assms(2) step_atomic(1) a] by simp
    have "\<exists>new. im_hist st' j = im_hist st j @ new" for j
      using ima.atomic_hist [OF assms(2) step_atomic(1) a] by (cases "j \<in> pa_target ` set ws") auto
    with inv' assms(2) show ?thesis by (metis im_rows_hist map_append)
  next
    case err
    with step_atomic im_atomic_reject [of ws st x st'] have "st' = st" by simp
    with assms(2) show ?thesis by simp
  next
    case panic
    with step_atomic im_atomic_total [of ws st] show ?thesis by simp
  qed
qed

lemma im_reachable_inv: "im_reachable st \<Longrightarrow> im_inv st"
proof (induction rule: im_reachable.induct)
  case (reachable_new n m)
  then show ?case
    using inner_inv_default by (simp add: im_inv_def im_with_batch_size_def batch_size_new_Inr)
qed (use im_step_cases in blast)

lemma im_steps_inv:
  assumes "im_step\<^sup>*\<^sup>* st st'" "im_inv st"
  shows "im_inv st' \<and> (\<exists>new. im_rows (im_inner st') k = im_rows (im_inner st) k @ new)"
  using assms
proof (induction rule: rtranclp_induct)
  case (step y z)
  then show ?case using im_step_cases [of y z] by (metis append.assoc)
qed simp

lemma steps_growing:
  assumes "successively im_step\<^sup>*\<^sup>* sts" "sts \<noteq> []" "im_inv (hd sts)"
  shows "(\<forall>s \<in> set (map im_inner sts). inner_inv s) \<and> growing k (map im_inner sts)"
  using assms
proof (induction sts rule: induct_list012)
  case (3 s t ss)
  have s: "im_inv s" "im_step\<^sup>*\<^sup>* s t" using "3.prems" by simp_all
  from im_steps_inv [OF s(2,1)] obtain new where
    t: "im_inv t" "im_rows (im_inner t) k = im_rows (im_inner s) k @ new" by blast
  have IH: "(\<forall>s \<in> set (map im_inner (t # ss)). inner_inv s) \<and> growing k (map im_inner (t # ss))"
    by (rule "3.IH"(2)) (use "3.prems"(1) t(1) in simp_all)
  have "inner_inv (im_inner s)" using s(1) by (simp add: im_inv_def)
  moreover have "growing k (im_inner s # map im_inner (t # ss))"
    using IH t(2) by (simp only: list.map growing.simps) blast
  ultimately show ?case using IH by (simp only: list.map set_simps ball_simps) blast
qed (simp_all add: im_inv_def)

section \<open>Sample values\<close>

text \<open>A small event, batch and store at which the properties below are evaluated.\<close>

definition sample_event :: "nat \<Rightarrow> pending_envelope" where
  "sample_event n =
    \<lparr>pe_version = version_of n, pe_event_type = EventType [0x41], pe_schema = schema_INITIAL,
     pe_payload = Payload [1, 2, 3], pe_metadata = None\<rparr>"

definition sample_batch :: pending_batch where
  "sample_batch = \<lparr>pb_first = sample_event 1, pb_rest = [sample_event 2]\<rparr>"

definition sample_key :: stream_key where
  "sample_key = StreamKey [0x6B]"

lemma sample_fits [simp]: "fits (sample_event n)" "pending_ok (sample_event n)" "vnum (pe_version (sample_event 1)) = 1"
  "vnum (pe_version (sample_event 2)) = 2"
  by (simp_all add: fits_def sample_event_def pending_ok_def event_type_ok_def payload_ok_def metadata_opt_ok_def
      pending_len_def frame_len_def payload_offset_def align_padding_def opt_bytes_def HEADER_FIXED_SIZE_def
      PAYLOAD_ALIGN_def MAX_EVENT_TYPE_LEN_def MAX_PAYLOAD_LEN_def utf8_valid_def utf8_valid_up_to.simps Let_def
      vmax_def)

lemma sample_batch_ok [simp]: "batch_ok sample_batch" "run_from 0 (batch_iter sample_batch)"
  "\<forall>p \<in> set (batch_iter sample_batch). fits p" "length (batch_iter sample_batch) = 2"
  using sample_fits(3,4) by (simp_all add: batch_ok_def sample_batch_def batch_iter_def)

lemma im_new_inv [simp]: "im_inv im_new" "im_hist im_new k = []" "im_log im_new = []"
  using inner_inv_default
  by (simp_all add: im_new_def im_with_batch_size_def im_inv_def DEFAULT_BATCH_def
      im_hist_def im_log_def inner_default_def im_rows_def)

lemma sample_append:
  obtains pos st where "im_append sample_key None sample_batch im_new = (Returns (Inr pos), st)"
  using im_append_complete [of im_new None sample_key sample_batch] 
  by (auto simp: head_version_def vmax_def)

lemma sample_store:
  obtains pos st where "im_append sample_key None sample_batch im_new = (Returns (Inr pos), st)"
    "im_reachable im_new" "im_reachable st" "im_hist st sample_key = batch_iter sample_batch"
    "\<exists>ps. length ps = 2 \<and> im_log st = zip ps (map (Pair sample_key) (batch_iter sample_batch))"
proof -
  obtain pos st where a: "im_append sample_key None sample_batch im_new = (Returns (Inr pos), st)"
    by (rule sample_append)
  have new: "im_reachable im_new"
    unfolding im_new_def
    by (rule reachable_new [of DEFAULT_BATCH]) (simp add: batch_size_new_def DEFAULT_BATCH_def MAX_BATCH_def)
  then have "im_reachable st" using step_append [OF _ a] by (auto intro: reachable_step)
  moreover have "im_hist st sample_key = batch_iter sample_batch"
    using im.hist_append(1) [OF _ _ a] by simp
  moreover have "\<exists>ps. length ps = 2 \<and> im_log st = zip ps (map (Pair sample_key) (batch_iter sample_batch))"
    using im_append_commit [OF _ _ a] by auto
  ultimately show thesis using that a new by blast
qed

text \<open>A write of the sample batch to a fresh stream, and a section carrying it.\<close>

definition sample_write :: planned_append where
  "sample_write = \<lparr>pa_target = sample_key, pa_expected = None, pa_head = sample_event 1, pa_tail = [sample_event 2]\<rparr>"

definition sample_section :: stream_section where
  "sample_section = \<lparr>ss_origin = [0x6B], ss_blocks = map (BlockEvent \<circ> persisted_of) [sample_event 1, sample_event 2]\<rparr>"

lemma sample_write_ok [simp]: "planned_ok sample_write" "pa_target sample_write = sample_key"
  "batch_iter (pa_batch sample_write) = batch_iter sample_batch" "pa_expected sample_write = None"
  using sample_batch_ok(1)
  by (simp_all add: planned_ok_def batch_ok_def sample_write_def pa_batch_def batch_from_parts_def sample_batch_def
      batch_iter_def)

lemma ps_version_persisted_of [simp]: "ps_version (persisted_of p) = pe_version p"
  by (simp add: persisted_of_def Let_def)

lemma sample_section_ok: "sections_ok [sample_section]"
  using sample_fits(1) by (simp add: sections_ok_def sample_section_def persisted_of_ok fits_def)

lemma stage_writes_sample:
  "\<exists>x. stage_writes [sample_write] (im_next_seq inner_default) (im_next_seq inner_default) [] = Returns (Inr x)"
proof -
  have "vnum all_pos_INITIAL = 1" by (simp add: all_pos_INITIAL_def vnum_def as_u64_def)
  then obtain rows l' seq' where "stage_rows (batch_iter sample_batch) all_pos_INITIAL all_pos_INITIAL [] = Returns (Inr (rows, l', seq'))"
    using stage_rows_complete [OF sample_batch_ok(3), of all_pos_INITIAL all_pos_INITIAL "[]"] by (auto simp: vmax_def)
  then show ?thesis by (simp add: inner_default_def)
qed

lemma sample_atomic:
  obtains pos st where "im_atomic_append_many [sample_write] im_new = (Returns (Inr pos), st)"
proof -
  have i: "im_inner im_new = inner_default" by (simp add: im_new_def im_with_batch_size_def)
  have "validate_distinct_targets (map pa_target [sample_write]) = Inr ()" by (simp add: validate_distinct_targets_Inr)
  moreover have "validate_atomic_runs [sample_write] = Inr ()" by (simp add: validate_atomic_runs_Inr)
  moreover have "check_heads inner_default 0 [sample_write] = Inr ()"
    by (simp add: check_heads_Inr im_rows_def inner_default_def head_version_def)
  moreover obtain staged l seq where
    "stage_writes [sample_write] (im_next_seq inner_default) (im_next_seq inner_default) [] = Returns (Inr (staged, l, seq))"
    using stage_writes_sample by (metis prod_cases3)
  ultimately show thesis
    using that unfolding im_atomic_append_many_def im_atomic_append_locked_def Let_def i by (simp del: stage_writes.simps check_heads.simps list.map)
qed

lemma sample_plan: "plan_section sample_section =
  Inr (PlanRun version_INITIAL None (sample_event 1) [sample_event 2] (version_of 2) HaltComplete)"
proof -
  have v: "pe_version (sample_event 1) = version_INITIAL" "pe_version (sample_event 2) = version_of 2"
    by (simp_all add: sample_event_def version_INITIAL_def version_of_def)
  have "version_next version_INITIAL = Some (version_of 2)" by (simp add: version_next_Some vmax_def)
  moreover have "version_new (as_u64 version_INITIAL - 1) = None"
    by (simp add: version_INITIAL_def as_u64_def)
  ultimately show ?thesis using v by (simp add: plan_section_def sample_section_def Let_def)
qed

lemma sample_import:
  obtains reports st where
    "import_whole_chunk im_atomic_append_many [sample_section] (\<lambda>_. sample_key) im_new = (Returns (Inr reports), st)"
proof -
  obtain pos st where a: "im_atomic_append_many [sample_write] im_new = (Returns (Inr pos), st)"
    by (rule sample_atomic)
  have "route_sections [sample_section] (\<lambda>_. sample_key) = Inr [sample_key]" by (simp add: route_sections_Inr)
  moreover have "plan_chunk [(sample_section, sample_key)] [] [] [] =
      (Inr ([sample_write], [version_INITIAL], [version_of 2]) :: (_, inmemory_error import_error) result)"
    by (simp add: sample_plan sample_write_def)
  ultimately show thesis using that a by (simp add: import_whole_chunk_def del: plan_chunk.simps)
qed

end
