(* ===== verification/Repositories.thy ===== *)
theory Repositories
  imports InMemory_Atomic Checkpoints
begin

text \<open>
  The typed repository over a raw store: \<open>crates/store/src/repository.rs\<close>, with the upcasting
  read path (\<open>upcasting.rs\<close>), the metadata providers (\<open>metadata.rs\<close>) and the snapshot
  decorator (\<open>snapshot.rs\<close>). The aggregate, the codec, the event's name, the metadata provider
  and the bytes of an id are the user's code and so parameters, collected in the records
  \<open>aggregate\<close> and \<open>facade\<close>. The raw store is a parameter too: a read that may fail to open,
  and an append.

  A save returns its result together with the root and the store it leaves behind. The codec law
  the round trips need is \<open>codec_law\<close>: what was encoded is decoded from an envelope that carries
  it under its name.
\<close>

section \<open>Facade\<close>

record ('id, 'e, 'enc, 'dec) facade =
  fc_codec :: "('e, 'enc, 'dec) codec"
  fc_meta :: "version \<Rightarrow> 'e \<Rightarrow> payload \<Rightarrow> metadata option"
  fc_name :: "'e \<Rightarrow> bytes"
  fc_key :: "'id \<Rightarrow> bytes"

definition unit_metadata :: "version \<Rightarrow> 'e \<Rightarrow> payload \<Rightarrow> metadata option" where
  "unit_metadata version event payload = None"

definition closure_metadata ::
  "(version \<Rightarrow> 'e \<Rightarrow> payload \<Rightarrow> metadata option) \<Rightarrow> version \<Rightarrow> 'e \<Rightarrow> payload \<Rightarrow> metadata option" where
  "closure_metadata f version event payload = f version event payload"

definition first_persisted_version :: "version option \<Rightarrow> version option" where
  "first_persisted_version current = (case current of None \<Rightarrow> Some version_INITIAL | Some v \<Rightarrow> version_next v)"

definition root_key :: "('id, 'e, 'enc, 'dec) facade \<Rightarrow> ('id, 's) aggregate_root \<Rightarrow> stream_key" where
  "root_key fc root = stream_key_from_slice (fc_key fc (root_id root))"

section \<open>Loading\<close>

text \<open>The \<open>try_fold\<close> over the raw stream.\<close>

primrec replay_stream ::
  "('s, 'e) aggregate \<Rightarrow> (persisted_envelope \<Rightarrow> ('e, 'dec) result) \<Rightarrow> (persisted_envelope, 'err) result list
    \<Rightarrow> ('id, 's) aggregate_root \<Rightarrow> (('id, 's) aggregate_root, ('err, 'enc, 'dec) store_error) result call" where
  "replay_stream ag decode [] r = Returns (Inr r)"
| "replay_stream ag decode (x # xs) r =
    (case x of
       Inl e \<Rightarrow> Returns (Inl (SeAdapter e))
     | Inr env \<Rightarrow>
       (case decode env of
          Inl e \<Rightarrow> Returns (Inl (SeDecode e))
        | Inr out \<Rightarrow>
          (case replay ag (ps_version env) out r of
             (Panics, _) \<Rightarrow> Panics
           | (Returns (Inl e), _) \<Rightarrow> Returns (Inl (SeKernel e))
           | (Returns (Inr _), r') \<Rightarrow> replay_stream ag decode xs r')))"

definition replay_from ::
  "('id, 'e, 'enc, 'dec) facade \<Rightarrow> ('s, 'e) aggregate
    \<Rightarrow> ('st \<Rightarrow> stream_key \<Rightarrow> version \<Rightarrow> ((persisted_envelope, 'err) result list, 'err) result)
    \<Rightarrow> ('id, 's) aggregate_root \<Rightarrow> version \<Rightarrow> 'st
    \<Rightarrow> (('id, 's) aggregate_root, ('err, 'enc, 'dec) store_error) result call" where
  "replay_from fc ag read root from st =
    (case read st (root_key fc root) from of
       Inl e \<Rightarrow> Returns (Inl (SeAdapter e))
     | Inr raw_stream \<Rightarrow> replay_stream ag (cd_decode (fc_codec fc)) raw_stream root)"

definition repo_load ::
  "('id, 'e, 'enc, 'dec) facade \<Rightarrow> ('s, 'e) aggregate
    \<Rightarrow> ('st \<Rightarrow> stream_key \<Rightarrow> version \<Rightarrow> ((persisted_envelope, 'err) result list, 'err) result)
    \<Rightarrow> 'id \<Rightarrow> 'st \<Rightarrow> (('id, 's) aggregate_root, ('err, 'enc, 'dec) store_error) result call" where
  "repo_load fc ag read i st = replay_from fc ag read (root_new ag i) version_INITIAL st"

section \<open>Upcasting\<close>

datatype 'a cow = Borrowed (cow_get: 'a) | Owned (cow_get: 'a)

datatype 'x transform_error = Transform 'x | UnsupportedSchema bytes schema_version

record event_morsel =
  em_event_type :: "bytes cow"
  em_schema :: schema_version
  em_payload :: "bytes cow"

definition morsel_new :: "bytes \<Rightarrow> schema_version \<Rightarrow> bytes \<Rightarrow> event_morsel" where
  "morsel_new event_type schema payload =
    \<lparr>em_event_type = Owned event_type, em_schema = schema, em_payload = Owned payload\<rparr>"

definition morsel_borrowed :: "bytes \<Rightarrow> schema_version \<Rightarrow> bytes \<Rightarrow> event_morsel" where
  "morsel_borrowed event_type schema payload =
    \<lparr>em_event_type = Borrowed event_type, em_schema = schema, em_payload = Borrowed payload\<rparr>"

definition morsel_is_borrowed :: "event_morsel \<Rightarrow> bool" where
  "morsel_is_borrowed m =
    (case (em_event_type m, em_payload m) of (Borrowed _, Borrowed _) \<Rightarrow> True | _ \<Rightarrow> False)"

definition morsel_with_payload :: "bytes cow \<Rightarrow> event_morsel \<Rightarrow> event_morsel" where
  "morsel_with_payload payload m = m\<lparr>em_payload := payload\<rparr>"

definition morsel_with_schema_version :: "schema_version \<Rightarrow> event_morsel \<Rightarrow> event_morsel" where
  "morsel_with_schema_version schema m = m\<lparr>em_schema := schema\<rparr>"

definition morsel_with_event_type :: "bytes cow \<Rightarrow> event_morsel \<Rightarrow> event_morsel" where
  "morsel_with_event_type event_type m = m\<lparr>em_event_type := event_type\<rparr>"

text \<open>One item of the upcasting read path: verify the stored envelope, transform, decode, replay.\<close>

definition load_with_item ::
  "('s, 'e) aggregate \<Rightarrow> (persisted_envelope \<Rightarrow> ('e, 'dec) result) \<Rightarrow> (persisted_envelope \<Rightarrow> (unit, 'ver) result)
    \<Rightarrow> (event_morsel \<Rightarrow> (event_morsel, 'up) result) \<Rightarrow> persisted_envelope \<Rightarrow> ('id, 's) aggregate_root
    \<Rightarrow> (('id, 's) aggregate_root, ('err, 'enc, 'dec, 'up, 'ver) load_with_error) result call" where
  "load_with_item ag decode verify_original upcast env r =
    (case verify_original env of
       Inl e \<Rightarrow> Returns (Inl (LwVerification e))
     | Inr _ \<Rightarrow>
       (case upcast (morsel_borrowed (ps_event_type env) (ps_schema env) (ps_payload env)) of
          Inl e \<Rightarrow> Returns (Inl (LwUpcast e))
        | Inr transformed \<Rightarrow>
          call_bind (for_transformed_decode env (cow_get (em_event_type transformed)) (em_schema transformed)
              (cow_get (em_payload transformed))) (\<lambda>res. case res of
            Inl e \<Rightarrow> Returns (Inl (LwStore (SeEnvelopeSynthesis e)))
          | Inr upcast_env \<Rightarrow>
            (case decode upcast_env of
               Inl e \<Rightarrow> Returns (Inl (LwStore (SeDecode e)))
             | Inr out \<Rightarrow>
               (case replay ag (ps_version env) out r of
                  (Panics, _) \<Rightarrow> Panics
                | (Returns (Inl e), _) \<Rightarrow> Returns (Inl (LwStore (SeKernel e)))
                | (Returns (Inr _), r') \<Rightarrow> Returns (Inr r'))))))"

primrec load_with_stream ::
  "('s, 'e) aggregate \<Rightarrow> (persisted_envelope \<Rightarrow> ('e, 'dec) result) \<Rightarrow> (persisted_envelope \<Rightarrow> (unit, 'ver) result)
    \<Rightarrow> (event_morsel \<Rightarrow> (event_morsel, 'up) result) \<Rightarrow> (persisted_envelope, 'err) result list \<Rightarrow> ('id, 's) aggregate_root
    \<Rightarrow> (('id, 's) aggregate_root, ('err, 'enc, 'dec, 'up, 'ver) load_with_error) result call" where
  "load_with_stream ag decode verify_original upcast [] r = Returns (Inr r)"
| "load_with_stream ag decode verify_original upcast (x # xs) r =
    (case x of
       Inl e \<Rightarrow> Returns (Inl (LwStore (SeAdapter e)))
     | Inr env \<Rightarrow>
         call_bind (load_with_item ag decode verify_original upcast env r) (\<lambda>res. case res of
           Inl e \<Rightarrow> Returns (Inl e)
         | Inr r' \<Rightarrow> load_with_stream ag decode verify_original upcast xs r'))"

definition load_with ::
  "('id, 'e, 'enc, 'dec) facade \<Rightarrow> ('s, 'e) aggregate
    \<Rightarrow> ('st \<Rightarrow> stream_key \<Rightarrow> version \<Rightarrow> ((persisted_envelope, 'err) result list, 'err) result)
    \<Rightarrow> 'id \<Rightarrow> (persisted_envelope \<Rightarrow> (unit, 'ver) result) \<Rightarrow> (event_morsel \<Rightarrow> (event_morsel, 'up) result) \<Rightarrow> 'st
    \<Rightarrow> (('id, 's) aggregate_root, ('err, 'enc, 'dec, 'up, 'ver) load_with_error) result call" where
  "load_with fc ag read i verify_original upcast st =
    (let root = root_new ag i in
     case read st (root_key fc root) version_INITIAL of
       Inl e \<Rightarrow> Returns (Inl (LwStore (SeAdapter e)))
     | Inr raw_stream \<Rightarrow> load_with_stream ag (cd_decode (fc_codec fc)) verify_original upcast raw_stream root)"

section \<open>Saving\<close>

definition encode_at ::
  "('id, 'e, 'enc, 'dec) facade \<Rightarrow> (bytes \<Rightarrow> schema_version option) \<Rightarrow> 'e \<Rightarrow> version
    \<Rightarrow> (pending_envelope, ('err, 'enc, 'dec) store_error) result call" where
  "encode_at fc current_version event version =
    (case cd_encode (fc_codec fc) event of
       Inl e \<Rightarrow> Returns (Inl (SeEncode e))
     | Inr payload_bs \<Rightarrow>
       (case payload_from_bytes payload_bs of
          Inl e \<Rightarrow> Returns (Inl (SeEnvelope (EnvelopeValue e)))
        | Inr payload \<Rightarrow>
            let schema = (case current_version (fc_name fc event) of None \<Rightarrow> schema_INITIAL | Some v \<Rightarrow> v);
                metadata = fc_meta fc version event payload in
            call_bind (builder_event_type (fc_name fc event) (builder_new version)) (\<lambda>b.
              let builder = builder_schema_version schema (builder_payload (payload_bytes payload) b) in
              Returns (map_err SeEnvelope (builder_build
                (case metadata of Some m \<Rightarrow> builder_metadata (metadata_bytes m) builder | None \<Rightarrow> builder))))))"

text \<open>The loop over the tail: the version moves on before each event.\<close>

primrec encode_tail ::
  "('id, 'e, 'enc, 'dec) facade \<Rightarrow> (bytes \<Rightarrow> schema_version option) \<Rightarrow> 'e list \<Rightarrow> version
    \<Rightarrow> (pending_envelope list, ('err, 'enc, 'dec) store_error) result call" where
  "encode_tail fc current_version [] next_version = Returns (Inr [])"
| "encode_tail fc current_version (event # events) next_version =
    (case version_next next_version of
       None \<Rightarrow> Returns (Inl SeVersionOverflow)
     | Some v \<Rightarrow>
         call_bind (encode_at fc current_version event v) (\<lambda>res. case res of
           Inl e \<Rightarrow> Returns (Inl e)
         | Inr env \<Rightarrow> call_bind (encode_tail fc current_version events v) (\<lambda>res. Returns (map_ok ((#) env) res))))"

text \<open>Everything up to the append: the checks and the encoded batch.\<close>

definition prepare_save ::
  "('id, 'e, 'enc, 'dec) facade \<Rightarrow> (bytes \<Rightarrow> schema_version option) \<Rightarrow> 'e events \<Rightarrow> ('id, 's) aggregate_root
    \<Rightarrow> (pending_batch, ('err, 'enc, 'dec) store_error) result call" where
  "prepare_save fc current_version events root =
    (case commit_version events root of
       Inl KernelVersionOverflow \<Rightarrow> Returns (Inl SeVersionOverflow)
     | Inl cause \<Rightarrow> Returns (Inl (SeKernel cause))
     | Inr _ \<Rightarrow>
       (case first_persisted_version (root_version root) of
          None \<Rightarrow> Returns (Inl SeVersionOverflow)
        | Some next_version \<Rightarrow>
            call_bind (encode_at fc current_version (ev_first events) next_version) (\<lambda>res. case res of
              Inl e \<Rightarrow> Returns (Inl e)
            | Inr head \<Rightarrow>
                call_bind (encode_tail fc current_version (ev_rest events) next_version) (\<lambda>res.
                  Returns (map_ok (batch_from_parts head) res)))))"

definition store_error_of_append :: "'err append_error \<Rightarrow> ('err, 'enc, 'dec) store_error" where
  "store_error_of_append err =
    (case err of
       AppendConflict stream_id expected actual \<Rightarrow> SeConflict stream_id expected actual
     | AppendStore e \<Rightarrow> SeAdapter e)"

definition save_events ::
  "('id, 'e, 'enc, 'dec) facade \<Rightarrow> ('s, 'e) aggregate
    \<Rightarrow> (stream_key \<Rightarrow> version option \<Rightarrow> pending_batch \<Rightarrow> 'st \<Rightarrow> ('pos, 'err append_error) result call \<times> 'st)
    \<Rightarrow> (bytes \<Rightarrow> schema_version option) \<Rightarrow> ('id, 's) aggregate_root \<Rightarrow> 'e events \<Rightarrow> 'st
    \<Rightarrow> ('pos, ('err, 'enc, 'dec) store_error) result call \<times> ('id, 's) aggregate_root \<times> 'st" where
  "save_events fc ag store_append current_version root events st =
    (case prepare_save fc current_version events root of
       Panics \<Rightarrow> (Panics, root, st)
     | Returns (Inl e) \<Rightarrow> (Returns (Inl e), root, st)
     | Returns (Inr batch) \<Rightarrow>
       (case store_append (root_key fc root) (root_version root) batch st of
          (Panics, st') \<Rightarrow> (Panics, root, st')
        | (Returns (Inl err), st') \<Rightarrow> (Returns (Inl (store_error_of_append err)), root, st')
        | (Returns (Inr position), st') \<Rightarrow>
          (case commit_persisted ag events root of
             (Panics, root') \<Rightarrow> (Panics, root', st')
           | (Returns (Inl e), root') \<Rightarrow> (Returns (Inl (SeKernel e)), root', st')
           | (Returns (Inr _), root') \<Rightarrow> (Returns (Inr position), root', st'))))"

definition repo_save ::
  "('id, 'e, 'enc, 'dec) facade \<Rightarrow> ('s, 'e) aggregate
    \<Rightarrow> (stream_key \<Rightarrow> version option \<Rightarrow> pending_batch \<Rightarrow> 'st \<Rightarrow> ('pos, 'err append_error) result call \<times> 'st)
    \<Rightarrow> ('id, 's) aggregate_root \<Rightarrow> 'e events \<Rightarrow> 'st
    \<Rightarrow> ('pos, ('err, 'enc, 'dec) store_error) result call \<times> ('id, 's) aggregate_root \<times> 'st" where
  "repo_save fc ag store_append root events st = save_events fc ag store_append (\<lambda>_. None) root events st"

definition save_with ::
  "('id, 'e, 'enc, 'dec) facade \<Rightarrow> ('s, 'e) aggregate
    \<Rightarrow> (stream_key \<Rightarrow> version option \<Rightarrow> pending_batch \<Rightarrow> 'st \<Rightarrow> ('pos, 'err append_error) result call \<times> 'st)
    \<Rightarrow> (bytes \<Rightarrow> schema_version option) \<Rightarrow> ('id, 's) aggregate_root \<Rightarrow> 'e events \<Rightarrow> 'st
    \<Rightarrow> ('pos, ('err, 'enc, 'dec) store_error) result call \<times> ('id, 's) aggregate_root \<times> 'st" where
  "save_with fc ag store_append current_version root events st = save_events fc ag store_append current_version root events st"

section \<open>What a codec promises\<close>

lemma case_result_ok [result_simps]:
  "(case x of Inl e \<Rightarrow> Returns (Inl (g e)) | Inr y \<Rightarrow> f y) = Returns (Inr z) \<longleftrightarrow> (\<exists>y. x = Inr y \<and> f y = Returns (Inr z))"
  by (cases x) simp_all

definition codec_law :: "('id, 'e, 'enc, 'dec) facade \<Rightarrow> bool" where
  "codec_law fc \<longleftrightarrow> (\<forall>e bs env. cd_encode (fc_codec fc) e = Inr bs \<longrightarrow> ps_payload env = bs \<longrightarrow>
    ps_event_type env = fc_name fc e \<longrightarrow> cd_decode (fc_codec fc) env = Inr e)"

text \<open>Event names are Rust strings.\<close>

definition names_ok :: "('id, 'e, 'enc, 'dec) facade \<Rightarrow> bool" where
  "names_ok fc \<longleftrightarrow> (\<forall>e. utf8_valid (fc_name fc e))"

definition decodes :: "('id, 'e, 'enc, 'dec) facade \<Rightarrow> pending_envelope \<Rightarrow> 'e \<Rightarrow> bool" where
  "decodes fc p e \<longleftrightarrow> cd_decode (fc_codec fc) (persisted_of p) = Inr e"

lemma persisted_of_parts [simp]:
  "ps_payload (persisted_of p) = payload_bytes (pe_payload p)"
  "ps_event_type (persisted_of p) = et_bytes (pe_event_type p)"
  "ps_version (persisted_of p) = pe_version p"
proof -
  have "pe_payload (from_persisted (persisted_of p)) = pe_payload p"
    "pe_event_type (from_persisted (persisted_of p)) = pe_event_type p"
    "pe_version (from_persisted (persisted_of p)) = pe_version p" by simp_all
  then show "ps_payload (persisted_of p) = payload_bytes (pe_payload p)"
    "ps_event_type (persisted_of p) = et_bytes (pe_event_type p)"
    "ps_version (persisted_of p) = pe_version p"
    unfolding from_persisted_def ps_payload_value_def ps_event_type_value_def
    by (metis pending_envelope.select_convs(1,2,4) payload.sel event_type.sel)+
qed

lemma encode_at_Inr:
  assumes "encode_at fc cv e v = Returns (Inr p)" "names_ok fc"
  shows "pending_ok p" "pe_version p = v" "et_bytes (pe_event_type p) = fc_name fc e"
    "cd_encode (fc_codec fc) e = Inr (payload_bytes (pe_payload p))"
proof -
  obtain bs pl b where b: "cd_encode (fc_codec fc) e = Inr bs" "payload_from_bytes bs = Inr pl"
    "length (fc_name fc e) \<le> MAX_EVENT_TYPE_LEN" "builder_build b = Inr p"
    "wp_version b = v" "wp_event_type b = EventType (fc_name fc e)" "wp_payload b = payload_bytes pl"
    using assms(1)
    by (auto simp: encode_at_def Let_def result_simps builder_event_type_def event_type_from_static_str_def
        builder_new_def builder_payload_def builder_schema_version_def builder_metadata_def
        split: sum.splits if_splits option.splits)
  have "event_type_ok (wp_event_type b)" using b(3,6) assms(2) by (simp add: event_type_ok_def names_ok_def)
  from builder_build_Inr [OF this, of p] b show "pending_ok p" "pe_version p = v" "et_bytes (pe_event_type p) = fc_name fc e"
    "cd_encode (fc_codec fc) e = Inr (payload_bytes (pe_payload p))"
    by (auto simp: payload_from_bytes_Inr)
qed

lemma encode_at_decodes:
  assumes "encode_at fc cv e v = Returns (Inr p)" "names_ok fc" "codec_law fc"
  shows "decodes fc p e"
  using encode_at_Inr [OF assms(1,2)] assms(3) by (simp add: decodes_def codec_law_def)

lemma encode_tail_Inr:
  fixes fc :: "('id, 'e, 'enc, 'dec) facade"
  assumes "encode_tail fc cv es v = (Returns (Inr ps) :: (pending_envelope list, ('err, 'enc, 'dec) store_error) result call)"
    "names_ok fc" "codec_law fc"
  shows "list_all2 (decodes fc) ps es \<and> run_from (vnum v) ps \<and> (\<forall>p \<in> set ps. pending_ok p)"
  using assms(1)
proof (induction es arbitrary: v ps)
  case (Cons e es)
  then obtain v1 p ps1 where s: "version_next v = Some v1"
    "encode_at fc cv e v1 = (Returns (Inr p) :: (_, ('err, 'enc, 'dec) store_error) result call)"
    "encode_tail fc cv es v1 = (Returns (Inr ps1) :: (_, ('err, 'enc, 'dec) store_error) result call)" "ps = p # ps1"
    by (auto simp: result_simps split: option.splits)
  then show ?case
    using Cons.IH [OF s(3)] encode_at_Inr [OF s(2) assms(2)] encode_at_decodes [OF s(2) assms(2,3)]
    by (simp add: version_next_Some)
qed simp

lemma first_persisted_version_Some:
  "first_persisted_version cur = Some v \<longleftrightarrow> vnum v = Suc (case cur of None \<Rightarrow> 0 | Some c \<Rightarrow> vnum c)"
  by (auto simp: first_persisted_version_def version_next_Some vnum_inject [symmetric] split: option.splits)

lemma prepare_save_Inr:
  fixes fc :: "('id, 'e, 'enc, 'dec) facade"
  assumes "prepare_save fc cv es r = (Returns (Inr b) :: (pending_batch, ('err, 'enc, 'dec) store_error) result call)"
    "names_ok fc" "codec_law fc"
  shows "batch_ok b" "list_all2 (decodes fc) (batch_iter b) (events_iter es)" "run_from (root_vnum r) (batch_iter b)"
    "root_state r \<noteq> None" "root_vnum r + events_len es \<le> vmax"
proof -
  obtain v nv p ps where s: "commit_version es r = Inr v" "first_persisted_version (root_version r) = Some nv"
    "encode_at fc cv (ev_first es) nv = (Returns (Inr p) :: (_, ('err, 'enc, 'dec) store_error) result call)"
    "encode_tail fc cv (ev_rest es) nv = (Returns (Inr ps) :: (_, ('err, 'enc, 'dec) store_error) result call)"
    "b = batch_from_parts p ps"
    using assms(1)
    by (cases "commit_version es r") (auto simp: prepare_save_def result_simps split: kernel_error.splits option.splits)
  note H = encode_at_Inr [OF s(3) assms(2)] and D = encode_at_decodes [OF s(3) assms(2,3)]
    and T = encode_tail_Inr [OF s(4) assms(2,3)]
  have nv: "vnum nv = Suc (root_vnum r)" using s(2) by (simp add: first_persisted_version_Some root_vnum_def)
  have it: "batch_iter b = p # ps" using s(5) by (simp add: batch_iter_def batch_from_parts_def)
  show "batch_ok b" using H T it by (simp add: batch_ok_def)
  show "list_all2 (decodes fc) (batch_iter b) (events_iter es)" using D T it by (simp add: events_iter_def)
  show "run_from (root_vnum r) (batch_iter b)" using H T it nv by simp
  show st: "root_state r \<noteq> None"
    using s(1) by (auto simp: commit_version_def root_get_state_def result_simps)
  show "root_vnum r + events_len es \<le> vmax"
    using commit_version_Inr [OF st, of es v] s(1) vnum_le_vmax [of v] by simp
qed

section \<open>Replaying a history\<close>

lemma replay_stream_run:
  assumes "list_all2 (decodes fc) ps es" "run_from n ps"
  shows "replay_stream ag (cd_decode (fc_codec fc)) (map (Inr \<circ> persisted_of) ps) r =
    (case replay_all ag (number_from n es) r of
       (Panics, _) \<Rightarrow> Panics
     | (Returns (Inl e), _) \<Rightarrow> Returns (Inl (SeKernel e))
     | (Returns (Inr _), r') \<Rightarrow> Returns (Inr r'))"
  using assms
proof (induction arbitrary: n r rule: list_all2_induct)
  case (Cons p ps e es)
  have v: "pe_version p = version_of (Suc n)" using Cons.prems by (metis run_from_Cons version_of_vnum)
  show ?case
  proof (cases "replay ag (version_of (Suc n)) e r")
    case (Pair res r')
    show ?thesis
    proof (cases res)
      case (Returns x)
      with Pair Cons v show ?thesis by (cases x) (simp_all add: decodes_def)
    qed (use Pair Cons v in \<open>simp add: decodes_def\<close>)
  qed
qed simp

lemma replay_stream_history:
  assumes "list_all2 (decodes fc) ps es" "run_from (root_vnum r) ps" "root_state r = Some s"
    "root_replayed r + length es \<le> ag_limit ag" "ag_limit ag \<le> usize_max" "root_vnum r + length es \<le> vmax"
  shows "replay_stream ag (cd_decode (fc_codec fc)) (map (Inr \<circ> persisted_of) ps) r =
    (case apply_all ag es s of
       Panics \<Rightarrow> Panics
     | Returns s' \<Rightarrow> Returns (Inr (r\<lparr>root_state := Some s', root_replayed := root_replayed r + length es,
         root_version := (if es = [] then root_version r else Some (version_of (root_vnum r + length es)))\<rparr>)))"
proof (cases "apply_all ag es s")
  case (Returns s')
  with replay_all_number_from [OF assms(3,6,4,5)] show ?thesis
    by (simp only: replay_stream_run [OF assms(1,2)] call.case prod.case sum.case)
next
  case Panics
  with replay_all_number_from [OF assms(3,6,4,5)]
  have "fst (replay_all ag (number_from (root_vnum r) es) r) = Panics" by simp
  then show ?thesis
    using Panics
    by (cases "replay_all ag (number_from (root_vnum r) es) r") (simp add: replay_stream_run [OF assms(1,2)])
qed

context raw_event_store
begin

text \<open>A store whose reads open without fail, as the repository sees it.\<close>

lemma hist_length: "inv s \<Longrightarrow> length (hist s k) \<le> vmax"
proof (cases "hist s k" rule: rev_cases)
  case (snoc ys y)
  assume "inv s"
  then have "vnum (pe_version y) = length (hist s k)"
    using hist_run [of s k] snoc by (simp add: run_from_append)
  then show ?thesis by (metis vnum_le_vmax)
qed (simp add: vmax_def)

lemma read_from_version:
  assumes "inv s" "vnum v = Suc n"
  shows "read_stream s k v = map (Inr \<circ> persisted_of) (drop n (hist s k))"
  using filter_run [OF hist_run [OF assms(1), of k], of "vnum v"] assms
  by (simp add: read_stream_spec version_le_vnum)

lemma replay_from_spec:
  assumes "inv s" "list_all2 (decodes fc) (hist s (root_key fc r)) es" "root_vnum r \<le> length es"
    "vnum v = Suc (root_vnum r)" "root_state r = Some s0"
    "root_replayed r + (length es - root_vnum r) \<le> ag_limit ag" "ag_limit ag \<le> usize_max"
  shows "replay_from fc ag (\<lambda>s k v. Inr (read_stream s k v)) r v s =
    (case apply_all ag (drop (root_vnum r) es) s0 of
       Panics \<Rightarrow> Panics
     | Returns s' \<Rightarrow> Returns (Inr (r\<lparr>root_state := Some s',
         root_replayed := root_replayed r + (length es - root_vnum r),
         root_version := (if root_vnum r = length es then root_version r else Some (version_of (length es)))\<rparr>)))"
proof -
  let ?k = "root_key fc r" and ?n = "root_vnum r"
  have len: "length es = length (hist s ?k)" using assms(2) by (simp add: list_all2_lengthD)
  have run: "run_from ?n (drop ?n (hist s ?k))"
    using hist_run [OF assms(1), of ?k] assms(3) len
    by (metis append_take_drop_id add_0 length_take min.absorb2 run_from_append)
  have ps: "list_all2 (decodes fc) (drop ?n (hist s ?k)) (drop ?n es)"
    using assms(2) by (rule list_all2_dropI)
  have max: "?n + length (drop ?n es) \<le> vmax" using assms(3) hist_length [OF assms(1), of ?k] len by simp
  have e: "drop ?n es = [] \<longleftrightarrow> ?n = length es" using assms(3) by auto
  have lim: "root_replayed r + length (drop ?n es) \<le> ag_limit ag" using assms(6) by simp
  have sum: "?n + length (drop ?n es) = length es" using assms(3) by simp
  show ?thesis
    unfolding replay_from_def read_from_version [OF assms(1,4)] sum.case
      replay_stream_history [OF ps run assms(5) lim assms(7) max] e sum unfolding length_drop by (rule refl)
qed

lemma load_spec:
  assumes "inv s" "list_all2 (decodes fc) (hist s (stream_key_from_slice (fc_key fc i))) es"
    "length es \<le> ag_limit ag" "ag_limit ag \<le> usize_max"
  shows "repo_load fc ag (\<lambda>s k v. Inr (read_stream s k v)) i s =
    (case apply_all ag es (ag_initial ag) of
       Panics \<Rightarrow> Panics
     | Returns s' \<Rightarrow> Returns (Inr \<lparr>root_id = i, root_state = Some s', root_version = head_version (length es),
         root_replayed = length es\<rparr>))"
proof -
  let ?r = "root_new ag i"
  have r: "root_vnum ?r = 0" "root_state ?r = Some (ag_initial ag)" "root_replayed ?r = 0"
    "root_key fc ?r = stream_key_from_slice (fc_key fc i)"
    by (simp_all add: root_new_def root_vnum_def root_key_def)
  have "head_version (length es) = (if root_vnum ?r = length es then None else Some (version_of (length es)))"
    using r(1) by (simp add: head_version_def)
  then show ?thesis
    using replay_from_spec [OF assms(1), of fc ?r es version_INITIAL "ag_initial ag" ag] assms r
    by (simp add: repo_load_def root_new_def cong: call.case_cong)
qed

text \<open>The commit on the root cannot fail once its version check has passed.\<close>

lemma save_cases:
  fixes fc :: "('id, 'e, 'enc, 'dec) facade"
  assumes "inv s" "names_ok fc" "codec_law fc"
  obtains (early) res where "save_events fc ag append cv r es s = (res, r, s)" "\<And>pos. res \<noteq> Returns (Inr pos)"
  | (stored) b pos s0 s' v where
      "prepare_save fc cv es r = (Returns (Inr b) :: (_, ('err, 'enc, 'dec) store_error) result call)"
      "append (root_key fc r) (root_version r) b s = (Returns (Inr pos), s')"
      "root_state r = Some s0" "commit_version es r = Inr v"
      "save_events fc ag append cv r es s = (case apply_all ag (events_iter es) s0 of
         Panics \<Rightarrow> (Panics, r\<lparr>root_version := Some v, root_state := None\<rparr>, s')
       | Returns s1 \<Rightarrow> (Returns (Inr pos), r\<lparr>root_version := Some v, root_state := Some s1\<rparr>, s'))"
proof (cases "prepare_save fc cv es r :: (_, ('err, 'enc, 'dec) store_error) result call")
  case (Returns x)
  show thesis
  proof (cases x)
    case (Inr b)
    have p: "prepare_save fc cv es r = (Returns (Inr b) :: (_, ('err, 'enc, 'dec) store_error) result call)"
      using Returns Inr by simp
    note P = prepare_save_Inr [OF p assms(2,3)]
    obtain s0 where s0: "root_state r = Some s0" using P(4) by blast
    have v: "commit_version es r = Inr (version_of (root_vnum r + events_len es))"
      using P(4,5) by (subst commit_version_Inr) (simp_all add: events_len_def)
    obtain res s' where a: "append (root_key fc r) (root_version r) b s = (res, s')" by fastforce
    show thesis
    proof (cases res)
      case R: (Returns y)
      show thesis
      proof (cases y)
        case (Inl e)
        with a R append_err [OF assms(1) P(1)] have "s' = s" by blast
        with a R Inl p have "save_events fc ag append cv r es s = (Returns (Inl (store_error_of_append e)), r, s)"
          by (simp add: save_events_def)
        then show thesis by (rule early) simp
      next
        case (Inr pos)
        with a R have a': "append (root_key fc r) (root_version r) b s = (Returns (Inr pos), s')" by simp
        show thesis
          by (rule stored [OF p a' s0 v])
            (use p a' s0 v in \<open>simp add: save_events_def commit_persisted_def apply_events_def fold_events_live
              split: call.split\<close>)
      qed
    next
      case Panics
      with a append_total [OF assms(1) P(1), of "root_key fc r" "root_version r"] show thesis by simp
    qed
  next
    case (Inl e)
    with Returns have "save_events fc ag append cv r es s = (Returns (Inl e), r, s)" by (simp add: save_events_def)
    then show thesis by (rule early) simp
  qed
next
  case Panics
  then have "save_events fc ag append cv r es s = (Panics, r, s)" by (simp add: save_events_def)
  then show thesis by (rule early) simp
qed

lemma save_ok_all:
  assumes "inv s" "names_ok fc" "codec_law fc" "save_events fc ag append cv r es s = (Returns (Inr pos), r', s')"
  shows "inv s' \<and> root_version r = head_version (length (hist s (root_key fc r))) \<and>
    (\<exists>new. hist s' (root_key fc r) = hist s (root_key fc r) @ new \<and> list_all2 (decodes fc) new (events_iter es)) \<and>
    (\<forall>k. k \<noteq> root_key fc r \<longrightarrow> hist s' k = hist s k) \<and> root_id r' = root_id r \<and>
    root_vnum r' = root_vnum r + events_len es \<and>
    (\<exists>s0 s1. root_state r = Some s0 \<and> apply_all ag (events_iter es) s0 = Returns s1 \<and> root_state r' = Some s1)"
proof (cases rule: save_cases [OF assms(1-3), of ag cv r es, case_names early stored])
  case (early res)
  with assms(4) show ?thesis by simp
next
  case (stored b pos' s0 s1 v)
  let ?k = "root_key fc r"
  have a: "append ?k (root_version r) b s = (Returns (Inr pos), s')"
    using stored assms(4) by (auto split: call.splits)
  obtain f where f: "apply_all ag (events_iter es) s0 = Returns f" "r' = r\<lparr>root_version := Some v, root_state := Some f\<rparr>"
    using stored(5) assms(4) by (auto split: call.splits)
  note P = prepare_save_Inr [OF stored(1) assms(2,3)]
  have "vnum v = root_vnum r + events_len es" using commit_version_Inr [OF P(4), of es v] stored(4) by simp
  with f stored(3) show ?thesis
    using append_ok [OF assms(1) P(1) a] hist_append [OF assms(1) P(1) a] P(2) by (auto simp: root_vnum_def)
qed

lemma save_ok:
  assumes "inv s" "names_ok fc" "codec_law fc" "save_events fc ag append cv r es s = (Returns (Inr pos), r', s')"
  shows "inv s'" "root_version r = head_version (length (hist s (root_key fc r)))"
    "\<exists>new. hist s' (root_key fc r) = hist s (root_key fc r) @ new \<and> list_all2 (decodes fc) new (events_iter es)"
    "k \<noteq> root_key fc r \<Longrightarrow> hist s' k = hist s k"
    "root_id r' = root_id r" "root_vnum r' = root_vnum r + events_len es"
    "\<exists>s0 s1. root_state r = Some s0 \<and> apply_all ag (events_iter es) s0 = Returns s1 \<and> root_state r' = Some s1"
  using save_ok_all [OF assms] by simp_all

lemma save_err:
  assumes "inv s" "names_ok fc" "codec_law fc" "save_events fc ag append cv r es s = (Returns (Inl e), r', s')"
  shows "r' = r \<and> s' = s"
proof (cases rule: save_cases [OF assms(1-3), of ag cv r es, case_names early stored])
  case (stored b pos s0 s1 v)
  from stored(5) assms(4) show ?thesis by (simp split: call.splits)
qed (use assms(4) in simp)

lemma save_panics:
  assumes "inv s" "names_ok fc" "codec_law fc" "save_events fc ag append cv r es s = (Panics, r', s')"
  shows "(r' = r \<and> s' = s) \<or> (root_state r' = None \<and> (\<exists>new. hist s' (root_key fc r) = hist s (root_key fc r) @ new \<and>
    list_all2 (decodes fc) new (events_iter es)))"
proof (cases rule: save_cases [OF assms(1-3), of ag cv r es, case_names early stored])
  case (early res)
  with assms(4) show ?thesis by simp
next
  case (stored b pos s0 s1 v)
  note P = prepare_save_Inr [OF stored(1) assms(2,3)]
  have "s' = s1" "root_state r' = None" using stored(5) assms(4) by (auto split: call.splits)
  then show ?thesis using hist_append [OF assms(1) P(1) stored(2)] P(2) by auto
qed

lemma save_conflict:
  fixes fc :: "('id, 'e, 'enc, 'dec) facade"
  assumes "inv s" "root_version r \<noteq> head_version (length (hist s (root_key fc r)))"
    "prepare_save fc cv es r = (Returns (Inr b) :: (_, ('err, 'enc, 'dec) store_error) result call)"
  shows "fst (save_events fc ag append cv r es s) = Returns (Inl (SeConflict (to_label (root_key fc r)) (root_version r)
    (head_version (length (hist s (root_key fc r))))))"
  using append_conflict [OF assms(1,2), of b] assms(3)
  by (cases "append (root_key fc r) (root_version r) b s") (simp add: save_events_def store_error_of_append_def)

end

section \<open>Over the in-memory store\<close>

abbreviation im_read ::
  "im_store \<Rightarrow> stream_key \<Rightarrow> version \<Rightarrow> ((persisted_envelope, inmemory_error) result list, inmemory_error) result" where
  "im_read \<equiv> \<lambda>st k v. Inr (im_read_stream st k v)"

lemma im_steps_hist:
  assumes "im_step\<^sup>*\<^sup>* st st'" "im_inv st"
  shows "im_inv st' \<and> (\<exists>new. im_hist st' k = im_hist st k @ new)"
proof -
  obtain new where "im_inv st'" "im_rows (im_inner st') k = im_rows (im_inner st) k @ new"
    using im_steps_inv [OF assms, of k] by blast
  then show ?thesis by (simp add: im_hist_def)
qed

lemma root_version_head: "root_version r = head_version (root_vnum r)"
  by (cases "root_version r") (simp_all add: root_vnum_def head_version_def)

lemma replay_Inr_count:
  assumes "replay ag v e r = (Returns (Inr u), r1)"
  shows "root_replayed r1 = Suc (root_replayed r)" "root_replayed r1 \<le> ag_limit ag"
proof -
  obtain n where n: "replay_guard ag v r = Inr n"
    using assms by (cases "replay_guard ag v r") (auto simp: replay_def)
  then obtain s where "root_state r = Some s" "n = Suc (root_replayed r)" "root_replayed r < ag_limit ag"
    by (auto simp: replay_guard_Inr)
  with assms n show "root_replayed r1 = Suc (root_replayed r)" "root_replayed r1 \<le> ag_limit ag"
    by (auto simp: replay_def fold_events_live split: call.splits)
qed

text \<open>A load that returns has decoded and replayed the whole history.\<close>

lemma replay_stream_decodes:
  assumes "replay_stream ag (cd_decode (fc_codec fc)) (map (Inr \<circ> persisted_of) ps) r =
      (Returns (Inr r') :: (_, ('err, 'enc, 'dec) store_error) result call)"
  shows "\<exists>es. list_all2 (decodes fc) ps es \<and> (root_replayed r' = root_replayed r + length es) \<and>
    (es \<noteq> [] \<longrightarrow> root_replayed r' \<le> ag_limit ag)"
  using assms
proof (induction ps arbitrary: r)
  case (Cons p ps)
  then obtain e where e: "decodes fc p e"
    by (auto simp: decodes_def split: sum.splits)
  obtain res r1 where r1: "replay ag (pe_version p) e r = (res, r1)" by fastforce
  with Cons.prems e have ok: "res = Returns (Inr ())"
    "replay_stream ag (cd_decode (fc_codec fc)) (map (Inr \<circ> persisted_of) ps) r1 =
      (Returns (Inr r') :: (_, ('err, 'enc, 'dec) store_error) result call)"
    by (auto simp: decodes_def comp_def split: call.splits sum.splits)
  have n: "root_replayed r1 = Suc (root_replayed r)" "root_replayed r1 \<le> ag_limit ag"
    using replay_Inr_count [of ag "pe_version p" e r "()" r1] r1 ok(1) by simp_all
  from Cons.IH [OF ok(2)] obtain es where "list_all2 (decodes fc) ps es" "root_replayed r' = root_replayed r1 + length es"
    "es \<noteq> [] \<longrightarrow> root_replayed r' \<le> ag_limit ag" by blast
  with e n show ?case by (intro exI [of _ "e # es"]) auto
qed simp

lemma load_decodes:
  fixes fc :: "('id, 'e, 'enc, 'dec) facade"
  assumes "im_inv st" "repo_load fc ag im_read i st = Returns (Inr r)" "ag_limit ag \<le> usize_max"
  obtains es s where "list_all2 (decodes fc) (im_hist st (stream_key_from_slice (fc_key fc i))) es"
    "length es \<le> ag_limit ag" "apply_all ag es (ag_initial ag) = Returns s"
    "r = \<lparr>root_id = i, root_state = Some s, root_version = head_version (length es), root_replayed = length es\<rparr>"
proof -
  let ?k = "stream_key_from_slice (fc_key fc i)"
  have "im_read_stream st ?k version_INITIAL = map (Inr \<circ> persisted_of) (im_hist st ?k)"
    using im.read_from_version [OF assms(1), of version_INITIAL 0 ?k] by simp
  with assms(2) have "replay_stream ag (cd_decode (fc_codec fc)) (map (Inr \<circ> persisted_of) (im_hist st ?k)) (root_new ag i) =
      (Returns (Inr r) :: (_, (inmemory_error, 'enc, 'dec) store_error) result call)"
    by (simp add: repo_load_def replay_from_def root_key_def root_new_def)
  from replay_stream_decodes [OF this] obtain es where es: "list_all2 (decodes fc) (im_hist st ?k) es"
    "length es \<le> ag_limit ag" by (fastforce simp: root_new_def)
  note L = im.load_spec [OF assms(1) es assms(3)]
  obtain s where s: "apply_all ag es (ag_initial ag) = Returns s"
    using L assms(2) by (cases "apply_all ag es (ag_initial ag)") auto
  with L assms(2) have "r = \<lparr>root_id = i, root_state = Some s, root_version = head_version (length es), root_replayed = length es\<rparr>"
    by simp
  from that [OF es s this] show thesis .
qed

section \<open>Properties\<close>

text \<open>C4: Loading after a save gives the saved aggregate. A root is loaded, other writers work on the store,
  and then the root is saved successfully; a fresh load from the store returns the same id, state and
  version as the root in memory, for a codec that decodes what it encoded, as long as the history stays
  within the aggregate's rehydration limit.\<close>

theorem load_after_save_is_saved_root:
  assumes "im_reachable st0" "names_ok fc" "codec_law fc" "ag_limit ag \<le> usize_max"
    "repo_load fc ag im_read i st0 = Returns (Inr r)" "im_step\<^sup>*\<^sup>* st0 st1"
    "repo_save fc ag im_append r es st1 = (Returns (Inr pos), r', st2)"
    "length (im_hist st2 (stream_key_from_slice (fc_key fc i))) \<le> ag_limit ag"
  shows "\<exists>n. repo_load fc ag im_read i st2 = Returns (Inr (r'\<lparr>root_replayed := n\<rparr>))"
proof -
  let ?k = "stream_key_from_slice (fc_key fc i)"
  have inv0: "im_inv st0" by (rule im_reachable_inv [OF assms(1)])
  obtain old s where old: "list_all2 (decodes fc) (im_hist st0 ?k) old" "apply_all ag old (ag_initial ag) = Returns s"
    "r = \<lparr>root_id = i, root_state = Some s, root_version = head_version (length old), root_replayed = length old\<rparr>"
    by (rule load_decodes [OF inv0 assms(5,4)]) blast
  obtain more where st1: "im_inv st1" "im_hist st1 ?k = im_hist st0 ?k @ more"
    using im_steps_hist [OF assms(6) inv0, of ?k] by blast
  have key: "root_key fc r = ?k" using old(3) by (simp add: root_key_def)
  have sv: "save_events fc ag im_append (\<lambda>_. None) r es st1 = (Returns (Inr pos), r', st2)"
    using assms(7) by (simp add: repo_save_def)
  note S = im.save_ok [OF st1(1) assms(2,3) sv, unfolded key]
  have len: "length old = length (im_hist st0 ?k)" using old(1) by (simp add: list_all2_lengthD)
  have "head_version (length old) = head_version (length (im_hist st1 ?k))" using S(2) old(3) by simp
  then have "length old = length (im_hist st1 ?k)"
    using im.hist_length [OF st1(1), of ?k] im.hist_length [OF inv0, of ?k] len by (simp add: head_version_inject)
  with st1(2) len have h1: "im_hist st1 ?k = im_hist st0 ?k" by simp
  obtain new where new: "im_hist st2 ?k = im_hist st1 ?k @ new" "list_all2 (decodes fc) new (events_iter es)"
    using S(3) by blast
  have all: "list_all2 (decodes fc) (im_hist st2 ?k) (old @ events_iter es)"
    using old(1) new h1 by (simp add: list_all2_appendI)
  have lim: "length (old @ events_iter es) \<le> ag_limit ag" using assms(8) list_all2_lengthD [OF all] by simp
  obtain s1 where s1: "apply_all ag (events_iter es) s = Returns s1" "root_state r' = Some s1"
    using S(7) old(3) by auto
  have v: "root_version r' = head_version (length (old @ events_iter es))"
  proof -
    have "root_vnum r' = length (old @ events_iter es)"
      using S(6) old(3) im.hist_length [OF inv0, of ?k] len
      by (simp add: root_vnum_def head_version_def events_len_def events_iter_def split: if_splits)
    then show ?thesis by (simp add: root_version_head)
  qed
  have fin: "apply_all ag (old @ events_iter es) (ag_initial ag) = Returns s1"
    using old(2) s1(1) by (simp add: apply_all_append)
  have "repo_load fc ag im_read i st2 =
      Returns (Inr \<lparr>root_id = i, root_state = Some s1, root_version = root_version r', root_replayed = length (old @ events_iter es)\<rparr>)"
    using im.load_spec [OF S(1) all lim assms(4)] fin v by simp
  moreover have "root_id r' = i" using S(5) old(3) by simp
  ultimately show ?thesis using s1(2)
    by (intro exI [of _ "length (old @ events_iter es)"]) (cases r', simp)
qed

definition sample_codec :: "(u8, unit, unit) codec" where
  "sample_codec = \<lparr>cd_encode = (\<lambda>e. Inr [e]), cd_decode = (\<lambda>env. case ps_payload env of [b] \<Rightarrow> Inr b | _ \<Rightarrow> Inl ())\<rparr>"

definition sample_facade :: "(bytes, u8, unit, unit) facade" where
  "sample_facade = \<lparr>fc_codec = sample_codec, fc_meta = unit_metadata, fc_name = (\<lambda>e. [65]), fc_key = (\<lambda>i. i)\<rparr>"

definition sample_counter :: "(nat, u8) aggregate" where
  "sample_counter = \<lparr>ag_initial = 0, ag_apply = (\<lambda>s e. Returns (s + unat e)), ag_limit = 10\<rparr>"

definition sample_events :: "u8 events" where
  "sample_events = \<lparr>ev_first = 2, ev_rest = []\<rparr>"

definition sample_pending :: pending_envelope where
  "sample_pending = \<lparr>pe_version = version_INITIAL, pe_event_type = EventType [65], pe_schema = schema_INITIAL,
     pe_payload = Payload [2], pe_metadata = None\<rparr>"

lemma sample_facade_ok: "names_ok sample_facade" "codec_law sample_facade"
  by (simp_all add: names_ok_def codec_law_def sample_facade_def sample_codec_def utf8_valid_def utf8_valid_up_to.simps)

lemma sample_prepare:
  "prepare_save sample_facade (\<lambda>_. None) sample_events (root_new sample_counter i) =
    (Returns (Inr (batch_of sample_pending)) :: (_, ('err, unit, unit) store_error) result call)"
proof -
  have v: "commit_version sample_events (root_new sample_counter i) = Inr version_INITIAL"
    by (subst commit_version_Inr) (simp_all add: root_new_def root_vnum_def events_len_def sample_events_def)
  have e: "root_version (root_new sample_counter i) = None" "ev_first sample_events = 2" "ev_rest sample_events = []"
    by (simp_all add: root_new_def sample_events_def)
  show ?thesis
    by (simp add: prepare_save_def v e first_persisted_version_def encode_at_def sample_facade_def sample_codec_def payload_from_bytes_def MAX_PAYLOAD_LEN_def builder_event_type_def event_type_from_static_str_def
        MAX_EVENT_TYPE_LEN_def builder_new_def builder_payload_def builder_schema_version_def builder_build_def
        unit_metadata_def sample_pending_def batch_of_def batch_from_parts_def Let_def)
qed

lemma sample_pending_fits: "fits sample_pending" "vnum (pe_version sample_pending) = 1"
  by (simp_all add: fits_def sample_pending_def pending_ok_def event_type_ok_def payload_ok_def metadata_opt_ok_def
      pending_len_def frame_len_def payload_offset_def align_padding_def opt_bytes_def HEADER_FIXED_SIZE_def
      PAYLOAD_ALIGN_def MAX_EVENT_TYPE_LEN_def MAX_PAYLOAD_LEN_def utf8_valid_def utf8_valid_up_to.simps Let_def)

lemma sample_load_new:
  "repo_load sample_facade sample_counter im_read [7] im_new = Returns (Inr (root_new sample_counter [7]))"
  using im.load_spec [of im_new sample_facade "[7]" "[]" sample_counter]
  by (simp add: sample_counter_def usize_max_def root_new_def head_version_def)

lemma sample_save:
  obtains pos st where
    "repo_save sample_facade sample_counter im_append (root_new sample_counter [7]) sample_events im_new =
      (Returns (Inr pos), \<lparr>root_id = [7], root_state = Some 2, root_version = Some version_INITIAL, root_replayed = 0\<rparr>, st)"
    "im_reachable im_new" "length (im_hist st (StreamKey [7])) = 1"
proof -
  let ?r = "root_new sample_counter [7]" and ?b = "batch_of sample_pending"
  have b: "batch_iter ?b = [sample_pending]" by (simp add: batch_of_def batch_iter_def)
  have bok: "batch_ok ?b" using sample_pending_fits(1) by (simp add: batch_ok_def b fits_def)
  obtain pos st where a: "im_append (StreamKey [7]) None ?b im_new = (Returns (Inr pos), st)"
    using im_append_complete [of im_new None "StreamKey [7]" ?b] sample_pending_fits
    by (auto simp: head_version_def vmax_def b)
  have k: "root_key sample_facade ?r = StreamKey [7]" "root_version ?r = None"
    by (simp_all add: root_key_def root_new_def sample_facade_def stream_key_from_slice_def)
  have v: "commit_version sample_events ?r = Inr version_INITIAL"
    by (subst commit_version_Inr) (simp_all add: root_new_def root_vnum_def events_len_def sample_events_def)
  have c: "commit_persisted sample_counter sample_events ?r = (Returns (Inr ()),
      \<lparr>root_id = [7], root_state = Some 2, root_version = Some version_INITIAL, root_replayed = 0\<rparr>)"
    unfolding commit_persisted_def v sum.case
    by (simp add: apply_events_def fold_events_def root_new_def sample_counter_def sample_events_def events_iter_def)
  have "repo_save sample_facade sample_counter im_append ?r sample_events im_new =
      (Returns (Inr pos), \<lparr>root_id = [7], root_state = Some 2, root_version = Some version_INITIAL, root_replayed = 0\<rparr>, st)"
    by (simp add: repo_save_def save_events_def sample_prepare k a c)
  moreover have "length (im_hist st (StreamKey [7])) = 1"
    using im.hist_append(1) [OF _ bok a] by (simp add: b)
  moreover have "im_reachable im_new" by (rule sample_store)
  ultimately show thesis using that by blast
qed

theorem load_after_save_is_saved_root_witness:
  "\<exists>st n. repo_load sample_facade sample_counter im_read [7] st =
    Returns (Inr \<lparr>root_id = [7], root_state = Some 2, root_version = Some version_INITIAL, root_replayed = n\<rparr>)"
proof -
  obtain pos st where s: "repo_save sample_facade sample_counter im_append (root_new sample_counter [7]) sample_events im_new =
      (Returns (Inr pos), \<lparr>root_id = [7], root_state = Some 2, root_version = Some version_INITIAL, root_replayed = 0\<rparr>, st)"
    "im_reachable im_new" "length (im_hist st (StreamKey [7])) = 1"
    by (rule sample_save)
  have "ag_limit sample_counter \<le> usize_max" "length (im_hist st (stream_key_from_slice (fc_key sample_facade [7]))) \<le> ag_limit sample_counter"
    using s(3) by (simp_all add: sample_counter_def usize_max_def sample_facade_def stream_key_from_slice_def)
  from load_after_save_is_saved_root [OF s(2) sample_facade_ok this(1) sample_load_new rtranclp.rtrancl_refl s(1) this(2)]
  show ?thesis by auto
qed

text \<open>C30: A save happens completely or not at all. If it returns an error, the store and the root in memory are
  unchanged. If it returns a position, the stream has grown by exactly the encoded events and the root by
  their number. If it panics, either nothing happened, or the user's \<open>apply\<close> panicked after the events
  were stored, and then the root is poisoned.\<close>

theorem repo_save_all_or_nothing:
  assumes "im_reachable st" "names_ok fc" "codec_law fc"
  shows "case repo_save fc ag im_append r es st of
      (Returns (Inl e), r', st') \<Rightarrow> r' = r \<and> st' = st
    | (Returns (Inr pos), r', st') \<Rightarrow> root_vnum r' = root_vnum r + events_len es \<and>
        (\<exists>new. im_hist st' (root_key fc r) = im_hist st (root_key fc r) @ new \<and> list_all2 (decodes fc) new (events_iter es))
    | (Panics, r', st') \<Rightarrow> (r' = r \<and> st' = st) \<or> (root_state r' = None \<and>
        (\<exists>new. im_hist st' (root_key fc r) = im_hist st (root_key fc r) @ new \<and> list_all2 (decodes fc) new (events_iter es)))"
proof -
  have inv: "im_inv st" by (rule im_reachable_inv [OF assms(1)])
  obtain x r' st' where sv: "save_events fc ag im_append (\<lambda>_. None) r es st = (x, r', st')"
    by (cases "save_events fc ag im_append (\<lambda>_. None) r es st") auto
  show ?thesis
  proof (cases x)
    case (Returns res)
    show ?thesis
    proof (cases res)
      case (Inl e)
      with Returns sv im.save_err [OF inv assms(2,3)] show ?thesis by (simp add: repo_save_def)
    next
      case (Inr pos)
      with Returns sv have "save_events fc ag im_append (\<lambda>_. None) r es st = (Returns (Inr pos), r', st')" by simp
      from im.save_ok(3,6) [OF inv assms(2,3) this] Returns Inr sv show ?thesis by (simp add: repo_save_def)
    qed
  next
    case Panics
    with sv im.save_panics [OF inv assms(2,3)] show ?thesis by (simp add: repo_save_def)
  qed
qed

theorem repo_save_all_or_nothing_witness:
  "\<exists>pos r' st' new. repo_save sample_facade sample_counter im_append (root_new sample_counter [7]) sample_events im_new =
      (Returns (Inr pos), r', st') \<and> im_hist st' (StreamKey [7]) = im_hist im_new (StreamKey [7]) @ new \<and>
    list_all2 (decodes sample_facade) new [2]"
proof -
  obtain pos st where s: "repo_save sample_facade sample_counter im_append (root_new sample_counter [7]) sample_events im_new =
      (Returns (Inr pos), \<lparr>root_id = [7], root_state = Some 2, root_version = Some version_INITIAL, root_replayed = 0\<rparr>, st)"
    "im_reachable im_new" by (rule sample_save)
  from repo_save_all_or_nothing [OF s(2) sample_facade_ok,
      where ag = sample_counter and r = "root_new sample_counter [7]" and es = sample_events] s(1)
  show ?thesis
    by (auto simp: root_key_def root_new_def sample_facade_def stream_key_from_slice_def sample_events_def events_iter_def)
qed

text \<open>Two roots of the same aggregate at the same version cannot both save. Once one of them has, and whatever
  other writers have done since, the save of the other one, if its events can be encoded at all, is a
  conflict and changes neither root nor store.\<close>

theorem stale_root_save_conflicts:
  assumes "im_reachable st" "names_ok fc" "codec_law fc"
    "repo_save fc ag im_append r1 es1 st = (Returns (Inr pos), r1', st')" "im_step\<^sup>*\<^sup>* st' st''"
    "root_id r2 = root_id r1" "root_version r2 = root_version r1"
    "prepare_save fc (\<lambda>_. None) es2 r2 = (Returns (Inr b) :: (_, (inmemory_error, 'enc, 'dec) store_error) result call)"
  shows "\<exists>expected actual. repo_save fc ag im_append r2 es2 st'' =
    (Returns (Inl (SeConflict (to_label (root_key fc r2)) expected actual)), r2, st'')"
proof -
  let ?k = "root_key fc r1"
  have inv: "im_inv st" by (rule im_reachable_inv [OF assms(1)])
  have k2: "root_key fc r2 = ?k" using assms(6) by (simp add: root_key_def)
  have sv: "save_events fc ag im_append (\<lambda>_. None) r1 es1 st = (Returns (Inr pos), r1', st')"
    using assms(4) by (simp add: repo_save_def)
  note S = im.save_ok [OF inv assms(2,3) sv]
  obtain new where new: "im_hist st' ?k = im_hist st ?k @ new" "list_all2 (decodes fc) new (events_iter es1)"
    using S(3) by blast
  have "new \<noteq> []" using new(2) by (auto simp: events_iter_def)
  obtain more where st'': "im_inv st''" "im_hist st'' ?k = im_hist st' ?k @ more"
    using im_steps_hist [OF assms(5) S(1), of ?k] by blast
  have "head_version (length (im_hist st ?k)) \<noteq> head_version (length (im_hist st'' ?k))"
    using new(1) \<open>new \<noteq> []\<close> st'' im.hist_length [OF inv, of ?k] im.hist_length [OF st''(1), of ?k]
    by (simp add: head_version_inject)
  then have stale: "root_version r2 \<noteq> head_version (length (im_hist st'' (root_key fc r2)))"
    using S(2) assms(7) k2 by simp
  obtain x r' s' where x: "save_events fc ag im_append (\<lambda>_. None) r2 es2 st'' = (x, r', s')"
    by (cases "save_events fc ag im_append (\<lambda>_. None) r2 es2 st''") auto
  with im.save_conflict [OF st''(1) stale assms(8), of ag] have e: "x = Returns (Inl (SeConflict
      (to_label (root_key fc r2)) (root_version r2) (head_version (length (im_hist st'' (root_key fc r2))))))" by simp
  with x im.save_err [OF st''(1) assms(2,3)] have "r' = r2" "s' = st''" by blast+
  with x e show ?thesis by (simp add: repo_save_def)
qed

theorem stale_root_save_conflicts_witness:
  "\<exists>st e a. repo_save sample_facade sample_counter im_append (root_new sample_counter [7]) sample_events st =
    (Returns (Inl (SeConflict (to_label (StreamKey [7])) e a)), root_new sample_counter [7], st)"
proof -
  let ?r = "root_new sample_counter [7]"
  obtain pos st where s: "repo_save sample_facade sample_counter im_append ?r sample_events im_new =
      (Returns (Inr pos), \<lparr>root_id = [7], root_state = Some 2, root_version = Some version_INITIAL, root_replayed = 0\<rparr>, st)"
    "im_reachable im_new" by (rule sample_save)
  have "root_key sample_facade ?r = StreamKey [7]"
    by (simp add: root_key_def root_new_def sample_facade_def stream_key_from_slice_def)
  with stale_root_save_conflicts [OF s(2) sample_facade_ok s(1) rtranclp.rtrancl_refl refl refl sample_prepare]
  show ?thesis by auto
qed

text \<open>The upcasting read path with a verifier that accepts and a transform that changes nothing is the plain
  load, on every store, error and panic included.\<close>

theorem load_with_identity_is_load:
  "load_with fc ag read i (\<lambda>_. Inr ()) Inr st =
    (case repo_load fc ag read i st of
       Returns (Inl e) \<Rightarrow> Returns (Inl (LwStore e))
     | Returns (Inr r) \<Rightarrow> Returns (Inr r)
     | Panics \<Rightarrow> Panics)"
proof -
  have stream: "load_with_stream ag decode (\<lambda>_. Inr ()) Inr xs r =
    (case replay_stream ag decode xs r of
       Returns (Inl e) \<Rightarrow> Returns (Inl (LwStore e))
     | Returns (Inr r) \<Rightarrow> Returns (Inr r)
     | Panics \<Rightarrow> Panics)" for decode xs r
  proof (induction xs arbitrary: r)
    case (Cons x xs)
    show ?case
    proof (cases x)
      case (Inr env)
      have self: "for_transformed_decode env (ps_event_type env) (ps_schema env) (ps_payload env) = Returns (Inr env)"
        by (simp add: for_transformed_decode_def)
      show ?thesis
      proof (cases "decode env")
        case D: (Inr out)
        obtain res r1 where rp: "replay ag (ps_version env) out r = (res, r1)" by fastforce
        show ?thesis
        proof (cases res)
          case (Returns y)
          with Inr D rp self Cons.IH show ?thesis by (cases y) (simp_all add: load_with_item_def morsel_borrowed_def)
        qed (use Inr D rp self in \<open>simp add: load_with_item_def morsel_borrowed_def\<close>)
      qed (use Inr self in \<open>simp add: load_with_item_def morsel_borrowed_def\<close>)
    qed simp
  qed simp
  show ?thesis
    by (cases "read st (root_key fc (root_new ag i)) version_INITIAL")
      (simp_all add: load_with_def repo_load_def replay_from_def stream)
qed

end
