(* ===== verification/Snapshotting.thy ===== *)
theory Snapshotting
  imports Repositories
begin

text \<open>
  The snapshot decorator of \<open>crates/store/src/snapshot.rs\<close>: a repository that restores a root
  from a stored snapshot and replays only what came after, and that stores snapshots when a trigger
  fires or on a full read. The snapshot store is a parameter, \<open>hydrate\<close> and \<open>commit\<close>; the
  decorator drops its errors. The theorems run it over the in-memory event and snapshot stores and
  show that it refines the plain repository.
\<close>

section \<open>The decorator\<close>

record snapshot_config =
  sc_schema :: schema_version
  sc_trigger :: "version option \<Rightarrow> version \<Rightarrow> bytes list \<Rightarrow> bool"
  sc_on_read :: bool

definition try_load_from_snapshot ::
  "('id, 'e, 'enc, 'dec) facade \<Rightarrow> ('ss \<Rightarrow> bytes \<Rightarrow> schema_version \<Rightarrow> (('s, version) hydrated, 'serr) result)
    \<Rightarrow> schema_version \<Rightarrow> 'id \<Rightarrow> 'ss \<Rightarrow> (('id, 's) aggregate_root \<times> version option) option" where
  "try_load_from_snapshot fc hydrate schema i ss =
    (case hydrate ss (fc_key fc i) schema of
       Inl snapshot_read_failed \<Rightarrow> None
     | Inr (HyFound version typed_state) \<Rightarrow> Some (root_restore i typed_state version, version_next version)
     | Inr (HyStale _) \<Rightarrow> None
     | Inr HyAbsent \<Rightarrow> None)"

definition try_save_snapshot ::
  "('id, 'e, 'enc, 'dec) facade \<Rightarrow> (bytes \<Rightarrow> schema_version \<Rightarrow> version \<Rightarrow> 's \<Rightarrow> 'ss \<Rightarrow> (unit, 'serr) result \<times> 'ss)
    \<Rightarrow> schema_version \<Rightarrow> ('id, 's) aggregate_root \<Rightarrow> version \<Rightarrow> 'ss \<Rightarrow> 'ss" where
  "try_save_snapshot fc commit schema aggregate version ss =
    (case root_get_state aggregate of
       Inl _ \<Rightarrow> ss
     | Inr current_state \<Rightarrow> snd (commit (fc_key fc (root_id aggregate)) schema version current_state ss))"

definition snapshotting_load ::
  "('id, 'e, 'enc, 'dec) facade \<Rightarrow> ('s, 'e) aggregate
    \<Rightarrow> ('st \<Rightarrow> stream_key \<Rightarrow> version \<Rightarrow> ((persisted_envelope, 'err) result list, 'err) result)
    \<Rightarrow> ('ss \<Rightarrow> bytes \<Rightarrow> schema_version \<Rightarrow> (('s, version) hydrated, 'serr) result)
    \<Rightarrow> (bytes \<Rightarrow> schema_version \<Rightarrow> version \<Rightarrow> 's \<Rightarrow> 'ss \<Rightarrow> (unit, 'serr) result \<times> 'ss)
    \<Rightarrow> snapshot_config \<Rightarrow> 'id \<Rightarrow> 'st \<times> 'ss
    \<Rightarrow> (('id, 's) aggregate_root, ('err, 'enc, 'dec) store_error) result call \<times> 'st \<times> 'ss" where
  "snapshotting_load fc ag read hydrate commit sc i w =
    (case try_load_from_snapshot fc hydrate (sc_schema sc) i (snd w) of
       Some (root, from) \<Rightarrow>
         (case from of
            Some next \<Rightarrow> (replay_from fc ag read root next (fst w), w)
          | None \<Rightarrow> (Returns (Inr root), w))
     | None \<Rightarrow>
         (case repo_load fc ag read i (fst w) of
            Returns (Inr root) \<Rightarrow>
              (Returns (Inr root),
               (fst w, case (sc_on_read sc, root_version root) of
                  (True, Some version) \<Rightarrow> try_save_snapshot fc commit (sc_schema sc) root version (snd w)
                | _ \<Rightarrow> snd w))
          | Returns (Inl e) \<Rightarrow> (Returns (Inl e), w)
          | Panics \<Rightarrow> (Panics, w)))"

text \<open>The snapshot is written after the save has returned; a failed write only leaves an older snapshot.\<close>

definition snapshotting_save ::
  "('id, 'e, 'enc, 'dec) facade \<Rightarrow> ('s, 'e) aggregate
    \<Rightarrow> (stream_key \<Rightarrow> version option \<Rightarrow> pending_batch \<Rightarrow> 'st \<Rightarrow> ('pos, 'err append_error) result call \<times> 'st)
    \<Rightarrow> (bytes \<Rightarrow> schema_version \<Rightarrow> version \<Rightarrow> 's \<Rightarrow> 'ss \<Rightarrow> (unit, 'serr) result \<times> 'ss)
    \<Rightarrow> snapshot_config \<Rightarrow> ('id, 's) aggregate_root \<Rightarrow> 'e events \<Rightarrow> 'st \<times> 'ss
    \<Rightarrow> ('pos, ('err, 'enc, 'dec) store_error) result call \<times> ('id, 's) aggregate_root \<times> 'st \<times> 'ss" where
  "snapshotting_save fc ag store_append commit sc root events w =
    (let old_version = root_version root in
     case repo_save fc ag store_append root events (fst w) of
       (Panics, root', st') \<Rightarrow> (Panics, root', (st', snd w))
     | (Returns (Inl e), root', st') \<Rightarrow> (Returns (Inl e), root', (st', snd w))
     | (Returns (Inr position), root', st') \<Rightarrow>
         (Returns (Inr position), root',
          (st', case root_version root' of
             None \<Rightarrow> snd w
           | Some new_version \<Rightarrow>
               if sc_trigger sc old_version new_version (map (fc_name fc) (events_iter events))
               then try_save_snapshot fc commit (sc_schema sc) root' new_version (snd w)
               else snd w)))"

section \<open>States that stand for a prefix of the history\<close>

text \<open>State \<open>s\<close> is what the first \<open>n\<close> events of the stream fold to.\<close>

definition folds_prefix ::
  "('id, 'e, 'enc, 'dec) facade \<Rightarrow> ('s, 'e) aggregate \<Rightarrow> pending_envelope list \<Rightarrow> nat \<Rightarrow> 's \<Rightarrow> bool" where
  "folds_prefix fc ag h n s \<longleftrightarrow> n \<le> length h \<and>
    (\<exists>es. list_all2 (decodes fc) (take n h) es \<and> apply_all ag es (ag_initial ag) = Returns s)"

definition snap_inv ::
  "('id, 'e, 'enc, 'dec) facade \<Rightarrow> ('s, 'e) aggregate \<Rightarrow> schema_version \<Rightarrow> im_store \<Rightarrow> ('s, version) snap_store \<Rightarrow> bool" where
  "snap_inv fc ag schema st ss \<longleftrightarrow>
    (\<forall>key v s. ss key = Some (schema, v, s) \<longrightarrow> folds_prefix fc ag (im_hist st (StreamKey key)) (vnum v) s)"

definition root_inv ::
  "('id, 'e, 'enc, 'dec) facade \<Rightarrow> ('s, 'e) aggregate \<Rightarrow> im_store \<Rightarrow> ('id, 's) aggregate_root \<Rightarrow> bool" where
  "root_inv fc ag st r \<longleftrightarrow>
    (\<forall>s. root_state r = Some s \<longrightarrow> folds_prefix fc ag (im_hist st (root_key fc r)) (root_vnum r) s)"

lemma folds_prefix_mono: "folds_prefix fc ag h n s \<Longrightarrow> folds_prefix fc ag (h @ h') n s"
  by (simp add: folds_prefix_def)

lemma folds_prefix_steps:
  assumes "im_step\<^sup>*\<^sup>* st st'" "im_inv st" "folds_prefix fc ag (im_hist st k) n s"
  shows "folds_prefix fc ag (im_hist st' k) n s"
proof -
  obtain new where "im_hist st' k = im_hist st k @ new" using im_steps_hist [OF assms(1,2), of k] by blast
  with folds_prefix_mono [OF assms(3), of new] show ?thesis by simp
qed

lemma inv_mono:
  assumes "im_step\<^sup>*\<^sup>* st st'" "im_inv st"
  shows "snap_inv fc ag schema st ss \<Longrightarrow> snap_inv fc ag schema st' ss" "root_inv fc ag st r \<Longrightarrow> root_inv fc ag st' r"
  unfolding snap_inv_def root_inv_def by (auto intro!: folds_prefix_steps [OF assms])

lemma decodes_unique:
  "list_all2 (decodes fc) ps es \<Longrightarrow> list_all2 (decodes fc) ps es' \<Longrightarrow> es = es'"
  by (induction ps arbitrary: es es') (auto simp: list_all2_Cons1 decodes_def)

lemma folds_full:
  assumes "folds_prefix fc ag h n s" "list_all2 (decodes fc) h es"
  shows "apply_all ag (take n es) (ag_initial ag) = Returns s" "n \<le> length es"
proof -
  obtain es' where es': "list_all2 (decodes fc) (take n h) es'" "apply_all ag es' (ag_initial ag) = Returns s" "n \<le> length h"
    using assms(1) by (auto simp: folds_prefix_def)
  have "list_all2 (decodes fc) (take n h) (take n es)" using assms(2) by (rule list_all2_takeI)
  with es'(1) have "es' = take n es" by (rule decodes_unique)
  with es'(2,3) assms(2) show "apply_all ag (take n es) (ag_initial ag) = Returns s" "n \<le> length es"
    by (simp_all add: list_all2_lengthD)
qed

section \<open>A restored root\<close>

lemma restored_load:
  assumes "im_inv st" "folds_prefix fc ag (im_hist st (stream_key_from_slice (fc_key fc i))) (vnum v) s0"
    "list_all2 (decodes fc) (im_hist st (stream_key_from_slice (fc_key fc i))) es"
    "length es \<le> ag_limit ag" "ag_limit ag \<le> usize_max"
  shows "(case version_next v of
       Some next \<Rightarrow> replay_from fc ag im_read (root_restore i s0 v) next st
     | None \<Rightarrow> Returns (Inr (root_restore i s0 v))) =
    (case apply_all ag es (ag_initial ag) of
       Panics \<Rightarrow> Panics
     | Returns s \<Rightarrow> Returns (Inr \<lparr>root_id = i, root_state = Some s, root_version = head_version (length es),
         root_replayed = length es - vnum v\<rparr>))"
proof -
  let ?r = "root_restore i s0 v" and ?k = "stream_key_from_slice (fc_key fc i)"
  have r: "root_vnum ?r = vnum v" "root_key fc ?r = ?k" "root_state ?r = Some s0" "root_replayed ?r = 0" "root_id ?r = i"
    "root_version ?r = Some v"
    by (simp_all add: root_restore_def root_vnum_def root_key_def)
  note F = folds_full [OF assms(2,3)]
  have all: "apply_all ag es (ag_initial ag) = apply_all ag (drop (vnum v) es) s0"
    using apply_all_append [of ag "take (vnum v) es" "drop (vnum v) es" "ag_initial ag"] F(1) by simp
  have len: "length es \<le> vmax" using im.hist_length [OF assms(1), of ?k] assms(3) by (simp add: list_all2_lengthD)
  have head: "head_version (length es) = (if vnum v = length es then Some v else Some (version_of (length es)))"
    using F(2) vnum_pos [of v] version_of_vnum [of v] by (auto simp: head_version_def simp del: vnum_pos version_of_vnum)
  show ?thesis
  proof (cases "version_next v")
    case None
    then have "vnum v = length es" using F(2) len by (simp add: version_next_None)
    then show ?thesis using None all head by (simp add: root_restore_def)
  next
    case (Some nv)
    have h: "list_all2 (decodes fc) (im_hist st (root_key fc ?r)) es" "root_vnum ?r \<le> length es" "vnum nv = Suc (root_vnum ?r)"
      "root_replayed ?r + (length es - root_vnum ?r) \<le> ag_limit ag"
      using assms(3,4) F(2) Some by (simp_all add: r version_next_Some)
    have "replay_from fc ag im_read ?r nv st =
      (case apply_all ag (drop (vnum v) es) s0 of
         Panics \<Rightarrow> Panics
       | Returns s' \<Rightarrow> Returns (Inr (?r\<lparr>root_state := Some s', root_replayed := length es - vnum v,
           root_version := head_version (length es)\<rparr>)))"
      unfolding im.replay_from_spec [OF assms(1) h(1-3) r(3) h(4) assms(5)] r head add_0 by (rule refl)
    then show ?thesis using Some all by (simp add: root_restore_def split: call.split)
  qed
qed

abbreviation im_snap_load where
  "im_snap_load fc ag sc i w \<equiv> snapshotting_load fc ag im_read (snap_hydrate :: _ \<Rightarrow> _ \<Rightarrow> _ \<Rightarrow> (_, unit) result) snap_commit sc i w"

abbreviation im_snap_save where
  "im_snap_save fc ag sc r es w \<equiv> snapshotting_save fc ag im_append
     (snap_commit :: _ \<Rightarrow> _ \<Rightarrow> _ \<Rightarrow> _ \<Rightarrow> _ \<Rightarrow> (unit, unit) result \<times> _) sc r es w"

lemma try_load_Some:
  "try_load_from_snapshot fc (snap_hydrate :: _ \<Rightarrow> _ \<Rightarrow> _ \<Rightarrow> (_, 'x) result) schema i ss = Some (root, from) \<longleftrightarrow>
    (\<exists>v s. ss (fc_key fc i) = Some (schema, v, s) \<and> root = root_restore i s v \<and> from = version_next v)"
  by (auto simp: try_load_from_snapshot_def snap_hydrate_def split: option.splits)

lemma try_save_inv:
  assumes "snap_inv fc ag schema st ss" "root_inv fc ag st r" "root_version r = Some v"
  shows "snap_inv fc ag schema st (try_save_snapshot fc (snap_commit :: _ \<Rightarrow> _ \<Rightarrow> _ \<Rightarrow> _ \<Rightarrow> _ \<Rightarrow> (unit, 'x) result \<times> _) schema r v ss)"
  using assms
  by (cases "root_state r")
    (auto simp: try_save_snapshot_def root_get_state_def ok_or_def snap_commit_def snap_inv_def root_inv_def root_key_def
      root_vnum_def stream_key_from_slice_def)

lemma full_load_inv:
  assumes "im_inv st" "repo_load fc ag im_read i st = Returns (Inr r)" "ag_limit ag \<le> usize_max"
  shows "root_inv fc ag st r"
proof -
  let ?h = "im_hist st (stream_key_from_slice (fc_key fc i))"
  obtain es s where l: "list_all2 (decodes fc) ?h es" "apply_all ag es (ag_initial ag) = Returns s"
    "r = \<lparr>root_id = i, root_state = Some s, root_version = head_version (length es), root_replayed = length es\<rparr>"
    by (rule load_decodes [OF assms]) blast
  have len: "length es = length ?h" using l(1) by (simp add: list_all2_lengthD)
  have "root_vnum r = length es"
    using l(3) im.hist_length [OF assms(1), of "stream_key_from_slice (fc_key fc i)"] len
    by (simp add: root_vnum_def head_version_def)
  moreover have "root_key fc r = stream_key_from_slice (fc_key fc i)" using l(3) by (simp add: root_key_def)
  ultimately show ?thesis using l len by (auto simp: root_inv_def folds_prefix_def)
qed

text \<open>A replay from a snapshot that succeeds has decoded the rest of the history.\<close>

lemma restored_inv:
  fixes fc :: "('id, 'e, 'enc, 'dec) facade"
  assumes "im_inv st" "folds_prefix fc ag (im_hist st (stream_key_from_slice (fc_key fc i))) (vnum v) s0"
    "version_next v = Some nv" "replay_from fc ag im_read (root_restore i s0 v) nv st = Returns (Inr r)"
    "ag_limit ag \<le> usize_max"
  shows "root_inv fc ag st r"
proof -
  let ?k = "stream_key_from_slice (fc_key fc i)" and ?r = "root_restore i s0 v" and ?n = "vnum v"
  have r: "root_vnum ?r = ?n" "root_key fc ?r = ?k" "root_state ?r = Some s0" "root_replayed ?r = 0"
    by (simp_all add: root_restore_def root_vnum_def root_key_def)
  obtain pre where pre: "list_all2 (decodes fc) (take ?n (im_hist st ?k)) pre" "apply_all ag pre (ag_initial ag) = Returns s0"
    "?n \<le> length (im_hist st ?k)" using assms(2) by (auto simp: folds_prefix_def)
  have "im_read_stream st ?k nv = map (Inr \<circ> persisted_of) (drop ?n (im_hist st ?k))"
    using im.read_from_version [OF assms(1), of nv ?n ?k] assms(3) by (simp add: version_next_Some)
  with assms(4) r(2) have "replay_stream ag (cd_decode (fc_codec fc)) (map (Inr \<circ> persisted_of) (drop ?n (im_hist st ?k))) ?r =
      (Returns (Inr r) :: (_, (inmemory_error, 'enc, 'dec) store_error) result call)"
    by (simp add: replay_from_def)
  from replay_stream_decodes [OF this] obtain rest where rest: "list_all2 (decodes fc) (drop ?n (im_hist st ?k)) rest"
    "length rest \<le> ag_limit ag" using r(4) by fastforce
  have all: "list_all2 (decodes fc) (im_hist st ?k) (pre @ rest)"
    using list_all2_appendI [OF pre(1) rest(1)] by simp
  have lp: "length pre = ?n" using list_all2_lengthD [OF pre(1)] pre(3) by simp
  have "replay_from fc ag im_read ?r nv st =
    (case apply_all ag (drop (root_vnum ?r) (pre @ rest)) s0 of
       Panics \<Rightarrow> Panics
     | Returns s' \<Rightarrow> Returns (Inr (?r\<lparr>root_state := Some s',
         root_replayed := root_replayed ?r + (length (pre @ rest) - root_vnum ?r),
         root_version := (if root_vnum ?r = length (pre @ rest) then root_version ?r else Some (version_of (length (pre @ rest))))\<rparr>)))"
    by (rule im.replay_from_spec [OF assms(1)]) (use all assms(3,5) rest(2) lp r in \<open>simp_all add: version_next_Some\<close>)
  then obtain s where s: "apply_all ag rest s0 = Returns s" "root_state r = Some s" "root_id r = i"
    "root_version r = (if ?n = length (pre @ rest) then Some v else Some (version_of (length (pre @ rest))))"
    using assms(4) lp r by (cases "apply_all ag rest s0") (auto simp: root_restore_def)
  have len: "length (pre @ rest) = length (im_hist st ?k)" using list_all2_lengthD [OF all] by simp
  moreover have "0 < length (im_hist st ?k)" using pre(3) vnum_pos [of v] by linarith
  ultimately have "root_vnum r = length (im_hist st ?k)"
    using s(4) lp im.hist_length [OF assms(1), of ?k] by (auto simp: root_vnum_def)
  moreover have "apply_all ag (pre @ rest) (ag_initial ag) = Returns s" using pre(2) s(1) by (simp add: apply_all_append)
  ultimately show ?thesis using s(2,3) all
    by (auto simp: root_inv_def folds_prefix_def root_key_def)
qed

section \<open>The decorator keeps the invariants\<close>

lemma snap_load_inv:
  assumes "im_inv st" "snap_inv fc ag (sc_schema sc) st ss" "ag_limit ag \<le> usize_max"
    "im_snap_load fc ag sc i (st, ss) = (Returns (Inr r), w')"
  shows "fst w' = st \<and> snap_inv fc ag (sc_schema sc) st (snd w') \<and> root_inv fc ag st r"
proof (cases "try_load_from_snapshot fc (snap_hydrate :: _ \<Rightarrow> _ \<Rightarrow> _ \<Rightarrow> (_, unit) result) (sc_schema sc) i ss")
  case (Some p)
  then obtain v s where v: "ss (fc_key fc i) = Some (sc_schema sc, v, s)" "p = (root_restore i s v, version_next v)"
    by (cases p) (auto simp: try_load_Some)
  have F: "folds_prefix fc ag (im_hist st (stream_key_from_slice (fc_key fc i))) (vnum v) s"
    using assms(2) v(1) by (simp add: snap_inv_def stream_key_from_slice_def)
  have w: "w' = (st, ss)" using assms(4) Some v(2) by (cases "version_next v") (simp_all add: snapshotting_load_def)
  show ?thesis
  proof (cases "version_next v")
    case None
    with assms(4) Some v(2) have "r = root_restore i s v" by (simp add: snapshotting_load_def)
    with F have "root_inv fc ag st r"
      by (auto simp: root_inv_def root_restore_def root_key_def root_vnum_def)
    with assms(2) w show ?thesis by simp
  next
    case (Some nv)
    with assms(4) \<open>try_load_from_snapshot _ _ _ _ _ = Some p\<close> v(2)
    have "replay_from fc ag im_read (root_restore i s v) nv st = Returns (Inr r)" by (simp add: snapshotting_load_def)
    from restored_inv [OF assms(1) F Some this assms(3)] assms(2) w show ?thesis by simp
  qed
next
  case None
  obtain r' where l: "repo_load fc ag im_read i st = Returns (Inr r')" "r' = r"
    using None assms(4) by (auto simp: snapshotting_load_def split: call.splits sum.splits)
  have R: "root_inv fc ag st r" using full_load_inv [OF assms(1) l(1) assms(3)] l(2) by simp
  have "fst w' = st" "snd w' = (case (sc_on_read sc, root_version r) of
      (True, Some version) \<Rightarrow> try_save_snapshot fc (snap_commit :: _ \<Rightarrow> _ \<Rightarrow> _ \<Rightarrow> _ \<Rightarrow> _ \<Rightarrow> (unit, unit) result \<times> _) (sc_schema sc) r version ss
    | _ \<Rightarrow> ss)"
    using None assms(4) l by (auto simp: snapshotting_load_def split: bool.split option.split)
  with R assms(2) try_save_inv [OF assms(2) R] show ?thesis by (auto split: option.splits bool.splits)
qed

lemma save_steps:
  assumes "im_inv st" "names_ok fc" "codec_law fc" "repo_save fc ag im_append r es st = (x, r', st')"
  shows "im_step\<^sup>*\<^sup>* st st'"
proof (cases rule: im.save_cases [OF assms(1-3), of ag "\<lambda>_. None" r es, case_names early stored])
  case (early res)
  with assms(4) show ?thesis by (simp add: repo_save_def)
next
  case (stored b pos s0 s' v)
  have "st' = s'" using stored(5) assms(4) by (auto simp: repo_save_def split: call.splits)
  with step_append [OF prepare_save_Inr(1) [OF stored(1) assms(2,3)] stored(2)] show ?thesis by blast
qed

lemma save_root_inv:
  assumes "im_inv st" "names_ok fc" "codec_law fc" "root_inv fc ag st r"
    "repo_save fc ag im_append r es st = (x, r', st')"
  shows "root_inv fc ag st' r'"
proof -
  have sv: "save_events fc ag im_append (\<lambda>_. None) r es st = (x, r', st')" using assms(5) by (simp add: repo_save_def)
  have same: "root_inv fc ag st' r'" if "r' = r" "st' = st" using that assms(4) by simp
  have dead: "root_inv fc ag st' r'" if "root_state r' = None" using that by (simp add: root_inv_def)
  show ?thesis
  proof (cases x)
    case (Returns res)
    show ?thesis
    proof (cases res)
      case (Inl e)
      with Returns sv im.save_err [OF assms(1-3)] same show ?thesis by blast
    next
      case (Inr pos)
      let ?k = "root_key fc r"
      from Inr Returns sv have ok: "save_events fc ag im_append (\<lambda>_. None) r es st = (Returns (Inr pos), r', st')" by simp
      note S = im.save_ok [OF assms(1-3) ok]
      obtain new where new: "im_hist st' ?k = im_hist st ?k @ new" "list_all2 (decodes fc) new (events_iter es)"
        using S(3) by blast
      obtain s0 s1 where s: "root_state r = Some s0" "apply_all ag (events_iter es) s0 = Returns s1" "root_state r' = Some s1"
        using S(7) by blast
      have n: "root_vnum r = length (im_hist st ?k)"
        using S(2) root_version_head [of r] im.hist_length [OF assms(1), of ?k] by (simp add: head_version_inject)
      obtain old where old: "list_all2 (decodes fc) (im_hist st ?k) old" "apply_all ag old (ag_initial ag) = Returns s0"
        using assms(4) s(1) n by (auto simp: root_inv_def folds_prefix_def)
      have "list_all2 (decodes fc) (im_hist st' ?k) (old @ events_iter es)"
        using list_all2_appendI [OF old(1) new(2)] new(1) by simp
      moreover have "apply_all ag (old @ events_iter es) (ag_initial ag) = Returns s1"
        using old(2) s(2) by (simp add: apply_all_append)
      moreover have "root_vnum r' = length (im_hist st' ?k)"
        using S(6) n new list_all2_lengthD [OF new(2)] by (simp add: events_len_def events_iter_def)
      moreover have "root_key fc r' = ?k" using S(5) by (simp add: root_key_def)
      ultimately show ?thesis using s(3) by (auto simp: root_inv_def folds_prefix_def)
    qed
  next
    case Panics
    with sv have "save_events fc ag im_append (\<lambda>_. None) r es st = (Panics, r', st')" by simp
    from im.save_panics [OF assms(1-3) this] same dead show ?thesis by blast
  qed
qed

lemma snap_save_inv:
  assumes "im_inv st" "names_ok fc" "codec_law fc" "root_inv fc ag st r" "snap_inv fc ag (sc_schema sc) st ss"
    "im_snap_save fc ag sc r es (st, ss) = (x, r', w')"
  shows "im_step\<^sup>*\<^sup>* st (fst w') \<and> snap_inv fc ag (sc_schema sc) (fst w') (snd w') \<and> root_inv fc ag (fst w') r'"
proof -
  obtain y q st' where sv: "repo_save fc ag im_append r es st = (y, q, st')"
    by (cases "repo_save fc ag im_append r es st") auto
  have steps: "im_step\<^sup>*\<^sup>* st st'" by (rule save_steps [OF assms(1-3) sv])
  have R: "root_inv fc ag st' q" by (rule save_root_inv [OF assms(1-4) sv])
  have S: "snap_inv fc ag (sc_schema sc) st' ss" by (rule inv_mono(1) [OF steps assms(1,5)])
  have w: "r' = q" "fst w' = st'" "snd w' = ss \<or> (\<exists>v. root_version q = Some v \<and>
      snd w' = try_save_snapshot fc (snap_commit :: _ \<Rightarrow> _ \<Rightarrow> _ \<Rightarrow> _ \<Rightarrow> _ \<Rightarrow> (unit, unit) result \<times> _) (sc_schema sc) q v ss)"
    using assms(6) sv by (auto simp: snapshotting_save_def split: call.splits sum.splits option.splits if_splits)
  from w(3) have "snap_inv fc ag (sc_schema sc) st' (snd w')" using S try_save_inv [OF S R] by auto
  with steps R w(1,2) show ?thesis by simp
qed

section \<open>A system of snapshotting workers\<close>

inductive snapshot_step ::
  "('id, 'e, 'enc, 'dec) facade \<Rightarrow> ('s, 'e) aggregate \<Rightarrow> snapshot_config
    \<Rightarrow> im_store \<times> ('s, version) snap_store \<times> (nat \<rightharpoonup> ('id, 's) aggregate_root)
    \<Rightarrow> im_store \<times> ('s, version) snap_store \<times> (nat \<rightharpoonup> ('id, 's) aggregate_root) \<Rightarrow> bool"
  for fc ag sc where
  sn_load: "im_snap_load fc ag sc i (st, ss) = (Returns (Inr r), (st', ss')) \<Longrightarrow>
    snapshot_step fc ag sc (st, ss, ws) (st', ss', ws(n \<mapsto> r))"
| sn_save: "ws n = Some r \<Longrightarrow> im_snap_save fc ag sc r es (st, ss) = (x, r', (st', ss')) \<Longrightarrow>
    snapshot_step fc ag sc (st, ss, ws) (st', ss', ws(n \<mapsto> r'))"
| sn_other: "im_step st st' \<Longrightarrow> snapshot_step fc ag sc (st, ss, ws) (st', ss, ws)"
| sn_crash: "snapshot_step fc ag sc (st, ss, ws) (st, ss, ws(n := None))"

definition snapshot_inv ::
  "('id, 'e, 'enc, 'dec) facade \<Rightarrow> ('s, 'e) aggregate \<Rightarrow> snapshot_config
    \<Rightarrow> im_store \<times> ('s, version) snap_store \<times> (nat \<rightharpoonup> ('id, 's) aggregate_root) \<Rightarrow> bool" where
  "snapshot_inv fc ag sc w \<longleftrightarrow> (case w of (st, ss, ws) \<Rightarrow> im_inv st \<and> snap_inv fc ag (sc_schema sc) st ss \<and>
    (\<forall>n r. ws n = Some r \<longrightarrow> root_inv fc ag st r))"

lemma snapshot_step_inv:
  assumes "snapshot_step fc ag sc w w'" "snapshot_inv fc ag sc w" "names_ok fc" "codec_law fc" "ag_limit ag \<le> usize_max"
  shows "snapshot_inv fc ag sc w'"
  using assms(1)
proof (cases rule: snapshot_step.cases)
  case (sn_load i st ss r st' ss' ws n)
  with assms(2) have i: "im_inv st" "snap_inv fc ag (sc_schema sc) st ss" "\<And>n r. ws n = Some r \<Longrightarrow> root_inv fc ag st r"
    by (auto simp: snapshot_inv_def)
  from snap_load_inv [OF i(1,2) assms(5) sn_load(3)] i sn_load(2) show ?thesis
    by (auto simp: snapshot_inv_def)
next
  case (sn_save ws n r es st ss x r' st' ss')
  with assms(2) have i: "im_inv st" "snap_inv fc ag (sc_schema sc) st ss" "\<And>n r. ws n = Some r \<Longrightarrow> root_inv fc ag st r"
    by (auto simp: snapshot_inv_def)
  have S: "im_step\<^sup>*\<^sup>* st st'" "snap_inv fc ag (sc_schema sc) st' ss'" "root_inv fc ag st' r'"
    using snap_save_inv [OF i(1) assms(3,4) i(3) [OF sn_save(3)] i(2) sn_save(4)] by auto
  then have "im_inv st'" using im_steps_hist [OF S(1) i(1)] by blast
  moreover have "root_inv fc ag st' q" if "ws m = Some q" for m q by (rule inv_mono(2) [OF S(1) i(1) i(3) [OF that]])
  ultimately show ?thesis using S(2,3) sn_save(2) by (auto simp: snapshot_inv_def)
next
  case (sn_other st st' ss ws)
  with assms(2) have i: "im_inv st" "snap_inv fc ag (sc_schema sc) st ss" "\<And>n r. ws n = Some r \<Longrightarrow> root_inv fc ag st r"
    by (auto simp: snapshot_inv_def)
  have s: "im_step\<^sup>*\<^sup>* st st'" using sn_other(3) by blast
  then have "im_inv st'" using im_steps_hist [OF s i(1)] by blast
  moreover have "root_inv fc ag st' q" if "ws m = Some q" for m q by (rule inv_mono(2) [OF s i(1) i(3) [OF that]])
  moreover have "snap_inv fc ag (sc_schema sc) st' ss" by (rule inv_mono(1) [OF s i(1,2)])
  ultimately show ?thesis using sn_other(2) by (auto simp: snapshot_inv_def)
next
  case (sn_crash st ss ws n)
  with assms(2) show ?thesis by (auto simp: snapshot_inv_def split: if_splits)
qed

lemma snapshot_steps_inv:
  assumes "(snapshot_step fc ag sc)\<^sup>*\<^sup>* w w'" "snapshot_inv fc ag sc w" "names_ok fc" "codec_law fc" "ag_limit ag \<le> usize_max"
  shows "snapshot_inv fc ag sc w'"
  using assms by (induction rule: rtranclp_induct) (auto intro: snapshot_step_inv)

section \<open>Properties\<close>

text \<open>C11: The snapshotting repository refines the plain one. Starting from an empty snapshot store, any number of
  workers load and save through the decorator, with any trigger, while others write to the event store
  directly; whenever a full replay of an aggregate would succeed, the decorated load returns the same id, state
  and version, whether it found a snapshot or not.\<close>

theorem snapshot_load_refines_load:
  assumes "(snapshot_step fc ag sc)\<^sup>*\<^sup>* (st0, snap_new, Map.empty) (st, ss, ws)" "im_reachable st0"
    "names_ok fc" "codec_law fc" "ag_limit ag \<le> usize_max" "repo_load fc ag im_read i st = Returns (Inr r)"
  shows "\<exists>n. fst (im_snap_load fc ag sc i (st, ss)) = Returns (Inr (r\<lparr>root_replayed := n\<rparr>))"
proof -
  have "snapshot_inv fc ag sc (st0, snap_new, Map.empty)"
    using im_reachable_inv [OF assms(2)] by (simp add: snapshot_inv_def snap_inv_def snap_new_def)
  from snapshot_steps_inv [OF assms(1) this assms(3-5)] have inv: "im_inv st" "snap_inv fc ag (sc_schema sc) st ss"
    by (simp_all add: snapshot_inv_def)
  obtain es s where l: "list_all2 (decodes fc) (im_hist st (stream_key_from_slice (fc_key fc i))) es" "length es \<le> ag_limit ag"
    "apply_all ag es (ag_initial ag) = Returns s"
    "r = \<lparr>root_id = i, root_state = Some s, root_version = head_version (length es), root_replayed = length es\<rparr>"
    by (rule load_decodes [OF inv(1) assms(6,5)])
  show ?thesis
  proof (cases "try_load_from_snapshot fc (snap_hydrate :: _ \<Rightarrow> _ \<Rightarrow> _ \<Rightarrow> (_, unit) result) (sc_schema sc) i ss")
    case None
    then have "fst (im_snap_load fc ag sc i (st, ss)) = Returns (Inr (r\<lparr>root_replayed := root_replayed r\<rparr>))"
      using assms(6) by (simp add: snapshotting_load_def)
    then show ?thesis by blast
  next
    case (Some p)
    then obtain v s0 where v: "ss (fc_key fc i) = Some (sc_schema sc, v, s0)" "p = (root_restore i s0 v, version_next v)"
      by (cases p) (auto simp: try_load_Some)
    have F: "folds_prefix fc ag (im_hist st (stream_key_from_slice (fc_key fc i))) (vnum v) s0"
      using inv(2) v(1) by (simp add: snap_inv_def stream_key_from_slice_def)
    have "fst (im_snap_load fc ag sc i (st, ss)) = (case version_next v of
        Some next \<Rightarrow> replay_from fc ag im_read (root_restore i s0 v) next st
      | None \<Rightarrow> Returns (Inr (root_restore i s0 v)))"
      using Some v(2) by (simp add: snapshotting_load_def split: option.split)
    also have "\<dots> = Returns (Inr (r\<lparr>root_replayed := length es - vnum v\<rparr>))"
      unfolding restored_load [OF inv(1) F l(1,2) assms(5)] l(3) call.case using l(4) by simp
    finally show ?thesis by blast
  qed
qed

definition sample_snapshots :: snapshot_config where
  "sample_snapshots = \<lparr>sc_schema = nz 1, sc_trigger = every_n_events (nz 1), sc_on_read = False\<rparr>"

theorem snapshot_load_refines_load_witness:
  "\<exists>st ss ws n s. (snapshot_step sample_facade sample_counter sample_snapshots)\<^sup>*\<^sup>* (im_new, snap_new, Map.empty) (st, ss, ws) \<and>
    ss [7] = Some s \<and> fst (im_snap_load sample_facade sample_counter sample_snapshots [7] (st, ss)) =
      Returns (Inr \<lparr>root_id = [7], root_state = Some 2, root_version = Some version_INITIAL, root_replayed = n\<rparr>)"
proof -
  let ?r = "root_new sample_counter [7]"
    and ?r' = "\<lparr>root_id = [7], root_state = Some 2, root_version = Some version_INITIAL, root_replayed = 0\<rparr> :: (bytes, nat) aggregate_root"
    and ?step = "snapshot_step sample_facade sample_counter sample_snapshots"
    and ?ss = "snap_new([7] \<mapsto> (nz 1, version_INITIAL, 2)) :: (nat, version) snap_store"
  obtain pos st where s: "repo_save sample_facade sample_counter im_append ?r sample_events im_new = (Returns (Inr pos), ?r', st)"
    "im_reachable im_new" "length (im_hist st (StreamKey [7])) = 1" by (rule sample_save)
  have key: "root_key sample_facade ?r = StreamKey [7]" "stream_key_from_slice (fc_key sample_facade [7]) = StreamKey [7]"
    by (simp_all add: root_key_def root_new_def sample_facade_def stream_key_from_slice_def)
  have "save_events sample_facade sample_counter im_append (\<lambda>_. None) ?r sample_events im_new = (Returns (Inr pos), ?r', st)"
    using s(1) by (simp add: repo_save_def)
  note S = im.save_ok [OF im_new_inv(1) sample_facade_ok this, unfolded key]
  have h: "list_all2 (decodes sample_facade) (im_hist st (stream_key_from_slice (fc_key sample_facade [7]))) [2]"
    using S(3) unfolding key by (auto simp: sample_events_def events_iter_def)
  have lim: "length [2 :: u8] \<le> ag_limit sample_counter" "ag_limit sample_counter \<le> usize_max"
    by (simp_all add: sample_counter_def usize_max_def)
  have hv: "head_version 1 = Some version_INITIAL" by (simp add: head_version_def version_of_def version_INITIAL_def)
  have full: "repo_load sample_facade sample_counter im_read [7] st = Returns (Inr (?r'\<lparr>root_replayed := 1\<rparr>))"
    using im.load_spec [OF S(1) h lim] hv by (simp add: sample_counter_def)
  have "im_snap_load sample_facade sample_counter sample_snapshots [7] (im_new, snap_new) = (Returns (Inr ?r), (im_new, snap_new))"
    using sample_load_new by (simp add: snapshotting_load_def try_load_from_snapshot_def snap_hydrate_def snap_new_def
        sample_snapshots_def)
  from sn_load [OF this, of Map.empty 0] have "?step (im_new, snap_new, Map.empty) (im_new, snap_new, [0 \<mapsto> ?r])" by simp
  moreover have "im_snap_save sample_facade sample_counter sample_snapshots ?r sample_events (im_new, snap_new) =
      (Returns (Inr pos), ?r', (st, ?ss))"
    using s(1) by (simp add: snapshotting_save_def sample_snapshots_def every_n_events_def version_INITIAL_def as_u64_def
        try_save_snapshot_def root_get_state_def ok_or_def snap_commit_def sample_facade_def root_new_def)
  from sn_save [OF _ this, of "[0 \<mapsto> ?r]" 0] have "?step (im_new, snap_new, [0 \<mapsto> ?r]) (st, ?ss, [0 \<mapsto> ?r'])" by simp
  ultimately have steps: "?step\<^sup>*\<^sup>* (im_new, snap_new, Map.empty) (st, ?ss, [0 \<mapsto> ?r'])"
    by (meson converse_rtranclp_into_rtranclp r_into_rtranclp)
  from snapshot_load_refines_load [OF steps s(2) sample_facade_ok lim(2) full] obtain n where
    n: "fst (im_snap_load sample_facade sample_counter sample_snapshots [7] (st, ?ss)) =
      Returns (Inr \<lparr>root_id = [7], root_state = Some 2, root_version = Some version_INITIAL, root_replayed = n\<rparr>)" by auto
  have "?ss [7] = Some (nz 1, version_INITIAL, 2)" by simp
  with steps n show ?thesis by blast
qed

end
