(* ===== verification/Sagas.thy ===== *)
theory Sagas
  imports Snapshotting
begin

text \<open>
  Deciding on top of a repository: commands (\<open>crates/store/src/execute.rs\<close>) and sagas
  (\<open>saga.rs\<close>). Both ride on the \<open>Repository\<close> trait, which the locale
  \<open>aggregate_repository\<close> states; it is interpreted by the plain repository and by the
  snapshotting one. The user's \<open>handle\<close>, \<open>react\<close> and \<open>intent_for\<close> are parameters. The bound
  \<open>N\<close> is the capacity of the \<open>ArrayVec\<close> tails; a push past it panics.
\<close>

section \<open>The repository interface\<close>

locale aggregate_repository =
  fixes inv :: "'w \<Rightarrow> bool"
    and load :: "'id \<Rightarrow> 'w \<Rightarrow> (('id, 's) aggregate_root, 'serr) result call \<times> 'w"
    and save :: "('id, 's) aggregate_root \<Rightarrow> 'e events \<Rightarrow> 'w
      \<Rightarrow> ('pos, 'serr) result call \<times> ('id, 's) aggregate_root \<times> 'w"
  assumes load_inv: "inv w \<Longrightarrow> load i w = (res, w') \<Longrightarrow> inv w'"
    and save_ok: "inv w \<Longrightarrow> save r es w = (Returns (Inr pos), r', w') \<Longrightarrow>
      inv w' \<and> root_id r' = root_id r \<and> root_vnum r' = root_vnum r + events_len es"
    and save_err: "inv w \<Longrightarrow> save r es w = (Returns (Inl e), r', w') \<Longrightarrow> r' = r \<and> w' = w"

section \<open>Commands\<close>

datatype ('d, 'serr) execute_error = ExKernel kernel_error | ExDecide 'd | ExStore 'serr

definition execute_error_is_conflict :: "('serr \<Rightarrow> bool) \<Rightarrow> ('d, 'serr) execute_error \<Rightarrow> bool" where
  "execute_error_is_conflict is_conflict e = (case e of ExStore s \<Rightarrow> is_conflict s | _ \<Rightarrow> False)"

datatype ('pos, 'e) execution = Ignored | Executed 'pos "'e events"

definition execute ::
  "('s \<Rightarrow> 'c \<Rightarrow> ('e events option, 'd) result)
    \<Rightarrow> (('id, 's) aggregate_root \<Rightarrow> 'e events \<Rightarrow> 'w \<Rightarrow> ('pos, 'serr) result call \<times> ('id, 's) aggregate_root \<times> 'w)
    \<Rightarrow> ('id, 's) aggregate_root \<Rightarrow> 'c \<Rightarrow> 'w
    \<Rightarrow> (('pos, 'e) execution, ('d, 'serr) execute_error) result call \<times> ('id, 's) aggregate_root \<times> 'w" where
  "execute handle save root command w =
    (case root_handle handle command root of
       Inl (DecisionKernel cause) \<Rightarrow> (Returns (Inl (ExKernel cause)), root, w)
     | Inl (DecisionDomain cause) \<Rightarrow> (Returns (Inl (ExDecide cause)), root, w)
     | Inr None \<Rightarrow> (Returns (Inr Ignored), root, w)
     | Inr (Some decided) \<Rightarrow>
       (case save root decided w of
          (Panics, root', w') \<Rightarrow> (Panics, root', w')
        | (Returns (Inl e), root', w') \<Rightarrow> (Returns (Inl (ExStore e)), root', w')
        | (Returns (Inr position), root', w') \<Rightarrow> (Returns (Inr (Executed position decided)), root', w')))"

section \<open>Intents\<close>

datatype ('d, 'serr) saga_error = SgKernel kernel_error | SgReact 'd | SgStore 'serr | SgVersionOverflow

definition saga_error_is_conflict :: "('serr \<Rightarrow> bool) \<Rightarrow> ('d, 'serr) saga_error \<Rightarrow> bool" where
  "saga_error_is_conflict is_conflict e = (case e of SgStore s \<Rightarrow> is_conflict s | _ \<Rightarrow> False)"

record ('id, 'c) projected_intent =
  pi_saga_id :: 'id
  pi_source_version :: version
  pi_intent :: 'c

definition dedup_key :: "('id, 'c) projected_intent \<Rightarrow> 'id \<times> version" where
  "dedup_key p = (pi_saga_id p, pi_source_version p)"

record ('id, 'c) projected_intents =
  pis_first :: "('id, 'c) projected_intent option"
  pis_rest :: "('id, 'c) projected_intent list"

definition intents_new :: "('id, 'c) projected_intents" where
  "intents_new = \<lparr>pis_first = None, pis_rest = []\<rparr>"

definition intents_push ::
  "nat \<Rightarrow> ('id, 'c) projected_intent \<Rightarrow> ('id, 'c) projected_intents \<Rightarrow> ('id, 'c) projected_intents call" where
  "intents_push N intent is =
    (if pis_first is = None then Returns (is\<lparr>pis_first := Some intent\<rparr>)
     else if length (pis_rest is) < N then Returns (is\<lparr>pis_rest := pis_rest is @ [intent]\<rparr>)
     else Panics)"

definition intents_iter :: "('id, 'c) projected_intents \<Rightarrow> ('id, 'c) projected_intent list" where
  "intents_iter is = (case pis_first is of None \<Rightarrow> [] | Some i \<Rightarrow> [i]) @ pis_rest is"

definition intents_len :: "('id, 'c) projected_intents \<Rightarrow> nat" where
  "intents_len is = (if pis_first is \<noteq> None then 1 else 0) + length (pis_rest is)"

definition intents_is_empty :: "('id, 'c) projected_intents \<Rightarrow> bool" where
  "intents_is_empty is = (pis_first is = None)"

text \<open>\<open>ProjectedIntentsIntoIter\<close>: a chain consumed from either end.\<close>

definition intents_next ::
  "('id, 'c) projected_intents \<Rightarrow> (('id, 'c) projected_intent \<times> ('id, 'c) projected_intents) option" where
  "intents_next it =
    (case pis_first it of
       Some i \<Rightarrow> Some (i, it\<lparr>pis_first := None\<rparr>)
     | None \<Rightarrow> (case pis_rest it of [] \<Rightarrow> None | i # is \<Rightarrow> Some (i, it\<lparr>pis_rest := is\<rparr>)))"

definition intents_next_back ::
  "('id, 'c) projected_intents \<Rightarrow> (('id, 'c) projected_intent \<times> ('id, 'c) projected_intents) option" where
  "intents_next_back it =
    (case pis_rest it of
       [] \<Rightarrow> (case pis_first it of Some i \<Rightarrow> Some (i, it\<lparr>pis_first := None\<rparr>) | None \<Rightarrow> None)
     | _ # _ \<Rightarrow> Some (last (pis_rest it), it\<lparr>pis_rest := butlast (pis_rest it)\<rparr>))"

section \<open>Reacting\<close>

datatype ('pos, 'id, 'c) reaction = ReactionIgnored | Reacted version 'pos "('id, 'c) projected_intents"

text \<open>The loop that mints the intents: the version moves on while a successor is peeked.\<close>

fun project_intents ::
  "nat \<Rightarrow> ('e \<Rightarrow> 'c option) \<Rightarrow> 'id \<Rightarrow> 'e list \<Rightarrow> version \<Rightarrow> ('id, 'c) projected_intents
    \<Rightarrow> (version \<times> ('id, 'c) projected_intents, ('d, 'serr) saga_error) result call" where
  "project_intents N intent_for sid [] current intents = Returns (Inr (current, intents))"
| "project_intents N intent_for sid (recorded # iter) current intents =
    call_bind
      (case intent_for recorded of
         Some intent \<Rightarrow> intents_push N \<lparr>pi_saga_id = sid, pi_source_version = current, pi_intent = intent\<rparr> intents
       | None \<Rightarrow> Returns intents)
      (\<lambda>intents.
        if iter \<noteq> [] then
          (case version_next current of
             None \<Rightarrow> Returns (Inl SgVersionOverflow)
           | Some v \<Rightarrow> project_intents N intent_for sid iter v intents)
        else Returns (Inr (current, intents)))"

definition react_and_save ::
  "nat \<Rightarrow> ('s \<Rightarrow> 'u \<Rightarrow> ('e events option, 'd) result) \<Rightarrow> ('e \<Rightarrow> 'c option)
    \<Rightarrow> (('id, 's) aggregate_root \<Rightarrow> 'e events \<Rightarrow> 'w \<Rightarrow> ('pos, 'serr) result call \<times> ('id, 's) aggregate_root \<times> 'w)
    \<Rightarrow> ('id, 's) aggregate_root \<Rightarrow> 'u \<Rightarrow> 'w
    \<Rightarrow> (('pos, 'id, 'c) reaction, ('d, 'serr) saga_error) result call \<times> ('id, 's) aggregate_root \<times> 'w" where
  "react_and_save N react intent_for save root event w =
    (let before = root_version root in
     case root_react react event root of
       Inl (DecisionKernel cause) \<Rightarrow> (Returns (Inl (SgKernel cause)), root, w)
     | Inl (DecisionDomain cause) \<Rightarrow> (Returns (Inl (SgReact cause)), root, w)
     | Inr None \<Rightarrow> (Returns (Inr ReactionIgnored), root, w)
     | Inr (Some produced) \<Rightarrow>
       (case first_persisted_version before of
          None \<Rightarrow> (Returns (Inl SgVersionOverflow), root, w)
        | Some first \<Rightarrow>
          (case save root produced w of
             (Panics, root', w') \<Rightarrow> (Panics, root', w')
           | (Returns (Inl e), root', w') \<Rightarrow> (Returns (Inl (SgStore e)), root', w')
           | (Returns (Inr position), root', w') \<Rightarrow>
               (call_bind (project_intents N intent_for (root_id root') (events_iter produced) first intents_new)
                  (\<lambda>res. Returns (map_ok (\<lambda>(current, intents). Reacted current position intents) res)), root', w'))))"

definition saga_dispatch ::
  "nat \<Rightarrow> ('s \<Rightarrow> 'u \<Rightarrow> ('e events option, 'd) result) \<Rightarrow> ('e \<Rightarrow> 'c option)
    \<Rightarrow> ('id \<Rightarrow> 'w \<Rightarrow> (('id, 's) aggregate_root, 'serr) result call \<times> 'w)
    \<Rightarrow> (('id, 's) aggregate_root \<Rightarrow> 'e events \<Rightarrow> 'w \<Rightarrow> ('pos, 'serr) result call \<times> ('id, 's) aggregate_root \<times> 'w)
    \<Rightarrow> 'id \<Rightarrow> 'u \<Rightarrow> 'w \<Rightarrow> (('pos, 'id, 'c) reaction, ('d, 'serr) saga_error) result call \<times> 'w" where
  "saga_dispatch N react intent_for load save i event w =
    (case load i w of
       (Panics, w') \<Rightarrow> (Panics, w')
     | (Returns (Inl e), w') \<Rightarrow> (Returns (Inl (SgStore e)), w')
     | (Returns (Inr root), w') \<Rightarrow>
         (case react_and_save N react intent_for save root event w' of (res, _, w'') \<Rightarrow> (res, w'')))"

section \<open>Lemmas\<close>

lemma intents_iter_new [simp]: "intents_iter intents_new = []"
  by (simp add: intents_iter_def intents_new_def)

text \<open>The invariant of the collection: the tail is filled after the head.\<close>

definition intents_ok :: "('id, 'c) projected_intents \<Rightarrow> bool" where
  "intents_ok is \<longleftrightarrow> (pis_first is = None \<longrightarrow> pis_rest is = [])"

lemma intents_push_iter:
  assumes "intents_ok is" "length (intents_iter is) \<le> N"
  shows "\<exists>is'. intents_push N i is = Returns is' \<and> intents_ok is' \<and> intents_iter is' = intents_iter is @ [i]"
  using assms by (auto simp: intents_push_def intents_ok_def intents_iter_def split: option.splits)

text \<open>The intents of events numbered from \<open>n\<close>.\<close>

definition pinned :: "('e \<Rightarrow> 'c option) \<Rightarrow> 'id \<Rightarrow> (version \<times> 'e) list \<Rightarrow> ('id, 'c) projected_intent list" where
  "pinned intent_for sid ves =
    List.map_filter (\<lambda>(v, e). map_option (\<lambda>c. \<lparr>pi_saga_id = sid, pi_source_version = v, pi_intent = c\<rparr>) (intent_for e)) ves"

lemma pinned_simps [simp]:
  "pinned intent_for sid [] = []"
  "pinned intent_for sid ((v, e) # ves) =
    (case intent_for e of None \<Rightarrow> [] | Some c \<Rightarrow> [\<lparr>pi_saga_id = sid, pi_source_version = v, pi_intent = c\<rparr>]) @
    pinned intent_for sid ves"
  by (simp_all add: pinned_def List.map_filter_def split: option.splits)

lemma project_intents_run:
  assumes "es \<noteq> []" "intents_ok is" "length (intents_iter is) + length es \<le> Suc N" "n + length es \<le> vmax"
  shows "\<exists>is'. project_intents N intent_for sid es (version_of (Suc n)) is =
      (Returns (Inr (version_of (n + length es), is')) :: (_, ('d, 'serr) saga_error) result call) \<and>
    intents_iter is' = intents_iter is @ pinned intent_for sid (number_from n es)"
  using assms
proof (induction es arbitrary: n "is")
  case (Cons e es)
  let ?v = "version_of (Suc n)"
  obtain is1 where is1: "(case intent_for e of
         Some intent \<Rightarrow> intents_push N \<lparr>pi_saga_id = sid, pi_source_version = ?v, pi_intent = intent\<rparr> is
       | None \<Rightarrow> Returns is) = Returns is1" "intents_ok is1"
    "intents_iter is1 = intents_iter is @ (case intent_for e of None \<Rightarrow> []
       | Some c \<Rightarrow> [\<lparr>pi_saga_id = sid, pi_source_version = ?v, pi_intent = c\<rparr>])"
  proof (cases "intent_for e")
    case (Some c)
    with intents_push_iter [OF Cons.prems(2), of N "\<lparr>pi_saga_id = sid, pi_source_version = ?v, pi_intent = c\<rparr>"] Cons.prems(3)
    show thesis by (auto intro: that)
  qed (use Cons.prems(2) that in auto)
  show ?case
  proof (cases "es = []")
    case True
    with is1 show ?thesis by simp
  next
    case False
    then have bound: "Suc n + length es \<le> vmax" "0 < length es" using Cons.prems(4) by simp_all
    have "Suc (Suc n) \<le> vmax" using bound by linarith
    then have nx: "version_next ?v = Some (version_of (Suc (Suc n)))"
      by (simp add: version_next_Some)
    have "length (intents_iter is1) + length es \<le> Suc N"
      using is1(3) Cons.prems(3) by (auto split: option.splits)
    from Cons.IH [OF False is1(2) this bound(1)] is1(1,3) nx False show ?thesis by simp
  qed
qed simp

lemma pinned_later:
  assumes "p \<in> set (pinned intent_for sid (number_from n es))" "n + length es \<le> vmax"
  shows "n < vnum (pi_source_version p)"
  using assms
proof (induction es arbitrary: n)
  case (Cons e es)
  from Cons.prems Cons.IH [of "Suc n"] show ?case by (fastforce split: option.splits)
qed simp

lemma dedup_key_make [simp]: "dedup_key \<lparr>pi_saga_id = sid, pi_source_version = v, pi_intent = c\<rparr> = (sid, v)"
  by (simp add: dedup_key_def)

lemma pinned_distinct:
  assumes "n + length es \<le> vmax"
  shows "distinct (map dedup_key (pinned intent_for sid (number_from n es)))"
  using assms
proof (induction es arbitrary: n)
  case (Cons e es)
  have IH: "distinct (map dedup_key (pinned intent_for sid (number_from (Suc n) es)))"
    by (rule Cons.IH) (use Cons.prems in simp)
  have "(sid, version_of (Suc n)) \<notin> dedup_key ` set (pinned intent_for sid (number_from (Suc n) es))"
  proof
    assume "(sid, version_of (Suc n)) \<in> dedup_key ` set (pinned intent_for sid (number_from (Suc n) es))"
    then obtain p where p: "p \<in> set (pinned intent_for sid (number_from (Suc n) es))" "pi_source_version p = version_of (Suc n)"
      by (auto simp: dedup_key_def)
    with pinned_later [OF p(1)] Cons.prems show False by simp
  qed
  with IH show ?case by (cases "intent_for e") simp_all
qed simp

context aggregate_repository
begin

lemma reacted:
  fixes react :: "'s \<Rightarrow> 'u \<Rightarrow> ('e events option, 'd) result" and intent_for :: "'e \<Rightarrow> 'k option"
  assumes "inv w" "root_react react event r = Inr (Some produced)" "length (ev_rest produced) \<le> N"
    "save r produced w = (Returns (Inr pos), r', w')"
  shows "\<exists>is. react_and_save N react intent_for save r event w =
      (Returns (Inr (Reacted (version_of (root_vnum r')) pos is)), r', w') \<and>
    intents_iter is = pinned intent_for (root_id r) (number_from (root_vnum r) (events_iter produced)) \<and>
    distinct (map dedup_key (intents_iter is))"
proof -
  note S = save_ok [OF assms(1,4)]
  have v: "root_vnum r + length (events_iter produced) = root_vnum r'"
    using S by (simp add: events_iter_def events_len_def)
  have m: "root_vnum r + length (events_iter produced) \<le> vmax" unfolding v by (rule root_vnum_le_vmax)
  then have "Suc (root_vnum r) \<le> vmax" by (simp add: events_iter_def)
  then have f: "first_persisted_version (root_version r) = Some (version_of (Suc (root_vnum r)))"
    by (simp add: first_persisted_version_Some root_vnum_def)
  have b: "length (intents_iter (intents_new :: ('id, 'k) projected_intents)) + length (events_iter produced) \<le> Suc N"
    "root_vnum r + length (events_iter produced) \<le> vmax" "events_iter produced \<noteq> []"
    "intents_ok (intents_new :: ('id, 'k) projected_intents)"
    using assms(3) m by (simp_all add: events_iter_def intents_ok_def intents_new_def intents_iter_def)
  from project_intents_run [OF b(3,4,1,2), of intent_for "root_id r"] obtain "is" where
    "project_intents N intent_for (root_id r) (events_iter produced) (version_of (Suc (root_vnum r))) intents_new =
      (Returns (Inr (version_of (root_vnum r'), is)) :: (_, ('d, 'serr) saga_error) result call)"
    "intents_iter is = pinned intent_for (root_id r) (number_from (root_vnum r) (events_iter produced))"
    using v by auto
  with assms(2,4) f S pinned_distinct [OF b(2), of intent_for "root_id r"] show ?thesis
    by (intro exI [of _ "is"]) (simp add: react_and_save_def)
qed

end

section \<open>The repositories keep the interface\<close>

definition event_repo_inv :: "('id, 'e, 'enc, 'dec) facade \<Rightarrow> im_store \<Rightarrow> bool" where
  "event_repo_inv fc st \<longleftrightarrow> im_inv st \<and> names_ok fc \<and> codec_law fc"

lemma repo_save_ok:
  assumes "event_repo_inv fc st" "repo_save fc ag im_append r es st = (Returns (Inr pos), r', st')"
  shows "event_repo_inv fc st' \<and> root_id r' = root_id r \<and> root_vnum r' = root_vnum r + events_len es"
proof -
  have i: "im_inv st" "names_ok fc" "codec_law fc" using assms(1) by (simp_all add: event_repo_inv_def)
  from im.save_ok(1,5,6) [OF i assms(2) [unfolded repo_save_def]] i show ?thesis by (simp add: event_repo_inv_def)
qed

lemma repo_save_err:
  assumes "event_repo_inv fc st" "repo_save fc ag im_append r es st = (Returns (Inl e), r', st')"
  shows "r' = r \<and> st' = st"
proof -
  have i: "im_inv st" "names_ok fc" "codec_law fc" using assms(1) by (simp_all add: event_repo_inv_def)
  from im.save_err [OF i assms(2) [unfolded repo_save_def]] show ?thesis .
qed

interpretation er: aggregate_repository "event_repo_inv fc" "\<lambda>i st. (repo_load fc ag im_read i st, st)"
  "repo_save fc ag im_append"
  by unfold_locales (use repo_save_ok repo_save_err in \<open>(simp, blast+)?\<close>)

interpretation sr: aggregate_repository "\<lambda>w. event_repo_inv fc (fst w)" "im_snap_load fc ag sc" "im_snap_save fc ag sc"
proof unfold_locales
  fix w i res w'
  assume a: "event_repo_inv fc (fst w)" "im_snap_load fc ag sc i w = (res, w')"
  then have "fst w' = fst w"
    by (auto simp: snapshotting_load_def split: option.splits call.splits sum.splits)
  with a show "event_repo_inv fc (fst w')" by simp
next
  fix w r es pos r' w'
  assume a: "event_repo_inv fc (fst w)" "im_snap_save fc ag sc r es w = (Returns (Inr pos), r', w')"
  obtain y q st' where sv: "repo_save fc ag im_append r es (fst w) = (y, q, st')"
    by (cases "repo_save fc ag im_append r es (fst w)") auto
  with a(2) have "y = Returns (Inr pos)" "q = r'" "fst w' = st'"
    by (auto simp: snapshotting_save_def split: call.splits sum.splits)
  with repo_save_ok [OF a(1)] sv
  show "event_repo_inv fc (fst w') \<and> root_id r' = root_id r \<and> root_vnum r' = root_vnum r + events_len es" by blast
next
  fix w r es e r' w'
  assume a: "event_repo_inv fc (fst w)" "im_snap_save fc ag sc r es w = (Returns (Inl e), r', w')"
  obtain y q st' where sv: "repo_save fc ag im_append r es (fst w) = (y, q, st')"
    by (cases "repo_save fc ag im_append r es (fst w)") auto
  with a(2) have "y = Returns (Inl e)" "q = r'" "w' = (st', snd w)"
    by (auto simp: snapshotting_save_def split: call.splits sum.splits)
  with sv have "repo_save fc ag im_append r es (fst w) = (Returns (Inl e), r', st')" "w' = (st', snd w)" by simp_all
  with repo_save_err [OF a(1) this(1)] show "r' = r \<and> w' = w" by (cases w) simp
qed

section \<open>Properties\<close>

text \<open>C31: Once a saga's events are stored, its intents are handed out, each pinned to the version its event was
  given. For a reaction that produced events within the collection's capacity, a successful save is always
  followed by a reaction value with the last version, the save's position and exactly the intents of the
  produced events, in order; no error or panic comes between, and the deduplication keys are distinct.\<close>

theorem saga_intents_pinned:
  assumes "im_reachable st" "names_ok fc" "codec_law fc" "root_react react event r = Inr (Some produced)"
    "length (ev_rest produced) \<le> N" "repo_save fc ag im_append r produced st = (Returns (Inr pos), r', st')"
  shows "\<exists>is. react_and_save N react intent_for (repo_save fc ag im_append) r event st =
      (Returns (Inr (Reacted (version_of (root_vnum r')) pos is)), r', st') \<and>
    intents_iter is = pinned intent_for (root_id r) (number_from (root_vnum r) (events_iter produced)) \<and>
    distinct (map dedup_key (intents_iter is))"
proof -
  have "event_repo_inv fc st" using assms(2,3) im_reachable_inv [OF assms(1)] by (simp add: event_repo_inv_def)
  from er.reacted [OF this assms(4-6)] show ?thesis .
qed

definition sample_react :: "nat \<Rightarrow> bool \<Rightarrow> (u8 events option, unit) result" where
  "sample_react s b = Inr (if b then Some sample_events else None)"

theorem saga_intents_pinned_witness:
  "\<exists>pos r st is. react_and_save 4 sample_react (\<lambda>e. Some (unat e)) (repo_save sample_facade sample_counter im_append)
      (root_new sample_counter [7]) True im_new = (Returns (Inr (Reacted version_INITIAL pos is)), r, st) \<and>
    intents_iter is = [\<lparr>pi_saga_id = [7], pi_source_version = version_INITIAL, pi_intent = 2\<rparr>]"
proof -
  let ?r = "root_new sample_counter ([7] :: bytes)"
  obtain pos st where s: "repo_save sample_facade sample_counter im_append ?r sample_events im_new =
      (Returns (Inr pos), \<lparr>root_id = [7], root_state = Some 2, root_version = Some version_INITIAL, root_replayed = 0\<rparr>, st)"
    "im_reachable im_new" by (rule sample_save)
  have r: "root_react sample_react True ?r = Inr (Some sample_events)" "length (ev_rest sample_events) \<le> 4"
    by (simp_all add: root_react_def root_get_state_def ok_or_def root_new_def sample_react_def sample_events_def)
  have v: "version_of 1 = version_INITIAL" by (simp add: version_of_def version_INITIAL_def)
  from saga_intents_pinned [OF s(2) sample_facade_ok r s(1), of "\<lambda>e. Some (unat e)"] v show ?thesis
    by (auto simp: root_vnum_def root_new_def events_iter_def sample_events_def)
qed

text \<open>Executing a command stores exactly what was decided. An ignored command and every error leave the root
  and the store as they were; an executed command reports the events its decision produced, and the stream
  has grown by exactly those.\<close>

theorem execute_stores_decision:
  assumes "im_reachable st" "names_ok fc" "codec_law fc"
  shows "case execute handle (repo_save fc ag im_append) r command st of
      (Returns (Inr Ignored), r', st') \<Rightarrow> root_handle handle command r = Inr None \<and> r' = r \<and> st' = st
    | (Returns (Inr (Executed pos es)), r', st') \<Rightarrow> root_handle handle command r = Inr (Some es) \<and>
        root_vnum r' = root_vnum r + events_len es \<and>
        (\<exists>new. im_hist st' (root_key fc r) = im_hist st (root_key fc r) @ new \<and> list_all2 (decodes fc) new (events_iter es))
    | (Returns (Inl e), r', st') \<Rightarrow> r' = r \<and> st' = st
    | (Panics, r', st') \<Rightarrow> True"
proof -
  have i: "im_inv st" by (rule im_reachable_inv [OF assms(1)])
  show ?thesis
  proof (cases "root_handle handle command r")
    case (Inl e)
    then show ?thesis by (cases e) (simp_all add: execute_def)
  next
    case (Inr d)
    show ?thesis
    proof (cases d)
      case (Some decided)
      obtain y q st' where sv: "repo_save fc ag im_append r decided st = (y, q, st')"
        by (cases "repo_save fc ag im_append r decided st") auto
      show ?thesis
      proof (cases y)
        case (Returns res)
        show ?thesis
        proof (cases res)
          case (Inl e)
          with Returns sv have "repo_save fc ag im_append r decided st = (Returns (Inl e), q, st')" by simp
          from im.save_err [OF i assms(2,3) this [unfolded repo_save_def]] this Some Inr show ?thesis
            by (simp add: execute_def)
        next
          case R: (Inr pos)
          with Returns sv have "repo_save fc ag im_append r decided st = (Returns (Inr pos), q, st')" by simp
          from im.save_ok(3,6) [OF i assms(2,3) this [unfolded repo_save_def]] this Some Inr show ?thesis
            by (simp add: execute_def)
        qed
      qed (use sv Some Inr in \<open>simp add: execute_def\<close>)
    qed (use Inr in \<open>simp add: execute_def\<close>)
  qed
qed

theorem execute_stores_decision_witness:
  "\<exists>pos r st new. execute sample_react (repo_save sample_facade sample_counter im_append) (root_new sample_counter [7]) True im_new =
      (Returns (Inr (Executed pos sample_events)), r, st) \<and>
    im_hist st (StreamKey [7]) = new \<and> list_all2 (decodes sample_facade) new [2]"
proof -
  let ?r = "root_new sample_counter ([7] :: bytes)"
  obtain pos st where s: "repo_save sample_facade sample_counter im_append ?r sample_events im_new =
      (Returns (Inr pos), \<lparr>root_id = [7], root_state = Some 2, root_version = Some version_INITIAL, root_replayed = 0\<rparr>, st)"
    "im_reachable im_new" by (rule sample_save)
  have "root_handle sample_react True ?r = Inr (Some sample_events)"
    by (simp add: root_handle_def root_get_state_def ok_or_def root_new_def sample_react_def)
  then have e: "execute sample_react (repo_save sample_facade sample_counter im_append) ?r True im_new =
      (Returns (Inr (Executed pos sample_events)), \<lparr>root_id = [7], root_state = Some 2, root_version = Some version_INITIAL,
        root_replayed = 0\<rparr>, st)"
    using s(1) by (simp add: execute_def)
  have k: "root_key sample_facade ?r = StreamKey [7]" "events_iter sample_events = [2]"
    by (simp_all add: root_key_def root_new_def sample_facade_def stream_key_from_slice_def sample_events_def events_iter_def)
  from execute_stores_decision [OF s(2) sample_facade_ok, where handle = sample_react and ag = sample_counter and r = ?r
      and command = True] e k show ?thesis by auto
qed

end
