(* ===== verification/Live_Cursor.thy ===== *)
theory Live_Cursor
  imports Decoded_Streams
begin

text \<open>
  The catch-up-then-tail loop of \<open>crates/store/src/subscription_cursor.rs\<close>, generic over the
  \<open>Catchup\<close> trait of \<open>catchup.rs\<close>. The loop is a state machine with one step per stretch of
  code between two suspension points, so that the store may change between any two of them: opening a
  scan, polling it, arming the wait, opening the confirming probe, polling the probe, and waiting.

  The locale \<open>live_catchup\<close> is the contract of a catch-up target: its scans deliver, in order, the
  items strictly after a position, and a wait armed before new items arrive is ready after, once the store
  is \<open>settled\<close>: the writer that made the items visible has also raised its wake. The locale
  \<open>reliable_catchup\<close> adds that reads do not fail. The lemmas show that the cursor delivers every item
  exactly once, marks the end of the backlog once and truthfully, never sleeps on undelivered items of a
  settled store, and delivers a backlog in a number of steps linear in it.
\<close>

section \<open>The loop\<close>

record ('st, 'p, 'i, 'sc, 'e, 'w) catchup =
  ca_read_after :: "'st \<Rightarrow> 'p option \<Rightarrow> ('sc, 'e) result"
  ca_next :: "'st \<Rightarrow> 'sc \<Rightarrow> (('i, 'e) result \<times> 'sc) option"
  ca_position_of :: "'i \<Rightarrow> 'p"
  ca_arm :: "'st \<Rightarrow> 'w"
  ca_ready :: "'st \<Rightarrow> 'w \<Rightarrow> bool"

definition CATCHUP_CHUNK :: nat where
  "CATCHUP_CHUNK = 1024"

datatype ('sc, 'w) live_pc = AtLoop | Armed 'w | Probing 'w 'sc | Parked 'w

record ('p, 'sc, 'w) live_state =
  lv_read_from :: "'p option"
  lv_scan :: "'sc option"
  lv_drained :: nat
  lv_caught_up :: bool
  lv_pc :: "('sc, 'w) live_pc"

definition live_new :: "'p option \<Rightarrow> ('p, 'sc, 'w) live_state" where
  "live_new from = \<lparr>lv_read_from = from, lv_scan = None, lv_drained = 0, lv_caught_up = False, lv_pc = AtLoop\<rparr>"

text \<open>Phase 1: ensure an open scan.\<close>

definition live_open ::
  "('st, 'p, 'i, 'sc, 'e, 'w) catchup \<Rightarrow> 'st \<Rightarrow> ('p, 'sc, 'w) live_state
    \<Rightarrow> ('p, 'sc, 'w) live_state \<times> ('i stream_step, 'e) result option" where
  "live_open ca st s =
    (case ca_read_after ca st (lv_read_from s) of
       Inr scan \<Rightarrow> (s\<lparr>lv_scan := Some scan, lv_drained := 0\<rparr>, None)
     | Inl e \<Rightarrow> (s, Some (Inl e)))"

text \<open>Phase 2: drain one item, or arm when the scan has ended.\<close>

definition live_drain ::
  "('st, 'p, 'i, 'sc, 'e, 'w) catchup \<Rightarrow> 'st \<Rightarrow> 'sc \<Rightarrow> ('p, 'sc, 'w) live_state
    \<Rightarrow> ('p, 'sc, 'w) live_state \<times> ('i stream_step, 'e) result option" where
  "live_drain ca st scan s =
    (case ca_next ca st scan of
       Some (Inr item, scan') \<Rightarrow>
         let s = s\<lparr>lv_read_from := Some (ca_position_of ca item), lv_scan := Some scan', lv_drained := lv_drained s + 1\<rparr>;
             s = (if lv_drained s \<ge> CATCHUP_CHUNK then s\<lparr>lv_scan := None\<rparr> else s)
         in (s, Some (Inr (StepEvent item)))
     | Some (Inl e, _) \<Rightarrow> (s\<lparr>lv_scan := None\<rparr>, Some (Inl e))
     | None \<Rightarrow> (s\<lparr>lv_scan := None, lv_pc := Armed (ca_arm ca st)\<rparr>, None))"

text \<open>Phase 3: the confirming re-scan after arming, then the marker or the wait.\<close>

definition live_probe_open ::
  "('st, 'p, 'i, 'sc, 'e, 'w) catchup \<Rightarrow> 'st \<Rightarrow> 'w \<Rightarrow> ('p, 'sc, 'w) live_state
    \<Rightarrow> ('p, 'sc, 'w) live_state \<times> ('i stream_step, 'e) result option" where
  "live_probe_open ca st wait s =
    (case ca_read_after ca st (lv_read_from s) of
       Inr probe \<Rightarrow> (s\<lparr>lv_pc := Probing wait probe\<rparr>, None)
     | Inl e \<Rightarrow> (s\<lparr>lv_pc := AtLoop\<rparr>, Some (Inl e)))"

definition live_probe ::
  "('st, 'p, 'i, 'sc, 'e, 'w) catchup \<Rightarrow> 'st \<Rightarrow> 'w \<Rightarrow> 'sc \<Rightarrow> ('p, 'sc, 'w) live_state
    \<Rightarrow> ('p, 'sc, 'w) live_state \<times> ('i stream_step, 'e) result option" where
  "live_probe ca st wait probe s =
    (case ca_next ca st probe of
       Some (Inr item, probe') \<Rightarrow>
         (s\<lparr>lv_read_from := Some (ca_position_of ca item), lv_scan := Some probe', lv_drained := 1, lv_pc := AtLoop\<rparr>,
          Some (Inr (StepEvent item)))
     | Some (Inl e, _) \<Rightarrow> (s\<lparr>lv_pc := AtLoop\<rparr>, Some (Inl e))
     | None \<Rightarrow>
         if \<not> lv_caught_up s then (s\<lparr>lv_caught_up := True, lv_pc := AtLoop\<rparr>, Some (Inr CaughtUp))
         else (s\<lparr>lv_pc := Parked wait\<rparr>, None))"

definition live_step ::
  "('st, 'p, 'i, 'sc, 'e, 'w) catchup \<Rightarrow> 'st \<Rightarrow> ('p, 'sc, 'w) live_state
    \<Rightarrow> ('p, 'sc, 'w) live_state \<times> ('i stream_step, 'e) result option" where
  "live_step ca st s =
    (case lv_pc s of
       AtLoop \<Rightarrow> (case lv_scan s of None \<Rightarrow> live_open ca st s | Some scan \<Rightarrow> live_drain ca st scan s)
     | Armed wait \<Rightarrow> live_probe_open ca st wait s
     | Probing wait probe \<Rightarrow> live_probe ca st wait probe s
     | Parked wait \<Rightarrow> if ca_ready ca st wait then (s\<lparr>lv_pc := AtLoop\<rparr>, None) else (s, None))"

section \<open>Runs\<close>

text \<open>The cursor's steps and the store's, interleaved in any way; the outputs are collected.\<close>

inductive live_run ::
  "('st, 'p, 'i, 'sc, 'e, 'w) catchup \<Rightarrow> ('st \<Rightarrow> 'st \<Rightarrow> bool) \<Rightarrow> 'p option \<Rightarrow> 'st
    \<Rightarrow> 'st \<Rightarrow> ('p, 'sc, 'w) live_state \<Rightarrow> ('i stream_step, 'e) result list \<Rightarrow> bool"
  for ca env begin_at st0 where
  run_start: "live_run ca env begin_at st0 st0 (live_new begin_at) []"
| run_env: "live_run ca env begin_at st0 st s out \<Longrightarrow> env st st' \<Longrightarrow> live_run ca env begin_at st0 st' s out"
| run_step: "live_run ca env begin_at st0 st s out \<Longrightarrow> live_step ca st s = (s', x) \<Longrightarrow>
    live_run ca env begin_at st0 st s' (out @ (case x of None \<Rightarrow> [] | Some y \<Rightarrow> [y]))"

text \<open>The cursor alone, on a store that stands still.\<close>

primrec live_iter ::
  "('st, 'p, 'i, 'sc, 'e, 'w) catchup \<Rightarrow> 'st \<Rightarrow> nat \<Rightarrow> ('p, 'sc, 'w) live_state
    \<Rightarrow> ('p, 'sc, 'w) live_state \<times> ('i stream_step, 'e) result list" where
  "live_iter ca st 0 s = (s, [])"
| "live_iter ca st (Suc n) s =
    (case live_step ca st s of (s', x) \<Rightarrow>
      (case live_iter ca st n s' of (s'', out) \<Rightarrow> (s'', (case x of None \<Rightarrow> [] | Some y \<Rightarrow> [y]) @ out)))"

definition delivered :: "('i stream_step, 'e) result list \<Rightarrow> 'i list" where
  "delivered out = List.map_filter (\<lambda>r. case r of Inr (StepEvent i) \<Rightarrow> Some i | _ \<Rightarrow> None) out"

definition markers :: "('i stream_step, 'e) result list \<Rightarrow> nat" where
  "markers out = length (filter (\<lambda>r. r = Inr CaughtUp) out)"

definition items_after :: "('i \<Rightarrow> 'p::linorder) \<Rightarrow> 'p option \<Rightarrow> 'i list \<Rightarrow> 'i list" where
  "items_after pos p xs = filter (\<lambda>i. case p of None \<Rightarrow> True | Some q \<Rightarrow> q < pos i) xs"

lemma delivered_simps [simp]:
  "delivered [] = []"
  "delivered (xs @ ys) = delivered xs @ delivered ys"
  "delivered [Inr (StepEvent i)] = [i]"
  "delivered [Inr CaughtUp] = []"
  "delivered [Inl e] = []"
  by (simp_all add: delivered_def List.map_filter_def)

lemma markers_simps [simp]:
  "markers [] = 0"
  "markers (xs @ ys) = markers xs + markers ys"
  "markers [Inr (StepEvent i)] = 0"
  "markers [Inr CaughtUp] = 1"
  "markers [Inl e] = 0"
  by (simp_all add: markers_def)

lemma items_after_append [simp]: "items_after pos p (xs @ ys) = items_after pos p xs @ items_after pos p ys"
  by (simp add: items_after_def)

lemma items_after_next:
  assumes "sorted_wrt (<) (map pos xs)" "items_after pos p xs = i # rest"
  shows "items_after pos (Some (pos i)) xs = rest"
  using assms
proof (induction xs)
  case (Cons x xs)
  show ?case
  proof (cases "case p of None \<Rightarrow> True | Some q \<Rightarrow> q < pos x")
    case True
    with Cons.prems have x: "x = i" "items_after pos p xs = rest" by (simp_all add: items_after_def)
    have "items_after pos (Some (pos x)) xs = xs" "items_after pos p xs = xs"
      using Cons.prems(1) True by (auto simp: items_after_def filter_id_conv split: option.splits)
    with x show ?thesis by (simp add: items_after_def)
  next
    case False
    with Cons.prems have r: "items_after pos p xs = i # rest" by (simp add: items_after_def)
    then have "i \<in> set (items_after pos p xs)" by simp
    then have "\<not> pos i < pos x" using Cons.prems(1) by (auto simp: items_after_def)
    with Cons.IH [OF _ r] Cons.prems(1) show ?thesis by (simp add: items_after_def)
  qed
qed (simp add: items_after_def)

lemma items_after_new:
  assumes "sorted_wrt (<) (map pos (xs @ ys))" "i \<in> set xs"
  shows "items_after pos (Some (pos i)) ys = ys"
  using assms by (auto simp: items_after_def filter_id_conv sorted_wrt_append)

section \<open>The contract of a target\<close>

locale live_catchup =
  fixes ca :: "('st, 'p::linorder, 'i, 'sc, 'e, 'w) catchup"
    and env :: "'st \<Rightarrow> 'st \<Rightarrow> bool"
    and inv :: "'st \<Rightarrow> bool"
    and contents :: "'st \<Rightarrow> 'i list"
    and scan_ok :: "'st \<Rightarrow> 'p option \<Rightarrow> 'sc \<Rightarrow> bool"
    and fresh :: "'sc \<Rightarrow> bool"
    and settled :: "'st \<Rightarrow> bool"
  assumes env_inv: "inv st \<Longrightarrow> env st st' \<Longrightarrow> inv st' \<and> (\<exists>new. contents st' = contents st @ new)"
    and contents_sorted: "inv st \<Longrightarrow> sorted_wrt (<) (map (ca_position_of ca) (contents st))"
    and open_ok: "inv st \<Longrightarrow> ca_read_after ca st p = Inr sc \<Longrightarrow> scan_ok st p sc \<and> fresh sc"
    and scan_env: "inv st \<Longrightarrow> env st st' \<Longrightarrow> scan_ok st p sc \<Longrightarrow> scan_ok st' p sc"
    and next_item: "inv st \<Longrightarrow> scan_ok st p sc \<Longrightarrow> ca_next ca st sc = Some (Inr i, sc') \<Longrightarrow>
      (\<exists>rest. items_after (ca_position_of ca) p (contents st) = i # rest) \<and> scan_ok st (Some (ca_position_of ca i)) sc'"
    and next_end: "inv st \<Longrightarrow> scan_ok st p sc \<Longrightarrow> fresh sc \<Longrightarrow> ca_next ca st sc = None \<Longrightarrow>
      items_after (ca_position_of ca) p (contents st) = []"
    and wakes: "inv st \<Longrightarrow> env\<^sup>*\<^sup>* st st' \<Longrightarrow> settled st' \<Longrightarrow> contents st' \<noteq> contents st \<Longrightarrow>
      ca_ready ca st' (ca_arm ca st)"

text \<open>What has been delivered, in terms of the resume position and the phase.\<close>

definition progress_inv ::
  "('i \<Rightarrow> 'p::linorder) \<Rightarrow> ('st \<Rightarrow> 'st \<Rightarrow> bool) \<Rightarrow> ('st \<Rightarrow> 'i list) \<Rightarrow> 'st \<Rightarrow> 'p option \<Rightarrow> 'st \<Rightarrow> 'p option \<Rightarrow> bool
    \<Rightarrow> ('i stream_step, 'e) result list \<Rightarrow> bool" where
  "progress_inv pos env contents st0 start st rf caught_up out \<longleftrightarrow>
    env\<^sup>*\<^sup>* st0 st \<and>
    items_after pos start (contents st) = delivered out @ items_after pos rf (contents st) \<and>
    rf = (if delivered out = [] then start else Some (pos (last (delivered out)))) \<and>
    markers out = (if caught_up then 1 else 0) \<and>
    (\<forall>a b. out = a @ Inr CaughtUp # b \<longrightarrow>
      (\<exists>st1. env\<^sup>*\<^sup>* st0 st1 \<and> env\<^sup>*\<^sup>* st1 st \<and> delivered a = items_after pos start (contents st1)))"

lemma snoc_split:
  "out @ [x] = a @ y # b \<longleftrightarrow> (b = [] \<and> out = a \<and> x = y) \<or> (\<exists>b'. b = b' @ [x] \<and> out = a @ y # b')"
  by (cases b rule: rev_cases) auto

lemma progress_event:
  assumes "progress_inv pos env contents st0 start st rf cu out" "items_after pos rf (contents st) = i # rest"
    "sorted_wrt (<) (map pos (contents st))"
  shows "progress_inv pos env contents st0 start st (Some (pos i)) cu (out @ [Inr (StepEvent i)])"
  using assms items_after_next [OF assms(3,2)] by (auto simp: progress_inv_def snoc_split)

lemma progress_error:
  assumes "progress_inv pos env contents st0 start st rf cu out"
  shows "progress_inv pos env contents st0 start st rf cu (out @ [Inl e])"
  using assms by (auto simp: progress_inv_def snoc_split)

lemma progress_marker:
  assumes "progress_inv pos env contents st0 start st rf False out" "items_after pos rf (contents st) = []"
  shows "progress_inv pos env contents st0 start st rf True (out @ [Inr CaughtUp])"
  using assms by (auto simp: progress_inv_def snoc_split)

lemma progress_env:
  assumes "progress_inv pos env contents st0 start st rf cu out" "env st st'" "contents st' = contents st @ new"
    "sorted_wrt (<) (map pos (contents st'))"
  shows "progress_inv pos env contents st0 start st' rf cu out"
proof -
  have eq: "items_after pos start (contents st) = delivered out @ items_after pos rf (contents st)"
    and rf: "rf = (if delivered out = [] then start else Some (pos (last (delivered out))))"
    using assms(1) by (simp_all add: progress_inv_def)
  have "items_after pos start new = items_after pos rf new"
  proof (cases "delivered out = []")
    case True
    with rf show ?thesis by simp
  next
    case False
    let ?i = "last (delivered out)"
    have "?i \<in> set (items_after pos start (contents st))" using False eq by simp
    then have i: "?i \<in> set (contents st)" "case start of None \<Rightarrow> True | Some q \<Rightarrow> q < pos ?i"
      by (simp_all add: items_after_def)
    have new: "items_after pos (Some (pos ?i)) new = new"
      by (rule items_after_new [OF _ i(1)]) (use assms(3,4) in simp)
    then have "\<forall>j \<in> set new. pos ?i < pos j" by (simp add: items_after_def filter_id_conv)
    with i(2) have "items_after pos start new = new"
      by (auto simp: items_after_def filter_id_conv split: option.splits)
    with new rf False show ?thesis by simp
  qed
  moreover have "env\<^sup>*\<^sup>* x st'" if "env\<^sup>*\<^sup>* x st" for x using that assms(2) by (rule rtranclp.rtrancl_into_rtrancl)
  ultimately show ?thesis using assms(1,3) unfolding progress_inv_def by (metis append.assoc items_after_append)
qed

locale reliable_catchup = live_catchup +
  assumes open_total: "inv st \<Longrightarrow> \<exists>sc. ca_read_after ca st p = Inr sc"
    and next_total: "inv st \<Longrightarrow> scan_ok st p sc \<Longrightarrow> ca_next ca st sc \<noteq> Some (Inl e, sc')"

section \<open>The cursor keeps its promises\<close>

context live_catchup
begin

definition armed :: "'st \<Rightarrow> 'w \<Rightarrow> bool" where
  "armed st w \<longleftrightarrow> (\<exists>st1. inv st1 \<and> w = ca_arm ca st1 \<and> env\<^sup>*\<^sup>* st1 st)"

definition parked :: "'st \<Rightarrow> 'p option \<Rightarrow> 'w \<Rightarrow> bool" where
  "parked st rf w \<longleftrightarrow> (\<exists>st1 st2. inv st1 \<and> w = ca_arm ca st1 \<and> env\<^sup>*\<^sup>* st1 st2 \<and> env\<^sup>*\<^sup>* st2 st \<and>
    items_after (ca_position_of ca) rf (contents st2) = [])"

definition live_inv ::
  "'st \<Rightarrow> 'p option \<Rightarrow> 'st \<Rightarrow> ('p, 'sc, 'w) live_state \<Rightarrow> ('i stream_step, 'e) result list \<Rightarrow> bool" where
  "live_inv st0 start st s out \<longleftrightarrow> inv st \<and>
    progress_inv (ca_position_of ca) env contents st0 start st (lv_read_from s) (lv_caught_up s) out \<and>
    (\<forall>sc. lv_scan s = Some sc \<longrightarrow> scan_ok st (lv_read_from s) sc) \<and>
    (case lv_pc s of
       AtLoop \<Rightarrow> True
     | Armed w \<Rightarrow> armed st w \<and> lv_scan s = None
     | Probing w sc \<Rightarrow> armed st w \<and> lv_scan s = None \<and> scan_ok st (lv_read_from s) sc \<and> fresh sc
     | Parked w \<Rightarrow> parked st (lv_read_from s) w \<and> lv_scan s = None \<and> lv_caught_up s)"

lemma env_steps: "env\<^sup>*\<^sup>* st st' \<Longrightarrow> inv st \<Longrightarrow> inv st' \<and> (\<exists>new. contents st' = contents st @ new)"
proof (induction rule: rtranclp_induct)
  case (step y z)
  then show ?case using env_inv [of y z] by (metis append.assoc)
qed simp

lemma live_inv_markers: "live_inv st0 start st s out \<Longrightarrow> markers out = (if lv_caught_up s then 1 else 0)"
  by (simp add: live_inv_def progress_inv_def)

lemma live_inv_start: "inv st0 \<Longrightarrow> live_inv st0 start st0 (live_new start) []"
  by (simp add: live_inv_def progress_inv_def live_new_def)

lemma live_inv_env:
  assumes "live_inv st0 start st s out" "env st st'"
  shows "live_inv st0 start st' s out"
proof -
  have inv: "inv st" using assms(1) by (simp add: live_inv_def)
  then obtain new where new: "inv st'" "contents st' = contents st @ new" using env_inv assms(2) by blast
  have tr: "env\<^sup>*\<^sup>* x st'" if "env\<^sup>*\<^sup>* x st" for x using that assms(2) by (rule rtranclp.rtrancl_into_rtrancl)
  have "progress_inv (ca_position_of ca) env contents st0 start st' (lv_read_from s) (lv_caught_up s) out"
    by (rule progress_env [of _ _ _ _ _ st]) (use assms new contents_sorted [OF new(1)] in \<open>simp_all add: live_inv_def\<close>)
  moreover have "armed st' w" if "armed st w" for w using that tr unfolding armed_def by blast
  moreover have "parked st' rf w" if "parked st rf w" for rf w using that tr unfolding parked_def by blast
  ultimately show ?thesis
    using assms(1) new(1) scan_env [OF inv assms(2)] unfolding live_inv_def by (auto split: live_pc.splits)
qed

lemma live_inv_step:
  assumes "live_inv st0 start st s out" "live_step ca st s = (s', x)"
  shows "live_inv st0 start st s' (out @ (case x of None \<Rightarrow> [] | Some y \<Rightarrow> [y]))"
proof -
  let ?pos = "ca_position_of ca" and ?rf = "lv_read_from s"
  have inv: "inv st" and prog: "progress_inv ?pos env contents st0 start st ?rf (lv_caught_up s) out"
    and scan: "\<And>sc. lv_scan s = Some sc \<Longrightarrow> scan_ok st ?rf sc"
    using assms(1) by (simp_all add: live_inv_def)
  note err = progress_error [OF prog] and srt = contents_sorted [OF inv]
  have event: "progress_inv ?pos env contents st0 start st (Some (?pos i)) (lv_caught_up s) (out @ [Inr (StepEvent i)]) \<and>
      scan_ok st (Some (?pos i)) sc'" if "scan_ok st ?rf sc" "ca_next ca st sc = Some (Inr i, sc')" for sc i sc'
    using next_item [OF inv that] progress_event [OF prog _ srt] by blast
  show ?thesis
  proof (cases "lv_pc s")
    case AtLoop
    show ?thesis
    proof (cases "lv_scan s")
      case None
      with AtLoop assms(2) have "live_open ca st s = (s', x)" by (simp add: live_step_def)
      then show ?thesis
        using None AtLoop inv prog err open_ok [OF inv]
        by (auto simp: live_open_def live_inv_def split: sum.splits)
    next
      case (Some sc)
      with AtLoop assms(2) have d: "live_drain ca st sc s = (s', x)" by (simp add: live_step_def)
      have self: "armed st (ca_arm ca st)" using inv unfolding armed_def by blast
      show ?thesis
      proof (cases "ca_next ca st sc")
        case None
        with d have "s' = s\<lparr>lv_scan := None, lv_pc := Armed (ca_arm ca st)\<rparr>" "x = None" by (auto simp: live_drain_def)
        with inv prog self show ?thesis by (simp add: live_inv_def)
      next
        case N: (Some p)
        obtain res sc' where p: "p = (res, sc')" by fastforce
        show ?thesis
        proof (cases res)
          case (Inl e)
          with N p d have "s' = s\<lparr>lv_scan := None\<rparr>" "x = Some (Inl e)" by (auto simp: live_drain_def)
          with inv err AtLoop show ?thesis by (simp add: live_inv_def)
        next
          case (Inr i)
          with N p d have "x = Some (Inr (StepEvent i))" "lv_read_from s' = Some (?pos i)" "lv_caught_up s' = lv_caught_up s"
            "lv_pc s' = AtLoop" "lv_scan s' = None \<or> lv_scan s' = Some sc'"
            using AtLoop by (auto simp: live_drain_def Let_def split: if_splits)
          with event [OF scan [OF Some], of i sc'] N p Inr inv show ?thesis by (auto simp: live_inv_def)
        qed
      qed
    qed
  next
    case (Armed w)
    with assms have a: "armed st w" "lv_scan s = None" "live_probe_open ca st w s = (s', x)"
      by (simp_all add: live_inv_def live_step_def)
    then show ?thesis
      using inv prog err open_ok [OF inv] by (auto simp: live_probe_open_def live_inv_def split: sum.splits)
  next
    case (Probing w sc)
    with assms have a: "armed st w" "lv_scan s = None" "scan_ok st ?rf sc" "fresh sc" "live_probe ca st w sc s = (s', x)"
      by (simp_all add: live_inv_def live_step_def)
    show ?thesis
    proof (cases "ca_next ca st sc")
      case None
      have empty: "items_after ?pos ?rf (contents st) = []" by (rule next_end [OF inv a(3,4) None])
      have "parked st ?rf w" using a(1) empty unfolding armed_def parked_def by blast
      with None a inv prog empty progress_marker [of ?pos env contents st0 start st ?rf out] show ?thesis
        by (auto simp: live_probe_def live_inv_def split: if_splits)
    next
      case N: (Some p)
      obtain res sc' where p: "p = (res, sc')" by fastforce
      show ?thesis
      proof (cases res)
        case (Inl e)
        with N p a inv err show ?thesis by (auto simp: live_probe_def live_inv_def)
      next
        case (Inr i)
        with N p a(5) have "x = Some (Inr (StepEvent i))" "lv_read_from s' = Some (?pos i)" "lv_caught_up s' = lv_caught_up s"
          "lv_pc s' = AtLoop" "lv_scan s' = Some sc'" by (auto simp: live_probe_def)
        with event [OF a(3), of i sc'] N p Inr inv show ?thesis by (simp add: live_inv_def)
      qed
    qed
  next
    case (Parked w)
    with assms inv prog show ?thesis by (auto simp: live_inv_def live_step_def split: if_splits)
  qed
qed

lemma live_run_inv: "live_run ca env start st0 st s out \<Longrightarrow> inv st0 \<Longrightarrow> live_inv st0 start st s out"
  by (induction rule: live_run.induct) (auto intro: live_inv_start live_inv_env live_inv_step)

lemma parked_armed: "live_inv st0 start st s out \<Longrightarrow> lv_pc s = Parked w \<Longrightarrow> armed st w"
  unfolding live_inv_def parked_def armed_def by (auto intro: rtranclp_trans)

text \<open>A cursor that waits on a settled store, and would go on waiting, has delivered everything.\<close>

lemma asleep_means_done:
  assumes "live_inv st0 start st s out" "lv_pc s = Parked w" "\<not> ca_ready ca st w" "settled st"
  shows "delivered out = items_after (ca_position_of ca) start (contents st)"
proof -
  obtain st1 st2 where p: "inv st1" "w = ca_arm ca st1" "env\<^sup>*\<^sup>* st1 st2" "env\<^sup>*\<^sup>* st2 st"
    "items_after (ca_position_of ca) (lv_read_from s) (contents st2) = []"
    using assms(1,2) by (auto simp: live_inv_def parked_def)
  obtain n1 where n1: "inv st2" "contents st2 = contents st1 @ n1" using env_steps [OF p(3,1)] by blast
  obtain n2 where n2: "contents st = contents st2 @ n2" using env_steps [OF p(4) n1(1)] by blast
  have "contents st = contents st1"
    using wakes [OF p(1) _ assms(4)] p(2-4) assms(3) by (meson rtranclp_trans)
  with n1(2) n2 have "contents st = contents st2" by simp
  with p(5) assms(1) show ?thesis by (simp add: live_inv_def progress_inv_def)
qed

end

section \<open>The cursor gets there\<close>

text \<open>What a fresh look at the store yields when \<open>xs\<close> is what is left.\<close>

fun looked :: "'i list \<Rightarrow> bool \<Rightarrow> ('i stream_step, 'e) result option \<Rightarrow> bool" where
  "looked [] caught_up y \<longleftrightarrow> caught_up \<or> y = Some (Inr CaughtUp)"
| "looked (i # rest) caught_up y \<longleftrightarrow> y = Some (Inr (StepEvent i))"

lemma live_iter_Suc:
  "live_step ca st s = (s1, x) \<Longrightarrow> live_iter ca st n s1 = (s2, out) \<Longrightarrow>
    live_iter ca st (Suc n) s = (s2, (case x of None \<Rightarrow> [] | Some y \<Rightarrow> [y]) @ out)"
  by simp

lemma live_iter_add:
  "live_iter ca st m s = (s1, out1) \<Longrightarrow> live_iter ca st n s1 = (s2, out2) \<Longrightarrow>
    live_iter ca st (m + n) s = (s2, out1 @ out2)"
proof (induction m arbitrary: s out1)
  case (Suc m)
  obtain s0 x where x: "live_step ca st s = (s0, x)" by fastforce
  obtain out0 where o0: "live_iter ca st m s0 = (s1, out0)" "out1 = (case x of None \<Rightarrow> [] | Some y \<Rightarrow> [y]) @ out0"
    using Suc.prems(1) x by (auto split: prod.splits)
  from Suc.IH [OF o0(1) Suc.prems(2)] o0(2) x show ?case by simp
qed simp

lemma live_run_iter:
  "live_run ca env begin_at st0 st s out \<Longrightarrow> live_iter ca st n s = (s', out') \<Longrightarrow>
    live_run ca env begin_at st0 st s' (out @ out')"
proof (induction n arbitrary: s out out')
  case (Suc n)
  obtain s1 x where x: "live_step ca st s = (s1, x)" by fastforce
  obtain out1 where o1: "live_iter ca st n s1 = (s', out1)" "out' = (case x of None \<Rightarrow> [] | Some y \<Rightarrow> [y]) @ out1"
    using Suc.prems(2) x by (auto split: prod.splits)
  from Suc.IH [OF run_step [OF Suc.prems(1) x] o1(1)] o1(2) show ?case by simp
qed simp

context live_catchup
begin

lemma live_iter_inv:
  "live_iter ca st n s = (s', out') \<Longrightarrow> live_inv st0 start st s out \<Longrightarrow> live_inv st0 start st s' (out @ out')"
proof (induction n arbitrary: s out out')
  case (Suc n)
  obtain s1 x where x: "live_step ca st s = (s1, x)" by fastforce
  obtain out1 where o1: "live_iter ca st n s1 = (s', out1)" "out' = (case x of None \<Rightarrow> [] | Some y \<Rightarrow> [y]) @ out1"
    using Suc.prems(1) x by (auto split: prod.splits)
  from Suc.IH [OF o1(1) live_inv_step [OF Suc.prems(2) x]] o1(2) show ?case by simp
qed simp

end

context reliable_catchup
begin

text \<open>From the top of the loop the cursor reaches a fresh look at the store in at most three silent steps.\<close>

lemma probe_step:
  assumes "live_inv st0 start st s out" "lv_pc s = Probing w sc"
  shows "\<exists>s' y. live_step ca st s = (s', y) \<and>
    looked (items_after (ca_position_of ca) (lv_read_from s) (contents st)) (lv_caught_up s) y"
proof -
  have a: "inv st" "scan_ok st (lv_read_from s) sc" "fresh sc" using assms by (simp_all add: live_inv_def)
  show ?thesis
  proof (cases "ca_next ca st sc")
    case None
    with next_end [OF a] assms(2) show ?thesis by (simp add: live_step_def live_probe_def)
  next
    case (Some p)
    obtain res sc' where p: "p = (res, sc')" by fastforce
    with Some next_total [OF a(1,2)] obtain i where "res = Inr i" by (cases res) auto
    with Some p assms(2) next_item [OF a(1,2), of i sc'] show ?thesis by (auto simp: live_step_def live_probe_def)
  qed
qed

lemma armed_steps:
  assumes "live_inv st0 start st s out" "lv_pc s = Armed w"
  shows "\<exists>s' y. live_iter ca st 2 s = (s', (case y of None \<Rightarrow> [] | Some z \<Rightarrow> [z])) \<and>
    looked (items_after (ca_position_of ca) (lv_read_from s) (contents st)) (lv_caught_up s) y"
proof -
  have "inv st" using assms by (simp add: live_inv_def)
  then obtain sc where "ca_read_after ca st (lv_read_from s) = Inr sc" using open_total by blast
  with assms(2) have s1: "live_step ca st s = (s\<lparr>lv_pc := Probing w sc\<rparr>, None)"
    by (simp add: live_step_def live_probe_open_def)
  from live_inv_step [OF assms(1) s1] have "live_inv st0 start st (s\<lparr>lv_pc := Probing w sc\<rparr>) out" by simp
  from probe_step [OF this, of w sc] obtain s' y where y: "live_step ca st (s\<lparr>lv_pc := Probing w sc\<rparr>) = (s', y)"
    "looked (items_after (ca_position_of ca) (lv_read_from s) (contents st)) (lv_caught_up s) y" by auto
  with s1 have "live_iter ca st 2 s = (s', (case y of None \<Rightarrow> [] | Some z \<Rightarrow> [z]))" by (simp add: numeral_2_eq_2)
  with y(2) show ?thesis by blast
qed

lemma open_steps:
  assumes "live_inv st0 start st s out" "lv_pc s = AtLoop" "lv_scan s = Some sc"
  shows "\<exists>n s' y. n \<le> 3 \<and> live_iter ca st n s = (s', (case y of None \<Rightarrow> [] | Some z \<Rightarrow> [z])) \<and>
    looked (items_after (ca_position_of ca) (lv_read_from s) (contents st)) (lv_caught_up s) y"
proof -
  have a: "inv st" "scan_ok st (lv_read_from s) sc" using assms by (simp_all add: live_inv_def)
  show ?thesis
  proof (cases "ca_next ca st sc")
    case None
    let ?s = "s\<lparr>lv_scan := None, lv_pc := Armed (ca_arm ca st)\<rparr>"
    from None assms(2,3) have s1: "live_step ca st s = (?s, None)" by (simp add: live_step_def live_drain_def)
    from live_inv_step [OF assms(1) s1] have "live_inv st0 start st ?s out" by simp
    from armed_steps [OF this, of "ca_arm ca st"] obtain s' y where
      y: "live_iter ca st 2 ?s = (s', (case y of None \<Rightarrow> [] | Some z \<Rightarrow> [z]))"
      "looked (items_after (ca_position_of ca) (lv_read_from s) (contents st)) (lv_caught_up s) y" by auto
    from live_iter_Suc [OF s1 y(1)] y(2) show ?thesis by (intro exI [of _ 3] exI [of _ s'] exI [of _ y]) (simp add: numeral_3_eq_3 numeral_2_eq_2)
  next
    case (Some p)
    obtain res sc' where p: "p = (res, sc')" by fastforce
    with Some next_total [OF a] obtain i where i: "res = Inr i" by (cases res) auto
    obtain s' where s1: "live_step ca st s = (s', Some (Inr (StepEvent i)))"
      using Some p i assms(2,3) by (auto simp: live_step_def live_drain_def Let_def)
    from live_iter_Suc [OF s1 live_iter.simps(1)] next_item [OF a, of i sc'] Some p i show ?thesis
      by (intro exI [of _ 1] exI [of _ s'] exI [of _ "Some (Inr (StepEvent i))"]) auto
  qed
qed

lemma loop_steps:
  assumes "live_inv st0 start st s out" "lv_pc s = AtLoop"
  shows "\<exists>n s' y. n \<le> 4 \<and> live_iter ca st n s = (s', (case y of None \<Rightarrow> [] | Some z \<Rightarrow> [z])) \<and>
    looked (items_after (ca_position_of ca) (lv_read_from s) (contents st)) (lv_caught_up s) y"
proof (cases "lv_scan s")
  case (Some sc)
  from open_steps [OF assms Some] obtain n s' y where
    "n \<le> 3" "live_iter ca st n s = (s', (case y of None \<Rightarrow> [] | Some z \<Rightarrow> [z]))"
    "looked (items_after (ca_position_of ca) (lv_read_from s) (contents st)) (lv_caught_up s) y" by blast
  then show ?thesis by (intro exI [of _ n] exI [of _ s'] exI [of _ y]) simp
next
  case None
  have "inv st" using assms by (simp add: live_inv_def)
  then obtain sc where "ca_read_after ca st (lv_read_from s) = Inr sc" using open_total by blast
  with None assms(2) have s1: "live_step ca st s = (s\<lparr>lv_scan := Some sc, lv_drained := 0\<rparr>, None)"
    by (simp add: live_step_def live_open_def)
  from live_inv_step [OF assms(1) s1] have "live_inv st0 start st (s\<lparr>lv_scan := Some sc, lv_drained := 0\<rparr>) out" by simp
  from open_steps [OF this, of sc] assms(2) obtain n s' y where
    n: "n \<le> 3" "live_iter ca st n (s\<lparr>lv_scan := Some sc, lv_drained := 0\<rparr>) = (s', (case y of None \<Rightarrow> [] | Some z \<Rightarrow> [z]))"
    "looked (items_after (ca_position_of ca) (lv_read_from s) (contents st)) (lv_caught_up s) y" by auto
  from live_iter_Suc [OF s1 n(2)] n(1,3) show ?thesis by (intro exI [of _ "Suc n"] exI [of _ s'] exI [of _ y]) simp
qed

lemma look_within_five:
  assumes "live_inv st0 start st s out"
    and "items_after (ca_position_of ca) (lv_read_from s) (contents st) \<noteq> [] \<or> \<not> lv_caught_up s"
    and "settled st \<or> \<not> lv_caught_up s"
  shows "\<exists>n s' y. n \<le> 5 \<and> live_iter ca st n s = (s', (case y of None \<Rightarrow> [] | Some z \<Rightarrow> [z])) \<and>
    looked (items_after (ca_position_of ca) (lv_read_from s) (contents st)) (lv_caught_up s) y"
proof (cases "lv_pc s")
  case AtLoop
  from loop_steps [OF assms(1) AtLoop] obtain n s' y where
    "n \<le> 4" "live_iter ca st n s = (s', (case y of None \<Rightarrow> [] | Some z \<Rightarrow> [z]))"
    "looked (items_after (ca_position_of ca) (lv_read_from s) (contents st)) (lv_caught_up s) y" by blast
  then show ?thesis by (intro exI [of _ n] exI [of _ s'] exI [of _ y]) simp
next
  case (Armed w)
  from armed_steps [OF assms(1) Armed] obtain s' y where
    "live_iter ca st 2 s = (s', (case y of None \<Rightarrow> [] | Some z \<Rightarrow> [z]))"
    "looked (items_after (ca_position_of ca) (lv_read_from s) (contents st)) (lv_caught_up s) y" by blast
  then show ?thesis by (intro exI [of _ 2] exI [of _ s'] exI [of _ y]) simp
next
  case (Probing w sc)
  from probe_step [OF assms(1) Probing] obtain s' y where
    "live_step ca st s = (s', y)"
    "looked (items_after (ca_position_of ca) (lv_read_from s) (contents st)) (lv_caught_up s) y" by blast
  then show ?thesis by (intro exI [of _ 1] exI [of _ s'] exI [of _ y]) simp
next
  case (Parked w)
  then have "lv_caught_up s" using assms(1) by (simp add: live_inv_def)
  with assms(3) have still: "settled st" by simp
  from \<open>lv_caught_up s\<close> assms(2) have more: "items_after (ca_position_of ca) (lv_read_from s) (contents st) \<noteq> []" by simp
  have eq: "items_after (ca_position_of ca) start (contents st) =
      delivered out @ items_after (ca_position_of ca) (lv_read_from s) (contents st)"
    using assms(1) by (simp add: live_inv_def progress_inv_def)
  have "ca_ready ca st w"
  proof (rule ccontr)
    assume "\<not> ca_ready ca st w"
    from asleep_means_done [OF assms(1) Parked this still] eq more show False by simp
  qed
  with Parked have s1: "live_step ca st s = (s\<lparr>lv_pc := AtLoop\<rparr>, None)" by (simp add: live_step_def)
  from live_inv_step [OF assms(1) s1] have i1: "live_inv st0 start st (s\<lparr>lv_pc := AtLoop\<rparr>) out" by simp
  have e: "lv_pc (s\<lparr>lv_pc := AtLoop\<rparr>) = AtLoop" "lv_read_from (s\<lparr>lv_pc := AtLoop\<rparr>) = lv_read_from s"
    "lv_caught_up (s\<lparr>lv_pc := AtLoop\<rparr>) = lv_caught_up s" by simp_all
  from loop_steps [OF i1 e(1), unfolded e(2,3)] obtain n s' y where
    n: "n \<le> 4" "live_iter ca st n (s\<lparr>lv_pc := AtLoop\<rparr>) = (s', (case y of None \<Rightarrow> [] | Some z \<Rightarrow> [z]))"
    "looked (items_after (ca_position_of ca) (lv_read_from s) (contents st)) (lv_caught_up s) y" by blast
  from live_iter_Suc [OF s1 n(2)] n(1,3) show ?thesis by (intro exI [of _ "Suc n"] exI [of _ s'] exI [of _ y]) simp
qed

lemma event_within_five:
  assumes "live_inv st0 start st s out" "items_after (ca_position_of ca) (lv_read_from s) (contents st) = i # rest"
    "settled st \<or> \<not> lv_caught_up s"
  shows "\<exists>n s'. n \<le> 5 \<and> live_iter ca st n s = (s', [Inr (StepEvent i)])"
proof -
  from look_within_five [OF assms(1) _ assms(3)] assms(2) obtain n s' y where
    n: "n \<le> 5" "live_iter ca st n s = (s', (case y of None \<Rightarrow> [] | Some z \<Rightarrow> [z]))" "looked (i # rest) (lv_caught_up s) y" by auto
  then have "live_iter ca st n s = (s', [Inr (StepEvent i)])" by simp
  with n(1) show ?thesis by blast
qed

lemma backlog_delivered:
  assumes "live_inv st0 start st s out" "items_after (ca_position_of ca) (lv_read_from s) (contents st) = xs"
    "settled st \<or> \<not> lv_caught_up s"
  shows "\<exists>n s'. n \<le> 5 * length xs \<and> live_iter ca st n s = (s', map (Inr \<circ> StepEvent) xs) \<and>
    live_inv st0 start st s' (out @ map (Inr \<circ> StepEvent) xs) \<and>
    items_after (ca_position_of ca) (lv_read_from s') (contents st) = []"
  using assms
proof (induction xs arbitrary: s out)
  case Nil
  then show ?case by (intro exI [of _ 0] exI [of _ s]) simp
next
  case (Cons i rest)
  obtain n1 s1 where n1: "n1 \<le> 5" "live_iter ca st n1 s = (s1, [Inr (StepEvent i)])"
    using event_within_five [OF Cons.prems] by blast
  have inv1: "live_inv st0 start st s1 (out @ [Inr (StepEvent i)])" by (rule live_iter_inv [OF n1(2) Cons.prems(1)])
  have "items_after (ca_position_of ca) start (contents st) = delivered out @ i # rest"
    using Cons.prems by (simp add: live_inv_def progress_inv_def)
  moreover have "items_after (ca_position_of ca) start (contents st) =
      delivered (out @ [Inr (StepEvent i)]) @ items_after (ca_position_of ca) (lv_read_from s1) (contents st)"
    using inv1 by (simp add: live_inv_def progress_inv_def)
  ultimately have "items_after (ca_position_of ca) (lv_read_from s1) (contents st) = rest" by simp
  moreover have "(if lv_caught_up s1 then 1 else 0) = (if lv_caught_up s then 1 else (0 :: nat))"
    using live_inv_markers [OF inv1] live_inv_markers [OF Cons.prems(1)] by (simp only: markers_simps add_0_right)
  then have "lv_caught_up s1 \<longleftrightarrow> lv_caught_up s" by (auto split: if_splits)
  ultimately obtain n2 s2 where n2: "n2 \<le> 5 * length rest"
    "live_iter ca st n2 s1 = (s2, map (Inr \<circ> StepEvent) rest)"
    "live_inv st0 start st s2 ((out @ [Inr (StepEvent i)]) @ map (Inr \<circ> StepEvent) rest)"
    "items_after (ca_position_of ca) (lv_read_from s2) (contents st) = []"
    using Cons.IH [OF inv1] Cons.prems(3) by blast
  from live_iter_add [OF n1(2) n2(2)] n1(1) n2 show ?case
    by (intro exI [of _ "n1 + n2"] exI [of _ s2]) (simp add: comp_def)
qed

lemma markers_events [simp]: "markers (map (Inr \<circ> StepEvent) xs) = 0"
  by (simp add: markers_def filter_empty_conv)

text \<open>On a store that stands still a new cursor delivers the whole backlog, then the marker, whatever wakes are due.\<close>

lemma catches_up:
  assumes "inv st"
  shows "\<exists>n s'. n \<le> 5 * length (items_after (ca_position_of ca) start (contents st)) + 5 \<and>
    live_iter ca st n (live_new start) =
      (s', map (Inr \<circ> StepEvent) (items_after (ca_position_of ca) start (contents st)) @ [Inr CaughtUp])"
proof -
  let ?xs = "items_after (ca_position_of ca) start (contents st)"
  have "items_after (ca_position_of ca) (lv_read_from (live_new start :: ('b, 'd, 'f) live_state)) (contents st) = ?xs"
    by (simp add: live_new_def)
  from backlog_delivered [OF live_inv_start [OF assms] this] obtain n1 s1 where n1: "n1 \<le> 5 * length ?xs"
    "live_iter ca st n1 (live_new start) = (s1, map (Inr \<circ> StepEvent) ?xs)"
    "live_inv st start st s1 ([] @ map (Inr \<circ> StepEvent) ?xs)"
    "items_after (ca_position_of ca) (lv_read_from s1) (contents st) = []" by (auto simp: live_new_def)
  have "markers (map (Inr \<circ> StepEvent) ?xs :: ('c stream_step, 'e) result list) = (if lv_caught_up s1 then 1 else 0)"
    using live_inv_markers [OF n1(3)] by simp
  then have nc: "\<not> lv_caught_up s1" by (auto split: if_splits)
  from look_within_five [OF n1(3)] n1(4) nc obtain n2 s2 y where n2: "n2 \<le> 5"
    "live_iter ca st n2 s1 = (s2, (case y of None \<Rightarrow> [] | Some z \<Rightarrow> [z]))" "looked [] (lv_caught_up s1) y" by auto
  with nc have "live_iter ca st n2 s1 = (s2, [Inr CaughtUp])" by simp
  from live_iter_add [OF n1(2) this] n1(1) n2(1) show ?thesis by (intro exI [of _ "n1 + n2"] exI [of _ s2]) simp
qed

end

end
