(* ===== verification/Live_Subscription.thy ===== *)
theory Live_Subscription
  imports InMemory_Atomic Live_Cursor
begin

text \<open>
  Subscriptions, \<open>crates/store/src/subscription.rs\<close>, over the two catch-up targets of
  \<open>catchup.rs\<close>: one stream by version, and everything by \<open>$all\<close> position. The targets are generic over
  the store: what a read opens, one poll of it, and the wake registry are arguments.

  On the in-memory adapter both targets meet the contracts \<open>live_catchup\<close> and \<open>reliable_catchup\<close>
  while commits, the wakes they leave due, registrations, releases and spurious wakes interleave with the
  cursor: an append makes its events visible when it drops the write lock and wakes the stream after, so
  that a cursor may run, arm and park between the two.
\<close>

section \<open>The targets\<close>

definition tag_version :: "(persisted_envelope, 'err) result \<Rightarrow> (version \<times> persisted_envelope, 'err) result" where
  "tag_version item = map_ok (\<lambda>env. (ps_version env, env)) item"

record 'reg stream_catchup =
  sc_id :: stream_key
  sc_reg :: 'reg

definition stream_catchup_new ::
  "(bytes option \<Rightarrow> 'w \<Rightarrow> ('reg, 'werr) result \<times> 'w) \<Rightarrow> bytes \<Rightarrow> 'w \<Rightarrow> ('reg stream_catchup, 'werr) result \<times> 'w" where
  "stream_catchup_new register id_bytes w =
    (case register (Some id_bytes) w of
       (Inl e, w') \<Rightarrow> (Inl e, w')
     | (Inr reg, w') \<Rightarrow> (Inr \<lparr>sc_id = stream_key_from_slice id_bytes, sc_reg = reg\<rparr>, w'))"

text \<open>\<open>Either::Left\<close> is a scan of the store whose items are tagged, \<open>Either::Right\<close> the empty scan past
  the last version.\<close>

datatype 'sc stream_scan = ScanTagged 'sc | ScanEmpty

definition stream_read_after ::
  "('st \<Rightarrow> stream_key \<Rightarrow> version \<Rightarrow> ('sc, 'err) result) \<Rightarrow> stream_key \<Rightarrow> 'st \<Rightarrow> version option
    \<Rightarrow> ('sc stream_scan, 'err) result" where
  "stream_read_after read_stream i st from =
    (let resume = (case from of None \<Rightarrow> Some version_INITIAL | Some v \<Rightarrow> version_next v) in
     case resume of
       Some v \<Rightarrow> map_ok ScanTagged (read_stream st i v)
     | None \<Rightarrow> Inr ScanEmpty)"

definition stream_scan_next ::
  "('st \<Rightarrow> 'sc \<Rightarrow> ((persisted_envelope, 'err) result \<times> 'sc) option) \<Rightarrow> 'st \<Rightarrow> 'sc stream_scan
    \<Rightarrow> ((version \<times> persisted_envelope, 'err) result \<times> 'sc stream_scan) option" where
  "stream_scan_next poll st scan =
    (case scan of
       ScanTagged sc \<Rightarrow> map_option (\<lambda>(item, sc'). (tag_version item, ScanTagged sc')) (poll st sc)
     | ScanEmpty \<Rightarrow> None)"

definition stream_target ::
  "('st \<Rightarrow> stream_key \<Rightarrow> version \<Rightarrow> ('sc, 'err) result) \<Rightarrow> ('st \<Rightarrow> 'sc \<Rightarrow> ((persisted_envelope, 'err) result \<times> 'sc) option)
    \<Rightarrow> ('st \<Rightarrow> 'reg \<Rightarrow> 'w) \<Rightarrow> ('st \<Rightarrow> 'w \<Rightarrow> bool) \<Rightarrow> 'reg stream_catchup
    \<Rightarrow> ('st, version, version \<times> persisted_envelope, 'sc stream_scan, 'err, 'w) catchup" where
  "stream_target read_stream poll arm ready c =
    \<lparr>ca_read_after = stream_read_after read_stream (sc_id c), ca_next = stream_scan_next poll, ca_position_of = fst,
     ca_arm = (\<lambda>st. arm st (sc_reg c)), ca_ready = ready\<rparr>"

definition all_catchup_new ::
  "(bytes option \<Rightarrow> 'w \<Rightarrow> ('reg, 'werr) result \<times> 'w) \<Rightarrow> 'w \<Rightarrow> ('reg, 'werr) result \<times> 'w" where
  "all_catchup_new register w = register None w"

definition all_target ::
  "('st \<Rightarrow> 'p option \<Rightarrow> ('sc, 'err) result)
    \<Rightarrow> ('st \<Rightarrow> 'sc \<Rightarrow> (('p \<times> stream_key \<times> persisted_envelope, 'err) result \<times> 'sc) option)
    \<Rightarrow> ('st \<Rightarrow> 'reg \<Rightarrow> 'w) \<Rightarrow> ('st \<Rightarrow> 'w \<Rightarrow> bool) \<Rightarrow> 'reg
    \<Rightarrow> ('st, 'p, 'p \<times> stream_key \<times> persisted_envelope, 'sc, 'err, 'w) catchup" where
  "all_target read_all poll arm ready reg =
    \<lparr>ca_read_after = read_all, ca_next = poll, ca_position_of = fst, ca_arm = (\<lambda>st. arm st reg), ca_ready = ready\<rparr>"

section \<open>Subscriptions\<close>

definition subscribe ::
  "(bytes option \<Rightarrow> 'w \<Rightarrow> ('reg, 'werr) result \<times> 'w) \<Rightarrow> bytes \<Rightarrow> version option \<Rightarrow> 'w
    \<Rightarrow> ('reg stream_catchup \<times> (version, 'sc, 'wt) live_state, 'werr) result \<times> 'w" where
  "subscribe register i from w =
    (case stream_catchup_new register i w of
       (Inl e, w') \<Rightarrow> (Inl e, w')
     | (Inr catchup, w') \<Rightarrow> (Inr (catchup, live_new from), w'))"

text \<open>The item a subscriber to one stream sees: the tag is dropped from each event.\<close>

definition untag :: "((version \<times> persisted_envelope) stream_step, 'err) result \<Rightarrow> (persisted_envelope stream_step, 'err) result" where
  "untag item = map_ok (step_map snd) item"

definition subscribe_all ::
  "(bytes option \<Rightarrow> 'w \<Rightarrow> ('reg, 'werr) result \<times> 'w) \<Rightarrow> 'p option \<Rightarrow> 'w
    \<Rightarrow> ('reg \<times> ('p, 'sc, 'wt) live_state, 'werr) result \<times> 'w" where
  "subscribe_all register from w =
    (case all_catchup_new register w of
       (Inl e, w') \<Rightarrow> (Inl e, w')
     | (Inr catchup, w') \<Rightarrow> (Inr (catchup, live_new from), w'))"

section \<open>The in-memory adapter as a target\<close>

definition im_register :: "bytes option \<Rightarrow> im_store \<Rightarrow> (wake_reg, notify_error) result \<times> im_store" where
  "im_register stream st =
    (case nt_register stream (im_notifiers st) of (r, n) \<Rightarrow> (r, st\<lparr>im_notifiers := n\<rparr>))"

text \<open>A system state is the store with the live registrations and the wakes in flight: the streams whose
  commit is visible and whose wake has still to be raised. The cursor reads only the store.\<close>

type_synonym sub_system = "im_store \<times> wake_reg multiset \<times> bytes multiset"

abbreviation sub_regs :: "sub_system \<Rightarrow> wake_reg multiset" where
  "sub_regs w \<equiv> fst (snd w)"

abbreviation sub_due :: "sub_system \<Rightarrow> bytes multiset" where
  "sub_due w \<equiv> snd (snd w)"

definition im_stream_target ::
  "wake_reg stream_catchup
    \<Rightarrow> (sub_system, version, version \<times> persisted_envelope, read_state stream_scan, inmemory_error, wake_wait) catchup" where
  "im_stream_target c =
    stream_target (\<lambda>w k v. Inr (read_stream_start (fst w) k v)) (\<lambda>w. read_poll (im_inner (fst w)))
      (\<lambda>w. nt_arm (im_notifiers (fst w))) (\<lambda>w. nt_ready (im_notifiers (fst w))) c"

definition im_all_target ::
  "wake_reg \<Rightarrow> (sub_system, all_pos, all_pos \<times> stream_key \<times> persisted_envelope, global_read_state, inmemory_error, wake_wait) catchup" where
  "im_all_target r =
    all_target (\<lambda>w p. Inr (read_all_start (fst w) p)) (\<lambda>w. global_poll (im_inner (fst w)))
      (\<lambda>w. nt_arm (im_notifiers (fst w))) (\<lambda>w. nt_ready (im_notifiers (fst w))) r"

text \<open>The commit of a write, whatever its result, with the wakes it leaves to be raised.\<close>

inductive im_commit :: "im_store \<Rightarrow> im_store \<Rightarrow> bytes list \<Rightarrow> bool" where
  commit_append: "batch_ok b \<Longrightarrow> im_append_locked k e b st = (r, st', ks) \<Longrightarrow> im_commit st st' ks"
| commit_atomic: "\<forall>w \<in> set ws. planned_ok w \<Longrightarrow> im_atomic_append_locked ws st = (r, st', ks) \<Longrightarrow> im_commit st st' ks"

text \<open>What may happen to the store while a subscription with registration \<open>r\<close> is alive.\<close>

inductive sub_env :: "wake_reg \<Rightarrow> sub_system \<Rightarrow> sub_system \<Rightarrow> bool" for r where
  env_commit: "im_commit st st' ks \<Longrightarrow> sub_env r (st, regs, due) (st', regs, due + mset ks)"
| env_wake: "k \<in># due \<Longrightarrow> sub_env r (st, regs, due) (im_wake k st, regs, due - {#k#})"
| env_reg: "wake_step (im_notifiers st, regs) (n', regs') \<Longrightarrow> r \<in># regs' \<Longrightarrow>
    sub_env r (st, regs, due) (st\<lparr>im_notifiers := n'\<rparr>, regs', due)"

inductive sub_reachable :: "sub_system \<Rightarrow> bool" where
  sub_start: "batch_size_new n = Inr m \<Longrightarrow> sub_reachable (im_with_batch_size m, {#}, {#})"
| sub_commit: "sub_reachable (st, regs, due) \<Longrightarrow> im_commit st st' ks \<Longrightarrow> sub_reachable (st', regs, due + mset ks)"
| sub_wake: "sub_reachable (st, regs, due) \<Longrightarrow> k \<in># due \<Longrightarrow> sub_reachable (im_wake k st, regs, due - {#k#})"
| sub_reg: "sub_reachable (st, regs, due) \<Longrightarrow> wake_step (im_notifiers st, regs) (n', regs') \<Longrightarrow>
    sub_reachable (st\<lparr>im_notifiers := n'\<rparr>, regs', due)"

definition stream_contents :: "stream_key \<Rightarrow> sub_system \<Rightarrow> (version \<times> persisted_envelope) list" where
  "stream_contents k w = map (\<lambda>p. (pe_version p, persisted_of p)) (im_hist (fst w) k)"

definition all_contents :: "sub_system \<Rightarrow> (all_pos \<times> stream_key \<times> persisted_envelope) list" where
  "all_contents w = map (\<lambda>(pos, k, p). (pos, k, persisted_of p)) (im_log (fst w))"

section \<open>The environment grows the store and wakes the waiters\<close>

definition covers :: "wake_reg \<Rightarrow> bytes \<Rightarrow> bool" where
  "covers r k \<longleftrightarrow> wr_guard r = None \<or> wr_guard r = Some k"

definition sub_inv :: "wake_reg \<Rightarrow> sub_system \<Rightarrow> bool" where
  "sub_inv r w \<longleftrightarrow> im_inv (fst w) \<and> wake_inv (im_notifiers (fst w), sub_regs w) \<and> r \<in># sub_regs w"

definition chan_sends :: "wake_reg \<Rightarrow> sub_system \<Rightarrow> nat" where
  "chan_sends r w = w_sends (nt_chans (im_notifiers (fst w)) (wr_chan r))"

lemma im_notifiers_frame [simp]:
  "im_hist (st\<lparr>im_notifiers := n\<rparr>) k = im_hist st k" "im_log (st\<lparr>im_notifiers := n\<rparr>) = im_log st"
  "im_inv (st\<lparr>im_notifiers := n\<rparr>) = im_inv st"
  by (simp_all add: im_hist_def im_log_def im_inv_def)

lemma im_wake_frame [simp]: "im_hist (im_wake i st) k = im_hist st k" "im_log (im_wake i st) = im_log st"
  "im_inv (im_wake i st) = im_inv st" "im_inner (im_wake i st) = im_inner st"
  "im_notifiers (im_wake i st) = nt_wake i (im_notifiers st)"
  by (simp_all add: im_wake_def)

lemma fold_wake_frame [simp]: "im_hist (fold im_wake ks st) k = im_hist st k" "im_log (fold im_wake ks st) = im_log st"
  "im_inv (fold im_wake ks st) = im_inv st"
  by (simp_all add: fold_im_wake)

text \<open>A commit leaves the store as it was and no wake due, or appends to some streams and leaves a wake due
  for each of them.\<close>

lemma im_append_locked_woken:
  "im_append_locked k e b st = (r, st', ks) \<Longrightarrow> ks = [] \<and> st' = st \<or> ks = [key_bytes k] \<and> (\<exists>pos. r = Returns (Inr pos))"
  by (auto simp: im_append_locked_def Let_def split: if_splits sum.splits call.splits)

lemma im_atomic_locked_woken:
  "im_atomic_append_locked ws st = (r, st', ks) \<Longrightarrow>
    ks = [] \<and> st' = st \<or> ks = map (\<lambda>w. key_bytes (pa_target w)) ws \<and> (\<exists>pos. r = Returns (Inr pos))"
  by (auto simp: im_atomic_append_locked_def Let_def split: if_splits sum.splits call.splits)

lemma im_commit_notifiers: "im_commit st st' ks \<Longrightarrow> im_notifiers st' = im_notifiers st"
  by (auto elim!: im_commit.cases dest: im_append_locked_notifiers im_atomic_locked_notifiers)

lemma im_commit_step: "im_commit st st' ks \<Longrightarrow> im_step st (fold im_wake ks st')"
proof (induction rule: im_commit.induct)
  case (commit_append b k e st r st' ks)
  show ?case by (rule step_append [OF commit_append(1), of k e st r]) (simp add: im_append_def commit_append(2))
next
  case (commit_atomic ws st r st' ks)
  show ?case by (rule step_atomic [OF commit_atomic(1), of st r]) (simp add: im_atomic_append_many_def commit_atomic(2))
qed

lemma im_commit_grows:
  assumes "im_commit st st' ks" "im_inv st"
  shows "im_inv st'" "\<exists>new. im_hist st' k = im_hist st k @ new"
proof -
  have "im_inv (fold im_wake ks st') \<and> (\<exists>new. im_hist (fold im_wake ks st') k = im_hist st k @ new)"
    using im_step_cases [OF im_commit_step [OF assms(1)] assms(2)] unfolding im_hist_def by (metis map_append)
  then show "im_inv st'" "\<exists>new. im_hist st' k = im_hist st k @ new" by simp_all
qed

lemma im_commit_effect:
  assumes "im_commit st st' ks" "im_inv st"
  shows "(\<exists>new. im_log st' = im_log st @ new) \<and> (ks = [] \<longrightarrow> st' = st) \<and>
    (\<forall>k. key_bytes k \<notin> set ks \<longrightarrow> im_hist st' k = im_hist st k)"
  using assms(1)
proof (cases rule: im_commit.cases)
  case (commit_append b j e r)
  from im_append_locked_woken [OF commit_append(2)] show ?thesis
  proof (elim disjE conjE exE)
    fix pos
    assume ks: "ks = [key_bytes j]" "r = Returns (Inr pos)"
    with commit_append(2) have a: "im_append j e b st = (Returns (Inr pos), fold im_wake ks st')" by (simp add: im_append_def)
    obtain new where "im_log (fold im_wake ks st') = im_log st @ new"
      using im_append_commit [OF assms(2) commit_append(1) a] by blast
    moreover have "im_hist (fold im_wake ks st') k = im_hist st k" if "k \<noteq> j" for k
      using im.hist_append(2) [OF assms(2) commit_append(1) a that] .
    ultimately show ?thesis using ks(1) by force
  qed simp
next
  case (commit_atomic ws r)
  from im_atomic_locked_woken [OF commit_atomic(2)] show ?thesis
  proof (elim disjE conjE exE)
    fix pos
    assume ks: "ks = map (\<lambda>w. key_bytes (pa_target w)) ws" "r = Returns (Inr pos)"
    with commit_atomic(2) have a: "im_atomic_append_many ws st = (Returns (Inr pos), fold im_wake ks st')"
      by (simp add: im_atomic_append_many_def)
    obtain new where "im_log (fold im_wake ks st') = im_log st @ new"
      using im_atomic_commit [OF assms(2) commit_atomic(1) a] by blast
    moreover have "im_hist (fold im_wake ks st') k = im_hist st k" if "k \<notin> set (map pa_target ws)" for k
      using ima.atomic_hist(2) [OF assms(2) commit_atomic(1) a, of k] that by simp
    moreover have "st' = st" if "ks = []"
      using that ks commit_atomic(2) by (simp add: im_atomic_append_locked_def)
    ultimately show ?thesis using ks(1) by force
  qed simp
qed

lemma im_commit_frame: "im_commit st st' ks \<Longrightarrow> im_inv st \<Longrightarrow> key_bytes k \<notin> set ks \<Longrightarrow> im_hist st' k = im_hist st k"
  using im_commit_effect by blast

text \<open>A registration step keeps the store's contents and never takes a send back.\<close>

lemma reg_chan:
  assumes "wake_inv (n, regs)" "r \<in># regs"
  shows "wr_chan r < nt_fresh n"
proof (cases "wr_guard r")
  case None
  with assms wake_invD(1,3) [OF assms(1)] show ?thesis by metis
next
  case (Some key)
  then have g: "r \<in># guards key regs" using assms(2) by (simp add: guards_def)
  then obtain e where e: "nt_map n key = Some e"
    using wake_invD(4) [OF assms(1), of key] by (cases "nt_map n key") auto
  with g wake_invD(5) [OF assms(1) e] show ?thesis by (auto simp: entry_inv_def)
qed

lemma wake_step_sends:
  assumes "wake_step (n, regs) (n', regs')" "wake_inv (n, regs)" "r \<in># regs"
  shows "w_sends (nt_chans n (wr_chan r)) \<le> w_sends (nt_chans n' (wr_chan r))"
  using assms(1)
proof (cases rule: wake_step.cases)
  case (step_register s r')
  show ?thesis
  proof (cases s)
    case None
    with step_register show ?thesis by (auto simp: nt_register_def)
  next
    case (Some key)
    with step_register reg_chan [OF assms(2,3)] show ?thesis
      by (cases "nt_map n key") (auto simp: nt_register_def register_entry_fresh register_entry_existing split: if_splits)
  qed
next
  case (step_refuse s e)
  then show ?thesis using nt_register_Inl by fastforce
next
  case (step_wake k)
  then show ?thesis by (simp add: nt_wake_sends)
next
  case (step_drop r')
  then show ?thesis by (auto simp: reg_drop_def nt_release_def split: option.splits)
qed

lemma sub_env_inv: "sub_env r w w' \<Longrightarrow> sub_inv r w \<Longrightarrow> sub_inv r w'"
proof (induction rule: sub_env.induct)
  case (env_commit st st' ks regs due)
  then show ?case using im_commit_grows(1) im_commit_notifiers by (simp add: sub_inv_def)
next
  case (env_wake k due st regs)
  then show ?case by (simp add: sub_inv_def wake_inv_wake)
next
  case (env_reg st regs n' regs' due)
  then show ?case using wake_inv_step [of "(im_notifiers st, regs)" "(n', regs')"] by (simp add: sub_inv_def)
qed

lemma sub_env_grows:
  assumes "sub_env r w w'" "sub_inv r w"
  shows "\<exists>new. im_hist (fst w') k = im_hist (fst w) k @ new" "\<exists>new. im_log (fst w') = im_log (fst w) @ new"
  using assms by (auto elim!: sub_env.cases simp: sub_inv_def im_commit_grows im_commit_effect)

text \<open>Raising a wake that the registration covers moves its channel.\<close>

lemma wake_moves:
  assumes "sub_inv r w" "covers r k"
  shows "chan_sends r w < w_sends (nt_chans (nt_wake k (im_notifiers (fst w))) (wr_chan r))"
  using fold_wake_advances [of "(im_notifiers (fst w), sub_regs w)" r k "[k]"] assms
  by (simp add: nt_watches_def covers_def sub_inv_def chan_sends_def sys_wake_def)

lemma sub_env_sends:
  assumes "sub_env r w w'" "sub_inv r w"
  shows "chan_sends r w \<le> chan_sends r w'"
  using assms(1)
proof (cases rule: sub_env.cases)
  case (env_commit st st' ks regs due)
  then show ?thesis using im_commit_notifiers by (simp add: chan_sends_def)
next
  case (env_wake k due st regs)
  then show ?thesis by (simp add: chan_sends_def nt_wake_sends)
next
  case (env_reg st regs n' regs' due)
  then show ?thesis
    using wake_step_sends [of "im_notifiers st" regs n' regs' r] assms(2)
    by (simp add: chan_sends_def sub_inv_def)
qed

text \<open>A due wake stays due until it is raised; a commit that changes the store leaves its wakes due.\<close>

lemma sub_env_due:
  assumes "sub_env r w w'" "sub_inv r w" "k \<in># sub_due w" "covers r k"
  shows "chan_sends r w < chan_sends r w' \<or> k \<in># sub_due w'"
  using assms(1)
proof (cases rule: sub_env.cases)
  case (env_wake j due st regs)
  then show ?thesis
    using assms(3) wake_moves [OF assms(2,4)] by (cases "j = k") (auto simp: chan_sends_def in_diff_count)
qed (use assms(3) in auto)

lemma sub_env_changes:
  assumes "sub_env r w w'" "sub_inv r w"
  shows "im_hist (fst w') k \<noteq> im_hist (fst w) k \<Longrightarrow> key_bytes k \<in># sub_due w'"
    "im_log (fst w') \<noteq> im_log (fst w) \<Longrightarrow> sub_due w' \<noteq> {#}"
  using assms by (auto elim!: sub_env.cases simp: sub_inv_def dest: im_commit_effect im_commit_frame)

text \<open>Whatever of the store is watched step by step is watched over any number of steps: when it changed, the
  channel moved or a wake that will move it is due.\<close>

lemma sub_env_watched:
  assumes "(sub_env r)\<^sup>*\<^sup>* w w'" "sub_inv r w"
    and step: "\<And>w w'. sub_inv r w \<Longrightarrow> sub_env r w w' \<Longrightarrow> f w' \<noteq> f w \<Longrightarrow> \<exists>k \<in># sub_due w'. covers r k"
  shows "sub_inv r w' \<and> chan_sends r w \<le> chan_sends r w' \<and>
    (f w' \<noteq> f w \<longrightarrow> chan_sends r w < chan_sends r w' \<or> (\<exists>k \<in># sub_due w'. covers r k))"
  using assms(1,2)
proof (induction rule: rtranclp_induct)
  case (step y z)
  have y: "sub_inv r y" "chan_sends r w \<le> chan_sends r y"
    "f y \<noteq> f w \<longrightarrow> chan_sends r w < chan_sends r y \<or> (\<exists>k \<in># sub_due y. covers r k)" using step by auto
  have mono: "chan_sends r y \<le> chan_sends r z" by (rule sub_env_sends [OF step.hyps(2) y(1)])
  have due: "chan_sends r y < chan_sends r z \<or> (\<exists>k \<in># sub_due z. covers r k)" if "\<exists>k \<in># sub_due y. covers r k"
    using that sub_env_due [OF step.hyps(2) y(1)] by blast
  have "chan_sends r w < chan_sends r z \<or> (\<exists>k \<in># sub_due z. covers r k)" if "f z \<noteq> f w"
  proof (cases "f z = f y")
    case True
    with that y(3) have "chan_sends r w < chan_sends r y \<or> (\<exists>k \<in># sub_due y. covers r k)" by simp
    then show ?thesis
    proof
      assume "\<exists>k \<in># sub_due y. covers r k"
      from due [OF this] y(2) show ?thesis by (elim disjE) simp_all
    qed (use mono in simp)
  qed (use assms(3) [OF y(1) step.hyps(2)] in blast)
  with y(2) mono sub_env_inv [OF step.hyps(2) y(1)] show ?case by simp
qed simp

text \<open>A wait that is still armed is ready after any due wake the registration covers.\<close>

lemma due_wake_ready:
  assumes "(sub_env r)\<^sup>*\<^sup>* w w'" "sub_inv r w" "covers r k"
  shows "nt_ready (nt_wake k (im_notifiers (fst w'))) (nt_arm (im_notifiers (fst w)) r)"
proof -
  have "sub_inv r w'" "chan_sends r w \<le> chan_sends r w'"
    using sub_env_watched [OF assms(1,2), of "\<lambda>_. ()"] by auto
  with wake_moves [OF _ assms(3), of w'] show ?thesis
    by (simp add: nt_ready_def nt_arm_def chan_sends_def)
qed

text \<open>The finer steps include the whole operations: an append or an atomic append with all its wakes.\<close>

lemma due_wakes_raised: "(sub_env r)\<^sup>*\<^sup>* (st, regs, due + mset ks) (fold im_wake ks st, regs, due)"
proof (induction ks arbitrary: st)
  case (Cons k ks)
  have "sub_env r (st, regs, due + mset (k # ks)) (im_wake k st, regs, due + mset ks)"
    using env_wake [of k "due + mset (k # ks)" r st regs] by simp
  with Cons [of "im_wake k st"] show ?case by (simp add: converse_rtranclp_into_rtranclp)
qed simp

lemma im_step_commit: "im_step st st' \<Longrightarrow> \<exists>st1 ks. im_commit st st1 ks \<and> st' = fold im_wake ks st1"
proof (induction rule: im_step.induct)
  case (step_append b k e st r st')
  then show ?case by (auto simp: im_append_def split: prod.splits intro: commit_append)
next
  case (step_atomic ws st r st')
  then show ?case by (auto simp: im_atomic_append_many_def split: prod.splits intro: commit_atomic)
qed

lemma sub_reachable_wakes: "sub_reachable (st, regs, due + mset ks) \<Longrightarrow> sub_reachable (fold im_wake ks st, regs, due)"
proof (induction ks arbitrary: st)
  case (Cons k ks)
  from sub_wake [OF Cons.prems, of k] Cons.IH [of "im_wake k st"] show ?case by simp
qed simp

lemma sub_reachable_step: "sub_reachable (st, regs, due) \<Longrightarrow> im_step st st' \<Longrightarrow> sub_reachable (st', regs, due)"
  using im_step_commit sub_commit sub_reachable_wakes by blast

lemma sends_ready: "chan_sends r w < chan_sends r w' \<Longrightarrow> nt_ready (im_notifiers (fst w')) (nt_arm (im_notifiers (fst w)) r)"
  by (simp add: nt_ready_def nt_arm_def chan_sends_def)

section \<open>The targets keep the contract\<close>

fun stream_fresh :: "read_state stream_scan \<Rightarrow> bool" where
  "stream_fresh (ScanTagged r) \<longleftrightarrow> rs_buffer r = [] \<and> \<not> rs_done r"
| "stream_fresh ScanEmpty \<longleftrightarrow> True"

definition resume_at :: "version option \<Rightarrow> nat" where
  "resume_at p = (case p of None \<Rightarrow> 0 | Some v \<Rightarrow> vnum v)"

fun stream_scan_ok :: "stream_key \<Rightarrow> sub_system \<Rightarrow> version option \<Rightarrow> read_state stream_scan \<Rightarrow> bool" where
  "stream_scan_ok k w p (ScanTagged r) \<longleftrightarrow> read_inv (im_hist (fst w) k) k (resume_at p) r"
| "stream_scan_ok k w p ScanEmpty \<longleftrightarrow> resume_at p = vmax"

lemma stream_items_after:
  assumes "im_inv (fst w)"
  shows "items_after fst p (stream_contents k w) = drop (resume_at p) (stream_contents k w)"
proof -
  have run: "run_from 0 (im_hist (fst w) k)" using im.hist_run [OF assms] .
  have "filter (\<lambda>q. Suc (resume_at p) \<le> vnum (pe_version q)) (im_hist (fst w) k) = drop (resume_at p) (im_hist (fst w) k)"
    using filter_run [OF run, of "Suc (resume_at p)"] by simp
  moreover have "(case p of None \<Rightarrow> True | Some q \<Rightarrow> q < v) \<longleftrightarrow> Suc (resume_at p) \<le> vnum v" for v
    by (simp add: resume_at_def version_less_vnum Suc_le_eq split: option.split)
  ultimately show ?thesis by (simp add: items_after_def stream_contents_def filter_map comp_def drop_map)
qed

definition stream_sub_inv :: "wake_reg stream_catchup \<Rightarrow> sub_system \<Rightarrow> bool" where
  "stream_sub_inv c w \<longleftrightarrow> sub_inv (sc_reg c) w \<and> wr_guard (sc_reg c) = Some (key_bytes (sc_id c))"

lemmas stream_target_simps = im_stream_target_def stream_target_def

lemma stream_target_parts [simp]:
  "ca_position_of (im_stream_target c) = fst" "ca_ready (im_stream_target c) w = nt_ready (im_notifiers (fst w))"
  "ca_arm (im_stream_target c) w = nt_arm (im_notifiers (fst w)) (sc_reg c)"
  by (simp_all add: stream_target_simps)

lemma stream_next_cases:
  assumes inv: "im_inv (fst w)" and ok: "stream_scan_ok k w p sc"
  shows "case ca_next (im_stream_target c) w sc of
      None \<Rightarrow> stream_fresh sc \<longrightarrow> items_after fst p (stream_contents k w) = []
    | Some (res, sc') \<Rightarrow> \<exists>i rest. res = Inr i \<and> items_after fst p (stream_contents k w) = i # rest \<and>
        stream_scan_ok k w (Some (fst i)) sc'"
proof (cases sc)
  case ScanEmpty
  have "length (im_hist (fst w) k) < vmax"
    using inner_inv_length [of "im_inner (fst w)" k] inv by (simp add: im_inv_def im_hist_def)
  with ScanEmpty ok show ?thesis
    using stream_items_after [OF inv, of p k]
    by (simp add: stream_target_simps stream_scan_next_def stream_contents_def)
next
  case (ScanTagged r)
  let ?h = "im_hist (fst w) k" and ?n = "resume_at p"
  have r: "read_inv ?h k ?n r" using ok ScanTagged by simp
  have P: "case read_poll (im_inner (fst w)) r of
      None \<Rightarrow> rs_buffer r = [] \<and> (rs_done r \<or> length ?h \<le> ?n)
    | Some (item, r') \<Rightarrow> ?n < length ?h \<and> item = Inr (persisted_of (?h ! ?n)) \<and> read_inv ?h k (Suc ?n) r' \<and>
        (rs_done r' \<longrightarrow> rs_done r \<or> length ?h \<le> Suc ?n + length (rs_buffer r'))"
    by (rule read_poll_step [OF _ im_rows_hist [OF inv] _ r]) (use inv im_hist_fits [OF inv] in \<open>auto simp: im_inv_def\<close>)
  note items = stream_items_after [OF inv, of p k]
  show ?thesis
  proof (cases "read_poll (im_inner (fst w)) r")
    case None
    with P ScanTagged items show ?thesis
      by (auto simp: stream_target_simps stream_scan_next_def stream_contents_def)
  next
    case (Some x)
    obtain item r' where x: "x = (item, r')" by fastforce
    have n: "?n < length ?h" "item = Inr (persisted_of (?h ! ?n))" "read_inv ?h k (Suc ?n) r'" using P Some x by auto
    have "vnum (pe_version (?h ! ?n)) = Suc ?n"
      using run_from_nth [OF im.hist_run [OF inv] n(1)] by simp
    moreover have "items_after fst p (stream_contents k w) =
        (pe_version (?h ! ?n), persisted_of (?h ! ?n)) # drop (Suc ?n) (stream_contents k w)"
      using items n(1) by (simp add: Cons_nth_drop_Suc [symmetric] stream_contents_def drop_map)
    ultimately show ?thesis
      using Some x n ScanTagged
      by (simp add: stream_target_simps stream_scan_next_def tag_version_def result_simps resume_at_def)
  qed
qed

lemma stream_open_ok:
  assumes "im_inv (fst w)" "ca_read_after (im_stream_target c) w p = Inr sc"
  shows "stream_scan_ok (sc_id c) w p sc \<and> stream_fresh sc"
proof -
  have b: "0 < im_batch_size (fst w)" using assms(1) by (simp add: im_inv_def)
  have start: "stream_scan_ok (sc_id c) w p (ScanTagged (read_stream_start (fst w) (sc_id c) v)) \<and>
      stream_fresh (ScanTagged (read_stream_start (fst w) (sc_id c) v))" if "vnum v = Suc (resume_at p)" for v
    using read_stream_start_inv [OF b, of "im_hist (fst w) (sc_id c)" "sc_id c" v] that
    by (simp add: read_stream_start_def)
  show ?thesis
  proof (cases p)
    case None
    then have "sc = ScanTagged (read_stream_start (fst w) (sc_id c) version_INITIAL)"
      using assms(2) by (simp add: stream_target_simps stream_read_after_def result_simps)
    with start [of version_INITIAL] None show ?thesis by (simp add: resume_at_def)
  next
    case (Some q)
    show ?thesis
    proof (cases "version_next q")
      case None
      with Some assms(2) have "sc = ScanEmpty" by (simp add: stream_target_simps stream_read_after_def)
      with None Some show ?thesis by (simp add: resume_at_def version_next_None)
    next
      case (Some v)
      with \<open>p = Some q\<close> assms(2) have "sc = ScanTagged (read_stream_start (fst w) (sc_id c) v)"
        by (simp add: stream_target_simps stream_read_after_def result_simps)
      with start [of v] Some \<open>p = Some q\<close> show ?thesis by (simp add: resume_at_def version_next_Some)
    qed
  qed
qed

lemma run_from_sorted: "run_from m h \<Longrightarrow> sorted_wrt (<) (map pe_version h)"
  by (simp add: sorted_wrt_iff_nth_less version_less_vnum run_from_nth)

text \<open>For one stream the store is settled when no wake of that stream is due.\<close>

definition stream_settled :: "stream_key \<Rightarrow> sub_system \<Rightarrow> bool" where
  "stream_settled k w \<longleftrightarrow> key_bytes k \<notin># sub_due w"

interpretation ls: reliable_catchup "im_stream_target c" "sub_env (sc_reg c)" "stream_sub_inv c"
  "stream_contents (sc_id c)" "stream_scan_ok (sc_id c)" stream_fresh "stream_settled (sc_id c)" for c
proof unfold_locales
  fix st st' :: sub_system and p :: "version option" and sc sc' i e
  assume inv: "stream_sub_inv c st"
  then have s: "sub_inv (sc_reg c) st" "im_inv (fst st)" "wr_guard (sc_reg c) = Some (key_bytes (sc_id c))"
    by (simp_all add: stream_sub_inv_def sub_inv_def)
  note N = stream_next_cases [OF s(2), where k = "sc_id c" and c = c]
  show "stream_sub_inv c st' \<and> (\<exists>new. stream_contents (sc_id c) st' = stream_contents (sc_id c) st @ new)"
    if "sub_env (sc_reg c) st st'"
    using sub_env_inv [OF that s(1)] sub_env_grows(1) [OF that s(1), of "sc_id c"] s(3)
    by (auto simp: stream_sub_inv_def stream_contents_def)
  show "sorted_wrt (<) (map (ca_position_of (im_stream_target c)) (stream_contents (sc_id c) st))"
    using run_from_sorted [OF im.hist_run [OF s(2)], of "sc_id c"] by (simp add: stream_contents_def comp_def)
  show "stream_scan_ok (sc_id c) st p sc \<and> stream_fresh sc" if "ca_read_after (im_stream_target c) st p = Inr sc"
    by (rule stream_open_ok [OF s(2) that])
  show "stream_scan_ok (sc_id c) st' p sc" if "sub_env (sc_reg c) st st'" "stream_scan_ok (sc_id c) st p sc"
    using that sub_env_grows(1) [OF that(1) s(1), of "sc_id c"] by (cases sc) (auto intro: read_inv_mono)
  show "(\<exists>rest. items_after (ca_position_of (im_stream_target c)) p (stream_contents (sc_id c) st) = i # rest) \<and>
      stream_scan_ok (sc_id c) st (Some (ca_position_of (im_stream_target c) i)) sc'"
    if "stream_scan_ok (sc_id c) st p sc" "ca_next (im_stream_target c) st sc = Some (Inr i, sc')"
    using N [OF that(1)] that(2) by auto
  show "items_after (ca_position_of (im_stream_target c)) p (stream_contents (sc_id c) st) = []"
    if "stream_scan_ok (sc_id c) st p sc" "stream_fresh sc" "ca_next (im_stream_target c) st sc = None"
    using N [OF that(1)] that(2,3) by auto
  show "ca_ready (im_stream_target c) st' (ca_arm (im_stream_target c) st)"
    if "(sub_env (sc_reg c))\<^sup>*\<^sup>* st st'" "stream_settled (sc_id c) st'"
      "stream_contents (sc_id c) st' \<noteq> stream_contents (sc_id c) st"
  proof -
    have cov: "covers (sc_reg c) k \<longleftrightarrow> k = key_bytes (sc_id c)" for k using s(3) by (auto simp: covers_def)
    have "im_hist (fst st') (sc_id c) \<noteq> im_hist (fst st) (sc_id c)" using that(3) by (auto simp: stream_contents_def)
    then have "chan_sends (sc_reg c) st < chan_sends (sc_reg c) st'"
      using sub_env_watched [OF that(1) s(1), of "\<lambda>w. im_hist (fst w) (sc_id c)"] sub_env_changes(1) that(2)
      unfolding cov stream_settled_def by blast
    then show ?thesis by (simp add: stream_target_simps sends_ready)
  qed
  show "\<exists>sc. ca_read_after (im_stream_target c) st p = Inr sc"
    by (simp add: stream_target_simps stream_read_after_def Let_def result_simps split: option.split)
  show "ca_next (im_stream_target c) st sc \<noteq> Some (Inl e, sc')" if "stream_scan_ok (sc_id c) st p sc"
    using N [OF that] by auto
qed

text \<open>The same for everything: the scan's own position is the cursor's.\<close>

definition all_sub_inv :: "wake_reg \<Rightarrow> sub_system \<Rightarrow> bool" where
  "all_sub_inv r w \<longleftrightarrow> sub_inv r w \<and> wr_guard r = None"

definition all_scan_ok :: "sub_system \<Rightarrow> all_pos option \<Rightarrow> global_read_state \<Rightarrow> bool" where
  "all_scan_ok w p sc \<longleftrightarrow> gr_inv (im_inner (fst w)) sc \<and> gr_after sc = p"

definition all_fresh :: "global_read_state \<Rightarrow> bool" where
  "all_fresh sc \<longleftrightarrow> gr_buffer sc = [] \<and> \<not> gr_done sc"

lemmas all_target_simps = im_all_target_def all_target_def

lemma all_target_parts [simp]:
  "ca_position_of (im_all_target r) = fst" "ca_ready (im_all_target r) w = nt_ready (im_notifiers (fst w))"
  "ca_arm (im_all_target r) w = nt_arm (im_notifiers (fst w)) r"
  by (simp_all add: all_target_simps)

lemma all_items_after:
  "items_after fst p (all_contents w) =
    map (\<lambda>(pos, k, f). (pos, k, persisted_of (pending_of f))) (btree_range (pos_after p) (im_index (im_inner (fst w))))"
  by (cases p) (simp_all add: items_after_def all_contents_def im_log_def btree_range_def pos_after_def filter_map comp_def case_prod_beta')

lemma all_next_cases:
  assumes inv: "im_inv (fst w)" and ok: "all_scan_ok w p sc"
  shows "case ca_next (im_all_target r) w sc of
      None \<Rightarrow> all_fresh sc \<longrightarrow> items_after fst p (all_contents w) = []
    | Some (res, sc') \<Rightarrow> \<exists>i rest. res = Inr i \<and> items_after fst p (all_contents w) = i # rest \<and>
        all_scan_ok w (Some (fst i)) sc'"
proof -
  have g: "gr_inv (im_inner (fst w)) sc" "gr_after sc = p" using ok by (simp_all add: all_scan_ok_def)
  have "inner_inv (im_inner (fst w))" using inv by (simp add: im_inv_def)
  note P = global_poll_step [OF this g(1)]
  show ?thesis
  proof (cases "global_poll (im_inner (fst w)) sc")
    case None
    with P g show ?thesis by (auto simp: all_target_simps all_fresh_def all_items_after)
  next
    case (Some x)
    obtain item sc' where x: "x = (item, sc')" by fastforce
    obtain y where y: "item = to_item y" "gr_inv (im_inner (fst w)) sc'" "gr_after sc' = Some (fst y)"
      "btree_range (pos_after p) (im_index (im_inner (fst w))) = y # btree_range (pos_after (gr_after sc')) (im_index (im_inner (fst w)))"
      using P Some x g(2) by auto
    then show ?thesis using Some x
      by (cases y) (simp add: all_target_simps all_items_after to_item_def all_scan_ok_def)
  qed
qed

lemma im_index_log:
  assumes "im_inv st"
  shows "im_index (im_inner st) = map (\<lambda>(pos, k, p). (pos, k, stored_of p)) (im_log st)"
proof -
  have "stored_of (pending_of (snd (snd x))) = snd (snd x)" if "x \<in> set (im_index (im_inner st))" for x
    using that assms by (fastforce simp: im_inv_def inner_inv_def entry_fits_def)
  then show ?thesis by (simp add: im_log_def comp_def case_prod_beta' map_idI)
qed

lemma sub_env_index:
  assumes "sub_env r w w'" "sub_inv r w"
  shows "\<exists>new. im_index (im_inner (fst w')) = im_index (im_inner (fst w)) @ new"
proof -
  have "im_inv (fst w)" "im_inv (fst w')" using assms sub_env_inv [OF assms] by (simp_all add: sub_inv_def)
  with sub_env_grows(2) [OF assms] show ?thesis by (auto simp: im_index_log)
qed

lemma gr_inv_mono:
  assumes "gr_inv s r" "im_index s' = im_index s @ new"
  shows "gr_inv s' r"
proof -
  have "gr_buffer r = take (length (gr_buffer r)) (remaining s r)" using assms(1) by (simp add: gr_inv_def)
  then have "length (gr_buffer r) \<le> length (remaining s r)" by (metis length_take min.cobounded1)
  with assms show ?thesis by (simp add: gr_inv_def btree_range_def)
qed

definition all_settled :: "sub_system \<Rightarrow> bool" where
  "all_settled w \<longleftrightarrow> sub_due w = {#}"

interpretation la: reliable_catchup "im_all_target r" "sub_env r" "all_sub_inv r" all_contents all_scan_ok all_fresh
  all_settled for r
proof unfold_locales
  fix st st' :: sub_system and p :: "all_pos option" and sc sc' i e
  assume inv: "all_sub_inv r st"
  then have s: "sub_inv r st" "im_inv (fst st)" "wr_guard r = None" by (simp_all add: all_sub_inv_def sub_inv_def)
  note N = all_next_cases [OF s(2), where r = r]
  show "all_sub_inv r st' \<and> (\<exists>new. all_contents st' = all_contents st @ new)" if "sub_env r st st'"
    using sub_env_inv [OF that s(1)] sub_env_grows(2) [OF that s(1)] s(3) by (auto simp: all_sub_inv_def all_contents_def)
  show "sorted_wrt (<) (map (ca_position_of (im_all_target r)) (all_contents st))"
    using im.log_sorted [OF s(2)] by (simp add: all_contents_def comp_def case_prod_beta)
  show "all_scan_ok st p sc \<and> all_fresh sc" if "ca_read_after (im_all_target r) st p = Inr sc"
    using that s(2) by (auto simp: all_target_simps all_scan_ok_def all_fresh_def gr_inv_def read_all_start_def im_inv_def)
  show "all_scan_ok st' p sc" if "sub_env r st st'" "all_scan_ok st p sc"
    using that sub_env_index [OF that(1) s(1)] by (auto simp: all_scan_ok_def intro: gr_inv_mono)
  show "(\<exists>rest. items_after (ca_position_of (im_all_target r)) p (all_contents st) = i # rest) \<and>
      all_scan_ok st (Some (ca_position_of (im_all_target r) i)) sc'"
    if "all_scan_ok st p sc" "ca_next (im_all_target r) st sc = Some (Inr i, sc')"
    using N [OF that(1)] that(2) by auto
  show "items_after (ca_position_of (im_all_target r)) p (all_contents st) = []"
    if "all_scan_ok st p sc" "all_fresh sc" "ca_next (im_all_target r) st sc = None"
    using N [OF that(1)] that(2,3) by auto
  show "ca_ready (im_all_target r) st' (ca_arm (im_all_target r) st)"
    if "(sub_env r)\<^sup>*\<^sup>* st st'" "all_settled st'" "all_contents st' \<noteq> all_contents st"
  proof -
    have cov: "covers r k" for k using s(3) by (simp add: covers_def)
    have "im_log (fst st') \<noteq> im_log (fst st)" using that(3) by (auto simp: all_contents_def)
    then have "chan_sends r st < chan_sends r st'"
      using sub_env_watched [OF that(1) s(1), of "\<lambda>w. im_log (fst w)"] sub_env_changes(2) that(2) cov
      unfolding all_settled_def by (metis multiset_nonemptyE empty_iff set_mset_empty)
    then show ?thesis by (simp add: all_target_simps sends_ready)
  qed
  show "\<exists>sc. ca_read_after (im_all_target r) st p = Inr sc" by (simp add: all_target_simps)
  show "ca_next (im_all_target r) st sc \<noteq> Some (Inl e, sc')" if "all_scan_ok st p sc"
    using N [OF that] by auto
qed

section \<open>Opening a subscription\<close>

lemma sub_reachable_inv: "sub_reachable w \<Longrightarrow> im_inv (fst w) \<and> wake_inv (im_notifiers (fst w), sub_regs w)"
proof (induction rule: sub_reachable.induct)
  case (sub_start n m)
  then show ?case
    using im_reachable_inv [OF reachable_new [OF sub_start]] wake_inv_init by (simp add: im_with_batch_size_def)
next
  case (sub_commit st regs due st' ks)
  then show ?case using im_commit_grows(1) im_commit_notifiers by simp
next
  case (sub_wake st regs due k)
  then show ?case by (simp add: wake_inv_wake)
next
  case (sub_reg st regs due n' regs')
  then show ?case using wake_inv_step [of "(im_notifiers st, regs)" "(n', regs')"] by simp
qed

lemma im_register_inv:
  assumes "sub_reachable (st, regs, due)" "im_register stream st = (Inr r, st')"
  shows "sub_inv r (st', add_mset r regs, due) \<and> im_inner st' = im_inner st"
proof -
  obtain n where n: "nt_register stream (im_notifiers st) = (Inr r, n)" "st' = st\<lparr>im_notifiers := n\<rparr>"
    using assms(2) by (auto simp: im_register_def split: prod.splits)
  with sub_reachable_inv [OF assms(1)] wake_inv_register [OF _ n(1)] show ?thesis by (simp add: sub_inv_def)
qed

lemma nt_register_guard: "nt_register stream n = (Inr r, n') \<Longrightarrow> wr_guard r = stream"
  by (cases stream; cases "nt_map n (the stream)")
    (auto simp: nt_register_def register_entry_fresh register_entry_existing split: if_splits)

lemma subscribe_inv:
  assumes "sub_reachable (st, regs, due)" "subscribe im_register i start st = (Inr (c, s), st')"
  shows "stream_sub_inv c (st', add_mset (sc_reg c) regs, due)" "sc_id c = stream_key_from_slice i" "s = live_new start"
    "im_inner st' = im_inner st"
proof -
  obtain r where r: "im_register (Some i) st = (Inr r, st')" "c = \<lparr>sc_id = stream_key_from_slice i, sc_reg = r\<rparr>" "s = live_new start"
    using assms(2) by (auto simp: subscribe_def stream_catchup_new_def split: prod.splits sum.splits)
  moreover have "wr_guard r = Some i"
    using r(1) nt_register_guard by (auto simp: im_register_def split: prod.splits)
  ultimately show "stream_sub_inv c (st', add_mset (sc_reg c) regs, due)" "sc_id c = stream_key_from_slice i" "s = live_new start"
    "im_inner st' = im_inner st"
    using im_register_inv [OF assms(1) r(1)]
    by (simp_all add: stream_sub_inv_def stream_key_from_slice_def)
qed

lemma subscribe_all_inv:
  assumes "sub_reachable (st, regs, due)" "subscribe_all im_register start st = (Inr (r, s), st')"
  shows "all_sub_inv r (st', add_mset r regs, due)" "s = live_new start" "im_inner st' = im_inner st"
proof -
  have r: "im_register None st = (Inr r, st')" "s = live_new start"
    using assms(2) by (auto simp: subscribe_all_def all_catchup_new_def split: prod.splits sum.splits)
  moreover have "wr_guard r = None"
    using r(1) nt_register_guard by (auto simp: im_register_def split: prod.splits)
  ultimately show "all_sub_inv r (st', add_mset r regs, due)" "s = live_new start" "im_inner st' = im_inner st"
    using im_register_inv [OF assms(1) r(1)] by (simp_all add: all_sub_inv_def)
qed

text \<open>The events of a stream after a version, and the log after a position, as a subscriber sees them.\<close>

definition events_after :: "version option \<Rightarrow> pending_envelope list \<Rightarrow> persisted_envelope list" where
  "events_after start h = map persisted_of (filter (\<lambda>p. case start of None \<Rightarrow> True | Some v \<Rightarrow> v < pe_version p) h)"

definition log_after ::
  "all_pos option \<Rightarrow> (all_pos \<times> stream_key \<times> pending_envelope) list \<Rightarrow> (all_pos \<times> stream_key \<times> persisted_envelope) list" where
  "log_after start log =
    map (\<lambda>(pos, k, p). (pos, k, persisted_of p)) (filter (\<lambda>x. case start of None \<Rightarrow> True | Some a \<Rightarrow> a < fst x) log)"

lemma events_after_items: "events_after start (im_hist (fst w) k) = map snd (items_after fst start (stream_contents k w))"
  by (cases start) (simp_all add: events_after_def items_after_def stream_contents_def filter_map comp_def)

lemma log_after_items: "log_after start (im_log (fst w)) = items_after fst start (all_contents w)"
  by (cases start) (simp_all add: log_after_def items_after_def all_contents_def filter_map comp_def case_prod_beta')

lemma delivered_untag [simp]: "delivered (map untag out) = map snd (delivered out)"
  by (induction out) (auto simp: delivered_def List.map_filter_def untag_def step_map_def result_simps split: sum.splits stream_step.splits)

lemma markers_untag [simp]:
  fixes out :: "((version \<times> persisted_envelope) stream_step, 'err) result list"
  shows "markers (map untag out) = markers out"
proof -
  have "untag x = Inr CaughtUp \<longleftrightarrow> x = Inr CaughtUp" for x :: "((version \<times> persisted_envelope) stream_step, 'err) result"
    by (cases x) (auto simp: untag_def step_map_def result_simps split: stream_step.splits)
  then show ?thesis by (simp add: markers_def filter_map comp_def)
qed

section \<open>Sample subscriptions\<close>

definition idle_reg :: wake_reg where
  "idle_reg = \<lparr>wr_chan = 1, wr_guard = Some [0]\<rparr>"

definition idle_sub :: "wake_reg stream_catchup" where
  "idle_sub = \<lparr>sc_id = StreamKey [0], sc_reg = idle_reg\<rparr>"

definition idle_store :: im_store where
  "idle_store = snd (im_register (Some [0]) im_new)"

lemma im_new_reachable: "sub_reachable (im_new, {#}, {#})"
  unfolding im_new_def
  by (rule sub_start [of DEFAULT_BATCH]) (simp add: batch_size_new_def DEFAULT_BATCH_def MAX_BATCH_def)

lemma idle_subscribed: "subscribe im_register [0] None im_new = (Inr (idle_sub, live_new None), idle_store)"
  by (simp add: subscribe_def stream_catchup_new_def idle_store_def idle_sub_def idle_reg_def im_register_def nt_register_def
      register_entry_fresh im_new_def im_with_batch_size_def notifiers_new_def stream_key_from_slice_def)

text \<open>On an empty stream the cursor marks the end of the backlog and goes to sleep.\<close>

lemma idle_run:
  "\<exists>s. live_iter (im_stream_target idle_sub) (idle_store, w) 8 (live_new None) = (s, [Inr CaughtUp]) \<and>
    lv_pc s = Parked \<lparr>ww_chan = 1, ww_seen = 0\<rparr> \<and> \<not> nt_ready (im_notifiers idle_store) \<lparr>ww_chan = 1, ww_seen = 0\<rparr>"
  by (simp add: numeral_Bit0 numeral_One live_step_def live_new_def live_open_def live_drain_def live_probe_open_def live_probe_def
      stream_target_simps stream_read_after_def stream_scan_next_def result_simps read_stream_start_def read_poll_def
      next_read_version_def read_refill_def idle_store_def im_register_def nt_register_def register_entry_fresh
      im_new_def im_with_batch_size_def inner_default_def notifiers_new_def nt_arm_def nt_ready_def watch_new_def
      idle_sub_def idle_reg_def)

lemma idle_store_empty: "im_inv idle_store" "im_hist idle_store k = []" "im_log idle_store = []"
  using im_new_inv by (simp_all add: idle_store_def im_register_def split: prod.split)

text \<open>The same for a subscription to everything.\<close>

definition idle_all_reg :: wake_reg where
  "idle_all_reg = \<lparr>wr_chan = 0, wr_guard = None\<rparr>"

lemma idle_all_subscribed: "subscribe_all im_register None im_new = (Inr (idle_all_reg, live_new None), im_new)"
  by (simp add: subscribe_all_def all_catchup_new_def im_register_def nt_register_def idle_all_reg_def)

lemma idle_all_run:
  "\<exists>s. live_iter (im_all_target idle_all_reg) (im_new, w) 8 (live_new None) = (s, [Inr CaughtUp]) \<and>
    lv_pc s = Parked \<lparr>ww_chan = 0, ww_seen = 0\<rparr> \<and> \<not> nt_ready (im_notifiers im_new) \<lparr>ww_chan = 0, ww_seen = 0\<rparr>"
  by (simp add: numeral_Bit0 numeral_One live_step_def live_new_def live_open_def live_drain_def live_probe_open_def live_probe_def
      all_target_simps read_all_start_def global_poll_def global_refill_def btree_range_def Let_def
      im_new_def im_with_batch_size_def inner_default_def notifiers_new_def nt_arm_def nt_ready_def watch_new_def
      idle_all_reg_def)

text \<open>A commit to an empty store, with its wake still due.\<close>

lemma sample_commit:
  assumes "im_inv st" "im_hist st k = []" "im_log st = []"
  obtains st' where "im_commit st st' [key_bytes k]" "im_hist st' k = batch_iter sample_batch" "length (im_log st') = 2"
proof -
  obtain pos st2 where a: "im_append k None sample_batch st = (Returns (Inr pos), st2)"
    using im_append_complete [OF assms(1), of None k sample_batch] assms(2,3) by (auto simp: head_version_def vmax_def)
  obtain r st' ks where l: "im_append_locked k None sample_batch st = (r, st', ks)" by (metis prod_cases3)
  have st2: "st2 = fold im_wake ks st'" using a l by (simp add: im_append_def)
  have h: "im_hist st' k = batch_iter sample_batch"
    using im.hist_append(1) [OF assms(1) _ a] assms(2) st2 by simp
  have "length (im_log st') = 2" using im_append_commit [OF assms(1) _ a] assms(3) st2 by auto
  moreover have "ks = [key_bytes k]"
    using im_append_locked_woken [OF l] arg_cong [OF h, of length] assms(2) by auto
  ultimately show thesis using that h commit_append [OF sample_batch_ok(1) l] by blast
qed

lemma sample_system:
  obtains st where "sub_reachable (st, {#}, {#})" "im_hist st sample_key = batch_iter sample_batch" "nt_map (im_notifiers st) = Map.empty"
    "length (im_log st) = 2"
proof -
  obtain pos st where st: "im_append sample_key None sample_batch im_new = (Returns (Inr pos), st)"
    "im_hist st sample_key = batch_iter sample_batch"
    "\<exists>ps. length ps = 2 \<and> im_log st = zip ps (map (Pair sample_key) (batch_iter sample_batch))" by (rule sample_store)
  have "sub_reachable (st, {#}, {#})"
    by (rule sub_reachable_step [OF im_new_reachable step_append [OF sample_batch_ok(1) st(1)]])
  moreover have "nt_map (im_notifiers st) = Map.empty"
    using st(1) by (cases rule: im_append_cases) (simp_all add: im_new_def im_with_batch_size_def notifiers_new_def)
  moreover have "length (im_log st) = 2" using st(3) by auto
  ultimately show thesis using that st(2) by blast
qed

lemma sample_subscribed:
  obtains st0 c and s0 :: "(version, read_state stream_scan, wake_wait) live_state" and st1
  where "sub_reachable (st0, {#}, {#})" "subscribe im_register [0x6B] None st0 = (Inr (c, s0), st1)"
    "events_after None (im_hist st1 (stream_key_from_slice [0x6B])) = map persisted_of [sample_event 1, sample_event 2]"
proof -
  obtain st0 where st0: "sub_reachable (st0, {#}, {#})" "im_hist st0 sample_key = batch_iter sample_batch"
    "nt_map (im_notifiers st0) = Map.empty" by (rule sample_system)
  then obtain c and s0 :: "(version, read_state stream_scan, wake_wait) live_state" and st1
    where sub: "subscribe im_register [0x6B] None st0 = (Inr (c, s0), st1)"
    by (simp add: subscribe_def stream_catchup_new_def im_register_def nt_register_def register_entry_fresh)
  moreover have "im_hist st1 sample_key = batch_iter sample_batch"
    using st0(2) subscribe_inv(4) [OF st0(1) sub] by (simp add: im_hist_def)
  then have "events_after None (im_hist st1 (stream_key_from_slice [0x6B])) = map persisted_of [sample_event 1, sample_event 2]"
    by (simp add: events_after_def stream_key_from_slice_def sample_key_def sample_batch_def batch_iter_def)
  ultimately show thesis using that st0(1) by blast
qed

lemma sample_subscribed_all:
  obtains st0 r and s0 :: "(all_pos, global_read_state, wake_wait) live_state" and st1
  where "sub_reachable (st0, {#}, {#})" "subscribe_all im_register None st0 = (Inr (r, s0), st1)" "length (log_after None (im_log st1)) = 2"
proof -
  obtain st0 where st0: "sub_reachable (st0, {#}, {#})" "length (im_log st0) = 2" by (rule sample_system)
  obtain r and s0 :: "(all_pos, global_read_state, wake_wait) live_state" and st1
    where sub: "subscribe_all im_register None st0 = (Inr (r, s0), st1)"
    by (simp add: subscribe_all_def all_catchup_new_def im_register_def nt_register_def)
  moreover have "length (log_after None (im_log st1)) = 2"
    using st0(2) subscribe_all_inv(3) [OF st0(1) sub] by (simp add: log_after_def im_log_def)
  ultimately show thesis using that st0(1) by blast
qed

lemma live_run_envs:
  "env\<^sup>*\<^sup>* st st' \<Longrightarrow> live_run ca env begin_at st0 st s out \<Longrightarrow> live_run ca env begin_at st0 st' s out"
  by (induction rule: rtranclp_induct) (auto intro: run_env)

section \<open>Properties\<close>

text \<open>C2: However a stream subscription's polls interleave with the commits of appends and atomic appends, the wakes
  they leave due, other registrations, releases and spurious wakes, the events it has delivered are, in order and each once, an initial part of the
  stream's events after the start version; it has announced the end of the backlog at most once, and when
  it did, everything the store held at some moment since the subscription opened had been delivered.\<close>

theorem subscription_delivers_exactly_once:
  assumes "sub_reachable (st0, regs, due0)" "subscribe im_register i start st0 = (Inr (c, s0), st1)"
    "live_run (im_stream_target c) (sub_env (sc_reg c)) start (st1, add_mset (sc_reg c) regs, due0) (st, regs', due) s out"
  shows "(\<exists>rest. events_after start (im_hist st (stream_key_from_slice i)) = delivered (map untag out) @ rest) \<and>
    markers (map untag out) \<le> 1 \<and>
    (\<forall>a b. out = a @ Inr CaughtUp # b \<longrightarrow>
      (\<exists>w. (sub_env (sc_reg c))\<^sup>*\<^sup>* (st1, add_mset (sc_reg c) regs, due0) w \<and> (sub_env (sc_reg c))\<^sup>*\<^sup>* w (st, regs', due) \<and>
        delivered (map untag a) = events_after start (im_hist (fst w) (stream_key_from_slice i))))"
proof -
  note sub = subscribe_inv [OF assms(1,2)]
  have "ls.live_inv c (st1, add_mset (sc_reg c) regs, due0) start (st, regs', due) s out" by (rule ls.live_run_inv [OF assms(3) sub(1)])
  then have P: "progress_inv fst (sub_env (sc_reg c)) (stream_contents (sc_id c)) (st1, add_mset (sc_reg c) regs, due0) start
      (st, regs', due) (lv_read_from s) (lv_caught_up s) out"
    by (simp add: ls.live_inv_def)
  have ev: "events_after start (im_hist (fst w) (stream_key_from_slice i)) = map snd (items_after fst start (stream_contents (sc_id c) w))" for w
    by (simp add: events_after_items sub(2))
  have "events_after start (im_hist st (stream_key_from_slice i)) =
      delivered (map untag out) @ map snd (items_after fst (lv_read_from s) (stream_contents (sc_id c) (st, regs', due)))"
    using P ev [of "(st, regs', due)"] by (simp add: progress_inv_def)
  moreover have "markers (map untag out) \<le> 1" using P by (simp add: progress_inv_def)
  moreover have "\<exists>w. (sub_env (sc_reg c))\<^sup>*\<^sup>* (st1, add_mset (sc_reg c) regs, due0) w \<and> (sub_env (sc_reg c))\<^sup>*\<^sup>* w (st, regs', due) \<and>
      delivered (map untag a) = events_after start (im_hist (fst w) (stream_key_from_slice i))"
    if marker: "out = a @ Inr CaughtUp # b" for a b
  proof -
    obtain w where "(sub_env (sc_reg c))\<^sup>*\<^sup>* (st1, add_mset (sc_reg c) regs, due0) w" "(sub_env (sc_reg c))\<^sup>*\<^sup>* w (st, regs', due)"
      "delivered a = items_after fst start (stream_contents (sc_id c) w)"
      using P marker unfolding progress_inv_def by blast
    then show ?thesis using ev [of w] by (intro exI [of _ w]) simp
  qed
  ultimately show ?thesis by blast
qed

theorem subscription_delivers_exactly_once_witness:
  "\<exists>st0 c (s0 :: (version, read_state stream_scan, wake_wait) live_state) st1 s out rest.
    sub_reachable (st0, {#}, {#}) \<and> subscribe im_register [0x6B] None st0 = (Inr (c, s0), st1) \<and>
    live_run (im_stream_target c) (sub_env (sc_reg c)) None (st1, {#sc_reg c#}, {#}) (st1, {#sc_reg c#}, {#}) s out \<and> length out = 3 \<and>
    map persisted_of [sample_event 1, sample_event 2] = delivered (map untag out) @ rest \<and> markers (map untag out) \<le> 1"
proof -
  obtain st0 c and s0 :: "(version, read_state stream_scan, wake_wait) live_state" and st1 where
    sub: "sub_reachable (st0, {#}, {#})" "subscribe im_register [0x6B] None st0 = (Inr (c, s0), st1)" and
    ev: "events_after None (im_hist st1 (stream_key_from_slice [0x6B])) = map persisted_of [sample_event 1, sample_event 2]"
    by (rule sample_subscribed)
  note I = subscribe_inv [OF sub]
  have "length (items_after fst None (stream_contents (sc_id c) (st1, {#sc_reg c#}, {#}))) = 2"
    using arg_cong [OF ev, of length] events_after_items [of None "(st1, {#sc_reg c#}, {#})" "sc_id c"] I(2) by simp
  then obtain n s out where n: "live_iter (im_stream_target c) (st1, {#sc_reg c#}, {#}) n (live_new None) = (s, out)" "length out = 3"
    using ls.catches_up [OF I(1), of None] by auto
  have run: "live_run (im_stream_target c) (sub_env (sc_reg c)) None (st1, {#sc_reg c#}, {#}) (st1, {#sc_reg c#}, {#}) s out"
    using live_run_iter [OF run_start n(1), of "sub_env (sc_reg c)"] by simp
  then obtain rest where "map persisted_of [sample_event 1, sample_event 2] = delivered (map untag out) @ rest"
    "markers (map untag out) \<le> 1"
    using subscription_delivers_exactly_once [OF sub, of st1 "{#sc_reg c#}" "{#}" s out] ev by auto
  with sub run n(2) show ?thesis by blast
qed

text \<open>C15: A stream subscription never sleeps through an event: whenever the cursor is parked on a wait that is
  not ready, in any interleaving, it has delivered every event of the stream after the start version, or a
  writer has committed to the stream and not yet raised its wake, and that wake makes the wait ready.\<close>

theorem subscription_never_sleeps_on_events:
  assumes "sub_reachable (st0, regs, due0)" "subscribe im_register i start st0 = (Inr (c, s0), st1)"
    "live_run (im_stream_target c) (sub_env (sc_reg c)) start (st1, add_mset (sc_reg c) regs, due0) (st, regs', due) s out"
    "lv_pc s = Parked wait" "\<not> nt_ready (im_notifiers st) wait"
  shows "delivered (map untag out) = events_after start (im_hist st (stream_key_from_slice i)) \<or>
    i \<in># due \<and> nt_ready (nt_wake i (im_notifiers st)) wait"
proof -
  note sub = subscribe_inv [OF assms(1,2)]
  have k: "key_bytes (sc_id c) = i" using sub(2) by (simp add: stream_key_from_slice_def)
  have inv: "ls.live_inv c (st1, add_mset (sc_reg c) regs, due0) start (st, regs', due) s out"
    by (rule ls.live_run_inv [OF assms(3) sub(1)])
  show ?thesis
  proof (cases "i \<in># due")
    case True
    obtain w where w: "stream_sub_inv c w" "wait = nt_arm (im_notifiers (fst w)) (sc_reg c)"
      "(sub_env (sc_reg c))\<^sup>*\<^sup>* w (st, regs', due)"
      using ls.parked_armed [OF inv assms(4)] unfolding ls.armed_def by auto
    have "nt_ready (nt_wake i (im_notifiers st)) wait"
      using due_wake_ready [OF w(3), of i] w(1,2) k by (simp add: stream_sub_inv_def covers_def)
    with True show ?thesis by simp
  next
    case False
    then have "stream_settled (sc_id c) (st, regs', due)" using k by (simp add: stream_settled_def)
    from ls.asleep_means_done [OF inv assms(4) _ this] assms(5)
    have "delivered out = items_after fst start (stream_contents (sc_id c) (st, regs', due))" by simp
    then show ?thesis using events_after_items [of start "(st, regs', due)" "stream_key_from_slice i"] sub(2) by simp
  qed
qed

text \<open>A cursor asleep on the empty stream; then a commit of two events, and its wake.\<close>

theorem subscription_never_sleeps_on_events_witness:
  "\<exists>s wait st.
    live_run (im_stream_target idle_sub) (sub_env idle_reg) None (idle_store, {#idle_reg#}, {#}) (st, {#idle_reg#}, {#[0]#}) s [Inr CaughtUp] \<and>
    lv_pc s = Parked wait \<and> \<not> nt_ready (im_notifiers idle_store) wait \<and> events_after None (im_hist idle_store (StreamKey [0])) = [] \<and>
    length (events_after None (im_hist st (StreamKey [0]))) = 2 \<and> \<not> nt_ready (im_notifiers st) wait \<and>
    nt_ready (nt_wake [0] (im_notifiers st)) wait"
proof -
  obtain s where s: "live_iter (im_stream_target idle_sub) (idle_store, {#idle_reg#}, {#}) 8 (live_new None) = (s, [Inr CaughtUp])"
    "lv_pc s = Parked \<lparr>ww_chan = 1, ww_seen = 0\<rparr>" "\<not> nt_ready (im_notifiers idle_store) \<lparr>ww_chan = 1, ww_seen = 0\<rparr>"
    using idle_run by blast
  obtain st where st: "im_commit idle_store st [[0]]" "im_hist st (StreamKey [0]) = batch_iter sample_batch"
    using sample_commit [OF idle_store_empty(1), of "StreamKey [0]"] idle_store_empty(2,3) by (metis stream_key.sel)
  have nr: "\<not> nt_ready (im_notifiers st) \<lparr>ww_chan = 1, ww_seen = 0\<rparr>" using s(3) im_commit_notifiers [OF st(1)] by simp
  have r: "sc_reg idle_sub = idle_reg" by (simp add: idle_sub_def)
  have run: "live_run (im_stream_target idle_sub) (sub_env (sc_reg idle_sub)) None (idle_store, add_mset (sc_reg idle_sub) {#}, {#})
      (idle_store, {#idle_reg#}, {#}) s [Inr CaughtUp]"
    using live_run_iter [OF run_start s(1), of "sub_env idle_reg"] r by simp
  then have run': "live_run (im_stream_target idle_sub) (sub_env (sc_reg idle_sub)) None (idle_store, add_mset (sc_reg idle_sub) {#}, {#})
      (st, {#idle_reg#}, {#[0]#}) s [Inr CaughtUp]"
    using run_env [OF run env_commit [OF st(1)]] by simp
  have e: "events_after None (im_hist idle_store (StreamKey [0])) = []"
    using subscription_never_sleeps_on_events [OF im_new_reachable idle_subscribed run s(2,3)]
    by (simp add: untag_def step_map_def result_simps stream_key_from_slice_def)
  have len: "length (events_after None (im_hist st (StreamKey [0]))) = 2" using st(2) sample_batch_ok(4) by (simp add: events_after_def)
  then have "nt_ready (nt_wake [0] (im_notifiers st)) \<lparr>ww_chan = 1, ww_seen = 0\<rparr>"
    using subscription_never_sleeps_on_events [OF im_new_reachable idle_subscribed run' s(2) nr]
    by (auto simp: untag_def step_map_def result_simps stream_key_from_slice_def)
  with s(2,3) nr run' r e len show ?thesis
    by (intro exI [of _ s] exI [of _ "\<lparr>ww_chan = 1, ww_seen = 0\<rparr>"] exI [of _ st]) simp
qed

text \<open>C21: A stream subscription gets there: from any point of any interleaving, once the store stands still and the
  stream's due wakes have been raised, with any others, the cursor delivers all the events still owed, and
  nothing else, in at most five steps per event.\<close>

theorem subscription_delivers_within_bound:
  assumes "sub_reachable (st0, regs, due0)" "subscribe im_register i start st0 = (Inr (c, s0), st1)"
    "live_run (im_stream_target c) (sub_env (sc_reg c)) start (st1, add_mset (sc_reg c) regs, due0) (st, regs', due + mset ks) s out"
    "i \<notin># due" "events_after start (im_hist st (stream_key_from_slice i)) = delivered (map untag out) @ owed"
  shows "\<exists>n s' new. n \<le> 5 * length owed \<and> live_iter (im_stream_target c) (fold im_wake ks st, regs', due) n s = (s', new) \<and>
    map untag new = map (Inr \<circ> StepEvent) owed"
proof -
  note sub = subscribe_inv [OF assms(1,2)]
  let ?w = "(fold im_wake ks st, regs', due)"
  let ?xs = "items_after fst (lv_read_from s) (stream_contents (sc_id c) ?w)"
  have inv: "ls.live_inv c (st1, add_mset (sc_reg c) regs, due0) start ?w s out"
    by (rule ls.live_run_inv [OF live_run_envs [OF due_wakes_raised assms(3)] sub(1)])
  then have "items_after fst start (stream_contents (sc_id c) ?w) = delivered out @ ?xs"
    by (simp add: ls.live_inv_def progress_inv_def)
  then have owed: "owed = map snd ?xs"
    using assms(5) events_after_items [of start ?w "stream_key_from_slice i"] sub(2) by simp
  have "stream_settled (sc_id c) ?w" using assms(4) sub(2) by (simp add: stream_settled_def stream_key_from_slice_def)
  with ls.backlog_delivered [OF inv refl] obtain n s' where "n \<le> 5 * length ?xs"
    "live_iter (im_stream_target c) ?w n s = (s', map (Inr \<circ> StepEvent) ?xs)"
    by auto
  moreover have "map untag (map (Inr \<circ> StepEvent) ?xs) = map (Inr \<circ> StepEvent) (map snd ?xs)"
    by (simp add: untag_def step_map_def result_simps)
  ultimately show ?thesis using owed by (metis length_map)
qed

theorem subscription_delivers_within_bound_witness:
  "\<exists>st0 c (s0 :: (version, read_state stream_scan, wake_wait) live_state) st1 n s' new.
    sub_reachable (st0, {#}, {#}) \<and> subscribe im_register [0x6B] None st0 = (Inr (c, s0), st1) \<and>
    n \<le> 10 \<and> live_iter (im_stream_target c) (st1, {#sc_reg c#}, {#}) n (live_new None) = (s', new) \<and>
    map untag new = map (Inr \<circ> StepEvent) [persisted_of (sample_event 1), persisted_of (sample_event 2)]"
proof -
  obtain st0 c and s0 :: "(version, read_state stream_scan, wake_wait) live_state" and st1 where
    sub: "sub_reachable (st0, {#}, {#})" "subscribe im_register [0x6B] None st0 = (Inr (c, s0), st1)" and
    ev: "events_after None (im_hist st1 (stream_key_from_slice [0x6B])) = map persisted_of [sample_event 1, sample_event 2]"
    by (rule sample_subscribed)
  let ?owed = "map persisted_of [sample_event 1, sample_event 2]"
  have run: "live_run (im_stream_target c) (sub_env (sc_reg c)) None (st1, {#sc_reg c#}, {#}) (st1, {#sc_reg c#}, {#}) (live_new None) []"
    by (rule run_start)
  obtain n s' new where n: "n \<le> 5 * length ?owed" "live_iter (im_stream_target c) (st1, {#sc_reg c#}, {#}) n (live_new None) = (s', new)"
    "map untag new = map (Inr \<circ> StepEvent) ?owed"
    using subscription_delivers_within_bound [OF sub, where ks = "[]" and due = "{#}" and owed = ?owed and st = st1
        and regs' = "{#sc_reg c#}" and s = "live_new None" and out = "[]"] run ev by auto
  show ?thesis
    by (rule exI [of _ st0], rule exI [of _ c], rule exI [of _ s0], rule exI [of _ st1], rule exI [of _ n],
        rule exI [of _ s'], rule exI [of _ new]) (use sub n in simp)
qed

text \<open>C36: A subscription to everything gets each event of the log after the start position exactly once, in position
  order, under any interleaving; it announces the end of the backlog at most once, and if it is parked on a
  wait that is not ready it has delivered all of them, or some writer has committed and not yet raised its
  wake, and any such wake makes the wait ready.\<close>

theorem all_subscription_exactly_once:
  assumes "sub_reachable (st0, regs, due0)" "subscribe_all im_register start st0 = (Inr (r, s0), st1)"
    "live_run (im_all_target r) (sub_env r) start (st1, add_mset r regs, due0) (st, regs', due) s out"
  shows "(\<exists>rest. log_after start (im_log st) = delivered out @ rest) \<and> markers out \<le> 1 \<and>
    (\<forall>wait. lv_pc s = Parked wait \<and> \<not> nt_ready (im_notifiers st) wait \<longrightarrow>
      delivered out = log_after start (im_log st) \<or>
      due \<noteq> {#} \<and> (\<forall>k \<in># due. nt_ready (nt_wake k (im_notifiers st)) wait))"
proof -
  note sub = subscribe_all_inv [OF assms(1,2)]
  have inv: "la.live_inv r (st1, add_mset r regs, due0) start (st, regs', due) s out" by (rule la.live_run_inv [OF assms(3) sub(1)])
  then have P: "progress_inv fst (sub_env r) all_contents (st1, add_mset r regs, due0) start (st, regs', due) (lv_read_from s) (lv_caught_up s) out"
    by (simp add: la.live_inv_def)
  have ev: "log_after start (im_log st) = items_after fst start (all_contents (st, regs', due))"
    using log_after_items [of start "(st, regs', due)"] by simp
  have "log_after start (im_log st) = delivered out @ items_after fst (lv_read_from s) (all_contents (st, regs', due))"
    using P ev by (simp add: progress_inv_def)
  moreover have "markers out \<le> 1" using P by (simp add: progress_inv_def)
  moreover have "delivered out = log_after start (im_log st)" if "lv_pc s = Parked wait" "\<not> nt_ready (im_notifiers st) wait"
      "due = {#}" for wait
    using la.asleep_means_done [OF inv that(1)] that(2,3) ev by (simp add: all_settled_def)
  moreover have "nt_ready (nt_wake k (im_notifiers st)) wait" if pc: "lv_pc s = Parked wait" for wait k
  proof -
    obtain w where w: "all_sub_inv r w" "wait = nt_arm (im_notifiers (fst w)) r" "(sub_env r)\<^sup>*\<^sup>* w (st, regs', due)"
      using la.parked_armed [OF inv pc] unfolding la.armed_def by auto
    with due_wake_ready [OF w(3), of k] show ?thesis by (simp add: all_sub_inv_def covers_def)
  qed
  ultimately show ?thesis by blast
qed

text \<open>Two events delivered and the marker; and a cursor asleep on the empty log, then a commit and its wake.\<close>

theorem all_subscription_exactly_once_witness:
  "(\<exists>st0 r (s0 :: (all_pos, global_read_state, wake_wait) live_state) st1 s out.
    sub_reachable (st0, {#}, {#}) \<and> subscribe_all im_register None st0 = (Inr (r, s0), st1) \<and>
    live_run (im_all_target r) (sub_env r) None (st1, {#r#}, {#}) (st1, {#r#}, {#}) s out \<and> length out = 3 \<and> markers out \<le> 1) \<and>
  (\<exists>s wait st. live_run (im_all_target idle_all_reg) (sub_env idle_all_reg) None (im_new, {#idle_all_reg#}, {#})
      (st, {#idle_all_reg#}, {#[0]#}) s [Inr CaughtUp] \<and> lv_pc s = Parked wait \<and> length (log_after None (im_log st)) = 2 \<and>
    \<not> nt_ready (im_notifiers st) wait \<and> nt_ready (nt_wake [0] (im_notifiers st)) wait)"
proof
  obtain st0 r and s0 :: "(all_pos, global_read_state, wake_wait) live_state" and st1 where
    sub: "sub_reachable (st0, {#}, {#})" "subscribe_all im_register None st0 = (Inr (r, s0), st1)" and
    len: "length (log_after None (im_log st1)) = 2" by (rule sample_subscribed_all)
  note I = subscribe_all_inv [OF sub]
  let ?out = "map (Inr \<circ> StepEvent) (items_after fst None (all_contents (st1, {#r#}, {#}))) @ [Inr CaughtUp]"
  obtain n s where n: "live_iter (im_all_target r) (st1, {#r#}, {#}) n (live_new None) = (s, ?out)"
    using la.catches_up [OF I(1), of None] by auto
  have run: "live_run (im_all_target r) (sub_env r) None (st1, {#r#}, {#}) (st1, {#r#}, {#}) s ?out"
    using live_run_iter [OF run_start n, of "sub_env r"] by simp
  have "length ?out = 3" using len log_after_items [of None "(st1, {#r#}, {#})"] by simp
  moreover have "markers ?out \<le> 1" using all_subscription_exactly_once [OF sub, of st1 "{#r#}" "{#}" s ?out] run by simp
  ultimately show "\<exists>st0 r (s0 :: (all_pos, global_read_state, wake_wait) live_state) st1 s out.
      sub_reachable (st0, {#}, {#}) \<and> subscribe_all im_register None st0 = (Inr (r, s0), st1) \<and>
      live_run (im_all_target r) (sub_env r) None (st1, {#r#}, {#}) (st1, {#r#}, {#}) s out \<and> length out = 3 \<and> markers out \<le> 1"
    using sub run by blast
next
  obtain s where s: "live_iter (im_all_target idle_all_reg) (im_new, {#idle_all_reg#}, {#}) 8 (live_new None) = (s, [Inr CaughtUp])"
    "lv_pc s = Parked \<lparr>ww_chan = 0, ww_seen = 0\<rparr>" "\<not> nt_ready (im_notifiers im_new) \<lparr>ww_chan = 0, ww_seen = 0\<rparr>"
    using idle_all_run by blast
  obtain st where st: "im_commit im_new st [[0]]" "length (im_log st) = 2"
    using sample_commit [OF im_new_inv(1), of "StreamKey [0]"] im_new_inv(2,3) by (metis stream_key.sel)
  have nr: "\<not> nt_ready (im_notifiers st) \<lparr>ww_chan = 0, ww_seen = 0\<rparr>" using s(3) im_commit_notifiers [OF st(1)] by simp
  have run: "live_run (im_all_target idle_all_reg) (sub_env idle_all_reg) None (im_new, {#idle_all_reg#}, {#})
      (st, {#idle_all_reg#}, {#[0]#}) s [Inr CaughtUp]"
    using run_env [OF live_run_iter [OF run_start s(1), of "sub_env idle_all_reg"] env_commit [OF st(1)]] by simp
  have len: "length (log_after None (im_log st)) = 2" using st(2) by (simp add: log_after_def)
  have "nt_ready (nt_wake [0] (im_notifiers st)) \<lparr>ww_chan = 0, ww_seen = 0\<rparr>"
    using all_subscription_exactly_once [OF im_new_reachable idle_all_subscribed run] s(2) nr len by auto
  with s(2) nr run len show "\<exists>s wait st. live_run (im_all_target idle_all_reg) (sub_env idle_all_reg) None (im_new, {#idle_all_reg#}, {#})
      (st, {#idle_all_reg#}, {#[0]#}) s [Inr CaughtUp] \<and> lv_pc s = Parked wait \<and> length (log_after None (im_log st)) = 2 \<and>
    \<not> nt_ready (im_notifiers st) wait \<and> nt_ready (nt_wake [0] (im_notifiers st)) wait"
    by (intro exI [of _ s] exI [of _ "\<lparr>ww_chan = 0, ww_seen = 0\<rparr>"] exI [of _ st]) simp
qed

text \<open>Catch-up terminates: on a store that stands still a new subscription to everything delivers the whole
  backlog and then the marker, in at most five steps per event and five more.\<close>

theorem all_subscription_catches_up:
  assumes "sub_reachable (st0, regs, due0)" "subscribe_all im_register start st0 = (Inr (r, s0), st1)"
  shows "\<exists>n s'. n \<le> 5 * length (log_after start (im_log st1)) + 5 \<and>
    live_iter (im_all_target r) (st1, add_mset r regs, due0) n s0 =
      (s', map (Inr \<circ> StepEvent) (log_after start (im_log st1)) @ [Inr CaughtUp])"
proof -
  note sub = subscribe_all_inv [OF assms]
  from la.catches_up [OF sub(1), of start] log_after_items [of start "(st1, add_mset r regs, due0)"] sub(2) show ?thesis
    by simp
qed

theorem all_subscription_catches_up_witness:
  "\<exists>st0 r (s0 :: (all_pos, global_read_state, wake_wait) live_state) st1 n s' x y.
    sub_reachable (st0, {#}, {#}) \<and> subscribe_all im_register None st0 = (Inr (r, s0), st1) \<and> n \<le> 15 \<and>
    live_iter (im_all_target r) (st1, {#r#}, {#}) n s0 = (s', [Inr (StepEvent x), Inr (StepEvent y), Inr CaughtUp])"
proof -
  obtain st0 r and s0 :: "(all_pos, global_read_state, wake_wait) live_state" and st1 where
    sub: "sub_reachable (st0, {#}, {#})" "subscribe_all im_register None st0 = (Inr (r, s0), st1)" and
    len: "length (log_after None (im_log st1)) = 2" by (rule sample_subscribed_all)
  from len obtain x y where xy: "log_after None (im_log st1) = [x, y]" by (auto simp: numeral_2_eq_2 length_Suc_conv)
  obtain n s' where n: "n \<le> 15"
    "live_iter (im_all_target r) (st1, {#r#}, {#}) n s0 = (s', [Inr (StepEvent x), Inr (StepEvent y), Inr CaughtUp])"
    using all_subscription_catches_up [OF sub] xy by auto
  show ?thesis
    by (rule exI [of _ st0], rule exI [of _ r], rule exI [of _ s0], rule exI [of _ st1], rule exI [of _ n],
        rule exI [of _ s'], rule exI [of _ x], rule exI [of _ y]) (use sub n in simp)
qed

end
