(* ===== verification/Fjall_Keys.thy ===== *)
theory Fjall_Keys
  imports Append_Contract Wake_Registry "HOL-Library.List_Lexorder"
begin

text \<open>
  The byte layouts of the fjall adapter: \<open>adapters/fjall/src/wire_key.rs\<close> (event and \<open>$all\<close>
  keys, the version counter), \<open>limits.rs\<close>, \<open>snapshot.rs\<close> (the snapshot value),
  \<open>global_seq.rs\<close> and the error type of \<open>error.rs\<close>.

  The lemmas are the round trips of every layout and the order of the keys: in the
  lexicographic order of an LSM tree the keys of one stream form one block, ordered by
  version, and the \<open>$all\<close> keys are ordered by position.
\<close>

section \<open>Errors\<close>

datatype key_decode_error =
    KeyInvalidSize nat nat
  | KeyValueTooShort nat nat

datatype key_encode_error = IdTooLong nat nat

text \<open>A reason label is the text of the error it was made from; the model keeps the error itself.\<close>

datatype reason = ReasonKey key_encode_error | ReasonFrame wire_error

datatype all_index = Denormalized | AllDisabled

text \<open>\<open>FjallError\<close>. The type variable is \<open>fjall::Error\<close>; the sources of the worker errors are
library values and are left out.\<close>

datatype 'io fjall_error =
    FjWorkerSpawn
  | FjWorkerTimer
  | FjExportSessionIdOverflow
  | FjWorkerQueueClosed
  | FjWorkerResponseCanceled
  | FjWorkerPanicked bytes
  | FjOutstandingHandles nat
  | FjScanCapacity
  | FjScanLengthOverflow
  | FjUnmarkedDatabase
  | FjInvalidManifest
  | FjUnsupportedLayout u8
  | FjIndexModeMismatch all_index all_index
  | FjInvalidKey nat nat
  | FjStateTooLarge nat nat
  | FjIo 'io
  | FjCorruptValue bytes "u64 option"
  | FjEnvelopeCorrupt bytes u64 envelope_error
  | FjCorruptMeta bytes
  | FjInvalidInput bytes u64 reason
  | FjVersionOverflow
  | FjGlobalSeqOverflow
  | FjAllIndexDisabled
  | FjSubscription notify_error

section \<open>Limits\<close>

definition MAX_KEY_LEN :: nat where "MAX_KEY_LEN = 65535"
definition MAX_STREAM_ID_LEN :: nat where "MAX_STREAM_ID_LEN = MAX_KEY_LEN - 18"

definition validate_key :: "bytes \<Rightarrow> nat \<Rightarrow> (unit, 'io fjall_error) result" where
  "validate_key key max_len =
    (if key = [] \<or> length key > max_len then Inl (FjInvalidKey (length key) max_len) else Inr ())"

definition CHECKPOINT_HEADER_SIZE :: nat where "CHECKPOINT_HEADER_SIZE = 20"

definition value_len :: "nat \<Rightarrow> nat \<Rightarrow> (nat, 'io fjall_error) result" where
  "value_len payload header =
    ok_or (FjStateTooLarge payload header)
      (case checked_add_usize payload header of
         None \<Rightarrow> None
       | Some len \<Rightarrow> if len < 2 ^ 32 then Some len else None)"

definition state_value_len :: "nat \<Rightarrow> (nat, 'io fjall_error) result" where
  "state_value_len payload = value_len payload 12"

definition checkpoint_value_len :: "nat \<Rightarrow> (nat, 'io fjall_error) result" where
  "checkpoint_value_len payload = value_len payload CHECKPOINT_HEADER_SIZE"

section \<open>Global sequence numbers\<close>

type_synonym global_seq = "64 nonzero"

definition global_seq_INITIAL :: global_seq where "global_seq_INITIAL = nz 1"

definition global_seq_next :: "global_seq \<Rightarrow> global_seq option" where
  "global_seq_next g = nonzero_checked_add g 1"

definition global_seq_as_u64 :: "global_seq \<Rightarrow> u64" where
  "global_seq_as_u64 g = get g"

definition global_seq_new :: "u64 \<Rightarrow> global_seq option" where
  "global_seq_new v = nonzero_new v"

section \<open>Event keys\<close>

definition EVENT_KEY_HEADER_SIZE :: nat where "EVENT_KEY_HEADER_SIZE = 2"
definition EVENT_KEY_VERSION_SIZE :: nat where "EVENT_KEY_VERSION_SIZE = 8"
definition STREAM_VERSION_SIZE :: nat where "STREAM_VERSION_SIZE = 8"

definition event_key_size :: "nat \<Rightarrow> nat" where
  "event_key_size id_len = EVENT_KEY_HEADER_SIZE + id_len + EVENT_KEY_VERSION_SIZE"

definition checked_id_len :: "nat \<Rightarrow> nat \<Rightarrow> (u16, key_encode_error) result" where
  "checked_id_len len max_len =
    (if len > max_len then Inl (IdTooLong len max_len)
     else if len < 2 ^ 16 then Inr (of_nat len)
     else Inl (IdTooLong len max_len))"

definition encode_event_key :: "bytes \<Rightarrow> u64 \<Rightarrow> (bytes, key_encode_error) result" where
  "encode_event_key id_bytes version =
    (let id_len = length id_bytes;
         max_len = MAX_KEY_LEN - EVENT_KEY_HEADER_SIZE - EVENT_KEY_VERSION_SIZE in
     and_then (checked_id_len id_len max_len) (\<lambda>id_len_u16.
       Inr (u16_be id_len_u16 @ id_bytes @ u64_be version)))"

definition decode_event_key :: "bytes \<Rightarrow> (bytes \<times> u64, key_decode_error) result" where
  "decode_event_key key =
    (if length key < EVENT_KEY_HEADER_SIZE
     then Inl (KeyValueTooShort EVENT_KEY_HEADER_SIZE (length key))
     else
       let id_len = unat (be_word (take 2 key) :: u16);
           expected_total = event_key_size id_len in
       if length key \<noteq> expected_total then Inl (KeyInvalidSize expected_total (length key))
       else
         let version_start = EVENT_KEY_HEADER_SIZE + id_len in
         Inr (take id_len (drop EVENT_KEY_HEADER_SIZE key), be_word (take 8 (drop version_start key))))"

section \<open>\<open>$all\<close> keys\<close>

definition GLOBAL_KEY_PREFIX_SIZE :: nat where "GLOBAL_KEY_PREFIX_SIZE = 8 + 2"
definition GLOBAL_KEY_VERSION_SIZE :: nat where "GLOBAL_KEY_VERSION_SIZE = 8"

definition encode_global_key :: "u64 \<Rightarrow> bytes \<Rightarrow> u64 \<Rightarrow> (bytes, key_encode_error) result" where
  "encode_global_key global_seq i version =
    and_then (checked_id_len (length i) MAX_STREAM_ID_LEN) (\<lambda>id_len.
      Inr (u64_be global_seq @ u16_be id_len @ i @ u64_be version))"

definition decode_global_key :: "bytes \<Rightarrow> (u64 \<times> bytes \<times> u64, key_decode_error) result" where
  "decode_global_key key =
    (let min_len = GLOBAL_KEY_PREFIX_SIZE + GLOBAL_KEY_VERSION_SIZE in
     if length key < min_len then Inl (KeyValueTooShort min_len (length key))
     else
       let global_seq = be_word (take 8 key);
           id_len = unat (be_word (take 2 (drop 8 key)) :: u16) in
       case (case checked_add_usize GLOBAL_KEY_PREFIX_SIZE id_len of
               None \<Rightarrow> None
             | Some n \<Rightarrow> checked_add_usize n GLOBAL_KEY_VERSION_SIZE) of
         None \<Rightarrow> Inl (KeyInvalidSize usize_max (length key))
       | Some expected_total \<Rightarrow>
           if length key \<noteq> expected_total then Inl (KeyInvalidSize expected_total (length key))
           else
             let version_start = GLOBAL_KEY_PREFIX_SIZE + id_len in
             Inr (global_seq, take id_len (drop GLOBAL_KEY_PREFIX_SIZE key),
               be_word (take 8 (drop version_start key))))"

section \<open>Counters and snapshot values\<close>

definition encode_stream_version :: "u64 \<Rightarrow> bytes" where
  "encode_stream_version version = u64_le version"

definition decode_stream_version :: "bytes \<Rightarrow> (u64, key_decode_error) result" where
  "decode_stream_version value =
    (if length value \<noteq> STREAM_VERSION_SIZE then Inl (KeyInvalidSize STREAM_VERSION_SIZE (length value))
     else Inr (le_word value))"

definition SNAPSHOT_VALUE_HEADER_SIZE :: nat where "SNAPSHOT_VALUE_HEADER_SIZE = 12"

definition encode_snapshot_value :: "u32 \<Rightarrow> u64 \<Rightarrow> bytes \<Rightarrow> (bytes, 'io fjall_error) result" where
  "encode_snapshot_value schema_version version payload =
    and_then (state_value_len (length payload)) (\<lambda>_.
      Inr (u32_le schema_version @ u64_be version @ payload))"

definition decode_snapshot_value :: "bytes \<Rightarrow> (u32 \<times> u64 \<times> bytes, key_decode_error) result" where
  "decode_snapshot_value value =
    (if length value < SNAPSHOT_VALUE_HEADER_SIZE
     then Inl (KeyValueTooShort SNAPSHOT_VALUE_HEADER_SIZE (length value))
     else Inr (le_word (take 4 value), be_word (take 8 (drop 4 value)), drop 12 value))"

lemmas fjall_sizes =
  EVENT_KEY_HEADER_SIZE_def EVENT_KEY_VERSION_SIZE_def STREAM_VERSION_SIZE_def event_key_size_def
  GLOBAL_KEY_PREFIX_SIZE_def GLOBAL_KEY_VERSION_SIZE_def SNAPSHOT_VALUE_HEADER_SIZE_def
  CHECKPOINT_HEADER_SIZE_def MAX_KEY_LEN_def MAX_STREAM_ID_LEN_def

section \<open>Round trips\<close>

text \<open>The bytes of a key.\<close>

definition event_key :: "bytes \<Rightarrow> u64 \<Rightarrow> bytes" where
  "event_key i v = u16_be (of_nat (length i)) @ i @ u64_be v"

definition global_key :: "u64 \<Rightarrow> bytes \<Rightarrow> u64 \<Rightarrow> bytes" where
  "global_key g i v = u64_be g @ u16_be (of_nat (length i)) @ i @ u64_be v"

lemma encode_event_key_eq:
  "encode_event_key i v = (if length i \<le> 65525 then Inr (event_key i v) else Inl (IdTooLong (length i) 65525))"
  by (simp add: encode_event_key_def checked_id_len_def event_key_def fjall_sizes Let_def)

lemma encode_global_key_eq:
  "encode_global_key g i v =
    (if length i \<le> MAX_STREAM_ID_LEN then Inr (global_key g i v) else Inl (IdTooLong (length i) MAX_STREAM_ID_LEN))"
  by (simp add: encode_global_key_def checked_id_len_def global_key_def fjall_sizes)

lemma decode_event_key_of [simp]:
  assumes "length i < 2 ^ 16"
  shows "decode_event_key (event_key i v) = Inr (i, v)"
  using assms
  by (simp add: decode_event_key_def event_key_def fjall_sizes codec_simps unat_of_nat_small Let_def)

lemma take_drop_parts:
  assumes "length k = 2 + n + 8"
  shows "k = take 2 k @ take n (drop 2 k) @ take 8 (drop (2 + n) k)"
proof -
  have "take n (drop 2 k) @ drop (2 + n) k = drop 2 k"
    by (metis add.commute append_take_drop_id drop_drop)
  moreover have "take 8 (drop (2 + n) k) = drop (2 + n) k" using assms by simp
  ultimately show ?thesis by simp
qed

lemma decode_event_key_unfold:
  fixes k :: bytes
  defines "n \<equiv> unat (be_word (take 2 k) :: u16)"
  shows "decode_event_key k =
    (if length k < 2 then Inl (KeyValueTooShort 2 (length k))
     else if length k \<noteq> 2 + n + 8 then Inl (KeyInvalidSize (2 + n + 8) (length k))
     else Inr (take n (drop 2 k), be_word (take 8 (drop (2 + n) k))))"
  by (simp only: decode_event_key_def Let_def fjall_sizes n_def)

lemma decode_event_key_Inr:
  "decode_event_key k = Inr (i, v) \<longleftrightarrow> length i < 2 ^ 16 \<and> k = event_key i v"
proof
  assume d: "decode_event_key k = Inr (i, v)"
  define n where "n = unat (be_word (take 2 k) :: u16)"
  have len: "length k = 2 + n + 8" and i: "i = take n (drop 2 k)"
    and v: "v = be_word (take 8 (drop (2 + n) k))"
    using d unfolding decode_event_key_unfold [of k] n_def [symmetric] by (simp_all split: if_splits)
  have li: "length i = n" using len i by simp
  have "n < 2 ^ 16" unfolding n_def using unat_bound [of "be_word (take 2 k) :: u16"] by simp
  moreover have "length (take 2 k) = 2" "length (take 8 (drop (2 + n) k)) = 8" using len by simp_all
  then have "u16_be (of_nat n) = take 2 k" "u64_be v = take 8 (drop (2 + n) k)"
    unfolding n_def v by (simp_all add: bytes_word_roundtrip)
  ultimately show "length i < 2 ^ 16 \<and> k = event_key i v"
    using take_drop_parts [OF len] by (simp only: event_key_def li i [symmetric] simp_thms)
qed simp

lemma decode_global_key_split:
  assumes "18 \<le> length k"
  shows "decode_global_key k =
    (case decode_event_key (drop 8 k) of
       Inl (KeyInvalidSize m n) \<Rightarrow> Inl (KeyInvalidSize (m + 8) (n + 8))
     | Inl e \<Rightarrow> Inl e
     | Inr (i, v) \<Rightarrow> Inr (be_word (take 8 k), i, v))"
proof -
  define n where "n = unat (be_word (take 2 (drop 8 k)) :: u16)"
  have "n < 2 ^ 16" unfolding n_def using unat_bound [of "be_word (take 2 (drop 8 k)) :: u16"] by simp
  then have add: "checked_add_usize (8 + 2) n = Some (10 + n)" "checked_add_usize (10 + n) 8 = Some (18 + n)"
    by (simp_all add: checked_add_usize_def usize_max_def)
  have d: "drop 2 (drop 8 k) = drop 10 k" "drop (2 + n) (drop 8 k) = drop (10 + n) k" by (simp_all add: add.commute)
  have "decode_global_key k =
      (if length k \<noteq> 18 + n then Inl (KeyInvalidSize (18 + n) (length k))
       else Inr (be_word (take 8 k), take n (drop 10 k), be_word (take 8 (drop (10 + n) k))))"
    using assms add unfolding decode_global_key_def Let_def GLOBAL_KEY_PREFIX_SIZE_def GLOBAL_KEY_VERSION_SIZE_def
      n_def [symmetric] by simp
  moreover have "decode_event_key (drop 8 k) =
      (if length k \<noteq> 18 + n then Inl (KeyInvalidSize (10 + n) (length k - 8))
       else Inr (take n (drop 10 k), be_word (take 8 (drop (10 + n) k))))"
    using assms unfolding decode_event_key_unfold [of "drop 8 k"] n_def [symmetric] d by auto
  ultimately show ?thesis using assms by simp
qed

lemma global_key_alt: "global_key g i v = u64_be g @ event_key i v"
  by (simp add: global_key_def event_key_def)

lemma length_keys [simp]:
  "length (event_key i v) = 10 + length i" "length (global_key g i v) = 18 + length i"
  by (simp_all add: event_key_def global_key_def)

lemma decode_global_key_of [simp]:
  assumes "length i < 2 ^ 16"
  shows "decode_global_key (global_key g i v) = Inr (g, i, v)"
proof -
  have "drop 8 (global_key g i v) = event_key i v" "be_word (take 8 (global_key g i v)) = g"
    by (simp_all add: global_key_alt codec_simps)
  with assms show ?thesis by (simp add: decode_global_key_split)
qed

lemma decode_global_key_Inr:
  "decode_global_key k = Inr (g, i, v) \<longleftrightarrow> length i < 2 ^ 16 \<and> k = global_key g i v"
proof
  assume d: "decode_global_key k = Inr (g, i, v)"
  have len: "18 \<le> length k"
    using d by (auto simp: decode_global_key_def Let_def fjall_sizes split: if_splits)
  from d have "decode_event_key (drop 8 k) = Inr (i, v)" "g = be_word (take 8 k)"
    by (auto simp: decode_global_key_split [OF len] split: sum.splits key_decode_error.splits)
  then have "length i < 2 ^ 16" "drop 8 k = event_key i v" "u64_be g = take 8 k"
    using len by (simp_all add: decode_event_key_Inr codec_simps)
  then show "length i < 2 ^ 16 \<and> k = global_key g i v"
    by (metis append_take_drop_id global_key_alt)
qed simp

lemma decode_stream_version_of [simp]: "decode_stream_version (encode_stream_version v) = Inr v"
  by (simp add: decode_stream_version_def encode_stream_version_def fjall_sizes codec_simps)

lemma value_len_Inr:
  "value_len n h = (if n + h < 2 ^ 32 then Inr (n + h) else Inl (FjStateTooLarge n h))"
  by (simp add: value_len_def checked_add_usize_def usize_max_def)

lemma decode_snapshot_value_of:
  "encode_snapshot_value s v p = Inr value \<Longrightarrow> decode_snapshot_value value = Inr (s, v, p)"
  by (auto simp: encode_snapshot_value_def decode_snapshot_value_def fjall_sizes codec_simps
      state_value_len_def value_len_Inr split: if_splits)

section \<open>Key order\<close>

lemma lex_append:
  fixes a b x y :: "'a::linorder list"
  shows "length a = length b \<Longrightarrow> a @ x < b @ y \<longleftrightarrow> a < b \<or> a = b \<and> x < y"
  by (induction a b rule: list_induct2) auto

lemma be_val_Cons: "be_val (b # bs) = unat b * 256 ^ length bs + be_val bs"
proof -
  have "le_val (xs @ [b]) = le_val xs + unat b * 256 ^ length xs" for xs
    by (induction xs) (simp_all add: algebra_simps)
  then show ?thesis by (simp add: be_val_def)
qed

lemma be_val_less: "length a = length b \<Longrightarrow> be_val a < be_val b \<longleftrightarrow> a < b"
proof (induction a b rule: list_induct2)
  case (Cons x xs y ys)
  let ?B = "256 ^ length xs"
  have lt: "be_val xs < ?B" "be_val ys < ?B" using be_val_bound [of xs] be_val_bound [of ys] Cons.hyps by simp_all
  have "unat x * ?B + be_val xs < unat y * ?B + be_val ys \<longleftrightarrow> x < y \<or> x = y \<and> be_val xs < be_val ys"
  proof (cases x y rule: linorder_cases)
    case less
    then have "Suc (unat x) \<le> unat y" by (simp add: word_less_nat_alt Suc_le_eq)
    then have "Suc (unat x) * ?B \<le> unat y * ?B" by (rule mult_le_mono1)
    with lt less show ?thesis by simp
  next
    case greater
    then have "Suc (unat y) \<le> unat x" by (simp add: word_less_nat_alt Suc_le_eq)
    then have "Suc (unat y) * ?B \<le> unat x * ?B" by (rule mult_le_mono1)
    with lt greater show ?thesis by (auto simp: not_less)
  qed simp
  with Cons show ?case by (simp add: be_val_Cons)
qed (simp add: be_val_def)

lemma u64_be_less: "u64_be a < u64_be b \<longleftrightarrow> a < b"
  and u16_be_less: "u16_be c < u16_be d \<longleftrightarrow> c < d"
  using unat_bound [of a] unat_bound [of b] unat_bound [of c] unat_bound [of d]
  by (simp_all add: be_val_less [symmetric] u64_be_def u16_be_def be_val_be_bytes word_less_nat_alt)

lemma word_bytes_inject [simp]: "u64_be a = u64_be b \<longleftrightarrow> a = b" "u16_be c = u16_be d \<longleftrightarrow> c = d"
  by (metis word_bytes_roundtrip(5)) (metis word_bytes_roundtrip(4))

lemma event_key_less:
  assumes "length i < 2 ^ 16" "length j < 2 ^ 16"
  shows "event_key i v < event_key j w \<longleftrightarrow>
    length i < length j \<or> length i = length j \<and> (i < j \<or> i = j \<and> v < w)"
proof -
  have u: "(of_nat (length i) :: u16) < of_nat (length j) \<longleftrightarrow> length i < length j"
    "(of_nat (length i) :: u16) = of_nat (length j) \<longleftrightarrow> length i = length j"
    using assms by (simp_all add: word_less_nat_alt word_unat_eq_iff unat_of_nat_small)
  have "event_key i v < event_key j w \<longleftrightarrow>
      length i < length j \<or> length i = length j \<and> i @ u64_be v < j @ u64_be w"
    by (simp add: event_key_def lex_append u16_be_less u)
  then show ?thesis by (auto simp: lex_append u64_be_less)
qed

lemma event_key_inject:
  assumes "length i < 2 ^ 16" "length j < 2 ^ 16"
  shows "event_key i v = event_key j w \<longleftrightarrow> i = j \<and> v = w"
  using assms by (metis Pair_inject decode_event_key_of sum.inject(2))

lemma global_key_less:
  "g < h \<Longrightarrow> global_key g i v < global_key h j w"
  by (simp add: global_key_alt lex_append u64_be_less)

text \<open>The scanned range of a stream holds the keys of that stream and no other, and the range of
the \<open>$all\<close> scan the keys from a position on.\<close>

lemma event_key_range:
  assumes "length i < 2 ^ 16" "length j < 2 ^ 16"
  shows "event_key i lo \<le> event_key j v \<and> event_key j v \<le> event_key i (- 1) \<longleftrightarrow> j = i \<and> lo \<le> v"
  using assms by (auto simp: linorder_not_less [symmetric] event_key_less)

lemma global_key_lower:
  assumes "length i < 2 ^ 16"
  shows "global_key g [] 0 \<le> global_key h i v \<longleftrightarrow> g \<le> h"
proof -
  have "\<not> event_key i v < event_key [] 0" using assms by (simp add: event_key_less)
  then show ?thesis
    by (auto simp: linorder_not_less [symmetric] global_key_alt lex_append u64_be_less)
qed

section \<open>Properties\<close>

text \<open>Event keys are faithful and ordered for range scans. An encoded key decodes to its stream id and
  version; byte order on keys is the order by id length, id and version; and the range from a version
  of a stream to its greatest key holds the keys of that stream from that version on and no key of any
  other stream, not even of one whose id extends it.\<close>

theorem event_keys_ordered:
  assumes "encode_event_key i v = Inr a" "encode_event_key j w = Inr b"
    "encode_event_key i u = Inr lo" "encode_event_key i (- 1) = Inr hi"
  shows "decode_event_key a = Inr (i, v) \<and>
    (a < b \<longleftrightarrow> length i < length j \<or> length i = length j \<and> (i < j \<or> i = j \<and> v < w)) \<and>
    (lo \<le> b \<and> b \<le> hi \<longleftrightarrow> j = i \<and> u \<le> w)"
proof -
  have len: "length i < 2 ^ 16" "length j < 2 ^ 16" and
    eq: "a = event_key i v" "b = event_key j w" "lo = event_key i u" "hi = event_key i (- 1)"
    using assms by (auto simp: encode_event_key_eq split: if_splits)
  show ?thesis unfolding eq using len by (simp add: event_key_less event_key_range)
qed

theorem event_keys_ordered_witness:
  "decode_event_key (event_key [102, 111] 3) = Inr ([102, 111], 3) \<and>
   event_key [102, 111] 3 < event_key [102, 111, 111] 1 \<and>
   \<not> (event_key [102, 111] 1 \<le> event_key [102, 111, 111] 1 \<and> event_key [102, 111, 111] 1 \<le> event_key [102, 111] (- 1))"
  using event_keys_ordered [of "[102, 111]" 3 "event_key [102, 111] 3" "[102, 111, 111]" 1 "event_key [102, 111, 111] 1"
      1 "event_key [102, 111] 1" "event_key [102, 111] (- 1)"]
  by (simp add: encode_event_key_eq)

end
