(* ===== verification/Fjall_Engine.thy ===== *)
theory Fjall_Engine
  imports Fjall_Keys Import_Plan Ordered_Map Wake_Registry
begin

text \<open>
  The fjall storage engine as the adapter uses it, and the partitions on top of it
  (\<open>adapters/fjall/src/partition.rs\<close>, \<open>durability.rs\<close>, the \<open>Storage\<close> struct of \<open>store.rs\<close>).

  The engine is a library outside the repository, so it is a parameter: a record of the
  operations the adapter calls, over an unknown database type, transaction type and error
  type. \<open>engine_ok\<close> states what the adapter relies on, with \<open>contents\<close> and \<open>tview\<close> giving the
  key-value view of a database and of a transaction: every operation may fail, a transaction
  reads its own writes over the database it was opened on, a commit that returns has applied
  the whole transaction, one that fails has applied all of it or nothing, and a range yields
  its entries in key order, possibly cut short by an error. \<open>list_engine\<close> shows that the
  conditions can hold.
\<close>

section \<open>Engine interface\<close>

type_synonym keyspace = string
type_synonym view = "keyspace \<Rightarrow> bytes \<rightharpoonup> bytes"

datatype persist_mode = PmSyncAll | PmSyncData | PmBuffer

datatype durability = DurSyncAll | DurSyncData | DurBuffered

definition durability_persist_mode :: "durability \<Rightarrow> persist_mode" where
  "durability_persist_mode d =
    (case d of DurSyncAll \<Rightarrow> PmSyncAll | DurSyncData \<Rightarrow> PmSyncData | DurBuffered \<Rightarrow> PmBuffer)"

text \<open>The key ranges the adapter opens: \<open>lower..\<close>, \<open>lower..=upper\<close>, \<open>lower..upper\<close>, everything, and
strictly after a key.\<close>

datatype key_range =
    RangeFrom bytes
  | RangeInclusive bytes bytes
  | RangeHalfOpen bytes bytes
  | RangeFull
  | RangeAfter bytes

fun in_range :: "key_range \<Rightarrow> bytes \<Rightarrow> bool" where
  "in_range (RangeFrom lo) k \<longleftrightarrow> lo \<le> k"
| "in_range (RangeInclusive lo hi) k \<longleftrightarrow> lo \<le> k \<and> k \<le> hi"
| "in_range (RangeHalfOpen lo hi) k \<longleftrightarrow> lo \<le> k \<and> k < hi"
| "in_range RangeFull k \<longleftrightarrow> True"
| "in_range (RangeAfter lo) k \<longleftrightarrow> lo < k"

type_synonym 'io row = "'io + (bytes \<times> bytes)"

record ('db, 'tx, 'io) engine =
  eng_keyspace :: "keyspace \<Rightarrow> 'db \<Rightarrow> (unit, 'io) result \<times> 'db"
  eng_names :: "'db \<Rightarrow> keyspace list"
  eng_write_tx :: "persist_mode \<Rightarrow> 'db \<Rightarrow> 'tx"
  eng_tx_get :: "'tx \<Rightarrow> keyspace \<Rightarrow> bytes \<Rightarrow> (bytes option, 'io) result"
  eng_tx_is_empty :: "'tx \<Rightarrow> keyspace \<Rightarrow> (bool, 'io) result"
  eng_insert :: "keyspace \<Rightarrow> bytes \<Rightarrow> bytes \<Rightarrow> 'tx \<Rightarrow> 'tx"
  eng_commit :: "'tx \<Rightarrow> 'db \<Rightarrow> (unit, 'io) result \<times> 'db"
  eng_get :: "'db \<Rightarrow> keyspace \<Rightarrow> bytes \<Rightarrow> (bytes option, 'io) result"
  eng_range :: "'db \<Rightarrow> keyspace \<Rightarrow> key_range \<Rightarrow> 'io row list"
  eng_persist :: "persist_mode \<Rightarrow> 'db \<Rightarrow> (unit, 'io) result \<times> 'db"

definition sorted_entries :: "(bytes \<rightharpoonup> bytes) \<Rightarrow> key_range \<Rightarrow> (bytes \<times> bytes) list \<Rightarrow> bool" where
  "sorted_entries m r xs \<longleftrightarrow> sorted_wrt (<) (map fst xs) \<and> set xs = {(k, v). in_range r k \<and> m k = Some v}"

text \<open>The rows of an iterator: all entries, or some of them followed by an error.\<close>

definition rows_ok :: "(bytes \<rightharpoonup> bytes) \<Rightarrow> key_range \<Rightarrow> 'io row list \<Rightarrow> bool" where
  "rows_ok m r rows \<longleftrightarrow> (\<exists>xs. sorted_entries m r xs \<and>
    (rows = map Inr xs \<or> (\<exists>n e rest. rows = map Inr (take n xs) @ Inl e # rest)))"

definition engine_keyspaces_ok :: "('db, 'tx, 'io) engine \<Rightarrow> ('db \<Rightarrow> view) \<Rightarrow> bool" where
  "engine_keyspaces_ok eng contents \<longleftrightarrow>
    (\<forall>ks db. contents (snd (eng_keyspace eng ks db)) = contents db) \<and>
    (\<forall>pm db. contents (snd (eng_persist eng pm db)) = contents db) \<and>
    (\<forall>ks db. contents db ks \<noteq> Map.empty \<longrightarrow> ks \<in> set (eng_names eng db))"

definition engine_tx_ok :: "('db, 'tx, 'io) engine \<Rightarrow> ('db \<Rightarrow> view) \<Rightarrow> ('tx \<Rightarrow> view) \<Rightarrow> bool" where
  "engine_tx_ok eng contents tview \<longleftrightarrow>
    (\<forall>pm db. tview (eng_write_tx eng pm db) = contents db) \<and>
    (\<forall>tx ks k v. eng_tx_get eng tx ks k = Inr v \<longrightarrow> v = tview tx ks k) \<and>
    (\<forall>tx ks b. eng_tx_is_empty eng tx ks = Inr b \<longrightarrow> (b \<longleftrightarrow> tview tx ks = Map.empty)) \<and>
    (\<forall>tx ks k v. tview (eng_insert eng ks k v tx) = (tview tx)(ks := (tview tx ks)(k \<mapsto> v)))"

definition engine_commit_ok :: "('db, 'tx, 'io) engine \<Rightarrow> ('db \<Rightarrow> view) \<Rightarrow> ('tx \<Rightarrow> view) \<Rightarrow> bool" where
  "engine_commit_ok eng contents tview \<longleftrightarrow>
    (\<forall>tx db db'. eng_commit eng tx db = (Inr (), db') \<longrightarrow> contents db' = tview tx) \<and>
    (\<forall>tx db e db'. eng_commit eng tx db = (Inl e, db') \<longrightarrow>
      contents db' = tview tx \<or> contents db' = contents db)"

definition engine_reads_ok :: "('db, 'tx, 'io) engine \<Rightarrow> ('db \<Rightarrow> view) \<Rightarrow> bool" where
  "engine_reads_ok eng contents \<longleftrightarrow>
    (\<forall>db ks k v. eng_get eng db ks k = Inr v \<longrightarrow> v = contents db ks k) \<and>
    (\<forall>db ks r. rows_ok (contents db ks) r (eng_range eng db ks r))"

definition engine_ok :: "('db, 'tx, 'io) engine \<Rightarrow> ('db \<Rightarrow> view) \<Rightarrow> ('tx \<Rightarrow> view) \<Rightarrow> bool" where
  "engine_ok eng contents tview \<longleftrightarrow>
    engine_keyspaces_ok eng contents \<and> engine_tx_ok eng contents tview \<and>
    engine_commit_ok eng contents tview \<and> engine_reads_ok eng contents"

lemma engine_okD:
  assumes "engine_ok eng contents tview"
  shows "contents (snd (eng_keyspace eng ks db)) = contents db"
    "contents (snd (eng_persist eng pm db)) = contents db"
    "contents db ks \<noteq> Map.empty \<Longrightarrow> ks \<in> set (eng_names eng db)"
    "tview (eng_write_tx eng pm db) = contents db"
    "eng_tx_get eng tx ks k = Inr v \<Longrightarrow> v = tview tx ks k"
    "eng_tx_is_empty eng tx ks = Inr b \<Longrightarrow> b \<longleftrightarrow> tview tx ks = Map.empty"
    "tview (eng_insert eng ks k w tx) = (tview tx)(ks := (tview tx ks)(k \<mapsto> w))"
    "eng_commit eng tx db = (Inr (), db') \<Longrightarrow> contents db' = tview tx"
    "eng_commit eng tx db = (Inl e, db') \<Longrightarrow> contents db' = tview tx \<or> contents db' = contents db"
    "eng_get eng db ks k = Inr v \<Longrightarrow> v = contents db ks k"
    "rows_ok (contents db ks) r (eng_range eng db ks r)"
  using assms
  by (simp_all add: engine_ok_def engine_keyspaces_ok_def engine_tx_ok_def engine_commit_ok_def engine_reads_ok_def)

text \<open>The sorted entries of a range are unique.\<close>

lemma sorted_entries_unique:
  assumes "sorted_entries m r xs" "sorted_entries m r ys"
  shows "xs = ys"
proof -
  have s: "sorted (map fst xs)" "distinct (map fst xs)" "sorted (map fst ys)" "distinct (map fst ys)"
    using assms by (simp_all add: sorted_entries_def strict_sorted_iff)
  have eq: "set xs = set ys" using assms by (simp add: sorted_entries_def)
  then have "set (map fst xs) = set (map fst ys)" by simp
  then have keys: "map fst xs = map fst ys" by (rule sorted_distinct_set_unique [OF s])
  have "map_of xs = map_of ys" using eq s(2,4) by (metis map_of_inject_set)
  have "map snd xs = map (\<lambda>k. the (map_of xs k)) (map fst xs)" using s(2) by auto
  also have "\<dots> = map (\<lambda>k. the (map_of ys k)) (map fst ys)" using keys \<open>map_of xs = map_of ys\<close> by simp
  also have "\<dots> = map snd ys" using s(4) by auto
  finally show "xs = ys" using keys by (metis zip_map_fst_snd)
qed

section \<open>Partitions\<close>

definition GLOBAL_SEQ_KEY :: bytes where
  "GLOBAL_SEQ_KEY = [103, 108, 111, 98, 97, 108, 95, 115, 101, 113]"

record 'db storage =
  fj_durability :: durability
  fj_db :: 'db
  fj_mode :: all_index
  fj_notifiers :: notifiers

record staged_row =
  sr_event_key :: bytes
  sr_global_key :: bytes
  sr_frame :: bytes

definition fj_write_tx :: "('db, 'tx, 'io) engine \<Rightarrow> 'db storage \<Rightarrow> 'tx" where
  "fj_write_tx eng st = eng_write_tx eng (durability_persist_mode (fj_durability st)) (fj_db st)"

definition fj_flush :: "('db, 'tx, 'io) engine \<Rightarrow> 'db storage \<Rightarrow> (unit, 'io fjall_error) result \<times> 'db storage" where
  "fj_flush eng st =
    (case eng_persist eng PmSyncAll (fj_db st) of (r, db) \<Rightarrow> (map_err FjIo r, st\<lparr>fj_db := db\<rparr>))"

definition read_version ::
  "('db, 'tx, 'io) engine \<Rightarrow> 'tx \<Rightarrow> stream_key \<Rightarrow> (u64, 'io fjall_error) result" where
  "read_version eng tx k =
    and_then (map_err FjIo (eng_tx_get eng tx ''streams'' (key_bytes k))) (\<lambda>stored.
      case stored of
        None \<Rightarrow> Inr 0
      | Some version_bytes \<Rightarrow> map_err (\<lambda>_. FjCorruptMeta (to_label k)) (decode_stream_version version_bytes))"

definition read_global ::
  "('db, 'tx, 'io) engine \<Rightarrow> 'tx \<Rightarrow> stream_key \<Rightarrow> (u64, 'io fjall_error) result" where
  "read_global eng tx k =
    and_then (map_err FjIo (eng_tx_get eng tx ''global'' GLOBAL_SEQ_KEY)) (\<lambda>stored.
      case stored of
        None \<Rightarrow> Inr 0
      | Some raw \<Rightarrow> if length raw \<noteq> 8 then Inl (FjCorruptMeta (to_label k)) else Inr (le_word raw))"

definition stage_event ::
  "('db, 'tx, 'io) engine \<Rightarrow> all_index \<Rightarrow> staged_row \<Rightarrow> 'tx \<Rightarrow> 'tx" where
  "stage_event eng mode row tx =
    (let tx = eng_insert eng ''events'' (sr_event_key row) (sr_frame row) tx in
     if mode = Denormalized then eng_insert eng ''events_global'' (sr_global_key row) (sr_frame row) tx else tx)"

definition set_version :: "('db, 'tx, 'io) engine \<Rightarrow> bytes \<Rightarrow> u64 \<Rightarrow> 'tx \<Rightarrow> 'tx" where
  "set_version eng i version tx = eng_insert eng ''streams'' i (encode_stream_version version) tx"

definition set_global :: "('db, 'tx, 'io) engine \<Rightarrow> u64 \<Rightarrow> 'tx \<Rightarrow> 'tx" where
  "set_global eng g tx = eng_insert eng ''global'' GLOBAL_SEQ_KEY (u64_le g) tx"

section \<open>Inserting a run\<close>

definition puts :: "(bytes \<times> bytes) list \<Rightarrow> (bytes \<rightharpoonup> bytes) \<Rightarrow> bytes \<rightharpoonup> bytes" where
  "puts kvs m = fold (\<lambda>kv m. m(fst kv \<mapsto> snd kv)) kvs m"

lemma puts_simps [simp]:
  "puts [] m = m" "puts (x # xs) m = puts xs (m(fst x \<mapsto> snd x))" "puts (xs @ ys) m = puts ys (puts xs m)"
  by (simp_all add: puts_def)

lemma puts_map_of: "puts kvs (map_of xs) = map_of (rev kvs @ xs)"
proof (induction kvs arbitrary: xs)
  case (Cons x kvs)
  show ?case using Cons [of "x # xs"] by (cases x) (simp add: fun_upd_def)
qed simp

abbreviation event_row :: "staged_row \<Rightarrow> bytes \<times> bytes" where
  "event_row r \<equiv> (sr_event_key r, sr_frame r)"

abbreviation global_row :: "staged_row \<Rightarrow> bytes \<times> bytes" where
  "global_row r \<equiv> (sr_global_key r, sr_frame r)"

lemma tview_stage_event:
  assumes "engine_ok eng contents tview"
  shows "tview (stage_event eng mode r tx) =
    (tview tx)(''events'' := (tview tx ''events'')(sr_event_key r \<mapsto> sr_frame r),
      ''events_global'' := (if mode = Denormalized then (tview tx ''events_global'')(sr_global_key r \<mapsto> sr_frame r)
        else tview tx ''events_global''))"
  by (simp add: stage_event_def Let_def engine_okD [OF assms] fun_eq_iff)

lemma tview_stage_rows:
  assumes "engine_ok eng contents tview"
  shows "tview (fold (stage_event eng mode) rows tx) =
    (tview tx)(''events'' := puts (map event_row rows) (tview tx ''events''),
      ''events_global'' := (if mode = Denormalized then puts (map global_row rows) (tview tx ''events_global'')
        else tview tx ''events_global''))"
proof (induction rows arbitrary: tx)
  case (Cons r rows)
  show ?case by (simp add: Cons tview_stage_event [OF assms] fun_eq_iff) (simp add: fun_upd_def)
qed (simp add: fun_eq_iff)

lemma tview_counters:
  assumes "engine_ok eng contents tview"
  shows "tview (set_version eng i v tx) = (tview tx)(''streams'' := (tview tx ''streams'')(i \<mapsto> u64_le v))"
    "tview (set_global eng g tx) = (tview tx)(''global'' := (tview tx ''global'')(GLOBAL_SEQ_KEY \<mapsto> u64_le g))"
  by (simp_all add: set_version_def set_global_def encode_stream_version_def engine_okD [OF assms])

section \<open>A concrete engine\<close>

text \<open>Keyspaces as sorted association lists. Every operation succeeds, except that a database
with \<open>le_broken\<close> set fails at commit after applying the transaction.\<close>

record list_db =
  le_spaces :: "(keyspace \<times> (bytes \<times> bytes) list) list"
  le_broken :: bool

definition le_space :: "(keyspace \<times> (bytes \<times> bytes) list) list \<Rightarrow> keyspace \<Rightarrow> (bytes \<times> bytes) list" where
  "le_space m ks = (case map_of m ks of None \<Rightarrow> [] | Some xs \<Rightarrow> xs)"

text \<open>Inserting keeps a key space ordered whatever it held: the later entries of a key win.\<close>

definition le_entries :: "(bytes \<times> bytes) list \<Rightarrow> (bytes \<times> bytes) list" where
  "le_entries xs = fold (\<lambda>x acc. btree_insert (fst x) (snd x) acc) xs []"

definition le_view :: "(keyspace \<times> (bytes \<times> bytes) list) list \<Rightarrow> view" where
  "le_view m ks = map_of (le_entries (le_space m ks))"

definition list_engine :: "(list_db, (keyspace \<times> (bytes \<times> bytes) list) list, unit) engine" where
  "list_engine =
    \<lparr>eng_keyspace = (\<lambda>ks db. (Inr (), db\<lparr>le_spaces := (ks, le_space (le_spaces db) ks) # le_spaces db\<rparr>)),
     eng_names = (\<lambda>db. map fst (le_spaces db)),
     eng_write_tx = (\<lambda>pm db. le_spaces db),
     eng_tx_get = (\<lambda>tx ks k. Inr (map_of (le_entries (le_space tx ks)) k)),
     eng_tx_is_empty = (\<lambda>tx ks. Inr (le_space tx ks = [])),
     eng_insert = (\<lambda>ks k v tx. (ks, le_space tx ks @ [(k, v)]) # tx),
     eng_commit = (\<lambda>tx db. (if le_broken db then Inl () else Inr (), db\<lparr>le_spaces := tx\<rparr>)),
     eng_get = (\<lambda>db ks k. Inr (map_of (le_entries (le_space (le_spaces db) ks)) k)),
     eng_range = (\<lambda>db ks r. map Inr (filter (\<lambda>x. in_range r (fst x)) (le_entries (le_space (le_spaces db) ks)))),
     eng_persist = (\<lambda>pm db. (Inr (), db))\<rparr>"

lemma le_entries_ok: "btree_ok (le_entries xs)"
proof -
  have "btree_ok acc \<Longrightarrow> btree_ok (fold (\<lambda>x acc. btree_insert (fst x) (snd x) acc) xs acc)" for acc
    by (induction xs arbitrary: acc) (simp_all add: btree_insert_ok)
  then show ?thesis by (simp add: le_entries_def)
qed

lemma le_entries_snoc: "map_of (le_entries (xs @ [(k, v)])) = (map_of (le_entries xs))(k \<mapsto> v)"
  using le_entries_ok [of xs] by (simp add: le_entries_def map_of_btree_insert)

lemma le_entries_Nil: "le_entries xs = [] \<longleftrightarrow> xs = []"
proof (cases xs rule: rev_cases)
  case (snoc ys y)
  then show ?thesis using le_entries_snoc [of ys "fst y" "snd y"] by (auto dest: fun_cong [of _ _ "fst y"])
qed (simp add: le_entries_def)

lemma list_engine_ok: "engine_ok list_engine (\<lambda>db. le_view (le_spaces db)) le_view"
proof -
  have put: "le_view ((ks, xs) # m) = (le_view m)(ks := map_of (le_entries xs))" for ks xs m
    by (auto simp: le_view_def le_space_def fun_eq_iff)
  have names: "ks \<in> set (map fst m)" if "le_view m ks \<noteq> Map.empty" for m ks
  proof -
    from that have "map_of m ks \<noteq> None" by (cases "map_of m ks") (simp_all add: le_view_def le_space_def le_entries_def)
    then show ?thesis by (simp add: map_of_eq_None_iff)
  qed
  have rows: "rows_ok (map_of (le_entries xs)) r
      (map Inr (filter (\<lambda>x. in_range r (fst x)) (le_entries xs)))" for r xs
  proof -
    let ?e = "le_entries xs"
    have ok: "btree_ok ?e" by (rule le_entries_ok)
    have "sorted_entries (map_of ?e) r (filter (\<lambda>x. in_range r (fst x)) ?e)"
      using ok map_of_btree_get [OF ok]
      by (auto simp: sorted_entries_def btree_ok_def sorted_wrt_map sorted_wrt_filter)
    then show ?thesis by (auto simp: rows_ok_def)
  qed
  show ?thesis
    unfolding engine_ok_def engine_keyspaces_ok_def engine_tx_ok_def engine_commit_ok_def engine_reads_ok_def
    using names rows
    by (auto simp: list_engine_def put le_entries_snoc le_entries_Nil le_view_def [symmetric]) 
      (auto simp: le_view_def le_entries_Nil)
qed

end
