(* ===== verification/Fjall_Append.thy ===== *)
theory Fjall_Append
  imports Fjall_Engine
begin

text \<open>
  The write path of the fjall adapter: the pure planner (\<open>adapters/fjall/src/plan.rs\<close>) and
  \<open>append\<close> and \<open>atomic_append_many\<close> of \<open>store.rs\<close>, over an engine given as a parameter.

  \<open>disk_image mode log v\<close> says that the key-value view \<open>v\<close> is the adapter's layout of the
  log \<open>log\<close>: the events under their stream keys, their copies under the \<open>$all\<close> keys, one
  counter per stream and the global counter. The lemmas show that a successful write takes the
  image of a log to the image of the extended log, and that every failure leaves the image
  of the old log, except a failed commit, which may leave either.
\<close>

section \<open>Planner\<close>

datatype fj_plan_error =
    FpVersionOverflow
  | FpGlobalSeqOverflow
  | FpInvalidInput u64 reason

record planned_run =
  pr_rows :: "staged_row list"
  pr_new_version :: u64
  pr_ending_global :: u64

primrec prepare_run :: "pending_envelope list \<Rightarrow> (bytes list, fj_plan_error) result call" where
  "prepare_run [] = Returns (Inr [])"
| "prepare_run (env # envs) =
    call_bind (encode_frame (pe_schema env) (pe_event_type env) (pe_payload env) (pe_metadata env)) (\<lambda>r.
      case r of
        Inl err \<Rightarrow> Returns (Inl (FpInvalidInput (as_u64 (pe_version env)) (ReasonFrame err)))
      | Inr frame \<Rightarrow>
          call_bind (prepare_run envs) (\<lambda>rest. Returns (and_then rest (\<lambda>frames. Inr (ef_value frame # frames)))))"

text \<open>The planning loop over the prepared frames.\<close>

primrec plan_rows ::
  "bytes \<Rightarrow> bytes list \<Rightarrow> u64 \<Rightarrow> u64 \<Rightarrow> staged_row list \<Rightarrow> (planned_run, fj_plan_error) result" where
  "plan_rows id_bytes [] version global_seq rows =
    Inr \<lparr>pr_rows = rows, pr_new_version = version, pr_ending_global = global_seq\<rparr>"
| "plan_rows id_bytes (frame # frames) version global_seq rows =
    and_then (ok_or FpVersionOverflow (checked_add version 1)) (\<lambda>version.
    and_then (ok_or FpGlobalSeqOverflow (checked_add global_seq 1)) (\<lambda>global_seq.
    and_then (map_err (\<lambda>e. FpInvalidInput version (ReasonKey e)) (encode_event_key id_bytes version)) (\<lambda>ek.
    and_then (map_err (\<lambda>e. FpInvalidInput version (ReasonKey e))
        (encode_global_key global_seq id_bytes version)) (\<lambda>gk.
      plan_rows id_bytes frames version global_seq
        (rows @ [\<lparr>sr_event_key = ek, sr_global_key = gk, sr_frame = frame\<rparr>])))))"

definition plan_prepared_run ::
  "u64 \<Rightarrow> u64 \<Rightarrow> stream_key \<Rightarrow> bytes list \<Rightarrow> (planned_run, fj_plan_error) result" where
  "plan_prepared_run current_version current_global k prepared =
    plan_rows (key_bytes k) prepared current_version current_global []"

section \<open>Append\<close>

definition append_plan_err :: "stream_key \<Rightarrow> fj_plan_error \<Rightarrow> 'io fjall_error append_error" where
  "append_plan_err k e =
    (case e of
       FpVersionOverflow \<Rightarrow> AppendStore FjVersionOverflow
     | FpGlobalSeqOverflow \<Rightarrow> AppendStore FjGlobalSeqOverflow
     | FpInvalidInput version reason \<Rightarrow> AppendStore (FjInvalidInput (to_label k) version reason))"

definition fjall_validation_err ::
  "stream_key \<Rightarrow> append_validation_error \<Rightarrow> 'io fjall_error append_error" where
  "fjall_validation_err k e =
    (case e of
       AvConflict _ expected actual \<Rightarrow> AppendConflict (to_label k) expected actual
     | AvVersionOverflow \<Rightarrow> AppendStore FjVersionOverflow)"

text \<open>The part of \<open>append\<close> inside the write transaction, up to the commit.\<close>

definition append_in_tx ::
  "('db, 'tx, 'io) engine \<Rightarrow> all_index \<Rightarrow> stream_key \<Rightarrow> version option \<Rightarrow> pending_batch \<Rightarrow> bytes list
    \<Rightarrow> 'tx \<Rightarrow> (u64 \<times> 'tx, 'io fjall_error append_error) result" where
  "append_in_tx eng mode k expected_version envelopes prepared tx =
    and_then (map_err AppendStore (read_version eng tx k)) (\<lambda>current_version.
    and_then (map_err (fjall_validation_err k)
        (validate_append_versions current_version expected_version envelopes k)) (\<lambda>_.
    and_then (map_err AppendStore (read_global eng tx k)) (\<lambda>current_global.
    and_then (map_err (append_plan_err k)
        (plan_prepared_run current_version current_global k prepared)) (\<lambda>planned.
      let tx = fold (stage_event eng mode) (pr_rows planned) tx;
          tx = set_global eng (pr_ending_global planned) tx;
          tx = set_version eng (key_bytes k) (pr_new_version planned) tx in
      Inr (pr_ending_global planned, tx)))))"

text \<open>The commit and the wake after it are one step here: nothing proved of the adapter looks between them.\<close>

definition fj_append ::
  "('db, 'tx, 'io) engine \<Rightarrow> stream_key \<Rightarrow> version option \<Rightarrow> pending_batch \<Rightarrow> 'db storage
    \<Rightarrow> (global_seq, 'io fjall_error append_error) result call \<times> 'db storage" where
  "fj_append eng k expected_version envelopes st =
    (case validate_key (key_bytes k) MAX_STREAM_ID_LEN of
       Inl e \<Rightarrow> (Returns (Inl (AppendStore e)), st)
     | Inr _ \<Rightarrow>
       (case prepare_run (batch_iter envelopes) of
          Panics \<Rightarrow> (Panics, st)
        | Returns (Inl e) \<Rightarrow> (Returns (Inl (append_plan_err k e)), st)
        | Returns (Inr prepared) \<Rightarrow>
            (case append_in_tx eng (fj_mode st) k expected_version envelopes prepared (fj_write_tx eng st) of
               Inl e \<Rightarrow> (Returns (Inl e), st)
             | Inr (ending_global, tx) \<Rightarrow>
                 (case eng_commit eng tx (fj_db st) of
                    (Inl e, db) \<Rightarrow> (Returns (Inl (AppendStore (FjIo e))), st\<lparr>fj_db := db\<rparr>)
                  | (Inr _, db) \<Rightarrow>
                      (Returns (ok_or (AppendStore (FjCorruptMeta (to_label k))) (global_seq_new ending_global)),
                       st\<lparr>fj_db := db, fj_notifiers := nt_wake (key_bytes k) (fj_notifiers st)\<rparr>)))))"

section \<open>Atomic append\<close>

definition atomic_plan_err :: "stream_key \<Rightarrow> fj_plan_error \<Rightarrow> 'io fjall_error atomic_append_error" where
  "atomic_plan_err target e =
    (case e of
       FpVersionOverflow \<Rightarrow> AtomicStore FjVersionOverflow
     | FpGlobalSeqOverflow \<Rightarrow> AtomicStore FjGlobalSeqOverflow
     | FpInvalidInput version reason \<Rightarrow> AtomicStore (FjInvalidInput (to_label target) version reason))"

definition expected_u64 :: "planned_append \<Rightarrow> u64" where
  "expected_u64 w = (case pa_expected w of None \<Rightarrow> 0 | Some v \<Rightarrow> as_u64 v)"

primrec validate_atomic_writes ::
  "('db, 'tx, 'io) engine \<Rightarrow> 'tx \<Rightarrow> nat \<Rightarrow> planned_append list
    \<Rightarrow> (unit, 'io fjall_error atomic_append_error) result" where
  "validate_atomic_writes eng tx index [] = Inr ()"
| "validate_atomic_writes eng tx index (w # ws) =
    and_then (map_err AtomicStore (read_version eng tx (pa_target w))) (\<lambda>actual.
      if actual \<noteq> expected_u64 w then Inl (AtomicConflict index (version_new actual))
      else validate_atomic_writes eng tx (Suc index) ws)"

primrec write_runs ::
  "('db, 'tx, 'io) engine \<Rightarrow> all_index \<Rightarrow> (planned_append \<times> bytes list) list \<Rightarrow> u64 \<Rightarrow> 'tx
    \<Rightarrow> (u64 \<times> 'tx, 'io fjall_error atomic_append_error) result" where
  "write_runs eng mode [] g tx = Inr (g, tx)"
| "write_runs eng mode (p # prepared) g tx =
    (let w = fst p in
     and_then (map_err (atomic_plan_err (pa_target w))
         (plan_prepared_run (expected_u64 w) g (pa_target w) (snd p))) (\<lambda>planned.
       let tx = fold (stage_event eng mode) (pr_rows planned) tx;
           tx = set_version eng (key_bytes (pa_target w)) (pr_new_version planned) tx in
       write_runs eng mode prepared (pr_ending_global planned) tx))"

text \<open>Indexing the first run of an empty list panics; the caller has returned by then.\<close>

definition write_atomic_runs ::
  "('db, 'tx, 'io) engine \<Rightarrow> all_index \<Rightarrow> (planned_append \<times> bytes list) list \<Rightarrow> 'tx
    \<Rightarrow> (global_seq \<times> 'tx, 'io fjall_error atomic_append_error) result call" where
  "write_atomic_runs eng mode prepared tx =
    (case prepared of
       [] \<Rightarrow> Panics
     | first # _ \<Rightarrow>
         Returns (and_then (map_err AtomicStore (read_global eng tx (pa_target (fst first)))) (\<lambda>start_global.
           and_then (write_runs eng mode prepared start_global tx) (\<lambda>(g, tx).
             let tx = set_global eng g tx in
             and_then (ok_or (AtomicStore (FjCorruptMeta (to_label (pa_target (fst first))))) (global_seq_new g))
               (\<lambda>last_position. Inr (last_position, tx))))))"

primrec validate_targets :: "planned_append list \<Rightarrow> (unit, 'io fjall_error atomic_append_error) result" where
  "validate_targets [] = Inr ()"
| "validate_targets (w # ws) =
    and_then (map_err AtomicStore (validate_key (key_bytes (pa_target w)) MAX_STREAM_ID_LEN))
      (\<lambda>_. validate_targets ws)"

primrec prepare_writes ::
  "planned_append list
    \<Rightarrow> ((planned_append \<times> bytes list) list, 'io fjall_error atomic_append_error) result call" where
  "prepare_writes [] = Returns (Inr [])"
| "prepare_writes (w # ws) =
    call_bind (prepare_run (batch_iter (pa_batch w))) (\<lambda>r.
      case r of
        Inl err \<Rightarrow> Returns (Inl (atomic_plan_err (pa_target w) err))
      | Inr frames \<Rightarrow> call_bind (prepare_writes ws) (\<lambda>rest. Returns (and_then rest (\<lambda>ps. Inr ((w, frames) # ps)))))"

definition atomic_validate ::
  "planned_append list \<Rightarrow> (unit, 'io fjall_error atomic_append_error) result" where
  "atomic_validate ws =
    and_then (map_err AtomicInvalidRoute (validate_distinct_targets (map pa_target ws))) (\<lambda>_.
    and_then (map_err AtomicInvalidRun (validate_atomic_runs ws)) (\<lambda>_. validate_targets ws))"

definition fj_atomic_append_many ::
  "('db, 'tx, 'io) engine \<Rightarrow> planned_append list \<Rightarrow> 'db storage
    \<Rightarrow> (global_seq option, 'io fjall_error atomic_append_error) result call \<times> 'db storage" where
  "fj_atomic_append_many eng ws st =
    (if ws = [] then (Returns (Inr None), st)
     else case atomic_validate ws of
       Inl e \<Rightarrow> (Returns (Inl e), st)
     | Inr _ \<Rightarrow>
       (case prepare_writes ws of
          Panics \<Rightarrow> (Panics, st)
        | Returns (Inl e) \<Rightarrow> (Returns (Inl e), st)
        | Returns (Inr prepared) \<Rightarrow>
            let tx = fj_write_tx eng st in
            (case validate_atomic_writes eng tx 0 ws of
               Inl e \<Rightarrow> (Returns (Inl e), st)
             | Inr _ \<Rightarrow>
                 (case write_atomic_runs eng (fj_mode st) prepared tx of
                    Panics \<Rightarrow> (Panics, st)
                  | Returns (Inl e) \<Rightarrow> (Returns (Inl e), st)
                  | Returns (Inr (last_position, tx)) \<Rightarrow>
                      (case eng_commit eng tx (fj_db st) of
                         (Inl e, db) \<Rightarrow> (Returns (Inl (AtomicStore (FjIo e))), st\<lparr>fj_db := db\<rparr>)
                       | (Inr _, db) \<Rightarrow>
                           (Returns (Inr (Some last_position)),
                            st\<lparr>fj_db := db,
                               fj_notifiers := fold (\<lambda>w. nt_wake (key_bytes (pa_target w))) ws (fj_notifiers st)\<rparr>))))))"

section \<open>The image of a log\<close>

type_synonym event_log = "(stream_key \<times> pending_envelope) list"

definition log_events :: "event_log \<Rightarrow> stream_key \<Rightarrow> pending_envelope list" where
  "log_events log k = map snd (filter (\<lambda>x. fst x = k) log)"

definition frame_of :: "pending_envelope \<Rightarrow> bytes" where
  "frame_of p = ps_value (persisted_of p)"

definition event_rows :: "event_log \<Rightarrow> (bytes \<times> bytes) list" where
  "event_rows log = map (\<lambda>(k, p). (event_key (key_bytes k) (as_u64 (pe_version p)), frame_of p)) log"

definition global_rows :: "nat \<Rightarrow> event_log \<Rightarrow> (bytes \<times> bytes) list" where
  "global_rows n log = map (\<lambda>(g, k, p).
    (global_key (of_nat g) (key_bytes k) (as_u64 (pe_version p)), frame_of p)) (enumerate (Suc n) log)"

definition counter :: "nat \<Rightarrow> bytes option" where
  "counter n = (if n = 0 then None else Some (u64_le (of_nat n)))"

definition rows_image :: "all_index \<Rightarrow> event_log \<Rightarrow> view \<Rightarrow> bool" where
  "rows_image mode log v \<longleftrightarrow>
    v ''events'' = map_of (rev (event_rows log)) \<and>
    v ''events_global'' = (if mode = Denormalized then map_of (rev (global_rows 0 log)) else Map.empty) \<and>
    (\<forall>i. v ''streams'' i = counter (length (log_events log (StreamKey i))))"

definition disk_image :: "all_index \<Rightarrow> event_log \<Rightarrow> view \<Rightarrow> bool" where
  "disk_image mode log v \<longleftrightarrow> rows_image mode log v \<and> v ''global'' GLOBAL_SEQ_KEY = counter (length log)"

definition entry_ok :: "stream_key \<times> pending_envelope \<Rightarrow> bool" where
  "entry_ok x \<longleftrightarrow> key_bytes (fst x) \<noteq> [] \<and> length (key_bytes (fst x)) \<le> MAX_STREAM_ID_LEN \<and>
    pending_ok (snd x) \<and> pending_len (snd x) < 2 ^ 32"

definition log_ok :: "event_log \<Rightarrow> bool" where
  "log_ok log \<longleftrightarrow> (\<forall>k. run_from 0 (log_events log k)) \<and> list_all entry_ok log \<and> length log < 2 ^ 64"

definition fj_represents :: "('db \<Rightarrow> view) \<Rightarrow> 'db storage \<Rightarrow> event_log \<Rightarrow> bool" where
  "fj_represents contents st log \<longleftrightarrow> log_ok log \<and> disk_image (fj_mode st) log (contents (fj_db st))"

section \<open>Lemmas: logs\<close>

lemma log_events_simps [simp]:
  "log_events [] k = []"
  "log_events (log @ log') k = log_events log k @ log_events log' k"
  "log_events (map (Pair j) es) k = (if j = k then es else [])"
  by (simp_all add: log_events_def filter_map comp_def)

lemma event_rows_append [simp]: "event_rows (log @ log') = event_rows log @ event_rows log'"
  by (simp add: event_rows_def)

lemma global_rows_append [simp]: "global_rows n (log @ log') = global_rows n log @ global_rows (n + length log) log'"
  by (simp add: global_rows_def enumerate_append_eq)

lemma log_ok_empty: "log_ok []"
  by (simp add: log_ok_def)

lemma entry_key_short: "entry_ok x \<Longrightarrow> length (key_bytes (fst x)) < 2 ^ 16"
  by (simp add: entry_ok_def fjall_sizes)

lemma log_events_length_le: "length (log_events log k) \<le> length log"
  by (simp add: log_events_def)

section \<open>Lemmas: planning\<close>

lemma prepare_run_total: "\<forall>p \<in> set es. pending_ok p \<Longrightarrow> prepare_run es \<noteq> Panics"
proof (induction es)
  case (Cons p es)
  have "encode_frame (pe_schema p) (pe_event_type p) (pe_payload p) (pe_metadata p) \<noteq> Panics"
  proof (cases "pending_len p < 2 ^ 32")
    case True
    with Cons.prems show ?thesis by (simp add: encode_pending)
  next
    case False
    then show ?thesis using encode_frame_overflow by (metis call.distinct(1) pending_len_def)
  qed
  with Cons show ?case
    by (cases "encode_frame (pe_schema p) (pe_event_type p) (pe_payload p) (pe_metadata p)"; cases "prepare_run es")
      (auto split: sum.splits)
qed simp

lemma prepare_run_Inr:
  assumes "\<forall>p \<in> set es. pending_ok p"
  shows "prepare_run es = Returns (Inr frames) \<longleftrightarrow>
    (\<forall>p \<in> set es. pending_len p < 2 ^ 32) \<and> frames = map frame_of es"
  using assms
proof (induction es arbitrary: frames)
  case (Cons p es)
  show ?case
  proof (cases "pending_len p < 2 ^ 32")
    case True
    have "prepare_run es \<noteq> Panics" using Cons.prems by (intro prepare_run_total) simp
    with True Cons show ?thesis
      by (cases "prepare_run es") (auto simp: encode_pending frame_of_def result_simps)
  next
    case False
    then obtain e where "encode_frame (pe_schema p) (pe_event_type p) (pe_payload p) (pe_metadata p) = Returns (Inl e)"
      using encode_frame_overflow by (metis pending_len_def)
    with False show ?thesis by simp
  qed
qed auto

definition staged_rows :: "bytes \<Rightarrow> nat \<Rightarrow> pending_envelope list \<Rightarrow> staged_row list" where
  "staged_rows i n es = map (\<lambda>(g, p).
    \<lparr>sr_event_key = event_key i (as_u64 (pe_version p)),
     sr_global_key = global_key (of_nat g) i (as_u64 (pe_version p)), sr_frame = frame_of p\<rparr>) (enumerate (Suc n) es)"

lemma staged_rows_Cons:
  "staged_rows i n (p # es) =
    \<lparr>sr_event_key = event_key i (as_u64 (pe_version p)),
     sr_global_key = global_key (of_nat (Suc n)) i (as_u64 (pe_version p)), sr_frame = frame_of p\<rparr>
    # staged_rows i (Suc n) es"
  by (simp add: staged_rows_def)

lemma staged_rows_rows:
  "map event_row (staged_rows (key_bytes k) n es) = event_rows (map (Pair k) es)"
  "map global_row (staged_rows (key_bytes k) n es) = global_rows n (map (Pair k) es)"
  by (induction es arbitrary: n) (simp_all add: staged_rows_def event_rows_def global_rows_def)

lemma plan_rows_Inr:
  assumes "length i \<le> MAX_STREAM_ID_LEN" "run_from (unat c) es"
  shows "plan_rows i (map frame_of es) c g acc = Inr planned \<longleftrightarrow>
    unat g + length es < 2 ^ 64 \<and> pr_rows planned = acc @ staged_rows i (unat g) es \<and>
    unat (pr_new_version planned) = unat c + length es \<and> unat (pr_ending_global planned) = unat g + length es"
  using assms(2)
proof (induction es arbitrary: c g acc)
  case Nil
  have "unat g < 2 ^ 64" using unat_bound [of g] by simp
  then show ?case by (cases planned) (auto simp: staged_rows_def word_unat_eq_iff)
next
  case (Cons p es)
  have v: "vnum (pe_version p) = Suc (unat c)" using Cons.prems by simp
  then have c1: "checked_add c 1 = Some (as_u64 (pe_version p))" by (simp add: checked_add_Some vnum_def)
  have i: "length i \<le> 65525" using assms(1) by (simp add: fjall_sizes)
  show ?case
  proof (cases "checked_add g 1")
    case None
    then have "2 ^ 64 \<le> unat g + 1" by (simp add: checked_add_None)
    with None c1 show ?thesis by simp
  next
    case (Some g')
    then have g': "unat g' = Suc (unat g)" by (simp add: checked_add_Some)
    then have "of_nat (Suc (unat g)) = g'" by (metis of_nat_unat ucast_id)
    with Some c1 g' i v assms(1) Cons.IH [of "as_u64 (pe_version p)" g'] Cons.prems show ?thesis
      by (simp add: encode_event_key_eq encode_global_key_eq staged_rows_Cons vnum_def)
  qed
qed

section \<open>Lemmas: counters\<close>

lemma read_version_image:
  assumes "engine_ok eng contents tview" "tview tx ''streams'' (key_bytes k) = counter n" "n < 2 ^ 64"
    "read_version eng tx k = Inr v"
  shows "unat v = n"
proof -
  obtain s where s: "eng_tx_get eng tx ''streams'' (key_bytes k) = Inr s"
    using assms(4) by (auto simp: read_version_def result_simps)
  with engine_okD(5) [OF assms(1)] assms(2) have "s = counter n" by metis
  with s assms(3,4) show ?thesis
    by (auto simp: read_version_def counter_def result_simps unat_of_nat_small
        decode_stream_version_of [unfolded encode_stream_version_def] split: if_splits)
qed

lemma read_global_image:
  assumes "engine_ok eng contents tview" "tview tx ''global'' GLOBAL_SEQ_KEY = counter n" "n < 2 ^ 64"
    "read_global eng tx k = Inr v"
  shows "unat v = n"
proof -
  obtain s where s: "eng_tx_get eng tx ''global'' GLOBAL_SEQ_KEY = Inr s"
    using assms(4) by (auto simp: read_global_def result_simps)
  with engine_okD(5) [OF assms(1)] assms(2) have "s = counter n" by metis
  with s assms(3,4) show ?thesis
    by (auto simp: read_global_def counter_def result_simps unat_of_nat_small codec_simps split: if_splits)
qed

lemma counter_Some: "u64_le w = u64_le (of_nat n) \<Longrightarrow> 0 < n \<Longrightarrow> counter n = Some (u64_le w)"
  by (simp add: counter_def)

lemma counter_of: "unat w = n \<Longrightarrow> 0 < n \<Longrightarrow> Some (u64_le w) = counter n"
  by (auto simp: counter_def)

text \<open>A staged run takes the image of a log to the image of the log with the run at its end, once
the counters are set.\<close>

lemma rows_image_run:
  assumes "engine_ok eng contents tview" "rows_image mode log (tview tx)" "es \<noteq> []"
    "unat v = length (log_events log k) + length es"
  shows "rows_image mode (log @ map (Pair k) es)
    (tview (set_version eng (key_bytes k) v
      (fold (stage_event eng mode) (staged_rows (key_bytes k) (length log) es) tx)))"
  using assms(2-4)
  by (auto simp: rows_image_def tview_counters [OF assms(1)] tview_stage_rows [OF assms(1)] staged_rows_rows
      puts_map_of counter_of intro: counter_of)

lemma rows_image_frame:
  assumes "rows_image mode log v" "v' ''events'' = v ''events''" "v' ''events_global'' = v ''events_global''"
    "v' ''streams'' = v ''streams''"
  shows "rows_image mode log v'"
  using assms by (simp add: rows_image_def)

lemma image_stage_run:
  assumes "engine_ok eng contents tview" "disk_image mode log (tview tx)" "es \<noteq> []"
    "unat v = length (log_events log k) + length es" "unat g = length log + length es"
  shows "disk_image mode (log @ map (Pair k) es)
    (tview (set_version eng (key_bytes k) v (set_global eng g
      (fold (stage_event eng mode) (staged_rows (key_bytes k) (length log) es) tx))))"
proof -
  have "rows_image mode (log @ map (Pair k) es)
    (tview (set_version eng (key_bytes k) v
      (fold (stage_event eng mode) (staged_rows (key_bytes k) (length log) es) tx)))"
    using rows_image_run [OF assms(1) _ assms(3,4)] assms(2) by (simp add: disk_image_def)
  then have "rows_image mode (log @ map (Pair k) es)
    (tview (set_version eng (key_bytes k) v (set_global eng g
      (fold (stage_event eng mode) (staged_rows (key_bytes k) (length log) es) tx))))"
    by (rule rows_image_frame) (simp_all add: tview_counters [OF assms(1)])
  with assms(3,5) show ?thesis
    by (simp add: disk_image_def tview_counters [OF assms(1)] counter_of)
qed

lemma log_ok_extend:
  assumes "log_ok log" "run_from (length (log_events log k)) es" "\<forall>p \<in> set es. entry_ok (k, p)"
    "length log + length es < 2 ^ 64"
  shows "log_ok (log @ map (Pair k) es)"
  using assms by (auto simp: log_ok_def run_from_append list_all_iff)

lemma log_events_small: "log_ok log \<Longrightarrow> length (log_events log k) < 2 ^ 64"
  using log_events_length_le [of log k] by (simp add: log_ok_def)

section \<open>Append refines the log\<close>

text \<open>The condition under which an append extends a log.\<close>

definition append_fits :: "event_log \<Rightarrow> stream_key \<Rightarrow> version option \<Rightarrow> pending_envelope list \<Rightarrow> bool" where
  "append_fits log k expected es \<longleftrightarrow>
    expected = head_version (length (log_events log k)) \<and> run_from (length (log_events log k)) es \<and>
    list_all (\<lambda>p. entry_ok (k, p)) es \<and> length log + length es < 2 ^ 64"

lemma append_in_tx_Inr:
  assumes "engine_ok eng contents tview" "disk_image mode log (tview tx)" "log_ok log"
    "\<forall>p \<in> set (batch_iter b). entry_ok (k, p)"
    "append_in_tx eng mode k expected b (map frame_of (batch_iter b)) tx = Inr (g, tx')"
  shows "append_fits log k expected (batch_iter b) \<and> unat g = length log + length (batch_iter b) \<and>
    disk_image mode (log @ map (Pair k) (batch_iter b)) (tview tx')"
proof -
  let ?n = "length (log_events log k)" and ?es = "batch_iter b"
  from assms(5) obtain cv cg planned where
    rv: "read_version eng tx k = Inr cv" and va: "validate_append_versions cv expected b k = Inr ()"
    and rg: "read_global eng tx k = Inr cg" and pl: "plan_prepared_run cv cg k (map frame_of ?es) = Inr planned"
    and g: "g = pr_ending_global planned"
    and tx': "tx' = set_version eng (key_bytes k) (pr_new_version planned)
      (set_global eng (pr_ending_global planned) (fold (stage_event eng mode) (pr_rows planned) tx))"
    by (auto simp: append_in_tx_def result_simps Let_def)
  have cv: "unat cv = ?n"
    using read_version_image [OF assms(1) _ _ rv, of ?n] assms(2) log_events_small [OF assms(3)]
    by (simp add: disk_image_def rows_image_def)
  have cg: "unat cg = length log"
    using read_global_image [OF assms(1) _ _ rg, of "length log"] assms(2,3) by (simp add: disk_image_def log_ok_def)
  have val: "expected = head_version ?n" "run_from ?n ?es"
    using va cv by (simp_all add: validate_append_versions_Inr)
  have "length (key_bytes k) \<le> MAX_STREAM_ID_LEN"
    using assms(4) by (auto simp: batch_iter_def entry_ok_def)
  then have P: "length log + length ?es < 2 ^ 64" "pr_rows planned = staged_rows (key_bytes k) (length log) ?es"
    "unat (pr_new_version planned) = ?n + length ?es" "unat (pr_ending_global planned) = length log + length ?es"
    using pl plan_rows_Inr [of "key_bytes k" cv ?es cg "[]" planned] val(2) cv cg
    by (simp_all add: plan_prepared_run_def)
  have "disk_image mode (log @ map (Pair k) ?es) (tview tx')"
    unfolding tx' P(2) by (rule image_stage_run [OF assms(1,2) _ P(3,4)]) (simp add: batch_iter_def)
  with val P g assms(4) show ?thesis by (simp add: append_fits_def list_all_iff)
qed

lemma append_fits_log_ok: "log_ok log \<Longrightarrow> append_fits log k expected es \<Longrightarrow> log_ok (log @ map (Pair k) es)"
  by (rule log_ok_extend) (auto simp: append_fits_def list_all_iff)

lemma batch_entries_ok:
  assumes "batch_ok b" "validate_key (key_bytes k) MAX_STREAM_ID_LEN = Inr ()"
    "\<forall>p \<in> set (batch_iter b). pending_len p < 2 ^ 32"
  shows "\<forall>p \<in> set (batch_iter b). entry_ok (k, p)"
  using assms by (auto simp: batch_ok_def entry_ok_def validate_key_def split: if_splits)

text \<open>The three outcomes of an append.\<close>

definition append_outcome ::
  "('db \<Rightarrow> view) \<Rightarrow> event_log \<Rightarrow> event_log \<Rightarrow> (global_seq, 'io fjall_error append_error) result call
    \<Rightarrow> 'db storage \<Rightarrow> bool" where
  "append_outcome contents log log' r st' \<longleftrightarrow>
    (case r of
       Panics \<Rightarrow> False
     | Returns (Inr pos) \<Rightarrow> fj_represents contents st' log' \<and> vnum pos = length log'
     | Returns (Inl (AppendStore (FjIo _))) \<Rightarrow>
         fj_represents contents st' log \<or> fj_represents contents st' log'
     | Returns (Inl _) \<Rightarrow> fj_represents contents st' log)"

lemma append_outcome_rejected:
  "fj_represents contents st log \<Longrightarrow> append_outcome contents log log' (Returns (Inl e)) st"
  by (auto simp: append_outcome_def split: append_error.splits fjall_error.splits)

lemma fj_append_cases:
  fixes eng :: "('db, 'tx, 'io) engine"
  assumes "fj_append eng k expected b st = (r, st')" "batch_ok b"
  obtains (reject) e where "r = Returns (Inl e)" "st' = st"
  | (commit) g tx c db where "\<forall>p \<in> set (batch_iter b). entry_ok (k, p)"
      "append_in_tx eng (fj_mode st) k expected b (map frame_of (batch_iter b)) (fj_write_tx eng st) = Inr (g, tx)"
      "eng_commit eng tx (fj_db st) = (c, db)"
      "c = Inr () \<Longrightarrow> r = Returns (ok_or (AppendStore (FjCorruptMeta (to_label k))) (global_seq_new g)) \<and>
        st' = st\<lparr>fj_db := db, fj_notifiers := nt_wake (key_bytes k) (fj_notifiers st)\<rparr>"
      "\<And>e. c = Inl e \<Longrightarrow> r = Returns (Inl (AppendStore (FjIo e))) \<and> st' = st\<lparr>fj_db := db\<rparr>"
proof (cases "validate_key (key_bytes k) MAX_STREAM_ID_LEN :: (unit, 'io fjall_error) result")
  case (Inl e)
  with assms(1) show ?thesis by (intro reject [of "AppendStore e"]) (auto simp: fj_append_def)
next
  case key: (Inr u)
  let ?es = "batch_iter b" and ?tx = "fj_write_tx eng st"
  obtain p where p: "prepare_run ?es = Returns p"
    using assms(2) prepare_run_total [of ?es] by (cases "prepare_run ?es") (auto simp: batch_ok_def)
  show ?thesis
  proof (cases p)
    case (Inl e)
    with key p assms(1) show ?thesis by (intro reject [of "append_plan_err k e"]) (auto simp: fj_append_def)
  next
    case (Inr frames)
    have fr: "\<forall>p \<in> set ?es. pending_len p < 2 ^ 32" "frames = map frame_of ?es"
      using prepare_run_Inr [of ?es frames] p Inr assms(2) by (simp_all add: batch_ok_def)
    have ok: "\<forall>p \<in> set ?es. entry_ok (k, p)" using batch_entries_ok [OF assms(2) _ fr(1)] key by simp
    show ?thesis
    proof (cases "append_in_tx eng (fj_mode st) k expected b frames ?tx")
      case (Inl e)
      with key p \<open>p = Inr frames\<close> assms(1) show ?thesis by (intro reject [of e]) (auto simp: fj_append_def)
    next
      case tx: (Inr gt)
      obtain g tx' c db where "gt = (g, tx')" "eng_commit eng tx' (fj_db st) = (c, db)" by fastforce
      with key p \<open>p = Inr frames\<close> tx fr(2) ok assms(1) show ?thesis
        by (intro commit [of g tx' c db]) (auto simp: fj_append_def)
    qed
  qed
qed

lemma fj_append_outcome:
  assumes "engine_ok eng contents tview" "fj_represents contents st log" "batch_ok b"
    "fj_append eng k expected b st = (r, st')"
  shows "append_outcome contents log (log @ map (Pair k) (batch_iter b)) r st' \<and>
    (\<not> fj_represents contents st' log \<or> (\<exists>pos. r = Returns (Inr pos)) \<longrightarrow>
      append_fits log k expected (batch_iter b)) \<and>
    ((\<exists>pos. r = Returns (Inr pos)) \<longrightarrow> fj_notifiers st' = nt_wake (key_bytes k) (fj_notifiers st)) \<and>
    fj_mode st' = fj_mode st"
  using assms(4,3)
proof (cases rule: fj_append_cases)
  case (reject e)
  with assms(2) show ?thesis by (auto simp: append_outcome_rejected)
next
  case (commit g tx c db)
  let ?log' = "log @ map (Pair k) (batch_iter b)"
  have rep: "log_ok log" "disk_image (fj_mode st) log (contents (fj_db st))"
    using assms(2) by (simp_all add: fj_represents_def)
  have im: "disk_image (fj_mode st) log (tview (fj_write_tx eng st))"
    using rep(2) by (simp add: fj_write_tx_def engine_okD(4) [OF assms(1)])
  have A: "append_fits log k expected (batch_iter b)" "unat g = length log + length (batch_iter b)"
    "disk_image (fj_mode st) ?log' (tview tx)"
    using append_in_tx_Inr [OF assms(1) im rep(1) commit(1,2)] by simp_all
  have log': "log_ok ?log'" by (rule append_fits_log_ok [OF rep(1) A(1)])
  have "g \<noteq> 0" using A(2) by (auto simp: batch_iter_def)
  then obtain pos where pos: "global_seq_new g = Some pos" "get pos = g"
    by (auto simp: global_seq_new_def nonzero_new_def)
  show ?thesis
  proof (cases c)
    case (Inl e)
    have "contents db = tview tx \<or> contents db = contents (fj_db st)"
      using engine_okD(9) [OF assms(1)] commit(3) Inl by blast
    with commit(5) [OF Inl] A log' rep show ?thesis
      by (auto simp: append_outcome_def fj_represents_def)
  next
    case (Inr u)
    then have "contents db = tview tx" using engine_okD(8) [OF assms(1)] commit(3) by simp
    with commit(4) Inr A log' rep pos show ?thesis
      by (auto simp: append_outcome_def fj_represents_def vnum_def as_u64_def)
  qed
qed

section \<open>Atomic append refines the log\<close>

definition atomic_fits :: "event_log \<Rightarrow> planned_append list \<Rightarrow> bool" where
  "atomic_fits log ws \<longleftrightarrow> distinct (map pa_target ws) \<and>
    list_all (\<lambda>w. append_fits log (pa_target w) (pa_expected w) (batch_iter (pa_batch w))) ws \<and>
    length log + length (planned_entries ws) < 2 ^ 64"

lemma planned_entries_simps [simp]:
  "planned_entries [] = []"
  "planned_entries (w # ws) = map (Pair (pa_target w)) (batch_iter (pa_batch w)) @ planned_entries ws"
  by (simp_all add: planned_entries_def)

lemma expected_u64_head:
  assumes "n < 2 ^ 64" "unat (expected_u64 w) = n"
  shows "pa_expected w = head_version n"
proof (cases "pa_expected w")
  case None
  with assms(2) show ?thesis by (simp add: expected_u64_def head_version_def)
next
  case (Some v)
  then have "vnum v = n" using assms(2) by (simp add: expected_u64_def vnum_def)
  then have "n \<noteq> 0" "v = version_of n" using vnum_pos [of v] version_of_vnum [of v] by auto
  with Some show ?thesis by (simp add: head_version_def)
qed

lemma validate_atomic_writes_Inr:
  assumes "engine_ok eng contents tview" "rows_image mode log (tview tx)" "log_ok log"
    "validate_atomic_writes eng tx i ws = Inr ()" "w \<in> set ws"
  shows "unat (expected_u64 w) = length (log_events log (pa_target w))"
  using assms(4,5)
proof (induction ws arbitrary: i)
  case (Cons v ws)
  obtain a where a: "read_version eng tx (pa_target v) = Inr a" "a = expected_u64 v"
    "validate_atomic_writes eng tx (Suc i) ws = Inr ()"
    using Cons.prems(1) by (auto simp: result_simps split: if_splits)
  have "unat a = length (log_events log (pa_target v))"
    using read_version_image [OF assms(1) _ _ a(1)] assms(2) log_events_small [OF assms(3)]
    by (simp add: rows_image_def)
  with a Cons show ?case by auto
qed simp

lemma write_runs_Inr:
  assumes "engine_ok eng contents tview"
  shows "rows_image mode log (tview tx) \<Longrightarrow> log_ok log \<Longrightarrow> unat g = length log \<Longrightarrow>
    distinct (map pa_target ws) \<Longrightarrow>
    \<forall>w \<in> set ws. unat (expected_u64 w) = length (log_events log (pa_target w)) \<and>
      run_from (length (log_events log (pa_target w))) (batch_iter (pa_batch w)) \<and>
      (\<forall>p \<in> set (batch_iter (pa_batch w)). entry_ok (pa_target w, p)) \<Longrightarrow>
    write_runs eng mode (map (\<lambda>w. (w, map frame_of (batch_iter (pa_batch w)))) ws) g tx = Inr (g', tx') \<Longrightarrow>
    rows_image mode (log @ planned_entries ws) (tview tx') \<and> log_ok (log @ planned_entries ws) \<and>
    unat g' = length log + length (planned_entries ws) \<and> tview tx' ''global'' = tview tx ''global''"
proof (induction ws arbitrary: log g tx)
  case (Cons w ws)
  let ?k = "pa_target w" and ?es = "batch_iter (pa_batch w)"
  let ?c = "expected_u64 w" and ?log = "log @ map (Pair (pa_target w)) (batch_iter (pa_batch w))"
  have W: "unat ?c = length (log_events log ?k)" "run_from (length (log_events log ?k)) ?es"
    "\<forall>p \<in> set ?es. entry_ok (?k, p)" using Cons.prems(5) by auto
  have ne: "?es \<noteq> []" by (simp add: batch_iter_def)
  have key: "length (key_bytes ?k) \<le> MAX_STREAM_ID_LEN" using W(3) by (auto simp: batch_iter_def entry_ok_def)
  obtain pl where pl: "plan_prepared_run ?c g ?k (map frame_of ?es) = Inr pl"
    using Cons.prems(6) by (auto simp: Let_def result_simps)
  define tx1 where "tx1 = set_version eng (key_bytes ?k) (pr_new_version pl) (fold (stage_event eng mode) (pr_rows pl) tx)"
  have rest: "write_runs eng mode (map (\<lambda>w. (w, map frame_of (batch_iter (pa_batch w)))) ws) (pr_ending_global pl) tx1
      = Inr (g', tx')"
    using Cons.prems(6) pl by (simp add: Let_def tx1_def)
  have P: "length log + length ?es < 2 ^ 64" "pr_rows pl = staged_rows (key_bytes ?k) (length log) ?es"
    "unat (pr_new_version pl) = length (log_events log ?k) + length ?es" "unat (pr_ending_global pl) = length ?log"
    using plan_rows_Inr [OF key, of ?c ?es g "[]" pl] pl W(1,2) Cons.prems(3)
    by (simp_all add: plan_prepared_run_def)
  have im: "rows_image mode ?log (tview tx1)"
    unfolding tx1_def P(2) by (rule rows_image_run [OF assms Cons.prems(1) ne P(3)])
  have ok: "log_ok ?log" by (rule log_ok_extend [OF Cons.prems(2) W(2,3) P(1)])
  have same: "log_events ?log (pa_target v) = log_events log (pa_target v)" if "v \<in> set ws" for v
  proof -
    have "pa_target w \<noteq> pa_target v" using Cons.prems(4) that by (metis distinct.simps(2) imageI list.set_map list.simps(9))
    then show ?thesis by simp
  qed
  have "tview tx1 ''global'' = tview tx ''global''"
    by (simp add: tx1_def tview_counters [OF assms] tview_stage_rows [OF assms])
  moreover have "rows_image mode (?log @ planned_entries ws) (tview tx') \<and> log_ok (?log @ planned_entries ws) \<and>
      unat g' = length ?log + length (planned_entries ws) \<and> tview tx' ''global'' = tview tx1 ''global''"
    using Cons.prems(4,5) same by (intro Cons.IH [OF im ok P(4) _ _ rest]) auto
  ultimately show ?case by simp
qed simp

lemma validate_targets_Inr:
  "validate_targets ws = Inr () \<longleftrightarrow>
    (\<forall>w \<in> set ws. key_bytes (pa_target w) \<noteq> [] \<and> length (key_bytes (pa_target w)) \<le> MAX_STREAM_ID_LEN)"
  by (induction ws) (auto simp: result_simps validate_key_def)

lemma prepare_writes_total:
  assumes "\<forall>w \<in> set ws. planned_ok w"
  shows "\<exists>r :: (_, 'io fjall_error atomic_append_error) result. prepare_writes ws = Returns r \<and>
    (\<forall>ps. r = Inr ps \<longrightarrow> ps = map (\<lambda>w. (w, map frame_of (batch_iter (pa_batch w)))) ws \<and>
      (\<forall>w \<in> set ws. \<forall>p \<in> set (batch_iter (pa_batch w)). pending_len p < 2 ^ 32))"
  using assms
proof (induction ws)
  case (Cons w ws)
  let ?es = "batch_iter (pa_batch w)"
  have ok: "\<forall>p \<in> set ?es. pending_ok p" using Cons.prems by (simp add: planned_ok_def batch_ok_def)
  obtain r where r: "prepare_run ?es = Returns r" using prepare_run_total [OF ok] by (cases "prepare_run ?es") auto
  obtain q :: "(_, 'io fjall_error atomic_append_error) result" where q: "prepare_writes ws = Returns q"
    "\<forall>ps. q = Inr ps \<longrightarrow> ps = map (\<lambda>w. (w, map frame_of (batch_iter (pa_batch w)))) ws \<and>
      (\<forall>w \<in> set ws. \<forall>p \<in> set (batch_iter (pa_batch w)). pending_len p < 2 ^ 32)"
    using Cons by auto
  show ?case
  proof (cases r)
    case (Inl e)
    with r show ?thesis by simp
  next
    case (Inr frames)
    with r prepare_run_Inr [OF ok, of frames]
    have "\<forall>p \<in> set ?es. pending_len p < 2 ^ 32" "frames = map frame_of ?es" by simp_all
    with r q Inr show ?thesis by (auto simp: result_simps)
  qed
qed simp

text \<open>What a batch of runs stages: the runs in order, then the global counter.\<close>

definition framed :: "planned_append list \<Rightarrow> (planned_append \<times> bytes list) list" where
  "framed ws = map (\<lambda>w. (w, map frame_of (batch_iter (pa_batch w)))) ws"

definition atomic_staged ::
  "('db, 'tx, 'io) engine \<Rightarrow> all_index \<Rightarrow> planned_append list \<Rightarrow> 'tx
    \<Rightarrow> (global_seq \<times> 'tx, 'io fjall_error atomic_append_error) result" where
  "atomic_staged eng mode ws tx =
    and_then (map_err AtomicStore (read_global eng tx (pa_target (hd ws)))) (\<lambda>g.
    and_then (write_runs eng mode (framed ws) g tx) (\<lambda>(g, tx).
    and_then (ok_or (AtomicStore (FjCorruptMeta (to_label (pa_target (hd ws))))) (global_seq_new g)) (\<lambda>pos.
      Inr (pos, set_global eng g tx))))"

lemma write_atomic_runs_eq:
  "ws \<noteq> [] \<Longrightarrow> write_atomic_runs eng mode (framed ws) tx = Returns (atomic_staged eng mode ws tx)"
  by (cases ws) (simp_all add: write_atomic_runs_def atomic_staged_def framed_def Let_def)

lemma atomic_validate_Inr:
  "atomic_validate ws = Inr () \<longleftrightarrow> distinct (map pa_target ws) \<and> validate_atomic_runs ws = Inr () \<and>
    (\<forall>w \<in> set ws. key_bytes (pa_target w) \<noteq> [] \<and> length (key_bytes (pa_target w)) \<le> MAX_STREAM_ID_LEN)"
  by (simp add: atomic_validate_def result_simps validate_distinct_targets_Inr validate_targets_Inr)

lemma fj_atomic_cases:
  fixes eng :: "('db, 'tx, 'io) engine"
  assumes "fj_atomic_append_many eng ws st = (r, st')" "\<forall>w \<in> set ws. planned_ok w"
  obtains (same) q where "r = Returns q" "st' = st" "q = Inr None \<and> ws = [] \<or> (\<exists>e. q = Inl e)"
  | (commit) pos tx c db where "ws \<noteq> []" "distinct (map pa_target ws)" "validate_atomic_runs ws = Inr ()"
      "\<forall>w \<in> set ws. \<forall>p \<in> set (batch_iter (pa_batch w)). entry_ok (pa_target w, p)"
      "validate_atomic_writes eng (fj_write_tx eng st) 0 ws = Inr ()"
      "atomic_staged eng (fj_mode st) ws (fj_write_tx eng st) = Inr (pos, tx)"
      "eng_commit eng tx (fj_db st) = (c, db)"
      "c = Inr () \<Longrightarrow> r = Returns (Inr (Some pos)) \<and>
        st' = st\<lparr>fj_db := db, fj_notifiers := fold (\<lambda>w. nt_wake (key_bytes (pa_target w))) ws (fj_notifiers st)\<rparr>"
      "\<And>e. c = Inl e \<Longrightarrow> r = Returns (Inl (AtomicStore (FjIo e))) \<and> st' = st\<lparr>fj_db := db\<rparr>"
proof -
  let ?tx = "fj_write_tx eng st"
  obtain q where q: "prepare_writes ws = Returns (q :: (_, 'io fjall_error atomic_append_error) result)"
    "\<forall>ps. q = Inr ps \<longrightarrow> ps = framed ws \<and> (\<forall>w \<in> set ws. \<forall>p \<in> set (batch_iter (pa_batch w)). pending_len p < 2 ^ 32)"
    using prepare_writes_total [OF assms(2)] unfolding framed_def by blast
  have rejected: thesis if "r = Returns (Inl e)" "st' = st" for e using same that by blast
  define va where "va = (atomic_validate ws :: (unit, 'io fjall_error atomic_append_error) result)"
  note unf = fj_atomic_append_many_def va_def [symmetric] q(1)
  show thesis
  proof (cases "ws = []")
    case True
    with assms(1) show ?thesis by (intro same [of "Inr None"]) (simp_all add: fj_atomic_append_many_def)
  next
    case ne: False
    show ?thesis
    proof (cases va)
      case (Inl e)
      with ne assms(1) show ?thesis by (intro rejected [of e]) (simp_all add: unf)
    next
      case va: (Inr u)
      show ?thesis
      proof (cases q)
        case (Inl e)
        with ne va assms(1) show ?thesis by (intro rejected [of e]) (simp_all add: unf)
      next
        case (Inr ps)
        then have ps: "q = Inr (framed ws)" and ok: "\<forall>w \<in> set ws. \<forall>p \<in> set (batch_iter (pa_batch w)). entry_ok (pa_target w, p)"
          using q(2) va assms(2) by (auto simp: va_def atomic_validate_Inr entry_ok_def planned_ok_def batch_ok_def)
        show ?thesis
        proof (cases "validate_atomic_writes eng ?tx 0 ws")
          case (Inl e)
          with ne va ps assms(1) show ?thesis by (intro rejected [of e]) (simp_all add: unf)
        next
          case heads: (Inr u)
          show ?thesis
          proof (cases "atomic_staged eng (fj_mode st) ws ?tx")
            case (Inl e)
            with ne va ps heads assms(1) show ?thesis
              by (intro rejected [of e]) (simp_all add: unf write_atomic_runs_eq)
          next
            case (Inr pt)
            obtain pos tx c db where "pt = (pos, tx)" "eng_commit eng tx (fj_db st) = (c, db)" by fastforce
            with ne va ps heads Inr ok assms(1) show ?thesis
              by (intro commit [of pos tx c db]) (simp_all add: unf write_atomic_runs_eq, simp_all add: va_def atomic_validate_Inr)
          qed
        qed
      qed
    qed
  qed
qed

lemma atomic_staged_Inr:
  assumes "engine_ok eng contents tview" "disk_image mode log (tview tx)" "log_ok log"
    "ws \<noteq> []" "distinct (map pa_target ws)" "validate_atomic_runs ws = Inr ()"
    "\<forall>w \<in> set ws. \<forall>p \<in> set (batch_iter (pa_batch w)). entry_ok (pa_target w, p)"
    "validate_atomic_writes eng tx 0 ws = Inr ()" "atomic_staged eng mode ws tx = Inr (pos, tx')"
  shows "atomic_fits log ws \<and> vnum pos = length log + length (planned_entries ws) \<and>
    log_ok (log @ planned_entries ws) \<and> disk_image mode (log @ planned_entries ws) (tview tx')"
proof -
  let ?n = "\<lambda>w. length (log_events log (pa_target w))"
  have rows: "rows_image mode log (tview tx)" using assms(2) by (simp add: disk_image_def)
  have heads: "unat (expected_u64 w) = ?n w" if "w \<in> set ws" for w
    using validate_atomic_writes_Inr [OF assms(1) rows assms(3,8) that] .
  have run: "run_from (?n w) (batch_iter (pa_batch w))" if "w \<in> set ws" for w
  proof -
    have "unat (expected_u64 w) = (case pa_expected w of None \<Rightarrow> 0 | Some v \<Rightarrow> vnum v)"
      by (simp add: expected_u64_def vnum_def split: option.splits)
    with assms(6) heads [OF that] that show ?thesis by (metis validate_atomic_runs_Inr)
  qed
  obtain g g' tx1 where g: "read_global eng tx (pa_target (hd ws)) = Inr g"
    "write_runs eng mode (framed ws) g tx = Inr (g', tx1)" "global_seq_new g' = Some pos" "tx' = set_global eng g' tx1"
    using assms(9) by (auto simp: atomic_staged_def result_simps)
  have "unat g = length log"
    using read_global_image [OF assms(1) _ _ g(1), of "length log"] assms(2,3) by (simp add: disk_image_def log_ok_def)
  then have W: "rows_image mode (log @ planned_entries ws) (tview tx1)" "log_ok (log @ planned_entries ws)"
    "unat g' = length log + length (planned_entries ws)"
    using write_runs_Inr [OF assms(1) rows assms(3) _ assms(5) _ g(2) [unfolded framed_def]] heads run assms(7)
    by simp_all
  have pos: "get pos = g'" using g(3) by (auto simp: global_seq_new_def nonzero_new_def split: if_splits)
  then have "g' \<noteq> 0" by auto
  then have "0 < length (log @ planned_entries ws)" using W(3) by (metis add_gr_0 length_append neq0_conv unat_eq_zero)
  then have "disk_image mode (log @ planned_entries ws) (tview tx')"
    using W rows_image_frame [OF W(1), of "tview tx'"]
    by (simp add: disk_image_def g(4) tview_counters [OF assms(1)] counter_of)
  moreover have "append_fits log (pa_target w) (pa_expected w) (batch_iter (pa_batch w))" if "w \<in> set ws" for w
  proof -
    have "length (batch_iter (pa_batch w)) \<le> length (planned_entries ws)"
      using entries_filter [OF assms(5) that] by (metis length_filter_le length_map)
    with W(2) have "length log + length (batch_iter (pa_batch w)) < 2 ^ 64" by (simp add: log_ok_def)
    with that heads run expected_u64_head [OF log_events_small [OF assms(3)]] assms(7) show ?thesis
      by (simp add: append_fits_def list_all_iff)
  qed
  ultimately show ?thesis
    using W pos assms(5) by (simp add: atomic_fits_def list_all_iff log_ok_def vnum_def as_u64_def)
qed

definition atomic_outcome ::
  "('db \<Rightarrow> view) \<Rightarrow> event_log \<Rightarrow> event_log \<Rightarrow> (global_seq option, 'io fjall_error atomic_append_error) result call
    \<Rightarrow> 'db storage \<Rightarrow> bool" where
  "atomic_outcome contents log log' r st' \<longleftrightarrow>
    (case r of
       Panics \<Rightarrow> False
     | Returns (Inr pos) \<Rightarrow> fj_represents contents st' log' \<and>
         (case pos of None \<Rightarrow> log' = log | Some p \<Rightarrow> vnum p = length log')
     | Returns (Inl (AtomicStore (FjIo _))) \<Rightarrow>
         fj_represents contents st' log \<or> fj_represents contents st' log'
     | Returns (Inl _) \<Rightarrow> fj_represents contents st' log)"

lemma atomic_outcome_rejected:
  "fj_represents contents st log \<Longrightarrow> atomic_outcome contents log log' (Returns (Inl e)) st"
  by (auto simp: atomic_outcome_def split: atomic_append_error.splits fjall_error.splits)

lemma fj_atomic_outcome:
  assumes "engine_ok eng contents tview" "fj_represents contents st log" "\<forall>w \<in> set ws. planned_ok w"
    "fj_atomic_append_many eng ws st = (r, st')"
  shows "atomic_outcome contents log (log @ planned_entries ws) r st' \<and>
    (\<not> fj_represents contents st' log \<longrightarrow> atomic_fits log ws) \<and> fj_mode st' = fj_mode st"
  using assms(4,3)
proof (cases rule: fj_atomic_cases)
  case (same q)
  with assms(2) show ?thesis by (auto simp: atomic_outcome_rejected) (simp add: atomic_outcome_def)
next
  case (commit pos tx c db)
  have rep: "log_ok log" "disk_image (fj_mode st) log (contents (fj_db st))"
    using assms(2) by (simp_all add: fj_represents_def)
  have im: "disk_image (fj_mode st) log (tview (fj_write_tx eng st))"
    using rep(2) by (simp add: fj_write_tx_def engine_okD(4) [OF assms(1)])
  note A = atomic_staged_Inr [OF assms(1) im rep(1) commit(1-6)]
  show ?thesis
  proof (cases c)
    case (Inl e)
    have "contents db = tview tx \<or> contents db = contents (fj_db st)"
      using engine_okD(9) [OF assms(1)] commit(7) Inl by blast
    with commit(9) [OF Inl] A rep show ?thesis by (auto simp: atomic_outcome_def fj_represents_def)
  next
    case (Inr u)
    then have "contents db = tview tx" using engine_okD(8) [OF assms(1)] commit(7) by simp
    with commit(8) Inr A rep show ?thesis by (auto simp: atomic_outcome_def fj_represents_def)
  qed
qed

section \<open>Writes touch the event keyspaces only\<close>

definition event_spaces :: "keyspace set" where
  "event_spaces = {''events'', ''events_global'', ''streams'', ''global''}"

lemma tview_frame:
  assumes "engine_ok eng contents tview" "ks \<notin> event_spaces"
  shows "tview (fold (stage_event eng mode) rows tx) ks = tview tx ks"
    "tview (set_version eng i v tx) ks = tview tx ks" "tview (set_global eng g tx) ks = tview tx ks"
proof -
  have ne: "ks \<noteq> ''events''" "ks \<noteq> ''events_global''" "ks \<noteq> ''streams''" "ks \<noteq> ''global''"
    using assms(2) by (auto simp: event_spaces_def)
  show "tview (fold (stage_event eng mode) rows tx) ks = tview tx ks"
    unfolding tview_stage_rows [OF assms(1)] using ne(1,2) by simp
  show "tview (set_version eng i v tx) ks = tview tx ks" "tview (set_global eng g tx) ks = tview tx ks"
    unfolding tview_counters [OF assms(1)] using ne(3,4) by simp_all
qed

lemma eng_commit_frame:
  assumes "engine_ok eng contents tview" "eng_commit eng tx db = (c, db')" "tview tx ks = contents db ks"
  shows "contents db' ks = contents db ks"
proof (cases c)
  case (Inl e)
  then show ?thesis using engine_okD(9) [OF assms(1)] assms(2,3) by metis
next
  case (Inr u)
  then show ?thesis using engine_okD(8) [OF assms(1)] assms(2,3) by (metis old.unit.exhaust)
qed

lemma write_tx_view:
  "engine_ok eng contents tview \<Longrightarrow> tview (fj_write_tx eng st) = contents (fj_db st)"
  by (simp add: fj_write_tx_def engine_okD(4))

lemma fj_append_frame:
  assumes "engine_ok eng contents tview" "fj_append eng k expected b st = (r, st')" "batch_ok b" "ks \<notin> event_spaces"
  shows "contents (fj_db st') ks = contents (fj_db st) ks"
  using assms(2,3)
proof (cases rule: fj_append_cases)
  case (commit g tx c db)
  have "tview tx ks = contents (fj_db st) ks"
    using commit(2) by (auto simp: append_in_tx_def result_simps Let_def tview_frame [OF assms(1,4)] write_tx_view [OF assms(1)])
  from eng_commit_frame [OF assms(1) commit(3) this] commit(4,5) show ?thesis by (cases c) auto
qed simp

lemma write_runs_frame:
  assumes "engine_ok eng contents tview" "ks \<notin> event_spaces"
  shows "write_runs eng mode ps g tx = Inr (g', tx') \<Longrightarrow> tview tx' ks = tview tx ks"
proof (induction ps arbitrary: g tx)
  case (Cons p ps)
  from Cons.prems obtain pl :: planned_run where
    "write_runs eng mode ps (pr_ending_global pl) (set_version eng (key_bytes (pa_target (fst p))) (pr_new_version pl)
      (fold (stage_event eng mode) (pr_rows pl) tx)) = Inr (g', tx')"
    by (auto simp: Let_def result_simps)
  from Cons.IH [OF this] show ?case by (simp add: tview_frame [OF assms])
qed simp

lemma fj_atomic_frame:
  assumes "engine_ok eng contents tview" "fj_atomic_append_many eng ws st = (r, st')" "\<forall>w \<in> set ws. planned_ok w"
    "ks \<notin> event_spaces"
  shows "contents (fj_db st') ks = contents (fj_db st) ks"
  using assms(2,3)
proof (cases rule: fj_atomic_cases)
  case (commit pos tx c db)
  have "tview tx ks = contents (fj_db st) ks"
    using commit(6) write_runs_frame [OF assms(1,4)]
    by (auto simp: atomic_staged_def result_simps tview_frame [OF assms(1,4)] write_tx_view [OF assms(1)])
  from eng_commit_frame [OF assms(1) commit(7) this] commit(8,9) show ?thesis by (cases c) auto
qed simp

end
