(* ===== verification/Fjall_Scan.thy ===== *)
theory Fjall_Scan
  imports Fjall_Append
begin

text \<open>
  The read path of the fjall adapter: the scan strategies and the cursor of
  \<open>adapters/fjall/src/scan.rs\<close>, \<open>read_stream\<close>, \<open>read_all\<close> and the stream lister of
  \<open>store.rs\<close>. A cursor pins one snapshot, so it is a function of the database it was opened on;
  its iterator is the list of rows the engine yields.

  The lemmas show that on the image of a log a drained cursor yields exactly the events of the
  stream, or of the log, from the requested position on, or a prefix of them and one error.
\<close>

section \<open>Strategies\<close>

record ('pos, 'item, 'io) scan_strategy =
  sg_lower_key :: "'pos \<Rightarrow> (bytes, 'io fjall_error) result"
  sg_upper_key :: "(bytes option, 'io fjall_error) result"
  sg_decode :: "bytes \<Rightarrow> bytes \<Rightarrow> ('item, 'io fjall_error) result"

text \<open>\<open>align_frame\<close> copies the bytes to an aligned address and leaves them unchanged.\<close>

definition build_envelope ::
  "bytes \<Rightarrow> decoded_frame \<Rightarrow> u64 \<Rightarrow> bytes \<Rightarrow> (persisted_envelope, 'io fjall_error) result" where
  "build_envelope value decoded raw_version label =
    and_then (ok_or (FjCorruptValue label (Some raw_version)) (version_new raw_version)) (\<lambda>version.
      map_err (FjEnvelopeCorrupt label raw_version)
        (try_new version value (df_schema decoded) (fo_event_type (df_offsets decoded))
          (fo_payload (df_offsets decoded)) (fo_metadata (df_offsets decoded))))"

definition stream_lower_key :: "stream_key \<Rightarrow> version \<Rightarrow> (bytes, 'io fjall_error) result" where
  "stream_lower_key k v =
    map_err (\<lambda>e. FjInvalidInput (to_label k) (as_u64 v) (ReasonKey e)) (encode_event_key (key_bytes k) (as_u64 v))"

definition stream_upper_key :: "stream_key \<Rightarrow> (bytes option, 'io fjall_error) result" where
  "stream_upper_key k =
    map_err (\<lambda>e. FjInvalidInput (to_label k) (- 1) (ReasonKey e))
      (map_ok Some (encode_event_key (key_bytes k) (- 1)))"

definition stream_decode :: "stream_key \<Rightarrow> bytes \<Rightarrow> bytes \<Rightarrow> (persisted_envelope, 'io fjall_error) result" where
  "stream_decode k key value =
    and_then (map_err (\<lambda>_. FjCorruptValue (to_label k) None) (decode_event_key key)) (\<lambda>(_, version).
    and_then (map_err (\<lambda>_. FjCorruptValue (to_label k) (Some version)) (decode_frame value)) (\<lambda>decoded.
      build_envelope value decoded version (to_label k)))"

definition fj_stream_scan :: "stream_key \<Rightarrow> (version, persisted_envelope, 'io) scan_strategy" where
  "fj_stream_scan k =
    \<lparr>sg_lower_key = stream_lower_key k, sg_upper_key = stream_upper_key k, sg_decode = stream_decode k\<rparr>"

definition global_lower_key :: "global_seq \<Rightarrow> (bytes, 'io fjall_error) result" where
  "global_lower_key g =
    map_err (\<lambda>e. FjInvalidInput [] (global_seq_as_u64 g) (ReasonKey e)) (encode_global_key (global_seq_as_u64 g) [] 0)"

definition global_decode ::
  "bytes \<Rightarrow> bytes \<Rightarrow> (global_seq \<times> stream_key \<times> persisted_envelope, 'io fjall_error) result" where
  "global_decode key value =
    and_then (map_err (\<lambda>_. FjCorruptValue [] None) (decode_global_key key)) (\<lambda>(key_global_seq, id_bytes, version_raw).
      if id_bytes = [] then Inl (FjCorruptValue [] (Some version_raw))
      else
        let id_len = length id_bytes;
            stream = StreamKey (take id_len (drop GLOBAL_KEY_PREFIX_SIZE key));
            label = to_label stream in
        and_then (ok_or (FjCorruptValue label (Some version_raw)) (global_seq_new key_global_seq)) (\<lambda>position.
        and_then (map_err (\<lambda>_. FjCorruptValue label (Some version_raw)) (decode_frame value)) (\<lambda>decoded.
        and_then (build_envelope value decoded version_raw label) (\<lambda>env.
          Inr (position, stream, env)))))"

definition fj_global_scan ::
  "(global_seq, global_seq \<times> stream_key \<times> persisted_envelope, 'io) scan_strategy" where
  "fj_global_scan =
    \<lparr>sg_lower_key = global_lower_key, sg_upper_key = Inr None, sg_decode = global_decode\<rparr>"

section \<open>Cursor\<close>

record 'io scan_cursor =
  sc_iter :: "'io row list"
  sc_poisoned :: bool

definition cursor_open ::
  "('db, 'tx, 'io) engine \<Rightarrow> 'db \<Rightarrow> keyspace \<Rightarrow> ('pos, 'item, 'io) scan_strategy \<Rightarrow> 'pos
    \<Rightarrow> ('io scan_cursor, 'io fjall_error) result" where
  "cursor_open eng db ks strategy p =
    and_then (sg_lower_key strategy p) (\<lambda>lower.
    and_then (sg_upper_key strategy) (\<lambda>upper_bound.
      Inr \<lparr>sc_iter = eng_range eng db ks
             (case upper_bound of Some upper \<Rightarrow> RangeInclusive lower upper | None \<Rightarrow> RangeFrom lower),
           sc_poisoned = False\<rparr>))"

definition cursor_open_empty :: "('db, 'tx, 'io) engine \<Rightarrow> 'db \<Rightarrow> keyspace \<Rightarrow> 'io scan_cursor" where
  "cursor_open_empty eng db ks = \<lparr>sc_iter = eng_range eng db ks (RangeHalfOpen [0] [0]), sc_poisoned = False\<rparr>"

definition next_sized ::
  "('pos, 'item, 'io) scan_strategy \<Rightarrow> 'io scan_cursor
    \<Rightarrow> (('item, 'io fjall_error) result \<times> nat) option \<times> 'io scan_cursor" where
  "next_sized strategy c =
    (if sc_poisoned c then (None, c)
     else case sc_iter c of
       [] \<Rightarrow> (None, c)
     | Inl e # rest \<Rightarrow> (Some (Inl (FjIo e), 0), c\<lparr>sc_iter := rest, sc_poisoned := True\<rparr>)
     | Inr (key, value) # rest \<Rightarrow>
         (case checked_add_usize (length key) (length value) of
            None \<Rightarrow> (Some (Inl FjScanLengthOverflow, 0), c\<lparr>sc_iter := rest, sc_poisoned := True\<rparr>)
          | Some row_size \<Rightarrow>
              let item = sg_decode strategy key value in
              (Some (item, row_size), c\<lparr>sc_iter := rest, sc_poisoned := \<not> is_ok item\<rparr>)))"

definition poll_one ::
  "('pos, 'item, 'io) scan_strategy \<Rightarrow> 'io scan_cursor
    \<Rightarrow> ('item, 'io fjall_error) result option \<times> 'io scan_cursor" where
  "poll_one strategy c = (case next_sized strategy c of (r, c') \<Rightarrow> (map_option fst r, c'))"

lemma next_sized_shrinks:
  "next_sized strategy c = (Some r, c') \<Longrightarrow> length (sc_iter c') < length (sc_iter c)"
  by (auto simp: next_sized_def Let_def split: if_splits list.splits sum.splits prod.splits option.splits)

lemma poll_one_shrinks: "poll_one strategy c = (Some r, c') \<Longrightarrow> length (sc_iter c') < length (sc_iter c)"
  by (cases "next_sized strategy c") (auto simp: poll_one_def dest: next_sized_shrinks)

text \<open>Polling a cursor until it ends.\<close>

function cursor_drain ::
  "('pos, 'item, 'io) scan_strategy \<Rightarrow> 'io scan_cursor \<Rightarrow> ('item, 'io fjall_error) result list" where
  "cursor_drain strategy c =
    (case poll_one strategy c of
       (None, _) \<Rightarrow> []
     | (Some r, c') \<Rightarrow> r # cursor_drain strategy c')"
  by pat_completeness auto
termination
  by (relation "measure (\<lambda>(_, c). length (sc_iter c))")
    (simp_all add: poll_one_shrinks [OF sym])

declare cursor_drain.simps [simp del]

section \<open>Reads of the store\<close>

definition fj_read_stream ::
  "('db, 'tx, 'io) engine \<Rightarrow> stream_key \<Rightarrow> version \<Rightarrow> 'db storage \<Rightarrow> ('io scan_cursor, 'io fjall_error) result" where
  "fj_read_stream eng k v st =
    and_then (validate_key (key_bytes k) MAX_STREAM_ID_LEN) (\<lambda>_.
      cursor_open eng (fj_db st) ''events'' (fj_stream_scan k) v)"

definition fj_read_all ::
  "('db, 'tx, 'io) engine \<Rightarrow> global_seq option \<Rightarrow> 'db storage \<Rightarrow> ('io scan_cursor, 'io fjall_error) result" where
  "fj_read_all eng p st =
    (if fj_mode st = AllDisabled then Inl FjAllIndexDisabled
     else case (case p of None \<Rightarrow> Some global_seq_INITIAL | Some g \<Rightarrow> global_seq_next g) of
       None \<Rightarrow> Inr (cursor_open_empty eng (fj_db st) ''events_global'')
     | Some after \<Rightarrow> cursor_open eng (fj_db st) ''events_global'' fj_global_scan after)"

text \<open>The lister over the \<open>streams\<close> partition yields keys only.\<close>

definition stream_ids :: "('db, 'tx, 'io) engine \<Rightarrow> 'db \<Rightarrow> 'io row list" where
  "stream_ids eng db = eng_range eng db ''streams'' RangeFull"

definition stream_ids_after :: "('db, 'tx, 'io) engine \<Rightarrow> 'db \<Rightarrow> stream_key option \<Rightarrow> 'io row list" where
  "stream_ids_after eng db after =
    (case after of
       None \<Rightarrow> stream_ids eng db
     | Some k \<Rightarrow> eng_range eng db ''streams'' (RangeAfter (key_bytes k)))"

definition id_cursor_from_iter :: "'io row list \<Rightarrow> 'io scan_cursor" where
  "id_cursor_from_iter rows = \<lparr>sc_iter = rows, sc_poisoned = False\<rparr>"

definition id_poll_one :: "'io scan_cursor \<Rightarrow> (stream_key, 'io fjall_error) result option \<times> 'io scan_cursor" where
  "id_poll_one c =
    (if sc_poisoned c then (None, c)
     else case sc_iter c of
       [] \<Rightarrow> (None, c)
     | Inl e # rest \<Rightarrow> (Some (Inl (FjIo e)), c\<lparr>sc_iter := rest, sc_poisoned := True\<rparr>)
     | Inr (key, _) # rest \<Rightarrow> (Some (Inr (StreamKey key)), c\<lparr>sc_iter := rest\<rparr>))"

definition id_next_row ::
  "'io scan_cursor \<Rightarrow> ((stream_key, 'io fjall_error) result \<times> nat) option \<times> 'io scan_cursor" where
  "id_next_row c =
    (case id_poll_one c of (r, c') \<Rightarrow>
       (map_option (\<lambda>item. (item, case item of Inl _ \<Rightarrow> 0 | Inr k \<Rightarrow> length (key_bytes k))) r, c'))"

definition fj_list_streams :: "('db, 'tx, 'io) engine \<Rightarrow> 'db storage \<Rightarrow> ('io scan_cursor, 'io fjall_error) result" where
  "fj_list_streams eng st = Inr (id_cursor_from_iter (stream_ids eng (fj_db st)))"

lemma id_poll_one_shrinks: "id_poll_one c = (Some r, c') \<Longrightarrow> length (sc_iter c') < length (sc_iter c)"
  by (auto simp: id_poll_one_def split: if_splits list.splits sum.splits prod.splits)

function id_drain :: "'io scan_cursor \<Rightarrow> (stream_key, 'io fjall_error) result list" where
  "id_drain c =
    (case id_poll_one c of
       (None, _) \<Rightarrow> []
     | (Some r, c') \<Rightarrow> r # id_drain c')"
  by pat_completeness auto
termination
  by (relation "measure (\<lambda>c. length (sc_iter c))") (simp_all add: id_poll_one_shrinks [OF sym])

declare id_drain.simps [simp del]

section \<open>Lemmas: draining\<close>

text \<open>A drained cursor yields every item, or some of them and one error.\<close>

definition delivers :: "'a list \<Rightarrow> ('a, 'io fjall_error) result list \<Rightarrow> bool" where
  "delivers xs rs \<longleftrightarrow> rs = map Inr xs \<or> (\<exists>n io. rs = map Inr (take n xs) @ [Inl (FjIo io)])"

lemma cursor_drain_Cons:
  assumes "sg_decode strategy (fst kv) (snd kv) = Inr item" "length (fst kv) + length (snd kv) \<le> usize_max"
  shows "cursor_drain strategy \<lparr>sc_iter = Inr kv # rows, sc_poisoned = False\<rparr> =
    Inr item # cursor_drain strategy \<lparr>sc_iter = rows, sc_poisoned = False\<rparr>"
  using assms
  by (subst cursor_drain.simps)
    (cases kv, simp add: poll_one_def next_sized_def Let_def checked_add_usize_def)

lemma cursor_drain_end [simp]:
  "cursor_drain strategy \<lparr>sc_iter = [], sc_poisoned = False\<rparr> = []"
  "cursor_drain strategy \<lparr>sc_iter = rows, sc_poisoned = True\<rparr> = []"
  by (subst cursor_drain.simps; simp add: poll_one_def next_sized_def)+

lemma cursor_drain_error [simp]:
  "cursor_drain strategy \<lparr>sc_iter = Inl e # rows, sc_poisoned = False\<rparr> = [Inl (FjIo e)]"
  by (subst cursor_drain.simps) (simp add: poll_one_def next_sized_def)

definition decodes_to :: "('pos, 'item, 'io) scan_strategy \<Rightarrow> bytes \<times> bytes \<Rightarrow> 'item \<Rightarrow> bool" where
  "decodes_to strategy kv item \<longleftrightarrow>
    sg_decode strategy (fst kv) (snd kv) = Inr item \<and> length (fst kv) + length (snd kv) \<le> usize_max"

lemma cursor_drain_rows:
  assumes "list_all2 (decodes_to strategy) kvs items"
  shows "cursor_drain strategy \<lparr>sc_iter = map Inr kvs @ rows, sc_poisoned = False\<rparr> =
    map Inr items @ cursor_drain strategy \<lparr>sc_iter = rows, sc_poisoned = False\<rparr>"
  using assms by (induction kvs items) (simp_all add: decodes_to_def cursor_drain_Cons)

lemma cursor_delivers:
  assumes "rows_ok m r rows" "sorted_entries m r kvs" "list_all2 (decodes_to strategy) kvs items"
  shows "delivers items (cursor_drain strategy \<lparr>sc_iter = rows, sc_poisoned = False\<rparr>)"
proof -
  obtain xs where xs: "sorted_entries m r xs" "rows = map Inr xs \<or> (\<exists>n e rest. rows = map Inr (take n xs) @ Inl e # rest)"
    using assms(1) by (auto simp: rows_ok_def)
  have "xs = kvs" using sorted_entries_unique [OF xs(1) assms(2)] .
  with xs(2) consider "rows = map Inr kvs" | n e rest where "rows = map Inr (take n kvs) @ Inl e # rest" by blast
  then show ?thesis
  proof cases
    case 1
    then show ?thesis using cursor_drain_rows [OF assms(3), of "[]"] by (simp add: delivers_def)
  next
    case 2
    have "list_all2 (decodes_to strategy) (take n kvs) (take n items)" using assms(3) by (rule list_all2_takeI)
    from cursor_drain_rows [OF this, of "Inl e # rest"] 2 show ?thesis by (auto simp: delivers_def)
  qed
qed

section \<open>Lemmas: the entries of an image\<close>

lemma distinct_by_stream:
  "\<forall>k. distinct (map f (map snd (filter (\<lambda>x. fst x = k) log))) \<Longrightarrow> distinct (map (\<lambda>x. (fst x, f (snd x))) log)"
proof (induction log)
  case (Cons x log)
  have "distinct (map f (map snd (filter (\<lambda>y. fst y = k) log)))" for k
    using Cons.prems [rule_format, of k] by (cases "fst x = k") simp_all
  moreover have "(fst x, f (snd x)) \<notin> (\<lambda>x. (fst x, f (snd x))) ` set log"
    using Cons.prems [rule_format, of "fst x"] by (force simp: image_iff)
  ultimately show ?case using Cons.IH by simp
qed simp

lemma run_from_distinct: "run_from n es \<Longrightarrow> distinct (map pe_version es)"
proof -
  assume "run_from n es"
  then have "distinct (map vnum (map pe_version es))" by (simp add: run_from_def comp_def)
  then show ?thesis by (simp add: distinct_map del: map_map)
qed

lemma log_ok_distinct: "log_ok log \<Longrightarrow> distinct (map (\<lambda>x. (fst x, pe_version (snd x))) log)"
  by (rule distinct_by_stream) (use run_from_distinct in \<open>auto simp: log_ok_def log_events_def simp del: map_map\<close>)

lemma log_key_short: "log_ok log \<Longrightarrow> x \<in> set log \<Longrightarrow> length (key_bytes (fst x)) < 2 ^ 16"
  by (rule entry_key_short) (simp add: log_ok_def list_all_iff)

lemma event_rows_distinct:
  assumes "log_ok log"
  shows "distinct (map fst (event_rows log))"
proof -
  have "inj_on (\<lambda>(k, v). event_key (key_bytes k) (as_u64 v)) ((\<lambda>x. (fst x, pe_version (snd x))) ` set log)"
  proof (rule inj_onI, clarsimp)
    fix i v j w assume "(i, v) \<in> set log" "(j, w) \<in> set log"
      "event_key (key_bytes i) (as_u64 (pe_version v)) = event_key (key_bytes j) (as_u64 (pe_version w))"
    then have "key_bytes i = key_bytes j" "as_u64 (pe_version v) = as_u64 (pe_version w)"
      using log_key_short [OF assms] by (metis event_key_inject fst_conv)+
    then show "i = j \<and> pe_version v = pe_version w"
      by (simp add: stream_key.expand vnum_inject [symmetric] vnum_def)
  qed
  then have "distinct (map (\<lambda>(k, v). event_key (key_bytes k) (as_u64 v)) (map (\<lambda>x. (fst x, pe_version (snd x))) log))"
    using log_ok_distinct [OF assms] by (subst distinct_map) (simp del: map_map)
  then show ?thesis by (simp add: event_rows_def comp_def case_prod_beta)
qed

lemma map_of_rev_Some:
  "distinct (map fst xs) \<Longrightarrow> map_of (rev xs) k = Some v \<longleftrightarrow> (k, v) \<in> set xs"
  by (simp add: rev_map [symmetric])

lemma image_restrict: "f ` {x \<in> S. P (fst (f x))} = {(a, b). P a \<and> (a, b) \<in> f ` S}"
  by (auto simp: image_iff) (metis fst_conv)+

lemma as_u64_le: "as_u64 a \<le> as_u64 b \<longleftrightarrow> vnum a \<le> vnum b"
  by (simp add: vnum_def word_le_nat_alt)

lemma run_from_filter:
  "run_from n es \<Longrightarrow> filter (\<lambda>p. m \<le> vnum (pe_version p)) es = drop (m - Suc n) es"
proof (induction es arbitrary: n)
  case (Cons p es)
  show ?case
  proof (cases "m \<le> Suc n")
    case True
    then have "filter (\<lambda>p. m \<le> vnum (pe_version p)) es = es"
      using Cons.IH [of "Suc n"] Cons.prems by simp
    with True Cons.prems show ?thesis by simp
  next
    case False
    then have "m - Suc n = Suc (m - Suc (Suc n))" by simp
    with False Cons show ?thesis by simp
  qed
qed simp

lemma event_rows_sorted:
  assumes "run_from n es" "length (key_bytes k) < 2 ^ 16"
  shows "sorted_wrt (<) (map fst (event_rows (map (Pair k) es)))"
proof -
  have "sorted_wrt (<) (map (\<lambda>p. vnum (pe_version p)) es)"
    using assms(1) by (simp add: run_from_def del: upt_Suc add_Suc add_Suc_right)
  then have "sorted_wrt (\<lambda>p q. vnum (pe_version p) < vnum (pe_version q)) es" by (simp add: sorted_wrt_map)
  then show ?thesis
    using assms(2) by (auto simp: event_rows_def sorted_wrt_map event_key_less vnum_def word_less_nat_alt
        intro: sorted_wrt_mono_rel [rotated])
qed

lemma stream_entries:
  assumes "log_ok log" "length (key_bytes k) < 2 ^ 16"
  shows "sorted_entries (map_of (rev (event_rows log)))
    (RangeInclusive (event_key (key_bytes k) (as_u64 v)) (event_key (key_bytes k) (- 1)))
    (event_rows (map (Pair k) (drop (vnum v - 1) (log_events log k))))"
proof -
  let ?R = "RangeInclusive (event_key (key_bytes k) (as_u64 v)) (event_key (key_bytes k) (- 1))"
  let ?es = "log_events log k" and ?r = "\<lambda>x. (event_key (key_bytes (fst x)) (as_u64 (pe_version (snd x))), frame_of (snd x))"
  have run: "run_from 0 ?es" using assms(1) by (simp add: log_ok_def)
  have drop: "drop (vnum v - 1) ?es = filter (\<lambda>p. vnum v \<le> vnum (pe_version p)) ?es"
    using run_from_filter [OF run, of "vnum v"] by simp
  have "run_from (length (take (vnum v - 1) ?es)) (drop (vnum v - 1) ?es)"
    using run run_from_append [of 0 "take (vnum v - 1) ?es" "drop (vnum v - 1) ?es"] by simp
  then have sorted: "sorted_wrt (<) (map fst (event_rows (map (Pair k) (drop (vnum v - 1) ?es))))"
    by (rule event_rows_sorted) (rule assms(2))
  have rows: "event_rows l = map ?r l" for l by (simp add: event_rows_def case_prod_beta)
  have inr: "event_key (key_bytes k) (as_u64 v) \<le> fst (?r x) \<and> fst (?r x) \<le> event_key (key_bytes k) (- 1) \<longleftrightarrow>
      fst x = k \<and> vnum v \<le> vnum (pe_version (snd x))" if "x \<in> set log" for x
  proof -
    have "length (key_bytes (fst x)) < 2 ^ 16"
      by (rule log_key_short [OF assms(1) that])
    then show ?thesis
      using event_key_range [OF assms(2), of "key_bytes (fst x)" "as_u64 v" "as_u64 (pe_version (snd x))"]
      by (auto simp: as_u64_le stream_key.expand)
  qed
  have "set (map (Pair k) (filter (\<lambda>p. vnum v \<le> vnum (pe_version p)) ?es)) =
      {x \<in> set log. fst x = k \<and> vnum v \<le> vnum (pe_version (snd x))}"
    by (force simp: log_events_def)
  then have "set (event_rows (map (Pair k) (drop (vnum v - 1) ?es))) =
      ?r ` {x \<in> set log. fst x = k \<and> vnum v \<le> vnum (pe_version (snd x))}"
    unfolding drop rows set_map [of ?r] by simp
  also have "\<dots> = ?r ` {x \<in> set log. in_range ?R (fst (?r x))}" using inr by auto
  also have "\<dots> = {(a, b). in_range ?R a \<and> map_of (rev (event_rows log)) a = Some b}"
    unfolding map_of_rev_Some [OF event_rows_distinct [OF assms(1)]] unfolding rows set_map by (rule image_restrict)
  finally show ?thesis using sorted by (simp add: sorted_entries_def)
qed

text \<open>The row of the event at an index of the log.\<close>

definition global_row_at :: "event_log \<Rightarrow> nat \<Rightarrow> bytes \<times> bytes" where
  "global_row_at log i =
    (global_key (of_nat (Suc i)) (key_bytes (fst (log ! i))) (as_u64 (pe_version (snd (log ! i)))),
     frame_of (snd (log ! i)))"

lemma global_rows_drop: "global_rows m (drop m log) = map (global_row_at log) [m ..< length log]"
  by (rule nth_equalityI) (simp_all add: global_rows_def global_row_at_def nth_enumerate_eq case_prod_beta)

lemma global_row_at_less:
  assumes "length log < 2 ^ 64" "i < j" "j < length log"
  shows "fst (global_row_at log i) < fst (global_row_at log j)"
proof -
  have "(of_nat (Suc i) :: u64) < of_nat (Suc j)"
    using assms by (simp add: word_less_nat_alt unat_of_nat_small del: of_nat_Suc)
  then show ?thesis by (simp add: global_row_at_def global_key_less del: of_nat_Suc)
qed

lemma global_rows_sorted:
  assumes "length log < 2 ^ 64"
  shows "sorted_wrt (<) (map fst (global_rows m (drop m log)))"
  unfolding global_rows_drop using global_row_at_less [OF assms] by (simp add: sorted_wrt_iff_nth_less)

lemma global_entries:
  assumes "log_ok log"
  shows "sorted_entries (map_of (rev (global_rows 0 log))) (RangeFrom (global_key (get g) [] 0))
    (global_rows (vnum g - 1) (drop (vnum g - 1) log))"
proof -
  let ?R = "RangeFrom (global_key (get g) [] 0)" and ?r = "global_row_at log"
  have len: "length log < 2 ^ 64" using assms by (simp add: log_ok_def)
  have rows: "global_rows 0 log = map ?r [0 ..< length log]" using global_rows_drop [of 0 log] by simp
  have "distinct (map fst (global_rows 0 log))"
    using global_rows_sorted [OF len, of 0] by (simp add: strict_sorted_iff)
  note some = map_of_rev_Some [OF this]
  have inr: "in_range ?R (fst (?r i)) \<longleftrightarrow> vnum g - 1 \<le> i" if "i < length log" for i
  proof -
    have "length (key_bytes (fst (log ! i))) < 2 ^ 16" by (rule log_key_short [OF assms]) (simp add: that)
    then have "in_range ?R (fst (?r i)) \<longleftrightarrow> get g \<le> of_nat (Suc i)"
      by (simp add: global_row_at_def global_key_lower del: of_nat_Suc)
    also have "\<dots> \<longleftrightarrow> vnum g \<le> Suc i"
      using that len by (simp add: word_le_nat_alt vnum_def as_u64_def unat_of_nat_small del: of_nat_Suc)
    finally show ?thesis by auto
  qed
  have "set (global_rows (vnum g - 1) (drop (vnum g - 1) log)) = ?r ` {i \<in> {0 ..< length log}. in_range ?R (fst (?r i))}"
    unfolding global_rows_drop set_map using inr by (intro arg_cong [of _ _ "image ?r"]) auto
  also have "\<dots> = {(a, b). in_range ?R a \<and> map_of (rev (global_rows 0 log)) a = Some b}"
    unfolding some unfolding rows set_map set_upt by (rule image_restrict)
  finally show ?thesis using global_rows_sorted [OF len] by (simp add: sorted_entries_def)
qed

section \<open>Lemmas: decoding stored rows\<close>

lemma build_envelope_stored:
  assumes "pending_ok p" "pending_len p < 2 ^ 32"
  shows "\<exists>d. decode_frame (frame_of p) = Inr d \<and>
    build_envelope (frame_of p) d (as_u64 (pe_version p)) label = Inr (persisted_of p)"
proof -
  let ?fo = "frame_offsets_of (pe_event_type p) (pe_payload p) (pe_metadata p)"
  have "decode_frame (frame_of p) = Inr \<lparr>df_schema = pe_schema p, df_offsets = ?fo\<rparr>"
    using assms decode_frame_value [of "pe_event_type p" "pe_metadata p" "pe_payload p" "pe_schema p"]
    by (simp add: frame_of_def persisted_of_def Let_def pending_ok_def pending_len_def)
  moreover have "version_new (as_u64 (pe_version p)) = Some (pe_version p)" by (simp add: as_u64_def)
  then have "build_envelope (frame_of p) \<lparr>df_schema = pe_schema p, df_offsets = ?fo\<rparr> (as_u64 (pe_version p)) label =
      map_err (FjEnvelopeCorrupt label (as_u64 (pe_version p)))
        (try_new (ps_version (persisted_of p)) (ps_value (persisted_of p)) (ps_schema (persisted_of p))
          (ps_event_type_range (persisted_of p)) (ps_payload_range (persisted_of p)) (ps_metadata_range (persisted_of p)))"
    by (simp add: build_envelope_def frame_of_def persisted_of_def Let_def del: version_new_Some)
  ultimately show ?thesis by (simp add: try_new_complete [OF persisted_of_ok [OF assms]])
qed

lemma stored_row_size:
  assumes "entry_ok x"
  shows "length (event_key (key_bytes (fst x)) v) + length (frame_of (snd x)) \<le> usize_max"
    "length (global_key g (key_bytes (fst x)) v) + length (frame_of (snd x)) \<le> usize_max"
  using assms
  by (simp_all add: entry_ok_def frame_of_def persisted_of_def Let_def length_frame_value pending_len_def
      usize_max_def fjall_sizes)

lemma stream_row_decodes:
  assumes "entry_ok (k, p)"
  shows "decodes_to (fj_stream_scan k) (event_key (key_bytes k) (as_u64 (pe_version p)), frame_of p) (persisted_of p)"
proof -
  have "pending_ok p" "pending_len p < 2 ^ 32" using assms by (simp_all add: entry_ok_def)
  from build_envelope_stored [OF this, of "to_label k"] entry_key_short [OF assms] stored_row_size(1) [OF assms]
  show ?thesis by (auto simp: decodes_to_def fj_stream_scan_def stream_decode_def)
qed

lemma global_row_decodes:
  assumes "entry_ok (k, p)" "0 < g" "g < 2 ^ 64"
  shows "decodes_to (fj_global_scan :: (_, _, 'io) scan_strategy) (global_key (of_nat g) (key_bytes k) (as_u64 (pe_version p)), frame_of p)
    (version_of g, k, persisted_of p)"
proof -
  have ok: "pending_ok p" "pending_len p < 2 ^ 32" "key_bytes k \<noteq> []" using assms by (simp_all add: entry_ok_def)
  have new: "global_seq_new (of_nat g) = Some (version_of g)"
    using assms(2,3) by (simp add: global_seq_new_def nonzero_new_def version_of_def word_unat_eq_iff unat_of_nat_small)
  have key: "take (length (key_bytes k)) (drop 10 (global_key (of_nat g) (key_bytes k) v)) = key_bytes k" for v
    by (simp add: global_key_def)
  obtain d where "decode_frame (frame_of p) = Inr d"
    "build_envelope (frame_of p) d (as_u64 (pe_version p)) (to_label k) = (Inr (persisted_of p) :: (_, 'io fjall_error) result)"
    using build_envelope_stored [OF ok(1,2)] by blast
  with entry_key_short [OF assms(1)] stored_row_size(2) [OF assms(1)] ok(3) new key
  show ?thesis by (auto simp: decodes_to_def fj_global_scan_def global_decode_def Let_def fjall_sizes)
qed

section \<open>Reads of an image\<close>

definition key_ok :: "stream_key \<Rightarrow> bool" where
  "key_ok k \<longleftrightarrow> key_bytes k \<noteq> [] \<and> length (key_bytes k) \<le> MAX_STREAM_ID_LEN"

lemma fj_read_stream_delivers:
  assumes "engine_ok eng contents tview" "fj_represents contents st log" "key_ok k"
  shows "\<exists>c. fj_read_stream eng k v st = Inr c \<and>
    delivers (map persisted_of (drop (vnum v - 1) (log_events log k))) (cursor_drain (fj_stream_scan k) c)"
proof -
  let ?es = "drop (vnum v - 1) (log_events log k)"
  let ?R = "RangeInclusive (event_key (key_bytes k) (as_u64 v)) (event_key (key_bytes k) (- 1))"
  have log: "log_ok log" and ev: "contents (fj_db st) ''events'' = map_of (rev (event_rows log))"
    using assms(2) by (simp_all add: fj_represents_def disk_image_def rows_image_def)
  have short: "length (key_bytes k) \<le> 65525" "length (key_bytes k) < 2 ^ 16"
    using assms(3) by (simp_all add: key_ok_def fjall_sizes)
  have open_ok: "fj_read_stream eng k v st =
      Inr \<lparr>sc_iter = eng_range eng (fj_db st) ''events'' ?R, sc_poisoned = False\<rparr>"
    using assms(3) short(1)
    by (simp add: fj_read_stream_def validate_key_def key_ok_def cursor_open_def fj_stream_scan_def
        stream_lower_key_def stream_upper_key_def encode_event_key_eq)
  have "entry_ok (k, p)" if "p \<in> set ?es" for p
  proof -
    from that have "(k, p) \<in> set log" by (auto simp: log_events_def dest!: in_set_dropD)
    with log show ?thesis by (simp add: log_ok_def list_all_iff)
  qed
  then have dec: "list_all2 (decodes_to (fj_stream_scan k)) (event_rows (map (Pair k) ?es)) (map persisted_of ?es)"
    by (auto simp: event_rows_def list_all2_map1 list_all2_map2 comp_def intro!: list.rel_refl_strong stream_row_decodes)
  have "rows_ok (map_of (rev (event_rows log))) ?R (eng_range eng (fj_db st) ''events'' ?R)"
    using engine_okD(11) [OF assms(1)] ev by metis
  from cursor_delivers [OF this stream_entries [OF log short(2)] dec] open_ok show ?thesis by simp
qed

definition positioned :: "event_log \<Rightarrow> (global_seq \<times> stream_key \<times> persisted_envelope) list" where
  "positioned log = map (\<lambda>(g, k, p). (version_of g, k, persisted_of p)) (enumerate 1 log)"

lemma global_rows_decode:
  assumes "log_ok log"
  shows "list_all2 (decodes_to fj_global_scan) (global_rows m (drop m log)) (drop m (positioned log))"
proof (rule list_all2_all_nthI)
  show "length (global_rows m (drop m log)) = length (drop m (positioned log))"
    by (simp add: global_rows_def positioned_def)
next
  fix n assume "n < length (global_rows m (drop m log))"
  then have n: "m + n < length log" by (simp add: global_rows_def)
  then have "entry_ok (log ! (m + n))" using assms by (simp add: log_ok_def list_all_length)
  then have ok: "entry_ok (fst (log ! (m + n)), snd (log ! (m + n)))" by simp
  have "m + n + 1 < 2 ^ 64" using n assms by (simp add: log_ok_def)
  with n global_row_decodes [OF ok, of "Suc (m + n)"]
  show "decodes_to fj_global_scan (global_rows m (drop m log) ! n) (drop m (positioned log) ! n)"
    by (simp add: global_rows_drop global_row_at_def positioned_def nth_enumerate_eq case_prod_beta)
qed

lemma cursor_empty_delivers:
  assumes "engine_ok eng contents tview"
  shows "delivers [] (cursor_drain strategy (cursor_open_empty eng db ks))"
proof -
  have "sorted_entries (contents db ks) (RangeHalfOpen [0] [0]) []" by (auto simp: sorted_entries_def)
  from cursor_delivers [OF engine_okD(11) [OF assms] this] show ?thesis by (simp add: cursor_open_empty_def)
qed

lemma fj_read_all_delivers:
  assumes "engine_ok eng contents tview" "fj_represents contents st log" "fj_mode st = Denormalized"
  shows "\<exists>c. fj_read_all eng p st = Inr c \<and>
    delivers (drop (case p of None \<Rightarrow> 0 | Some g \<Rightarrow> vnum g) (positioned log)) (cursor_drain fj_global_scan c)"
proof -
  have log: "log_ok log" and ev: "contents (fj_db st) ''events_global'' = map_of (rev (global_rows 0 log))"
    using assms(2,3) by (simp_all add: fj_represents_def disk_image_def rows_image_def)
  have from_g: "\<exists>c. cursor_open eng (fj_db st) ''events_global'' fj_global_scan g = Inr c \<and>
      delivers (drop (vnum g - 1) (positioned log)) (cursor_drain fj_global_scan c)" for g
  proof -
    let ?R = "RangeFrom (global_key (get g) [] 0)"
    have "rows_ok (map_of (rev (global_rows 0 log))) ?R (eng_range eng (fj_db st) ''events_global'' ?R)"
      using engine_okD(11) [OF assms(1)] ev by metis
    from cursor_delivers [OF this global_entries [OF log] global_rows_decode [OF log]] show ?thesis
      by (simp add: cursor_open_def fj_global_scan_def global_lower_key_def encode_global_key_eq global_seq_as_u64_def)
  qed
  show ?thesis
  proof (cases p)
    case None
    then show ?thesis using from_g [of global_seq_INITIAL] assms(3)
      by (simp add: fj_read_all_def global_seq_INITIAL_def vnum_def as_u64_def)
  next
    case (Some g)
    show ?thesis
    proof (cases "global_seq_next g")
      case None
      then have "2 ^ 64 \<le> vnum g + 1"
        by (simp add: global_seq_next_def nonzero_checked_add_None vnum_def as_u64_def)
      moreover have "length (positioned log) < 2 ^ 64" using log by (simp add: positioned_def log_ok_def)
      ultimately have "drop (vnum g) (positioned log) = []" by simp
      with Some None assms(3) cursor_empty_delivers [OF assms(1)] show ?thesis by (auto simp: fj_read_all_def)
    next
      case (Some h)
      then have "vnum h = Suc (vnum g)"
        by (simp add: global_seq_next_def nonzero_checked_add_Some vnum_def as_u64_def)
      with Some \<open>p = Some g\<close> from_g [of h] assms(3) show ?thesis by (simp add: fj_read_all_def)
    qed
  qed
qed

section \<open>Listing streams\<close>

lemma id_drain_simps [simp]:
  "id_drain \<lparr>sc_iter = [], sc_poisoned = False\<rparr> = []"
  "id_drain \<lparr>sc_iter = rows, sc_poisoned = True\<rparr> = []"
  "id_drain \<lparr>sc_iter = Inl e # rows, sc_poisoned = False\<rparr> = [Inl (FjIo e)]"
  "id_drain \<lparr>sc_iter = Inr kv # rows, sc_poisoned = False\<rparr> =
    Inr (StreamKey (fst kv)) # id_drain \<lparr>sc_iter = rows, sc_poisoned = False\<rparr>"
  by (subst id_drain.simps; cases kv; simp add: id_poll_one_def; subst id_drain.simps; simp add: id_poll_one_def)+

lemma id_drain_rows:
  "id_drain \<lparr>sc_iter = map Inr kvs @ rows, sc_poisoned = False\<rparr> =
    map (\<lambda>kv. Inr (StreamKey (fst kv))) kvs @ id_drain \<lparr>sc_iter = rows, sc_poisoned = False\<rparr>"
  by (induction kvs) simp_all

lemma id_delivers:
  fixes rows :: "'io row list"
  assumes "rows_ok m r rows" "sorted_entries m r kvs"
  shows "delivers (map (\<lambda>kv. StreamKey (fst kv)) kvs) (id_drain (id_cursor_from_iter rows))"
proof -
  obtain xs where xs: "sorted_entries m r xs" "rows = map Inr xs \<or> (\<exists>n e rest. rows = map Inr (take n xs) @ Inl e # rest)"
    using assms(1) by (auto simp: rows_ok_def)
  have "xs = kvs" using sorted_entries_unique [OF xs(1) assms(2)] .
  with xs(2) consider "rows = map Inr kvs" | n e rest where "rows = map Inr (take n kvs) @ Inl e # rest" by blast
  then show ?thesis
  proof cases
    case 1
    then show ?thesis using id_drain_rows [of kvs "[] :: 'io row list"] by (simp add: delivers_def id_cursor_from_iter_def comp_def)
  next
    case 2
    then show ?thesis using id_drain_rows [of "take n kvs" "Inl e # rest"]
      by (auto simp: delivers_def id_cursor_from_iter_def take_map comp_def)
  qed
qed

lemma log_events_nonempty: "log_events log k \<noteq> [] \<longleftrightarrow> k \<in> fst ` set log"
  by (force simp: log_events_def filter_empty_conv)

text \<open>Listing yields every stream that has events once, in key order, strictly after the given key.\<close>

lemma stream_ids_after_delivers:
  assumes "engine_ok eng contents tview" "fj_represents contents st log"
  shows "\<exists>ks. sorted_wrt (<) (map key_bytes ks) \<and>
    set ks = {k \<in> fst ` set log. case after of None \<Rightarrow> True | Some j \<Rightarrow> key_bytes j < key_bytes k} \<and>
    delivers ks (id_drain (id_cursor_from_iter (stream_ids_after eng (fj_db st) after)))"
proof -
  define r where "r = (case after of None \<Rightarrow> RangeFull | Some j \<Rightarrow> RangeAfter (key_bytes j))"
  have rows: "stream_ids_after eng (fj_db st) after = eng_range eng (fj_db st) ''streams'' r"
    by (simp add: stream_ids_after_def stream_ids_def r_def split: option.splits)
  let ?m = "contents (fj_db st) ''streams''"
  have ok: "rows_ok ?m r (eng_range eng (fj_db st) ''streams'' r)" by (rule engine_okD(11) [OF assms(1)])
  then obtain kvs where kvs: "sorted_entries ?m r kvs" by (auto simp: rows_ok_def)
  have dom: "(\<exists>v. ?m i = Some v) \<longleftrightarrow> StreamKey i \<in> fst ` set log" for i
    using assms(2) log_events_nonempty [of log "StreamKey i"]
    by (auto simp: fj_represents_def disk_image_def rows_image_def counter_def)
  have keys: "fst ` set kvs = {i. in_range r i \<and> (\<exists>v. ?m i = Some v)}"
    using kvs by (force simp: sorted_entries_def)
  have mem: "k \<in> StreamKey ` A \<longleftrightarrow> key_bytes k \<in> A" for k A by (cases k) auto
  have "StreamKey ` fst ` set kvs = {k. in_range r (key_bytes k) \<and> k \<in> fst ` set log}"
    by (rule set_eqI) (simp only: mem keys mem_Collect_eq dom stream_key.collapse)
  then have "set (map (\<lambda>kv. StreamKey (fst kv)) kvs) =
      {k \<in> fst ` set log. case after of None \<Rightarrow> True | Some j \<Rightarrow> key_bytes j < key_bytes k}"
    by (auto simp: r_def image_image split: option.splits)
  moreover have "sorted_wrt (<) (map key_bytes (map (\<lambda>kv. StreamKey (fst kv)) kvs))"
    using kvs by (simp add: sorted_entries_def comp_def)
  ultimately show ?thesis using id_delivers [OF ok kvs] rows by metis
qed

end
