(* ===== verification/Fjall_State.thy ===== *)
theory Fjall_State
  imports Fjall_Append Checkpoints
begin

text \<open>
  State kept beside the events by the fjall adapter: the revision-checked checkpoint records of
  \<open>adapters/fjall/src/checkpoint.rs\<close> and the \<open>SnapshotStore\<close> of \<open>store.rs\<close>, over the engine
  parameter. Both checkpoint position types, \<open>Version\<close> and \<open>GlobalSeq\<close>, are nonzero 64-bit numbers;
  they differ in the keyspace, which is an argument. The label of an id is its display text.

  The adapter keeps the contract of \<open>checkpoint_store\<close> on every engine that satisfies
  \<open>engine_ok\<close>, failed commits and corrupt records included.
\<close>

section \<open>Checkpoint records\<close>

definition CHECKPOINT_STREAM :: keyspace where "CHECKPOINT_STREAM = ''checkpoints_stream''"
definition CHECKPOINT_GLOBAL :: keyspace where "CHECKPOINT_GLOBAL = ''checkpoints_global''"

definition corrupt :: "bytes \<Rightarrow> 'io fjall_error" where
  "corrupt label = FjCorruptValue label None"

definition checkpoint_decode ::
  "bytes \<Rightarrow> bytes \<Rightarrow> (revision \<times> schema_version \<times> 64 nonzero \<times> bytes, 'io fjall_error) result" where
  "checkpoint_decode label value =
    (if length value < CHECKPOINT_HEADER_SIZE then Inl (corrupt label)
     else
       and_then (ok_or (corrupt label) (nonzero_new (le_word (take 4 value)))) (\<lambda>schema.
       and_then (ok_or (corrupt label) (nonzero_new (be_word (take 8 (drop 4 value))))) (\<lambda>revision.
       and_then (ok_or (corrupt label) (nonzero_new (be_word (take 8 (drop 12 value))))) (\<lambda>position.
         Inr (revision, schema, position, drop CHECKPOINT_HEADER_SIZE value)))))"

definition fj_hydrate_checkpoint ::
  "('db, 'tx, 'io) engine \<Rightarrow> keyspace \<Rightarrow> bytes \<Rightarrow> 'db storage \<Rightarrow> bytes \<Rightarrow> schema_version
    \<Rightarrow> ((bytes, 64 nonzero) checkpoint_hydrated, 'io fjall_error) result" where
  "fj_hydrate_checkpoint eng ks label st i schema_version =
    and_then (validate_key i MAX_KEY_LEN) (\<lambda>_.
    and_then (map_err FjIo (eng_get eng (fj_db st) ks i)) (\<lambda>stored.
      case stored of
        None \<Rightarrow> Inr CkAbsent
      | Some value \<Rightarrow>
          and_then (checkpoint_decode label value) (\<lambda>(revision, schema, position, payload).
            if schema \<noteq> schema_version then Inr (CkStale revision schema)
            else Inr (CkFound revision position payload))))"

text \<open>The value is prepared with a zero revision, and the revision is filled in under the writer
transaction.\<close>

definition checkpoint_value :: "(bytes, 64 nonzero) checkpoint_write \<Rightarrow> bytes" where
  "checkpoint_value w =
    u32_le (get (cw_schema w)) @ u64_be 0 @ u64_be (get (cw_position w)) @ cw_state w"

definition fill_revision :: "revision \<Rightarrow> bytes \<Rightarrow> bytes" where
  "fill_revision r value = take 4 value @ u64_be (get r) @ drop 12 value"

definition checkpoint_metadata ::
  "bytes \<Rightarrow> bytes option \<Rightarrow> ((revision \<times> schema_version \<times> 64 nonzero) option, 'io fjall_error) result" where
  "checkpoint_metadata label current =
    (case current of
       None \<Rightarrow> Inr None
     | Some value \<Rightarrow>
         map_ok (\<lambda>(revision, schema, position, _). Some (revision, schema, position)) (checkpoint_decode label value))"

definition checkpoint_in_tx ::
  "('db, 'tx, 'io) engine \<Rightarrow> keyspace \<Rightarrow> bytes \<Rightarrow> bytes \<Rightarrow> (bytes, 64 nonzero) checkpoint_write \<Rightarrow> 'tx
    \<Rightarrow> (revision \<times> 'tx, 'io fjall_error checkpoint_error) result" where
  "checkpoint_in_tx eng ks label i w tx =
    and_then (map_err CkStoreError (map_err FjIo (eng_tx_get eng tx ks i))) (\<lambda>current.
    and_then (map_err CkStoreError (checkpoint_metadata label current)) (\<lambda>metadata.
    and_then (map_err CkRejected (next_revision w metadata)) (\<lambda>next_rev.
      Inr (next_rev, eng_insert eng ks i (fill_revision next_rev (checkpoint_value w)) tx))))"

definition fj_commit_checkpoint ::
  "('db, 'tx, 'io) engine \<Rightarrow> keyspace \<Rightarrow> bytes \<Rightarrow> bytes \<Rightarrow> (bytes, 64 nonzero) checkpoint_write \<Rightarrow> 'db storage
    \<Rightarrow> (revision, 'io fjall_error checkpoint_error) result \<times> 'db storage" where
  "fj_commit_checkpoint eng ks label i w st =
    (case and_then (validate_key i MAX_KEY_LEN) (\<lambda>_. checkpoint_value_len (length (cw_state w))) of
       Inl e \<Rightarrow> (Inl (CkStoreError e), st)
     | Inr _ \<Rightarrow>
         (case checkpoint_in_tx eng ks label i w (fj_write_tx eng st) of
            Inl e \<Rightarrow> (Inl e, st)
          | Inr (next_rev, tx) \<Rightarrow>
              (case eng_commit eng tx (fj_db st) of
                 (Inl e, db) \<Rightarrow> (Inl (CkStoreError (FjIo e)), st\<lparr>fj_db := db\<rparr>)
               | (Inr _, db) \<Rightarrow> (Inr next_rev, st\<lparr>fj_db := db\<rparr>))))"

section \<open>Snapshots\<close>

definition read_snapshot ::
  "('db, 'tx, 'io) engine \<Rightarrow> 'db \<Rightarrow> bytes \<Rightarrow> (bytes option, 'io fjall_error) result" where
  "read_snapshot eng db i = map_err FjIo (eng_get eng db ''snapshots'' i)"

definition stage_snapshot :: "('db, 'tx, 'io) engine \<Rightarrow> bytes \<Rightarrow> bytes \<Rightarrow> 'tx \<Rightarrow> 'tx" where
  "stage_snapshot eng i value tx = eng_insert eng ''snapshots'' i value tx"

definition fj_hydrate ::
  "('db, 'tx, 'io) engine \<Rightarrow> bytes \<Rightarrow> 'db storage \<Rightarrow> bytes \<Rightarrow> schema_version
    \<Rightarrow> ((bytes, version) hydrated, 'io fjall_error) result" where
  "fj_hydrate eng label st i schema_version =
    and_then (validate_key i MAX_KEY_LEN) (\<lambda>_.
    and_then (read_snapshot eng (fj_db st) i) (\<lambda>stored.
      case stored of
        None \<Rightarrow> Inr HyAbsent
      | Some value \<Rightarrow>
          and_then (map_err (\<lambda>_. FjCorruptValue label None) (decode_snapshot_value value))
            (\<lambda>(schema_version_raw, version_raw, payload).
          and_then (ok_or (FjCorruptValue label None) (nonzero_new schema_version_raw)) (\<lambda>stored_schema.
            if stored_schema \<noteq> schema_version then Inr (HyStale stored_schema)
            else and_then (ok_or (FjCorruptValue label None) (version_new version_raw)) (\<lambda>position.
              Inr (HyFound position payload))))))"

definition fj_commit ::
  "('db, 'tx, 'io) engine \<Rightarrow> bytes \<Rightarrow> schema_version \<Rightarrow> version \<Rightarrow> bytes \<Rightarrow> 'db storage
    \<Rightarrow> (unit, 'io fjall_error) result \<times> 'db storage" where
  "fj_commit eng i schema_version position state st =
    (case and_then (validate_key i MAX_KEY_LEN)
        (\<lambda>_. encode_snapshot_value (get schema_version) (as_u64 position) state) of
       Inl e \<Rightarrow> (Inl e, st)
     | Inr buf \<Rightarrow>
         (case eng_commit eng (stage_snapshot eng i buf (fj_write_tx eng st)) (fj_db st) of (r, db) \<Rightarrow>
            (map_err FjIo r, st\<lparr>fj_db := db\<rparr>)))"

section \<open>Lemmas: checkpoints\<close>

lemma checkpoint_decode_written:
  "checkpoint_decode label (fill_revision r (checkpoint_value w)) =
    Inr (r, cw_schema w, cw_position w, cw_state w)"
  by (simp add: checkpoint_decode_def fill_revision_def checkpoint_value_def fjall_sizes codec_simps
      nonzero_new_get del: nonzero_new_Some)

text \<open>The record a database holds for an id; a corrupt value counts as none.\<close>

definition stored_record ::
  "(bytes \<rightharpoonup> bytes) \<Rightarrow> bytes \<Rightarrow> (revision \<times> schema_version \<times> 64 nonzero \<times> bytes) option" where
  "stored_record m i =
    (case m i of
       None \<Rightarrow> None
     | Some value \<Rightarrow>
         (case checkpoint_decode [] value :: (_, unit fjall_error) result of Inl _ \<Rightarrow> None | Inr rec \<Rightarrow> Some rec))"

definition fj_stored ::
  "('db \<Rightarrow> view) \<Rightarrow> keyspace \<Rightarrow> 'db storage \<Rightarrow> bytes \<Rightarrow> (revision \<times> schema_version \<times> 64 nonzero \<times> bytes) option" where
  "fj_stored contents ks st i = stored_record (contents (fj_db st) ks) i"

lemma checkpoint_decode_label:
  "checkpoint_decode label value = Inr x \<longleftrightarrow> checkpoint_decode label' value = Inr x"
  by (auto simp: checkpoint_decode_def result_simps split: if_splits)

text \<open>A store that differs from another by one stored value.\<close>

definition put_at :: "('db \<Rightarrow> view) \<Rightarrow> keyspace \<Rightarrow> bytes \<Rightarrow> bytes \<Rightarrow> 'db storage \<Rightarrow> 'db storage \<Rightarrow> bool" where
  "put_at contents ks i b st st' \<longleftrightarrow>
    contents (fj_db st') = (contents (fj_db st))(ks := (contents (fj_db st) ks)(i \<mapsto> b))"

lemma fj_stored_Some:
  assumes "contents (fj_db st) ks i = Some value" "checkpoint_decode label value = Inr x"
  shows "fj_stored contents ks st i = Some x"
proof -
  have "(checkpoint_decode [] value :: (_, unit fjall_error) result) = Inr x"
    using assms(2) by (rule checkpoint_decode_label [THEN iffD1])
  with assms(1) show ?thesis by (simp add: fj_stored_def stored_record_def)
qed

lemma checkpoint_metadata_stored:
  assumes "contents (fj_db st) ks i = current" "checkpoint_metadata label current = (Inr m :: (_, 'io fjall_error) result)"
  shows "m = ck_meta (fj_stored contents ks st i)"
proof (cases current)
  case None
  with assms show ?thesis by (simp add: checkpoint_metadata_def fj_stored_def stored_record_def ck_meta_def)
next
  case (Some b)
  with assms(2) obtain x where x: "checkpoint_decode label b = (Inr x :: (_, 'io fjall_error) result)"
    "m = (case x of (r, s, p, _) \<Rightarrow> Some (r, s, p))"
    by (auto simp: checkpoint_metadata_def result_simps)
  have "fj_stored contents ks st i = Some x" using fj_stored_Some x(1) assms(1) Some by blast
  with x(2) show ?thesis by (cases x) (simp add: ck_meta_def)
qed

lemma checkpoint_in_tx_cases:
  assumes "engine_ok eng contents tview" "tview tx = contents (fj_db st)"
  shows "checkpoint_in_tx eng ks label i w tx = Inr (r, tx') \<Longrightarrow>
      next_revision w (ck_meta (fj_stored contents ks st i)) = Inr r \<and>
      tview tx' = (contents (fj_db st))(ks := (contents (fj_db st) ks)(i \<mapsto> fill_revision r (checkpoint_value w)))"
    "checkpoint_in_tx eng ks label i w tx = Inl (CkRejected rej) \<Longrightarrow>
      next_revision w (ck_meta (fj_stored contents ks st i)) = Inl rej"
proof -
  have meta: "m = ck_meta (fj_stored contents ks st i)"
    if "eng_tx_get eng tx ks i = Inr c" "checkpoint_metadata label c = Inr m" for c m and label :: bytes
    using checkpoint_metadata_stored [OF _ that(2)] engine_okD(5) [OF assms(1) that(1)] assms(2) by metis
  show "next_revision w (ck_meta (fj_stored contents ks st i)) = Inr r \<and>
      tview tx' = (contents (fj_db st))(ks := (contents (fj_db st) ks)(i \<mapsto> fill_revision r (checkpoint_value w)))"
    if "checkpoint_in_tx eng ks label i w tx = Inr (r, tx')"
    using that meta by (auto simp: checkpoint_in_tx_def result_simps engine_okD(7) [OF assms(1)] assms(2))
  show "next_revision w (ck_meta (fj_stored contents ks st i)) = Inl rej"
    if "checkpoint_in_tx eng ks label i w tx = Inl (CkRejected rej)"
    using that meta
    by (cases "eng_tx_get eng tx ks i"; cases "checkpoint_metadata label (projr (eng_tx_get eng tx ks i))")
      (auto simp: checkpoint_in_tx_def result_simps)
qed

lemma fj_commit_checkpoint_cases:
  fixes eng :: "('db, 'tx, 'io) engine"
  assumes "fj_commit_checkpoint eng ks label i w st = (res, st')"
  obtains (refused) e where "res = Inl (CkStoreError e)" "st' = st"
  | (tx_error) e where "checkpoint_in_tx eng ks label i w (fj_write_tx eng st) = Inl e" "res = Inl e" "st' = st"
  | (commit) r tx c db where "checkpoint_in_tx eng ks label i w (fj_write_tx eng st) = Inr (r, tx)"
      "eng_commit eng tx (fj_db st) = (c, db)" "st' = st\<lparr>fj_db := db\<rparr>"
      "res = (case c of Inl e \<Rightarrow> Inl (CkStoreError (FjIo e)) | Inr _ \<Rightarrow> Inr r)"
proof (cases "and_then (validate_key i MAX_KEY_LEN) (\<lambda>_. checkpoint_value_len (length (cw_state w)))
      :: (nat, 'io fjall_error) result")
  case (Inl e)
  with assms show ?thesis by (intro refused [of e]) (simp_all add: fj_commit_checkpoint_def)
next
  case (Inr n)
  note ok = this
  show ?thesis
  proof (cases "checkpoint_in_tx eng ks label i w (fj_write_tx eng st)")
    case (Inl e)
    with ok assms show ?thesis by (intro tx_error [of e]) (simp_all add: fj_commit_checkpoint_def)
  next
    case (Inr x)
    obtain r tx c db where "x = (r, tx)" "eng_commit eng tx (fj_db st) = (c, db)" by fastforce
    with Inr ok assms show ?thesis
      by (intro commit [of r tx c db]; cases c) (simp_all add: fj_commit_checkpoint_def)
  qed
qed

lemma fj_commit_checkpoint_effect:
  assumes "engine_ok eng contents tview" "fj_commit_checkpoint eng ks label i w st = (res, st')"
  shows "(\<exists>r. res = Inr r \<and> next_revision w (ck_meta (fj_stored contents ks st i)) = Inr r \<and>
        put_at contents ks i (fill_revision r (checkpoint_value w)) st st') \<or>
    (\<exists>rej. res = Inl (CkRejected rej) \<and> next_revision w (ck_meta (fj_stored contents ks st i)) = Inl rej \<and> st' = st) \<or>
    (\<exists>e. res = Inl (CkStoreError e) \<and> (contents (fj_db st') = contents (fj_db st) \<or>
      (\<exists>r. next_revision w (ck_meta (fj_stored contents ks st i)) = Inr r \<and>
        put_at contents ks i (fill_revision r (checkpoint_value w)) st st')))"
  using assms(2)
proof (cases rule: fj_commit_checkpoint_cases)
  case refused
  then show ?thesis by simp
next
  case (tx_error e)
  note T = checkpoint_in_tx_cases(2) [OF assms(1), of "fj_write_tx eng st" st ks label i w]
  show ?thesis
  proof (cases e)
    case (CkRejected rej)
    then show ?thesis using tx_error T by (simp add: fj_write_tx_def engine_okD(4) [OF assms(1)])
  qed (use tx_error in simp)
next
  case (commit r tx c db)
  have T: "next_revision w (ck_meta (fj_stored contents ks st i)) = Inr r"
    "tview tx = (contents (fj_db st))(ks := (contents (fj_db st) ks)(i \<mapsto> fill_revision r (checkpoint_value w)))"
    using checkpoint_in_tx_cases(1) [OF assms(1), of "fj_write_tx eng st" st ks label i w r tx] commit(1)
    by (simp_all add: fj_write_tx_def engine_okD(4) [OF assms(1)])
  show ?thesis
  proof (cases c)
    case (Inl e)
    then have "contents db = tview tx \<or> contents db = contents (fj_db st)"
      using engine_okD(9) [OF assms(1)] commit(2) by blast
    with commit(3,4) Inl T show ?thesis by (auto simp: put_at_def)
  next
    case (Inr u)
    then have "contents db = tview tx" using engine_okD(8) [OF assms(1)] commit(2) by simp
    with commit(3,4) Inr T show ?thesis by (auto simp: put_at_def)
  qed
qed

lemma fj_stored_written:
  assumes "put_at contents ks i (fill_revision r (checkpoint_value w)) st st'"
  shows "fj_stored contents ks st' i = ck_written r w" "j \<noteq> i \<Longrightarrow> fj_stored contents ks st' j = fj_stored contents ks st j"
    "ks' \<noteq> ks \<Longrightarrow> fj_stored contents ks' st' j = fj_stored contents ks' st j"
  using assms by (simp_all add: put_at_def fj_stored_def stored_record_def checkpoint_decode_written ck_written_def)

text \<open>The adapter keeps the checkpoint contract, on every engine.\<close>

lemma fj_checkpoint_store:
  fixes eng :: "('db, 'tx, 'io) engine"
  assumes "engine_ok eng contents tview"
  shows "checkpoint_store (fj_hydrate_checkpoint eng ks label) (fj_commit_checkpoint eng ks label) (fj_stored contents ks)"
proof
  fix st i sv h
  assume h: "fj_hydrate_checkpoint eng ks label st i sv = Inr h"
  then obtain c where c: "eng_get eng (fj_db st) ks i = Inr c" by (auto simp: fj_hydrate_checkpoint_def result_simps)
  then have cur: "contents (fj_db st) ks i = c" using engine_okD(10) [OF assms] by metis
  show "h = ck_view (fj_stored contents ks st i) sv"
  proof (cases c)
    case None
    with h c cur show ?thesis by (auto simp: fj_hydrate_checkpoint_def result_simps ck_view_def fj_stored_def stored_record_def)
  next
    case (Some b)
    with h c obtain x where x: "checkpoint_decode label b = (Inr x :: (_, 'io fjall_error) result)"
      by (auto simp: fj_hydrate_checkpoint_def result_simps)
    then have "fj_stored contents ks st i = Some x" using fj_stored_Some cur Some by blast
    with h c Some x show ?thesis
      by (cases x) (auto simp: fj_hydrate_checkpoint_def result_simps ck_view_def split: if_splits)
  qed
next
  fix i w st r st'
  assume "fj_commit_checkpoint eng ks label i w st = (Inr r, st')"
  from fj_commit_checkpoint_effect [OF assms this]
  show "next_revision w (ck_meta (fj_stored contents ks st i)) = Inr r \<and> fj_stored contents ks st' i = ck_written r w"
    using fj_stored_written(1) by auto
next
  fix i w st rej st'
  assume "fj_commit_checkpoint eng ks label i w st = (Inl (CkRejected rej), st')"
  from fj_commit_checkpoint_effect [OF assms this]
  show "next_revision w (ck_meta (fj_stored contents ks st i)) = Inl rej \<and> fj_stored contents ks st' i = fj_stored contents ks st i"
    by auto
next
  fix i w st e st'
  assume "fj_commit_checkpoint eng ks label i w st = (Inl (CkStoreError e), st')"
  from fj_commit_checkpoint_effect [OF assms this]
  consider "contents (fj_db st') = contents (fj_db st)"
    | r where "next_revision w (ck_meta (fj_stored contents ks st i)) = Inr r"
      "put_at contents ks i (fill_revision r (checkpoint_value w)) st st'"
    by auto
  then show "fj_stored contents ks st' i = fj_stored contents ks st i \<or>
      (\<exists>r. next_revision w (ck_meta (fj_stored contents ks st i)) = Inr r \<and> fj_stored contents ks st' i = ck_written r w)"
    by cases (simp add: fj_stored_def, metis fj_stored_written(1))
next
  fix i w st res st' j
  assume c: "fj_commit_checkpoint eng ks label i w st = (res, st')" and j: "j \<noteq> i"
  from fj_commit_checkpoint_effect [OF assms c] consider "contents (fj_db st') = contents (fj_db st)"
    | r where "put_at contents ks i (fill_revision r (checkpoint_value w)) st st'"
    by auto
  then show "fj_stored contents ks st' j = fj_stored contents ks st j"
    by cases (simp add: fj_stored_def, metis fj_stored_written(2) [OF _ j])
qed

lemma fj_commit_checkpoint_mode: "fj_commit_checkpoint eng ks label i w st = (res, st') \<Longrightarrow> fj_mode st' = fj_mode st"
  by (cases rule: fj_commit_checkpoint_cases) auto

section \<open>Lemmas: snapshots\<close>

lemma fj_commit_effect:
  assumes "engine_ok eng contents tview" "fj_commit eng i schema v state st = (res, st')"
  shows "fj_mode st' = fj_mode st \<and>
    (if res = Inr () then length state + 12 < 2 ^ 32 \<and> i \<noteq> [] \<and> length i \<le> MAX_KEY_LEN \<and>
        put_at contents ''snapshots'' i (u32_le (get schema) @ u64_be (as_u64 v) @ state) st st'
     else contents (fj_db st') = contents (fj_db st) \<or>
       put_at contents ''snapshots'' i (u32_le (get schema) @ u64_be (as_u64 v) @ state) st st')"
proof (cases "and_then (validate_key i MAX_KEY_LEN) (\<lambda>_. encode_snapshot_value (get schema) (as_u64 v) state)
    :: (bytes, 'c fjall_error) result")
  case (Inl e)
  with assms(2) show ?thesis by (auto simp: fj_commit_def)
next
  case (Inr b)
  let ?tx = "stage_snapshot eng i b (fj_write_tx eng st)"
  obtain c db where c: "eng_commit eng ?tx (fj_db st) = (c, db)" by fastforce
  have b: "b = u32_le (get schema) @ u64_be (as_u64 v) @ state" "length state + 12 < 2 ^ 32" "i \<noteq> []"
    "length i \<le> MAX_KEY_LEN"
    using Inr by (auto simp: result_simps validate_key_def encode_snapshot_value_def state_value_len_def value_len_Inr
        split: if_splits)
  have st': "st' = st\<lparr>fj_db := db\<rparr>" "res = map_err FjIo c"
    using assms(2) Inr c by (auto simp: fj_commit_def)
  have v: "tview ?tx = (contents (fj_db st))(''snapshots'' := (contents (fj_db st) ''snapshots'')(i \<mapsto> b))"
    by (simp add: stage_snapshot_def fj_write_tx_def engine_okD [OF assms(1)])
  show ?thesis
  proof (cases c)
    case (Inl e)
    then have "contents db = tview ?tx \<or> contents db = contents (fj_db st)"
      using engine_okD(9) [OF assms(1)] c by blast
    with Inl st' v b show ?thesis by (auto simp: put_at_def)
  next
    case (Inr u)
    then have "contents db = tview ?tx" using engine_okD(8) [OF assms(1)] c by simp
    with Inr st' v b show ?thesis by (auto simp: put_at_def)
  qed
qed

text \<open>A snapshot reads back as it was written.\<close>

lemma fj_hydrate_stored:
  assumes "engine_ok eng contents tview" "validate_key i MAX_KEY_LEN = (Inr () :: (unit, 'io fjall_error) result)"
    "contents (fj_db st) ''snapshots'' i = Some (u32_le (get schema) @ u64_be (as_u64 v) @ state)"
    "fj_hydrate eng label st i schema' = (Inr h :: (_, 'io fjall_error) result)"
  shows "h = (if schema' = schema then HyFound v state else HyStale schema)"
proof -
  obtain c where c: "eng_get eng (fj_db st) ''snapshots'' i = Inr c"
    using assms(4) by (auto simp: fj_hydrate_def read_snapshot_def result_simps)
  then have "c = Some (u32_le (get schema) @ u64_be (as_u64 v) @ state)"
    using engine_okD(10) [OF assms(1)] assms(3) by metis
  moreover have "version_new (as_u64 v) = Some v" by simp
  ultimately show ?thesis using c assms(2,4)
    by (auto simp: fj_hydrate_def read_snapshot_def decode_snapshot_value_def fjall_sizes codec_simps
        nonzero_new_get result_simps simp del: version_new_Some nonzero_new_Some split: if_splits)
qed

section \<open>Other keyspaces\<close>

lemma represents_put_at:
  assumes "put_at contents ks i b st st'" "fj_mode st' = fj_mode st" "fj_represents contents st log"
    "ks \<notin> event_spaces"
  shows "fj_represents contents st' log"
proof -
  have same: "contents (fj_db st') k = contents (fj_db st) k" if "k \<noteq> ks" for k
    using assms(1) that by (simp add: put_at_def)
  have ne: "''events'' \<noteq> ks" "''events_global'' \<noteq> ks" "''streams'' \<noteq> ks" "''global'' \<noteq> ks"
    using assms(4) by (auto simp: event_spaces_def)
  from assms(2,3) show ?thesis
    by (simp add: fj_represents_def disk_image_def rows_image_def
        same [OF ne(1)] same [OF ne(2)] same [OF ne(3)] same [OF ne(4)])
qed

lemma represents_same:
  "contents (fj_db st') = contents (fj_db st) \<Longrightarrow> fj_mode st' = fj_mode st \<Longrightarrow>
    fj_represents contents st' log \<longleftrightarrow> fj_represents contents st log"
  by (simp add: fj_represents_def)

end
