(* ===== verification/Fjall_Store.thy ===== *)
theory Fjall_Store
  imports Fjall_Scan Fjall_State InMemory_Atomic
begin

text \<open>
  The fjall store over its lifetime: the layout manifest (\<open>adapters/fjall/src/manifest.rs\<close>), opening
  the store (\<open>builder.rs\<close>), and the step relation of an opened, used, closed and reopened database,
  with every write of the adapter and every failure the engine may report.

  The invariant: the database always holds the image of a log, under the index mode its manifest
  records. Steps only extend the log.
\<close>

section \<open>Manifest\<close>

definition MANIFEST_KEYSPACE :: keyspace where "MANIFEST_KEYSPACE = ''mnesis_meta''"
definition MANIFEST_KEY :: bytes where "MANIFEST_KEY = [108, 97, 121, 111, 117, 116]"
definition LAYOUT_VERSION :: u8 where "LAYOUT_VERSION = 2"

definition mode_byte :: "all_index \<Rightarrow> u8" where
  "mode_byte mode = (case mode of AllDisabled \<Rightarrow> 0 | Denormalized \<Rightarrow> 1)"

definition manifest_check :: "bytes \<Rightarrow> all_index \<Rightarrow> (unit, 'io fjall_error) result" where
  "manifest_check stored_bytes requested =
    (case stored_bytes of
       [version, mode] \<Rightarrow>
         if version \<noteq> LAYOUT_VERSION then Inl (FjUnsupportedLayout version)
         else
           and_then
             (if mode = 0 then Inr AllDisabled else if mode = 1 then Inr Denormalized else Inl FjInvalidManifest)
             (\<lambda>stored. if stored \<noteq> requested then Inl (FjIndexModeMismatch stored requested) else Inr ())
     | _ \<Rightarrow> Inl FjInvalidManifest)"

text \<open>The loop over the existing keyspaces: each must be empty.\<close>

primrec check_unmarked ::
  "('db, 'tx, 'io) engine \<Rightarrow> 'tx \<Rightarrow> keyspace list \<Rightarrow> 'db \<Rightarrow> (unit, 'io fjall_error) result \<times> 'db" where
  "check_unmarked eng tx [] db = (Inr (), db)"
| "check_unmarked eng tx (name # names) db =
    (case eng_keyspace eng name db of
       (Inl e, db) \<Rightarrow> (Inl (FjIo e), db)
     | (Inr _, db) \<Rightarrow>
         (case eng_tx_is_empty eng tx name of
            Inl e \<Rightarrow> (Inl (FjIo e), db)
          | Inr is_empty \<Rightarrow>
              if \<not> is_empty then (Inl FjUnmarkedDatabase, db) else check_unmarked eng tx names db))"

definition manifest_validate ::
  "('db, 'tx, 'io) engine \<Rightarrow> all_index \<Rightarrow> 'db \<Rightarrow> (unit, 'io fjall_error) result \<times> 'db" where
  "manifest_validate eng requested db =
    (case eng_keyspace eng MANIFEST_KEYSPACE db of
       (Inl e, db) \<Rightarrow> (Inl (FjIo e), db)
     | (Inr _, db) \<Rightarrow>
         let tx = eng_write_tx eng PmSyncAll db in
         (case eng_tx_get eng tx MANIFEST_KEYSPACE MANIFEST_KEY of
            Inl e \<Rightarrow> (Inl (FjIo e), db)
          | Inr (Some stored_bytes) \<Rightarrow> (manifest_check stored_bytes requested, db)
          | Inr None \<Rightarrow>
              (case check_unmarked eng tx (eng_names eng db) db of
                 (Inl e, db) \<Rightarrow> (Inl e, db)
               | (Inr _, db) \<Rightarrow>
                   (case eng_commit eng
                       (eng_insert eng MANIFEST_KEYSPACE MANIFEST_KEY [LAYOUT_VERSION, mode_byte requested] tx) db of
                      (r, db) \<Rightarrow> (map_err FjIo r, db)))))"

section \<open>Opening\<close>

primrec open_keyspaces ::
  "('db, 'tx, 'io) engine \<Rightarrow> keyspace list \<Rightarrow> 'db \<Rightarrow> (unit, 'io fjall_error) result \<times> 'db" where
  "open_keyspaces eng [] db = (Inr (), db)"
| "open_keyspaces eng (name # names) db =
    (case eng_keyspace eng name db of
       (Inl e, db) \<Rightarrow> (Inl (FjIo e), db)
     | (Inr _, db) \<Rightarrow> open_keyspaces eng names db)"

definition fj_open ::
  "('db, 'tx, 'io) engine \<Rightarrow> all_index \<Rightarrow> durability \<Rightarrow> 'db \<Rightarrow> ('db storage, 'io fjall_error) result \<times> 'db" where
  "fj_open eng mode dur db =
    (case manifest_validate eng mode db of
       (Inl e, db) \<Rightarrow> (Inl e, db)
     | (Inr _, db) \<Rightarrow>
         (case open_keyspaces eng
             [''streams'', ''events'', ''events_global'', ''snapshots'', CHECKPOINT_GLOBAL, CHECKPOINT_STREAM, ''global''] db of
            (Inl e, db) \<Rightarrow> (Inl e, db)
          | (Inr _, db) \<Rightarrow>
              (Inr \<lparr>fj_durability = dur, fj_db = db, fj_mode = mode, fj_notifiers = notifiers_new\<rparr>, db)))"

section \<open>Steps\<close>

datatype 'db fj_system = Closed 'db | Opened "'db storage"

inductive fj_step :: "('db, 'tx, 'io) engine \<Rightarrow> 'db fj_system \<Rightarrow> 'db fj_system \<Rightarrow> bool" for eng where
  do_open: "fj_open eng mode dur db = (Inr st, db') \<Longrightarrow> fj_step eng (Closed db) (Opened st)"
| do_open_failed: "fj_open eng mode dur db = (Inl e, db') \<Longrightarrow> fj_step eng (Closed db) (Closed db')"
| do_close: "fj_step eng (Opened st) (Closed (fj_db st))"
| do_append: "batch_ok b \<Longrightarrow> fj_append eng k expected b st = (r, st') \<Longrightarrow> fj_step eng (Opened st) (Opened st')"
| do_atomic: "\<forall>w \<in> set ws. planned_ok w \<Longrightarrow> fj_atomic_append_many eng ws st = (ra, st') \<Longrightarrow>
    fj_step eng (Opened st) (Opened st')"
| do_snapshot: "fj_commit eng i schema v state st = (rs, st') \<Longrightarrow> fj_step eng (Opened st) (Opened st')"
| do_checkpoint: "ks \<in> {CHECKPOINT_STREAM, CHECKPOINT_GLOBAL} \<Longrightarrow>
    fj_commit_checkpoint eng ks label i w st = (rc, st') \<Longrightarrow> fj_step eng (Opened st) (Opened st')"
| do_flush: "fj_flush eng st = (rf, st') \<Longrightarrow> fj_step eng (Opened st) (Opened st')"
| do_register: "nt_register s (fj_notifiers st) = (rn, n) \<Longrightarrow> fj_step eng (Opened st) (Opened (st\<lparr>fj_notifiers := n\<rparr>))"
| do_drop: "fj_step eng (Opened st) (Opened (st\<lparr>fj_notifiers := reg_drop reg (fj_notifiers st)\<rparr>))"

fun sys_db :: "'db fj_system \<Rightarrow> 'db" where
  "sys_db (Closed db) = db"
| "sys_db (Opened st) = fj_db st"

definition manifest_of :: "view \<Rightarrow> bytes option" where
  "manifest_of v = v MANIFEST_KEYSPACE MANIFEST_KEY"

text \<open>What a database stands for: an empty database before its first opening, or the image of a log
under the mode of its manifest.\<close>

definition holds_log :: "view \<Rightarrow> event_log \<Rightarrow> bool" where
  "holds_log v log \<longleftrightarrow>
    v = (\<lambda>_. Map.empty) \<and> log = [] \<or>
    (\<exists>mode. manifest_of v = Some [LAYOUT_VERSION, mode_byte mode] \<and> disk_image mode log v \<and> log_ok log)"

definition sys_holds :: "('db \<Rightarrow> view) \<Rightarrow> 'db fj_system \<Rightarrow> event_log \<Rightarrow> bool" where
  "sys_holds contents s log \<longleftrightarrow>
    (case s of
       Closed db \<Rightarrow> holds_log (contents db) log
     | Opened st \<Rightarrow> manifest_of (contents (fj_db st)) = Some [LAYOUT_VERSION, mode_byte (fj_mode st)] \<and>
         fj_represents contents st log)"

section \<open>Lemmas: manifest\<close>

lemma mode_byte_inject [simp]: "mode_byte a = mode_byte b \<longleftrightarrow> a = b"
  by (cases a; cases b) (simp_all add: mode_byte_def)

lemma manifest_check_stored:
  "manifest_check [LAYOUT_VERSION, mode_byte mode] requested =
    (if mode = requested then Inr () else Inl (FjIndexModeMismatch mode requested))"
  by (cases mode) (simp_all add: manifest_check_def mode_byte_def)

lemma check_unmarked_contents:
  assumes "engine_ok eng contents tview" "check_unmarked eng tx names db = (r, db')"
  shows "contents db' = contents db" "r = Inr () \<Longrightarrow> name \<in> set names \<Longrightarrow> tview tx name = Map.empty"
proof -
  have "contents db' = contents db \<and> (r = Inr () \<longrightarrow> (\<forall>name \<in> set names. tview tx name = Map.empty))"
    using assms(2)
  proof (induction names arbitrary: db)
    case (Cons name names)
    obtain o1 db1 where o1: "eng_keyspace eng name db = (o1, db1)" by fastforce
    then have db1: "contents db1 = contents db" using engine_okD(1) [OF assms(1), of name db] by simp
    with Cons o1 show ?case
      using engine_okD(6) [OF assms(1), of tx name] by (auto split: sum.splits if_splits)
  qed simp
  then show "contents db' = contents db" "r = Inr () \<Longrightarrow> name \<in> set names \<Longrightarrow> tview tx name = Map.empty" by auto
qed

lemma manifest_validate_effect:
  fixes eng :: "('db, 'tx, 'io) engine"
  assumes "engine_ok eng contents tview" "manifest_validate eng requested db = (r, db')"
  shows "contents db' = contents db \<and> (r = Inr () \<longrightarrow> (\<exists>m. manifest_of (contents db) = Some m \<and>
        manifest_check m requested = (Inr () :: (unit, 'io fjall_error) result))) \<or>
    contents db = (\<lambda>_. Map.empty) \<and>
      contents db' = (\<lambda>_. Map.empty)(MANIFEST_KEYSPACE := [MANIFEST_KEY \<mapsto> [LAYOUT_VERSION, mode_byte requested]])"
proof -
  obtain o1 db1 where o1: "eng_keyspace eng MANIFEST_KEYSPACE db = (o1, db1)" by fastforce
  then have db1: "contents db1 = contents db" using engine_okD(1) [OF assms(1), of MANIFEST_KEYSPACE db] by simp
  define tx where "tx = eng_write_tx eng PmSyncAll db1"
  have tx: "tview tx = contents db" using engine_okD(4) [OF assms(1)] db1 by (simp add: tx_def)
  define g where "g = eng_tx_get eng tx MANIFEST_KEYSPACE MANIFEST_KEY"
  obtain u db2 where u: "check_unmarked eng tx (eng_names eng db1) db1 = (u, db2)" by fastforce
  note db2 = check_unmarked_contents(1) [OF assms(1) u]
  let ?tx = "eng_insert eng MANIFEST_KEYSPACE MANIFEST_KEY [LAYOUT_VERSION, mode_byte requested] tx"
  obtain c db3 where c: "eng_commit eng ?tx db2 = (c, db3)" by fastforce
  note unf = manifest_validate_def o1 Let_def tx_def [symmetric] g_def [symmetric] u
  show ?thesis
  proof (cases "(\<exists>e. o1 = Inl e) \<or> (\<exists>e. g = Inl e)")
    case True
    then show ?thesis using assms(2) db1 by (cases o1; cases g) (auto simp: unf)
  next
    case False
    then obtain v where ok: "o1 = Inr ()" "g = Inr v" by (cases o1; cases g) auto
    have v: "v = manifest_of (contents db)"
      using engine_okD(5) [OF assms(1)] ok(2) tx by (metis g_def manifest_of_def)
    show ?thesis
    proof (cases v)
      case (Some m)
      then show ?thesis using assms(2) db1 ok v by (auto simp: unf)
    next
      case None
      show ?thesis
      proof (cases u)
        case (Inl e)
        then show ?thesis using assms(2) db1 db2 ok None by (auto simp: unf)
      next
        case (Inr w)
        have "contents db ks = Map.empty" for ks
          using engine_okD(3) [OF assms(1), of db1 ks] check_unmarked_contents(2) [OF assms(1) u, of ks] Inr tx db1
          by (cases "ks \<in> set (eng_names eng db1)") auto
        then have e: "contents db = (\<lambda>_. Map.empty)" by (rule ext)
        have tv: "tview ?tx = (\<lambda>_. Map.empty)(MANIFEST_KEYSPACE := [MANIFEST_KEY \<mapsto> [LAYOUT_VERSION, mode_byte requested]])"
          by (simp add: engine_okD(7) [OF assms(1)] tx e)
        have r: "r = map_err FjIo c" "db' = db3" using assms(2) ok None Inr c by (auto simp: unf)
        show ?thesis
        proof (cases c)
          case (Inl x)
          then have "contents db3 = tview ?tx \<or> contents db3 = contents db2"
            using engine_okD(9) [OF assms(1)] c by blast
          with r Inl tv e db1 db2 show ?thesis by auto
        next
          case (Inr x)
          then have "contents db3 = tview ?tx" using engine_okD(8) [OF assms(1)] c by simp
          with r tv e show ?thesis by auto
        qed
      qed
    qed
  qed
qed

lemma open_keyspaces_contents:
  assumes "engine_ok eng contents tview"
  shows "open_keyspaces eng names db = (r, db') \<Longrightarrow> contents db' = contents db"
proof (induction names arbitrary: db)
  case (Cons name names)
  obtain o1 db1 where o1: "eng_keyspace eng name db = (o1, db1)" by fastforce
  then have "contents db1 = contents db" using engine_okD(1) [OF assms, of name db] by simp
  with Cons o1 show ?case by (cases o1) auto
qed simp

lemma fj_open_effect:
  fixes eng :: "('db, 'tx, 'io) engine"
  assumes "engine_ok eng contents tview" "fj_open eng mode dur db = (r, db')"
  shows "(contents db' = contents db \<or> contents db = (\<lambda>_. Map.empty) \<and>
      contents db' = (\<lambda>_. Map.empty)(MANIFEST_KEYSPACE := [MANIFEST_KEY \<mapsto> [LAYOUT_VERSION, mode_byte mode]])) \<and>
    (\<forall>st. r = Inr st \<longrightarrow> fj_db st = db' \<and> fj_mode st = mode \<and> fj_notifiers st = notifiers_new \<and>
      (\<exists>m. manifest_of (contents db') = Some m \<and> manifest_check m mode = (Inr () :: (unit, 'io fjall_error) result)))"
proof -
  obtain v db1 where v: "manifest_validate eng mode db = (v, db1)" by fastforce
  obtain p db2 where p: "open_keyspaces eng
      [''streams'', ''events'', ''events_global'', ''snapshots'', CHECKPOINT_GLOBAL, CHECKPOINT_STREAM, ''global''] db1 = (p, db2)"
    by fastforce
  note db2 = open_keyspaces_contents [OF assms(1) p]
  have c: "contents db' = contents db1" using assms(2) v p db2 by (cases v; cases p) (auto simp: fj_open_def)
  have st: "fj_db st = db' \<and> fj_mode st = mode \<and> fj_notifiers st = notifiers_new \<and> v = Inr ()" if "r = Inr st" for st
    using assms(2) v p that by (cases v; cases p) (auto simp: fj_open_def)
  have new: "manifest_of ((\<lambda>_. Map.empty)(MANIFEST_KEYSPACE := [MANIFEST_KEY \<mapsto> m])) = Some m" for m
    by (simp add: manifest_of_def)
  have chk: "manifest_check [LAYOUT_VERSION, mode_byte mode] mode = (Inr () :: (unit, 'io fjall_error) result)"
    by (simp add: manifest_check_stored)
  show ?thesis using manifest_validate_effect [OF assms(1) v] c st new chk by metis
qed

section \<open>Every step keeps and extends the log\<close>

lemma disk_image_empty: "disk_image mode [] v \<longleftrightarrow> v ''events'' = Map.empty \<and> v ''events_global'' = Map.empty \<and>
    v ''streams'' = Map.empty \<and> v ''global'' GLOBAL_SEQ_KEY = None"
  by (auto simp: disk_image_def rows_image_def event_rows_def global_rows_def counter_def)

lemma fresh_image:
  "disk_image mode [] (\<lambda>_. Map.empty)"
  "disk_image mode [] ((\<lambda>_. Map.empty)(MANIFEST_KEYSPACE := m))"
  by (simp_all add: disk_image_empty MANIFEST_KEYSPACE_def)

lemma side_spaces [simp]:
  "MANIFEST_KEYSPACE \<notin> event_spaces" "CHECKPOINT_STREAM \<notin> event_spaces" "CHECKPOINT_GLOBAL \<notin> event_spaces"
  "''snapshots'' \<notin> event_spaces" "CHECKPOINT_STREAM \<noteq> MANIFEST_KEYSPACE" "CHECKPOINT_GLOBAL \<noteq> MANIFEST_KEYSPACE"
  "''snapshots'' \<noteq> MANIFEST_KEYSPACE"
  by (simp_all add: event_spaces_def MANIFEST_KEYSPACE_def CHECKPOINT_STREAM_def CHECKPOINT_GLOBAL_def)

text \<open>What a write outside the event keyspaces does.\<close>

definition side_write :: "('db \<Rightarrow> view) \<Rightarrow> keyspace \<Rightarrow> 'db storage \<Rightarrow> 'db storage \<Rightarrow> bool" where
  "side_write contents ks st st' \<longleftrightarrow> fj_mode st' = fj_mode st \<and>
    (contents (fj_db st') = contents (fj_db st) \<or> (\<exists>i b. put_at contents ks i b st st'))"

lemma side_write_holds:
  assumes "side_write contents ks st st'" "ks \<notin> event_spaces" "ks \<noteq> MANIFEST_KEYSPACE"
    "sys_holds contents (Opened st) log"
  shows "sys_holds contents (Opened st') log"
proof -
  have mode: "fj_mode st' = fj_mode st" using assms(1) by (simp add: side_write_def)
  have rep: "fj_represents contents st log"
    and man: "manifest_of (contents (fj_db st)) = Some [LAYOUT_VERSION, mode_byte (fj_mode st)]"
    using assms(4) by (simp_all add: sys_holds_def)
  consider "contents (fj_db st') = contents (fj_db st)" | i b where "put_at contents ks i b st st'"
    using assms(1) by (auto simp: side_write_def)
  then have "fj_represents contents st' log \<and> manifest_of (contents (fj_db st')) = manifest_of (contents (fj_db st))"
  proof cases
    case 1
    with rep mode show ?thesis by (simp add: represents_same [OF 1 mode])
  next
    case 2
    have "manifest_of (contents (fj_db st')) = manifest_of (contents (fj_db st))"
      using 2 assms(3) by (simp add: put_at_def manifest_of_def)
    with represents_put_at [OF 2 mode rep assms(2)] show ?thesis by simp
  qed
  with mode man show ?thesis by (simp add: sys_holds_def)
qed

lemma checkpoint_side_write:
  assumes "engine_ok eng contents tview" "fj_commit_checkpoint eng ks label i w st = (r, st')"
  shows "side_write contents ks st st'"
  using fj_commit_checkpoint_effect [OF assms] fj_commit_checkpoint_mode [OF assms(2)]
  by (auto simp: side_write_def)

lemma snapshot_side_write:
  assumes "engine_ok eng contents tview" "fj_commit eng i schema v state st = (r, st')"
  shows "side_write contents ''snapshots'' st st'"
  using fj_commit_effect [OF assms] by (auto simp: side_write_def split: if_splits)

lemma flush_side_write:
  "engine_ok eng contents tview \<Longrightarrow> fj_flush eng st = (r, st') \<Longrightarrow> side_write contents ks st st'"
  using engine_okD(2) [of eng contents tview PmSyncAll "fj_db st"]
  by (auto simp: fj_flush_def side_write_def split: prod.splits)

lemma open_holds:
  assumes "engine_ok eng contents tview" "fj_open eng mode dur db = (r, db')" "holds_log (contents db) log"
  shows "holds_log (contents db') log" "r = Inr st \<Longrightarrow> sys_holds contents (Opened st) log"
proof -
  note E = fj_open_effect [OF assms(1,2)]
  show h: "holds_log (contents db') log"
    using E assms(3) fresh_image(2) [of mode "[MANIFEST_KEY \<mapsto> [LAYOUT_VERSION, mode_byte mode]]"] log_ok_empty
    by (auto simp: holds_log_def manifest_of_def)
  assume r: "r = Inr st"
  then obtain m where m: "fj_db st = db'" "fj_mode st = mode" "manifest_of (contents db') = Some m"
    "manifest_check m mode = (Inr () :: (unit, 'c fjall_error) result)"
    using E by auto
  then have "contents db' \<noteq> (\<lambda>_. Map.empty)" by (auto simp: manifest_of_def)
  with h obtain mode' where "m = [LAYOUT_VERSION, mode_byte mode']" "disk_image mode' log (contents db')" "log_ok log"
    using m(3) by (auto simp: holds_log_def)
  with m show "sys_holds contents (Opened st) log"
    by (auto simp: sys_holds_def fj_represents_def manifest_check_stored split: if_splits)
qed

lemma append_outcome_log:
  "append_outcome contents log log' r st' \<Longrightarrow> fj_represents contents st' log \<or> fj_represents contents st' log'"
  by (auto simp: append_outcome_def split: call.splits sum.splits append_error.splits fjall_error.splits)

lemma atomic_outcome_log:
  "atomic_outcome contents log log' r st' \<Longrightarrow> fj_represents contents st' log \<or> fj_represents contents st' log'"
  by (auto simp: atomic_outcome_def split: call.splits sum.splits atomic_append_error.splits fjall_error.splits)

lemma holds_extendI:
  assumes "manifest_of (contents (fj_db st)) = Some [LAYOUT_VERSION, mode_byte (fj_mode st)]"
    "fj_represents contents st log \<or> fj_represents contents st (log @ e)"
  shows "\<exists>ext. sys_holds contents (Opened st) (log @ ext)"
  using assms(2)
proof
  assume "fj_represents contents st log"
  with assms(1) show ?thesis by (intro exI [of _ "[]"]) (simp add: sys_holds_def)
next
  assume "fj_represents contents st (log @ e)"
  with assms(1) show ?thesis by (intro exI [of _ e]) (simp add: sys_holds_def)
qed

lemma holds_keepI: "sys_holds contents s log \<Longrightarrow> \<exists>ext. sys_holds contents s (log @ ext)"
  by (intro exI [of _ "[]"]) simp

lemma append_step_frame:
  assumes "sys_holds contents (Opened st) log" "fj_mode st' = fj_mode st"
    "contents (fj_db st') MANIFEST_KEYSPACE = contents (fj_db st) MANIFEST_KEYSPACE"
  shows "manifest_of (contents (fj_db st')) = Some [LAYOUT_VERSION, mode_byte (fj_mode st')]"
  using assms by (simp add: sys_holds_def manifest_of_def)

lemma fj_step_holds:
  assumes "engine_ok eng contents tview" "fj_step eng s s'" "sys_holds contents s log"
  shows "\<exists>ext. sys_holds contents s' (log @ ext)"
  using assms(2,3)
proof (cases rule: fj_step.cases)
  case (do_open mode dur db st db')
  have "sys_holds contents s' log"
    using open_holds(2) [OF assms(1) do_open(3)] assms(3) do_open by (simp add: sys_holds_def)
  then show ?thesis by (rule holds_keepI)
next
  case (do_open_failed mode dur db e db')
  have "sys_holds contents s' log"
    using open_holds(1) [OF assms(1) do_open_failed(3)] assms(3) do_open_failed by (simp add: sys_holds_def)
  then show ?thesis by (rule holds_keepI)
next
  case (do_close st)
  then have "sys_holds contents s' log"
    using assms(3) by (auto simp: sys_holds_def holds_log_def fj_represents_def)
  then show ?thesis by (rule holds_keepI)
next
  case (do_append b k expected st r st')
  have st: "sys_holds contents (Opened st) log" using assms(3) do_append(1) by simp
  then have "fj_represents contents st log" by (simp add: sys_holds_def)
  note O = fj_append_outcome [OF assms(1) this do_append(3,4)]
  from O have mode: "fj_mode st' = fj_mode st" by blast
  note man = append_step_frame [OF st mode fj_append_frame [OF assms(1) do_append(4,3) side_spaces(1)]]
  show ?thesis unfolding do_append(2) by (rule holds_extendI [OF man append_outcome_log [OF conjunct1 [OF O]]])
next
  case (do_atomic ws st ra st')
  have st: "sys_holds contents (Opened st) log" using assms(3) do_atomic(1) by simp
  then have "fj_represents contents st log" by (simp add: sys_holds_def)
  note O = fj_atomic_outcome [OF assms(1) this do_atomic(3,4)]
  from O have mode: "fj_mode st' = fj_mode st" by blast
  note man = append_step_frame [OF st mode fj_atomic_frame [OF assms(1) do_atomic(4,3) side_spaces(1)]]
  show ?thesis unfolding do_atomic(2) by (rule holds_extendI [OF man atomic_outcome_log [OF conjunct1 [OF O]]])
next
  case (do_snapshot i schema v state st rs st')
  have "sys_holds contents (Opened st) log" using assms(3) do_snapshot(1) by simp
  from side_write_holds [OF snapshot_side_write [OF assms(1) do_snapshot(3)] side_spaces(4,7) this]
  show ?thesis unfolding do_snapshot(2) by (rule holds_keepI)
next
  case (do_checkpoint ks label i w st rc st')
  have st: "sys_holds contents (Opened st) log" using assms(3) do_checkpoint(1) by simp
  have ks: "ks \<notin> event_spaces" "ks \<noteq> MANIFEST_KEYSPACE" using do_checkpoint(3)
    by (auto simp: event_spaces_def MANIFEST_KEYSPACE_def CHECKPOINT_STREAM_def CHECKPOINT_GLOBAL_def)
  from side_write_holds [OF checkpoint_side_write [OF assms(1) do_checkpoint(4)] ks st]
  show ?thesis unfolding do_checkpoint(2) by (rule holds_keepI)
next
  case (do_flush st rf st')
  have "sys_holds contents (Opened st) log" using assms(3) do_flush(1) by simp
  from side_write_holds [OF flush_side_write [OF assms(1) do_flush(3)] side_spaces(4,7) this]
  show ?thesis unfolding do_flush(2) by (rule holds_keepI)
next
  case (do_register s st rn n)
  then have "sys_holds contents s' log" using assms(3) by (simp add: sys_holds_def fj_represents_def)
  then show ?thesis by (rule holds_keepI)
next
  case (do_drop st reg)
  then have "sys_holds contents s' log" using assms(3) by (simp add: sys_holds_def fj_represents_def)
  then show ?thesis by (rule holds_keepI)
qed

lemma fj_steps_hold:
  assumes "engine_ok eng contents tview" "(fj_step eng)\<^sup>*\<^sup>* s s'" "sys_holds contents s log"
  shows "\<exists>ext. sys_holds contents s' (log @ ext)"
  using assms(2)
proof (induction rule: rtranclp_induct)
  case base
  show ?case using assms(3) by (rule holds_keepI)
next
  case (step y z)
  then obtain ext where "sys_holds contents y (log @ ext)" by blast
  from fj_step_holds [OF assms(1) step(2) this] show ?case by (metis append.assoc)
qed

section \<open>Every step keeps or advances a checkpoint\<close>

text \<open>The relation of a record to a later one.\<close>

definition ck_advance ::
  "(revision \<times> schema_version \<times> 64 nonzero \<times> bytes) \<Rightarrow> (revision \<times> schema_version \<times> 64 nonzero \<times> bytes) \<Rightarrow> bool" where
  "ck_advance x y \<longleftrightarrow> y = x \<or>
    vnum (fst y) = Suc (vnum (fst x)) \<and> (fst (snd y) = fst (snd x) \<longrightarrow> fst (snd (snd x)) < fst (snd (snd y)))"

lemma side_write_other:
  "side_write contents ks st st' \<Longrightarrow> ks' \<noteq> ks \<Longrightarrow> contents (fj_db st') ks' = contents (fj_db st) ks'"
  by (auto simp: side_write_def put_at_def)

lemma checkpoint_commit_advances:
  assumes "engine_ok eng contents tview" "fj_commit_checkpoint eng ks label i w st = (r, st')"
    "stored_record (contents (fj_db st) ks) j = Some x"
  shows "\<exists>y. stored_record (contents (fj_db st') ks) j = Some y \<and> ck_advance x y"
proof -
  obtain rv sv p s where x: "x = (rv, sv, p, s)" by (cases x)
  have st: "fj_stored contents ks st j = Some (rv, sv, p, s)" using assms(3) x by (simp add: fj_stored_def)
  from checkpoint_store.commit_progress [OF fj_checkpoint_store [OF assms(1)] assms(2) st]
  show ?thesis using st by (auto simp: fj_stored_def x ck_advance_def)
qed

lemma fj_step_space:
  assumes "engine_ok eng contents tview" "fj_step eng s s'" "ks \<notin> event_spaces" "ks \<noteq> ''snapshots''"
    "contents (sys_db s) ks \<noteq> Map.empty"
  obtains (same) "contents (sys_db s') ks = contents (sys_db s) ks"
  | (checkpoint) label i w st rc st' where "s = Opened st" "s' = Opened st'"
      "ks \<in> {CHECKPOINT_STREAM, CHECKPOINT_GLOBAL}" "fj_commit_checkpoint eng ks label i w st = (rc, st')"
proof -
  have opened: "contents db' ks = contents db ks"
    if "fj_open eng mode dur db = (r, db')" "contents db ks \<noteq> Map.empty" for mode dur db db' r
    using fj_open_effect [OF assms(1) that(1)] that(2) by auto
  from assms(2) show thesis
  proof (cases rule: fj_step.cases)
    case (do_open mode dur db st db')
    then have "fj_db st = db'" using fj_open_effect [OF assms(1) do_open(3)] by blast
    then show ?thesis using opened [OF do_open(3)] assms(5) do_open(1,2) by (intro same) simp
  next
    case (do_open_failed mode dur db e db')
    then show ?thesis using opened [OF do_open_failed(3)] assms(5) by (intro same) simp
  next
    case (do_append b k expected st r st')
    then show ?thesis using fj_append_frame [OF assms(1) do_append(4,3) assms(3)] by (intro same) simp
  next
    case (do_atomic ws st ra st')
    then show ?thesis using fj_atomic_frame [OF assms(1) do_atomic(4,3) assms(3)] by (intro same) simp
  next
    case (do_snapshot i schema v state st rs st')
    then show ?thesis
      using side_write_other [OF snapshot_side_write [OF assms(1) do_snapshot(3)] assms(4)] by (intro same) simp
  next
    case (do_checkpoint ks' label i w st rc st')
    show ?thesis
    proof (cases "ks' = ks")
      case True
      with do_checkpoint show ?thesis by (intro checkpoint) simp_all
    next
      case False
      then show ?thesis
        using side_write_other [OF checkpoint_side_write [OF assms(1) do_checkpoint(4)], of ks] do_checkpoint(1,2)
        by (intro same) simp
    qed
  next
    case (do_flush st rf st')
    then show ?thesis
      using side_write_other [OF flush_side_write [OF assms(1) do_flush(3)] assms(4)] by (intro same) simp
  qed (rule same, simp)+
qed

lemma fj_step_checkpoint:
  assumes "engine_ok eng contents tview" "fj_step eng s s'" "ks \<in> {CHECKPOINT_STREAM, CHECKPOINT_GLOBAL}"
    "stored_record (contents (sys_db s) ks) j = Some x"
  shows "\<exists>y. stored_record (contents (sys_db s') ks) j = Some y \<and> ck_advance x y"
proof -
  have ks: "ks \<notin> event_spaces" "ks \<noteq> ''snapshots''"
    using assms(3) by (auto simp: event_spaces_def CHECKPOINT_STREAM_def CHECKPOINT_GLOBAL_def)
  have ne: "contents (sys_db s) ks \<noteq> Map.empty" using assms(4) by (auto simp: stored_record_def)
  from assms(1,2) ks ne show ?thesis
  proof (cases rule: fj_step_space)
    case same
    with assms(4) show ?thesis by (simp add: ck_advance_def)
  next
    case (checkpoint label i w st rc st')
    then show ?thesis using checkpoint_commit_advances [OF assms(1) checkpoint(4)] assms(4) by simp
  qed
qed

lemma fj_steps_manifest:
  assumes "engine_ok eng contents tview" "(fj_step eng)\<^sup>*\<^sup>* s s'" "manifest_of (contents (sys_db s)) = Some m"
  shows "manifest_of (contents (sys_db s')) = Some m"
  using assms(2)
proof (induction rule: rtranclp_induct)
  case base
  show ?case using assms(3) .
next
  case (step u v)
  have ks: "MANIFEST_KEYSPACE \<notin> event_spaces" "MANIFEST_KEYSPACE \<noteq> ''snapshots''"
    by (simp_all add: event_spaces_def MANIFEST_KEYSPACE_def)
  have "contents (sys_db u) MANIFEST_KEYSPACE \<noteq> Map.empty" using step(3) by (auto simp: manifest_of_def)
  with assms(1) step(2) ks show ?case
  proof (cases rule: fj_step_space)
    case same
    with step(3) show ?thesis by (simp add: manifest_of_def)
  next
    case checkpoint
    then show ?thesis by (auto simp: MANIFEST_KEYSPACE_def CHECKPOINT_STREAM_def CHECKPOINT_GLOBAL_def)
  qed
qed

lemma fj_steps_checkpoint:
  assumes "engine_ok eng contents tview" "(fj_step eng)\<^sup>*\<^sup>* s s'" "ks \<in> {CHECKPOINT_STREAM, CHECKPOINT_GLOBAL}"
    "stored_record (contents (sys_db s) ks) j = Some x"
  shows "\<exists>y. stored_record (contents (sys_db s') ks) j = Some y \<and> (y = x \<or> vnum (fst x) < vnum (fst y))"
  using assms(2)
proof (induction rule: rtranclp_induct)
  case base
  show ?case using assms(4) by simp
next
  case (step u v)
  then obtain y where y: "stored_record (contents (sys_db u) ks) j = Some y" "y = x \<or> vnum (fst x) < vnum (fst y)"
    by blast
  from fj_step_checkpoint [OF assms(1) step(2) assms(3) y(1)] y(2) show ?case by (auto simp: ck_advance_def)
qed

section \<open>Completeness of append\<close>

text \<open>An engine whose point reads and commits succeed on the current database.\<close>

definition fj_reliable :: "('db, 'tx, 'io) engine \<Rightarrow> 'db storage \<Rightarrow> bool" where
  "fj_reliable eng st \<longleftrightarrow>
    (\<forall>ks k. is_ok (eng_tx_get eng (fj_write_tx eng st) ks k)) \<and>
    (\<forall>tx. is_ok (fst (eng_commit eng tx (fj_db st))))"

lemma read_counters_ok:
  assumes "engine_ok eng contents tview" "fj_reliable eng st" "fj_represents contents st log"
  shows "read_version eng (fj_write_tx eng st) k = Inr (of_nat (length (log_events log k)))"
    "read_global eng (fj_write_tx eng st) k = Inr (of_nat (length log))"
proof -
  have get: "eng_tx_get eng (fj_write_tx eng st) ks i = Inr (contents (fj_db st) ks i)" for ks i
  proof -
    have "is_ok (eng_tx_get eng (fj_write_tx eng st) ks i)" using assms(2) by (simp add: fj_reliable_def)
    then obtain v where v: "eng_tx_get eng (fj_write_tx eng st) ks i = Inr v"
      by (cases "eng_tx_get eng (fj_write_tx eng st) ks i") auto
    with engine_okD(5) [OF assms(1) v] show ?thesis by (simp add: write_tx_view [OF assms(1)])
  qed
  have im: "contents (fj_db st) ''streams'' (key_bytes k) = counter (length (log_events log k))"
    "contents (fj_db st) ''global'' GLOBAL_SEQ_KEY = counter (length log)"
    using assms(3) by (simp_all add: fj_represents_def disk_image_def rows_image_def)
  show "read_version eng (fj_write_tx eng st) k = Inr (of_nat (length (log_events log k)))"
    by (simp add: read_version_def get im counter_def decode_stream_version_of [unfolded encode_stream_version_def])
  show "read_global eng (fj_write_tx eng st) k = Inr (of_nat (length log))"
    by (simp add: read_global_def get im counter_def codec_simps)
qed

lemma append_in_tx_complete:
  assumes "engine_ok eng contents tview" "fj_reliable eng st" "fj_represents contents st log"
    "append_fits log k expected (batch_iter b)"
  shows "is_ok (append_in_tx eng mode k expected b (map frame_of (batch_iter b)) (fj_write_tx eng st))"
proof -
  let ?n = "length (log_events log k)" and ?es = "batch_iter b"
  have log: "log_ok log" using assms(3) by (simp add: fj_represents_def)
  have n: "unat (of_nat ?n :: u64) = ?n" "unat (of_nat (length log) :: u64) = length log"
    using log_events_small [OF log, of k] log by (simp_all add: unat_of_nat_small log_ok_def)
  have fits: "expected = head_version ?n" "run_from ?n ?es" "length log + length ?es < 2 ^ 64"
    "length (key_bytes k) \<le> MAX_STREAM_ID_LEN"
    using assms(4) by (auto simp: append_fits_def list_all_iff batch_iter_def entry_ok_def)
  have len: "?n + length ?es < 2 ^ 64"
    using fits(3) log_events_length_le [of log k] by simp
  define planned :: planned_run where "planned = \<lparr>pr_rows = staged_rows (key_bytes k) (length log) ?es,
    pr_new_version = of_nat (?n + length ?es), pr_ending_global = of_nat (length log + length ?es)\<rparr>"
  have "plan_rows (key_bytes k) (map frame_of ?es) (of_nat ?n) (of_nat (length log)) [] = Inr planned"
    by (subst plan_rows_Inr [OF fits(4)]) (use n fits(2,3) len in \<open>simp_all add: planned_def unat_of_nat_small del: of_nat_add\<close>)
  moreover have "validate_append_versions (of_nat ?n) expected b k = Inr ()"
    using fits(1,2) n by (simp add: validate_append_versions_Inr)
  ultimately show ?thesis
    by (simp add: append_in_tx_def read_counters_ok [OF assms(1-3)] plan_prepared_run_def Let_def)
qed

lemma fj_append_complete:
  assumes "engine_ok eng contents tview" "fj_reliable eng st" "fj_represents contents st log" "batch_ok b"
    "append_fits log k expected (batch_iter b)"
  shows "\<exists>pos. fst (fj_append eng k expected b st) = Returns (Inr pos)"
proof -
  let ?es = "batch_iter b" and ?tx = "fj_write_tx eng st"
  have ok: "\<forall>p \<in> set ?es. pending_len p < 2 ^ 32" "key_bytes k \<noteq> []" "length (key_bytes k) \<le> MAX_STREAM_ID_LEN"
    using assms(5) by (auto simp: append_fits_def list_all_iff entry_ok_def batch_iter_def)
  then have prep: "prepare_run ?es = Returns (Inr (map frame_of ?es))"
    using prepare_run_Inr [of ?es "map frame_of ?es"] assms(4) by (simp add: batch_ok_def)
  obtain g tx where tx: "append_in_tx eng (fj_mode st) k expected b (map frame_of ?es) ?tx = Inr (g, tx)"
    using append_in_tx_complete [OF assms(1-3,5), of "fj_mode st"]
    by (cases "append_in_tx eng (fj_mode st) k expected b (map frame_of ?es) ?tx") auto
  have "is_ok (fst (eng_commit eng tx (fj_db st)))" using assms(2) unfolding fj_reliable_def by blast
  then obtain db where c: "eng_commit eng tx (fj_db st) = (Inr (), db)"
    by (cases "eng_commit eng tx (fj_db st)"; cases "fst (eng_commit eng tx (fj_db st))") auto
  have im: "disk_image (fj_mode st) log (tview ?tx)" "log_ok log"
    using assms(3) by (simp_all add: fj_represents_def write_tx_view [OF assms(1)])
  have "unat g = length log + length ?es"
    using append_in_tx_Inr [OF assms(1) im _ tx] assms(5) by (auto simp: append_fits_def list_all_iff)
  then have "g \<noteq> 0" by (auto simp: batch_iter_def)
  then obtain pos where "global_seq_new g = Some pos" by (auto simp: global_seq_new_def nonzero_new_def)
  with prep tx c ok show ?thesis by (simp add: fj_append_def validate_key_def)
qed

section \<open>A store on the list engine\<close>

definition le_contents :: "list_db \<Rightarrow> view" where
  "le_contents db = le_view (le_spaces db)"

lemma le_engine_ok: "engine_ok list_engine le_contents le_view"
  using list_engine_ok by (simp add: le_contents_def [abs_def])

lemma list_engine_get: "eng_get list_engine db ks k = Inr (le_contents db ks k)"
  by (simp add: list_engine_def le_contents_def le_view_def)

definition fj_fresh_db :: list_db where
  "fj_fresh_db = \<lparr>le_spaces = [], le_broken = False\<rparr>"

definition fj_sample :: "list_db storage" where
  "fj_sample = projr (fst (fj_open list_engine Denormalized DurSyncAll fj_fresh_db))"

lemma fj_sample_open: "fj_open list_engine Denormalized DurSyncAll fj_fresh_db = (Inr fj_sample, fj_db fj_sample)"
proof -
  have "is_ok (fst (fj_open list_engine Denormalized DurSyncAll fj_fresh_db))" by code_simp
  then obtain st db where st: "fj_open list_engine Denormalized DurSyncAll fj_fresh_db = (Inr st, db)"
    by (cases "fj_open list_engine Denormalized DurSyncAll fj_fresh_db") (auto simp: is_ok_iff)
  moreover from st have "fj_sample = st" by (simp add: fj_sample_def)
  moreover have "fj_db st = db" using fj_open_effect [OF le_engine_ok st] by blast
  ultimately show ?thesis by simp
qed

lemma fj_fresh_empty: "le_contents fj_fresh_db = (\<lambda>_. Map.empty)"
  by (simp add: le_contents_def fj_fresh_db_def le_view_def le_space_def le_entries_def fun_eq_iff)

lemma fj_sample_step: "(fj_step list_engine)\<^sup>*\<^sup>* (Closed fj_fresh_db) (Opened fj_sample)"
  by (rule r_into_rtranclp, rule do_open [OF fj_sample_open])

lemma fj_sample_holds: "sys_holds le_contents (Opened fj_sample) []"
  by (rule open_holds(2) [OF le_engine_ok fj_sample_open]) (simp_all add: holds_log_def fj_fresh_empty)

lemma fj_sample_represents: "fj_represents le_contents fj_sample []"
  using fj_sample_holds by (simp add: sys_holds_def)

lemma fj_sample_mode: "fj_mode fj_sample = Denormalized"
  using fj_open_effect [OF le_engine_ok fj_sample_open] by blast

section \<open>Properties\<close>

text \<open>C3: A fjall database never loses or reorders an event. Whatever sequence of opens, closes, appends,
  atomic appends, snapshot and checkpoint writes led to an open store from an empty database, engine
  failures and commits of uncertain outcome included, its keyspaces are exactly the layout of some
  log in which every stream is numbered without gaps, and after any further steps they are the layout
  of an extension of that log.\<close>

theorem fj_database_holds_growing_log:
  assumes "engine_ok eng contents tview" "contents db = (\<lambda>_. Map.empty)"
    "(fj_step eng)\<^sup>*\<^sup>* (Closed db) (Opened st)"
  shows "\<exists>log. log_ok log \<and> disk_image (fj_mode st) log (contents (fj_db st)) \<and>
    (\<forall>st'. (fj_step eng)\<^sup>*\<^sup>* (Opened st) (Opened st') \<longrightarrow>
      (\<exists>ext. log_ok (log @ ext) \<and> disk_image (fj_mode st') (log @ ext) (contents (fj_db st'))))"
proof -
  have "sys_holds contents (Closed db) []" using assms(2) by (simp add: sys_holds_def holds_log_def)
  then obtain log where log: "sys_holds contents (Opened st) log"
    using fj_steps_hold [OF assms(1,3)] by auto
  have "\<exists>ext. log_ok (log @ ext) \<and> disk_image (fj_mode st') (log @ ext) (contents (fj_db st'))"
    if "(fj_step eng)\<^sup>*\<^sup>* (Opened st) (Opened st')" for st'
    using fj_steps_hold [OF assms(1) that log] by (simp add: sys_holds_def fj_represents_def)
  with log show ?thesis by (auto simp: sys_holds_def fj_represents_def)
qed

theorem fj_database_holds_growing_log_witness:
  "\<exists>log ext. log_ok log \<and> disk_image (fj_mode fj_sample) log (le_contents (fj_db fj_sample)) \<and>
    log_ok (log @ ext) \<and> disk_image (fj_mode fj_sample) (log @ ext) (le_contents (fj_db fj_sample))"
  using fj_database_holds_growing_log [OF le_engine_ok fj_fresh_empty fj_sample_step] by blast

text \<open>C5: An append to a fjall store refines appending to the log. It returns the position of the last event
  and the store holds the extended log, or it returns an error and the store holds the old log; only
  an engine error at commit leaves open which of the two it holds. It never panics, and whenever the
  log grew, the expected version was the stream's head, the batch continued it, and every event fits.\<close>

theorem fj_append_refines_log:
  assumes "engine_ok eng contents tview" "fj_represents contents st log" "batch_ok b"
    "fj_append eng k expected b st = (r, st')"
  shows "append_outcome contents log (log @ map (Pair k) (batch_iter b)) r st' \<and>
    (\<not> fj_represents contents st' log \<or> (\<exists>pos. r = Returns (Inr pos)) \<longrightarrow>
      append_fits log k expected (batch_iter b))"
  using fj_append_outcome [OF assms] by blast

theorem fj_append_refines_log_witness:
  "append_outcome le_contents [] (map (Pair sample_key) (batch_iter sample_batch))
    (fst (fj_append list_engine sample_key None sample_batch fj_sample))
    (snd (fj_append list_engine sample_key None sample_batch fj_sample))"
  using fj_append_refines_log [OF le_engine_ok fj_sample_represents sample_batch_ok(1) surjective_pairing] by simp

text \<open>C32: On an engine that does not fail, a fjall store accepts an append exactly when the key is within
  its length limits, every frame fits, the expected version is the stream's head, the batch continues
  the stream and the global sequence has room.\<close>

theorem fj_append_accepts_iff:
  assumes "engine_ok eng contents tview" "fj_reliable eng st" "fj_represents contents st log" "batch_ok b"
  shows "(\<exists>pos. fst (fj_append eng k expected b st) = Returns (Inr pos)) \<longleftrightarrow> append_fits log k expected (batch_iter b)"
proof
  assume "\<exists>pos. fst (fj_append eng k expected b st) = Returns (Inr pos)"
  with fj_append_outcome [OF assms(1,3,4) surjective_pairing] show "append_fits log k expected (batch_iter b)" by blast
next
  assume "append_fits log k expected (batch_iter b)"
  with assms show "\<exists>pos. fst (fj_append eng k expected b st) = Returns (Inr pos)" by (intro fj_append_complete)
qed

lemma fj_sample_unbroken: "\<not> le_broken (fj_db fj_sample)"
  by code_simp

lemma fj_sample_reliable: "fj_reliable list_engine fj_sample"
  by (simp add: fj_reliable_def list_engine_def fj_sample_unbroken)

lemma sample_append_fits: "append_fits [] sample_key None (batch_iter sample_batch)"
  using sample_batch_ok sample_fits(1,2)
  by (simp add: append_fits_def head_version_def entry_ok_def fits_def sample_key_def fjall_sizes)
    (simp add: batch_iter_def sample_batch_def)

theorem fj_append_accepts_iff_witness:
  "(\<exists>pos. fst (fj_append list_engine sample_key None sample_batch fj_sample) = Returns (Inr pos)) \<and>
   \<not> (\<exists>pos. fst (fj_append list_engine sample_key (Some version_INITIAL) sample_batch fj_sample) = Returns (Inr pos))"
  using fj_append_accepts_iff [OF le_engine_ok fj_sample_reliable fj_sample_represents sample_batch_ok(1),
      of sample_key None] sample_append_fits
    fj_append_accepts_iff [OF le_engine_ok fj_sample_reliable fj_sample_represents sample_batch_ok(1),
      of sample_key "Some version_INITIAL"]
  by (simp add: append_fits_def head_version_def)

text \<open>C9: An atomic append to a fjall store is all or nothing. Either every run of every stream is in the log,
  in order, and the result is the position of the last event, or an error is returned and no run is;
  only an engine error at commit leaves open which. When anything was added, the targets were distinct
  and every run continued its stream from the expected head.\<close>

theorem fj_atomic_all_or_nothing:
  assumes "engine_ok eng contents tview" "fj_represents contents st log" "\<forall>w \<in> set ws. planned_ok w"
    "fj_atomic_append_many eng ws st = (r, st')"
  shows "atomic_outcome contents log (log @ planned_entries ws) r st' \<and>
    (\<not> fj_represents contents st' log \<longrightarrow> atomic_fits log ws)"
  using fj_atomic_outcome [OF assms] by blast

theorem fj_atomic_all_or_nothing_witness:
  "atomic_outcome le_contents [] (planned_entries [sample_write])
    (fst (fj_atomic_append_many list_engine [sample_write] fj_sample))
    (snd (fj_atomic_append_many list_engine [sample_write] fj_sample))"
  using fj_atomic_all_or_nothing [OF le_engine_ok fj_sample_represents _ surjective_pairing, of "[sample_write]"]
  by simp

text \<open>C16: Reading a stream of a fjall store yields the events of that stream and of no other, from the
  requested version on, in order and exactly as they were appended; an engine failure cuts the read
  short with one error after a prefix of them. A key outside the length limits is refused.\<close>

theorem fj_read_stream_exact:
  assumes "engine_ok eng contents tview" "fj_represents contents st log"
  shows "if key_ok k
    then \<exists>c. fj_read_stream eng k v st = Inr c \<and>
      delivers (map persisted_of (drop (vnum v - 1) (log_events log k))) (cursor_drain (fj_stream_scan k) c)
    else fj_read_stream eng k v st = Inl (FjInvalidKey (length (key_bytes k)) MAX_STREAM_ID_LEN)"
proof (cases "key_ok k")
  case True
  then show ?thesis using fj_read_stream_delivers [OF assms] by simp
next
  case False
  then show ?thesis by (auto simp: fj_read_stream_def validate_key_def key_ok_def)
qed

definition fj_filled :: "list_db storage" where
  "fj_filled = snd (fj_append list_engine sample_key None sample_batch fj_sample)"

lemma fj_filled_represents: "fj_represents le_contents fj_filled (map (Pair sample_key) (batch_iter sample_batch))"
proof -
  obtain pos where pos: "fj_append list_engine sample_key None sample_batch fj_sample = (Returns (Inr pos), fj_filled)"
    using fj_append_complete [OF le_engine_ok fj_sample_reliable fj_sample_represents sample_batch_ok(1) sample_append_fits]
    by (metis fj_filled_def prod.collapse)
  from fj_append_outcome [OF le_engine_ok fj_sample_represents sample_batch_ok(1) pos] show ?thesis
    by (simp add: append_outcome_def)
qed

lemma fj_filled_mode: "fj_mode fj_filled = Denormalized"
  using fj_append_outcome [OF le_engine_ok fj_sample_represents sample_batch_ok(1) surjective_pairing, of sample_key None]
  by (simp add: fj_filled_def fj_sample_mode)

theorem fj_read_stream_exact_witness:
  "\<exists>c. fj_read_stream list_engine sample_key (version_of 2) fj_filled = Inr c \<and>
    delivers [persisted_of (sample_event 2)] (cursor_drain (fj_stream_scan sample_key) c)"
proof -
  have "key_ok sample_key" by (simp add: key_ok_def sample_key_def fjall_sizes)
  with fj_read_stream_exact [OF le_engine_ok fj_filled_represents, of sample_key "version_of 2"] show ?thesis
    by (simp add: batch_iter_def sample_batch_def vmax_def log_events_def)
qed

text \<open>C24: Reading \<open>$all\<close> of a fjall store with the denormalized index yields every event of every stream
  strictly after the given position, each with its position and its stream, in commit order; a resume
  from the last possible position yields nothing. Without the index the read is refused.\<close>

theorem fj_read_all_exact:
  assumes "engine_ok eng contents tview" "fj_represents contents st log"
  shows "if fj_mode st = Denormalized
    then \<exists>c. fj_read_all eng p st = Inr c \<and>
      delivers (drop (case p of None \<Rightarrow> 0 | Some g \<Rightarrow> vnum g) (positioned log)) (cursor_drain fj_global_scan c)
    else fj_read_all eng p st = Inl FjAllIndexDisabled"
proof (cases "fj_mode st = Denormalized")
  case True
  then show ?thesis using fj_read_all_delivers [OF assms] by simp
next
  case False
  then have "fj_mode st = AllDisabled" by (cases "fj_mode st") simp_all
  with False show ?thesis by (simp add: fj_read_all_def)
qed

theorem fj_read_all_exact_witness:
  "\<exists>c. fj_read_all list_engine (Some global_seq_INITIAL) fj_filled = Inr c \<and>
    delivers [(version_of 2, sample_key, persisted_of (sample_event 2))] (cursor_drain fj_global_scan c)"
  using fj_read_all_exact [OF le_engine_ok fj_filled_represents, of "Some global_seq_INITIAL"] fj_filled_mode
  by (simp add: positioned_def batch_iter_def sample_batch_def global_seq_INITIAL_def vnum_def as_u64_def
      numeral_2_eq_2)

text \<open>C22: A checkpoint kept in a fjall database never goes back. Over any sequence of steps of the store,
  commits of uncertain outcome and reopenings included, a record that reads as valid stays, or is
  replaced by one with a greater revision; and one step that replaces it raises the revision by one
  and, under an unchanged schema, moves the position forward.\<close>

theorem fj_checkpoint_never_regresses:
  assumes "engine_ok eng contents tview" "ks \<in> {CHECKPOINT_STREAM, CHECKPOINT_GLOBAL}"
    "stored_record (contents (sys_db s) ks) j = Some x"
  shows "((fj_step eng)\<^sup>*\<^sup>* s s' \<longrightarrow>
      (\<exists>y. stored_record (contents (sys_db s') ks) j = Some y \<and> (y = x \<or> vnum (fst x) < vnum (fst y)))) \<and>
    (fj_step eng s s' \<longrightarrow> (\<exists>y. stored_record (contents (sys_db s') ks) j = Some y \<and> ck_advance x y))"
  using fj_steps_checkpoint [OF assms(1) _ assms(2,3)] fj_step_checkpoint [OF assms(1) _ assms(2,3)] by blast

definition fj_ck_write :: "revision option \<Rightarrow> nat \<Rightarrow> (bytes, 64 nonzero) checkpoint_write" where
  "fj_ck_write expected n =
    \<lparr>cw_expected = expected, cw_schema = schema_INITIAL, cw_position = version_of n, cw_state = [9], cw_mode = Advance\<rparr>"

definition fj_checkpointed :: "list_db storage" where
  "fj_checkpointed = snd (fj_commit_checkpoint list_engine CHECKPOINT_STREAM [] [5] (fj_ck_write None 1) fj_sample)"

lemma fj_checkpointed_stored:
  "\<exists>r. stored_record (le_contents (fj_db fj_checkpointed) CHECKPOINT_STREAM) [5] = Some (r, schema_INITIAL, version_of 1, [9])"
proof -
  let ?c = "fj_commit_checkpoint list_engine CHECKPOINT_STREAM [] [5] (fj_ck_write None 1) fj_sample"
  have "map_of (le_entries (le_space (le_spaces (fj_db fj_sample)) CHECKPOINT_STREAM)) [5] = None" by code_simp
  moreover have "is_ok (next_revision (fj_ck_write None 1) None)"
    by (simp add: next_revision_def fj_ck_write_def check_mode_def nonzero_new_def)
  ultimately have "is_ok (fst ?c)"
    using fj_sample_unbroken
    by (auto simp: fj_commit_checkpoint_def checkpoint_in_tx_def checkpoint_metadata_def validate_key_def fjall_sizes
        checkpoint_value_len_def value_len_Inr fj_write_tx_def list_engine_def is_ok_iff fj_ck_write_def)
  then obtain r where "?c = (Inr r, fj_checkpointed)"
    by (cases ?c) (auto simp: is_ok_iff fj_checkpointed_def)
  from fj_commit_checkpoint_effect [OF le_engine_ok this]
  have "put_at le_contents CHECKPOINT_STREAM [5] (fill_revision r (checkpoint_value (fj_ck_write None 1))) fj_sample fj_checkpointed"
    by auto
  from fj_stored_written(1) [OF this] show ?thesis by (simp add: fj_stored_def ck_written_def fj_ck_write_def)
qed

theorem fj_checkpoint_never_regresses_witness:
  "\<exists>r y. stored_record (le_contents (fj_db fj_checkpointed) CHECKPOINT_STREAM) [5] = Some (r, schema_INITIAL, version_of 1, [9]) \<and>
    stored_record (le_contents (fj_db (snd (fj_commit_checkpoint list_engine CHECKPOINT_STREAM [] [5]
      (fj_ck_write (Some r) 4) fj_checkpointed))) CHECKPOINT_STREAM) [5] = Some y \<and>
    ck_advance (r, schema_INITIAL, version_of 1, [9]) y"
proof -
  obtain r where r: "stored_record (le_contents (sys_db (Opened fj_checkpointed)) CHECKPOINT_STREAM) [5] =
      Some (r, schema_INITIAL, version_of 1, [9])"
    using fj_checkpointed_stored by auto
  let ?s' = "Opened (snd (fj_commit_checkpoint list_engine CHECKPOINT_STREAM [] [5] (fj_ck_write (Some r) 4) fj_checkpointed))"
  have step: "fj_step list_engine (Opened fj_checkpointed) ?s'"
    by (rule do_checkpoint [OF _ surjective_pairing]) simp
  have ks: "CHECKPOINT_STREAM \<in> {CHECKPOINT_STREAM, CHECKPOINT_GLOBAL}" by simp
  from fj_checkpoint_never_regresses [OF le_engine_ok ks r, of ?s'] step r show ?thesis by auto
qed

text \<open>C37: The index mode of a fjall database is fixed when it is first opened. However the store was used
  and closed in between, opening it with another mode fails and leaves the data as it was.\<close>

theorem fj_index_mode_fixed:
  assumes "engine_ok eng contents tview" "sys_holds contents (Opened st) log"
    "(fj_step eng)\<^sup>*\<^sup>* (Opened st) (Closed db)" "mode \<noteq> fj_mode st" "fj_open eng mode dur db = (r, db')"
  shows "(\<exists>e. r = Inl e) \<and> contents db' = contents db"
proof -
  have man: "manifest_of (contents db) = Some [LAYOUT_VERSION, mode_byte (fj_mode st)]"
    using fj_steps_manifest [OF assms(1,3)] assms(2) by (simp add: sys_holds_def)
  then have ne: "contents db \<noteq> (\<lambda>_. Map.empty)" by (auto simp: manifest_of_def)
  note E = fj_open_effect [OF assms(1,5)]
  from E ne have same: "contents db' = contents db" by blast
  have "r \<noteq> Inr st'" for st'
  proof
    assume "r = Inr st'"
    with E same man obtain m where "Some m = Some [LAYOUT_VERSION, mode_byte (fj_mode st)]"
      "manifest_check m mode = (Inr () :: (unit, 'c fjall_error) result)" by auto
    with assms(4) show False by (simp add: manifest_check_stored)
  qed
  with same show ?thesis by (cases r) auto
qed

theorem fj_index_mode_fixed_witness:
  "\<exists>e. fst (fj_open list_engine AllDisabled DurBuffered (fj_db fj_sample)) = Inl e"
proof -
  have "(fj_step list_engine)\<^sup>*\<^sup>* (Opened fj_sample) (Closed (fj_db fj_sample))"
    by (rule r_into_rtranclp, rule do_close)
  from fj_index_mode_fixed [OF le_engine_ok fj_sample_holds this _ surjective_pairing, of AllDisabled DurBuffered]
  show ?thesis by (simp add: fj_sample_mode)
qed

text \<open>Listing the streams of a fjall store, from the start or strictly after a given stream, yields every
  stream that has events exactly once, in the order of their keys, or a prefix of them and one error.\<close>

theorem fj_list_streams_exact:
  assumes "engine_ok eng contents tview" "fj_represents contents st log"
  shows "\<exists>ks. sorted_wrt (<) (map key_bytes ks) \<and>
    set ks = {k \<in> fst ` set log. case after of None \<Rightarrow> True | Some j \<Rightarrow> key_bytes j < key_bytes k} \<and>
    delivers ks (id_drain (id_cursor_from_iter (stream_ids_after eng (fj_db st) after)))"
  using stream_ids_after_delivers [OF assms] .

theorem fj_list_streams_exact_witness:
  "\<exists>ks. set ks = {sample_key} \<and>
    delivers ks (id_drain (id_cursor_from_iter (stream_ids_after list_engine (fj_db fj_filled) None)))"
  using fj_list_streams_exact [OF le_engine_ok fj_filled_represents, of None]
  by (auto simp: batch_iter_def sample_batch_def)

text \<open>A snapshot committed to a fjall store reads back unchanged under its schema and as stale under
  any other, as long as the engine answers the read.\<close>

theorem fj_snapshot_roundtrip:
  assumes "engine_ok eng contents tview" "fj_commit eng i schema v state st = (Inr (), st')"
    "fj_hydrate eng label st' i schema' = Inr h"
  shows "h = (if schema' = schema then HyFound v state else HyStale schema)"
proof -
  have E: "i \<noteq> []" "length i \<le> MAX_KEY_LEN"
    "contents (fj_db st') ''snapshots'' i = Some (u32_le (get schema) @ u64_be (as_u64 v) @ state)"
    using fj_commit_effect [OF assms(1,2)] by (simp_all add: put_at_def)
  have "validate_key i MAX_KEY_LEN = (Inr () :: (unit, 'c fjall_error) result)" using E by (simp add: validate_key_def)
  from fj_hydrate_stored [OF assms(1) this E(3) assms(3)] show ?thesis .
qed

theorem fj_snapshot_roundtrip_witness:
  "\<exists>st' h. fj_commit list_engine [5] schema_INITIAL (version_of 3) [1, 2] fj_sample = (Inr (), st') \<and>
    fj_hydrate list_engine [] st' [5] schema_INITIAL = Inr h \<and> h = HyFound (version_of 3) [1, 2]"
proof -
  let ?c = "fj_commit list_engine [5] schema_INITIAL (version_of 3) [1, 2] fj_sample"
  have ok: "is_ok (fst ?c)"
    using fj_sample_unbroken
    by (simp add: fj_commit_def validate_key_def fjall_sizes encode_snapshot_value_def state_value_len_def value_len_Inr
        list_engine_def)
  then have c: "?c = (Inr (), snd ?c)" by (auto simp: is_ok_iff prod_eq_iff)
  have "le_contents (fj_db (snd ?c)) ''snapshots'' [5] =
      Some (u32_le (get schema_INITIAL) @ u64_be (as_u64 (version_of 3)) @ [1, 2])"
    using fj_commit_effect [OF le_engine_ok c] by (simp add: put_at_def)
  then have "is_ok (fj_hydrate list_engine [] (snd ?c) [5] schema_INITIAL)"
    by (simp add: fj_hydrate_def read_snapshot_def validate_key_def fjall_sizes list_engine_get
        decode_snapshot_value_def codec_simps nonzero_new_get version_new_as_u64 del: nonzero_new_Some version_new_Some)
  then obtain h where h: "fj_hydrate list_engine [] (snd ?c) [5] schema_INITIAL = Inr h"
    by (auto simp: is_ok_iff)
  from fj_snapshot_roundtrip [OF le_engine_ok c h] have "h = HyFound (version_of 3) [1, 2]" by simp
  with c h show ?thesis by blast
qed

end
