(* ===== verification/Fjall_Blocking.thy ===== *)
theory Fjall_Blocking
  imports Fjall_Scan
begin

text \<open>
  The lazy scans of the fjall adapter, \<open>adapters/fjall/src/blocking.rs\<close>: rows are fetched in bounded
  batches on the worker and handed to the consumer one by one. The lemmas show that batching changes
  nothing about the rows a consumer sees: a prefix of what the cursor yields, all of it once enough
  fetches have completed, or a prefix followed by one error that ends the scan.
\<close>

section \<open>Configuration\<close>

record blocking_config =
  bc_queue_capacity :: nat
  bc_max_open_scans :: nat
  bc_scan_batch_rows :: nat
  bc_scan_batch_bytes :: nat

definition config_default :: blocking_config where
  "config_default =
    \<lparr>bc_queue_capacity = 32, bc_max_open_scans = 32, bc_scan_batch_rows = 64, bc_scan_batch_bytes = 1048576\<rparr>"

definition config_ok :: "blocking_config \<Rightarrow> bool" where
  "config_ok cfg \<longleftrightarrow> 0 < bc_queue_capacity cfg \<and> 0 < bc_max_open_scans cfg \<and> 0 < bc_scan_batch_rows cfg \<and>
    0 < bc_scan_batch_bytes cfg"

section \<open>Batches\<close>

text \<open>\<open>Cursor::next_row\<close>: the next row with its size, and the cursor after it.\<close>

type_synonym ('c, 'a, 'io) next_row =
  "'c \<Rightarrow> (('a, 'io fjall_error) result \<times> nat) option \<times> 'c"

record ('c, 'a, 'io) batch =
  bt_cursor :: "'c option"
  bt_rows :: "('a, 'io fjall_error) result list"

primrec fetch_rows ::
  "('c, 'a, 'io) next_row \<Rightarrow> nat \<Rightarrow> nat \<Rightarrow> nat \<Rightarrow> ('a, 'io fjall_error) result list \<Rightarrow> 'c \<Rightarrow> ('c, 'a, 'io) batch" where
  "fetch_rows next_row budget 0 bytes rows cursor = \<lparr>bt_cursor = Some cursor, bt_rows = rows\<rparr>"
| "fetch_rows next_row budget (Suc n) bytes rows cursor =
    (case next_row cursor of
       (None, _) \<Rightarrow> \<lparr>bt_cursor = None, bt_rows = rows\<rparr>
     | (Some (row, len), cursor) \<Rightarrow>
         if \<not> is_ok row then \<lparr>bt_cursor = None, bt_rows = rows @ [row]\<rparr>
         else case checked_add_usize bytes len of
           None \<Rightarrow> \<lparr>bt_cursor = None, bt_rows = rows @ [Inl FjScanLengthOverflow]\<rparr>
         | Some acc \<Rightarrow>
             if acc \<ge> budget then \<lparr>bt_cursor = Some cursor, bt_rows = rows @ [row]\<rparr>
             else fetch_rows next_row budget n acc (rows @ [row]) cursor)"

definition fetch :: "('c, 'a, 'io) next_row \<Rightarrow> blocking_config \<Rightarrow> 'c \<Rightarrow> ('c, 'a, 'io) batch" where
  "fetch next_row cfg cursor = fetch_rows next_row (bc_scan_batch_bytes cfg) (bc_scan_batch_rows cfg) 0 [] cursor"

section \<open>The lazy scan\<close>

text \<open>A stream holds its cursor, or the pending fetch that owns it. What the pending fetch does when it
is polled is given from outside: it is still waiting, the worker refused or lost it, or it ran.\<close>

record ('c, 'a, 'io) blocking_stream =
  bs_cursor :: "'c option"
  bs_executor :: bool
  bs_config :: blocking_config
  bs_rows :: "('a, 'io fjall_error) result list"
  bs_pending :: "'c option"

definition blocking_stream_new :: "'c \<Rightarrow> blocking_config \<Rightarrow> ('c, 'a, 'io) blocking_stream" where
  "blocking_stream_new cursor cfg =
    \<lparr>bs_cursor = Some cursor, bs_executor = True, bs_config = cfg, bs_rows = [], bs_pending = None\<rparr>"

datatype 'io fetch_poll = FetchPending | FetchFailed "'io fjall_error" | FetchDone

datatype 'x poll = PollPending | PollReady 'x

definition pop_row ::
  "('c, 'a, 'io) blocking_stream
    \<Rightarrow> ('a, 'io fjall_error) result option poll \<times> ('c, 'a, 'io) blocking_stream" where
  "pop_row s =
    (case bs_rows s of
       [] \<Rightarrow> (PollReady None, s)
     | row # rest \<Rightarrow> (PollReady (Some row), s\<lparr>bs_rows := rest\<rparr>))"

definition fetch_outcome ::
  "('c, 'a, 'io) next_row \<Rightarrow> 'io fetch_poll \<Rightarrow> 'c \<Rightarrow> ('c, 'a, 'io) blocking_stream
    \<Rightarrow> ('a, 'io fjall_error) result option poll \<times> ('c, 'a, 'io) blocking_stream" where
  "fetch_outcome next_row reply cursor s =
    (case reply of
       FetchPending \<Rightarrow> (PollPending, s)
     | FetchFailed e \<Rightarrow>
         pop_row (s\<lparr>bs_pending := None, bs_cursor := None, bs_rows := bs_rows s @ [Inl e], bs_executor := False\<rparr>)
     | FetchDone \<Rightarrow>
         let b = fetch next_row (bs_config s) cursor in
         pop_row (s\<lparr>bs_pending := None, bs_cursor := bt_cursor b, bs_rows := bt_rows b,
           bs_executor := (if bt_cursor b = None then False else bs_executor s)\<rparr>))"

definition stream_poll_next ::
  "('c, 'a, 'io) next_row \<Rightarrow> 'io fetch_poll \<Rightarrow> ('c, 'a, 'io) blocking_stream
    \<Rightarrow> ('a, 'io fjall_error) result option poll \<times> ('c, 'a, 'io) blocking_stream" where
  "stream_poll_next next_row reply s =
    (case bs_rows s of
       row # rest \<Rightarrow> (PollReady (Some row), s\<lparr>bs_rows := rest\<rparr>)
     | [] \<Rightarrow>
       (case bs_pending s of
          Some cursor \<Rightarrow> fetch_outcome next_row reply cursor s
        | None \<Rightarrow>
          (case bs_cursor s of
             None \<Rightarrow> (PollReady None, s)
           | Some cursor \<Rightarrow>
               if \<not> bs_executor s then (PollReady None, s\<lparr>bs_cursor := None\<rparr>)
               else fetch_outcome next_row reply cursor (s\<lparr>bs_cursor := None, bs_pending := Some cursor\<rparr>))))"

text \<open>What a consumer collects over a sequence of polls, up to the first end of stream.\<close>

primrec stream_polls ::
  "('c, 'a, 'io) next_row \<Rightarrow> 'io fetch_poll list \<Rightarrow> ('c, 'a, 'io) blocking_stream \<Rightarrow> ('a, 'io fjall_error) result list" where
  "stream_polls next_row [] s = []"
| "stream_polls next_row (reply # replies) s =
    (case stream_poll_next next_row reply s of
       (PollPending, s') \<Rightarrow> stream_polls next_row replies s'
     | (PollReady None, s') \<Rightarrow> []
     | (PollReady (Some row), s') \<Rightarrow> row # stream_polls next_row replies s')"

section \<open>Batching is invisible\<close>

text \<open>The rows a cursor yields when it is read to its end or its first error.\<close>

inductive yields :: "('c, 'a, 'io) next_row \<Rightarrow> 'c \<Rightarrow> ('a, 'io fjall_error) result list \<Rightarrow> bool"
  for next_row where
  yields_end: "next_row c = (None, c') \<Longrightarrow> yields next_row c []"
| yields_error: "next_row c = (Some (Inl e, n), c') \<Longrightarrow> yields next_row c [Inl e]"
| yields_row: "next_row c = (Some (Inr x, n), c') \<Longrightarrow> yields next_row c' out \<Longrightarrow> yields next_row c (Inr x # out)"

lemma yieldsE:
  assumes "yields next_row c out"
  obtains (at_end) c' where "out = []" "next_row c = (None, c')"
  | (at_error) e len c' where "out = [Inl e]" "next_row c = (Some (Inl e, len), c')"
  | (at_row) x len c' out' where "out = Inr x # out'" "next_row c = (Some (Inr x, len), c')" "yields next_row c' out'"
  using assms by (cases rule: yields.cases) blast+

definition overflowed :: "('a, 'io fjall_error) result list \<Rightarrow> ('a, 'io fjall_error) result list \<Rightarrow> bool" where
  "overflowed out rows \<longleftrightarrow>
    (\<exists>m < length out. list_all is_ok (take m out) \<and> rows = take m out @ [Inl FjScanLengthOverflow])"

lemma fetch_rows_yields:
  assumes "yields next_row c out" "fetch_rows next_row budget n bytes rows c = b"
  shows "(\<exists>new. bt_rows b = rows @ new \<and>
    (case bt_cursor b of
       None \<Rightarrow> new = out \<or> overflowed out new
     | Some c' \<Rightarrow> (\<exists>left. out = new @ left \<and> yields next_row c' left) \<and> list_all is_ok new \<and> (0 < n \<longrightarrow> new \<noteq> [])))"
  using assms
proof (induction n arbitrary: c out bytes rows)
  case 0
  then show ?case by auto
next
  case (Suc n)
  show ?case using Suc.prems(1)
  proof (cases rule: yieldsE)
    case (at_end c')
    with Suc.prems(2) show ?thesis by auto
  next
    case (at_error e len c')
    with Suc.prems(2) show ?thesis by (auto simp: is_ok_def)
  next
    case (at_row x len c' out')
    show ?thesis
    proof (cases "checked_add_usize bytes len")
      case None
      with Suc.prems(2) at_row show ?thesis
        by (auto simp: is_ok_def overflowed_def intro: exI [of _ 0])
    next
      case (Some acc)
      show ?thesis
      proof (cases "acc \<ge> budget")
        case True
        with Suc.prems(2) at_row Some show ?thesis by (auto simp: is_ok_def)
      next
        case False
        then have "fetch_rows next_row budget n acc (rows @ [Inr x]) c' = b"
          using Suc.prems(2) at_row Some by (simp add: is_ok_def)
        from Suc.IH [OF at_row(3) this] obtain new where new: "bt_rows b = rows @ Inr x # new"
          "case bt_cursor b of None \<Rightarrow> new = out' \<or> overflowed out' new
           | Some c' \<Rightarrow> (\<exists>left. out' = new @ left \<and> yields next_row c' left) \<and> list_all is_ok new"
          by (auto split: option.splits)
        have "overflowed out' new \<Longrightarrow> overflowed (Inr x # out') (Inr x # new)"
          unfolding overflowed_def
          by (elim exE conjE, rule_tac x = "Suc m" in exI) (simp add: is_ok_def)
        with new at_row(1) show ?thesis
          by (intro exI [of _ "Inr x # new"]) (auto simp: is_ok_def split: option.splits)
      qed
    qed
  qed
qed

definition stream_source :: "('c, 'a, 'io) blocking_stream \<Rightarrow> 'c option" where
  "stream_source s = (case bs_pending s of Some c \<Rightarrow> Some c | None \<Rightarrow> bs_cursor s)"

text \<open>What a stream still owes its consumer: the buffered rows, then what its cursor yields.\<close>

definition owes :: "('c, 'a, 'io) next_row \<Rightarrow> ('c, 'a, 'io) blocking_stream \<Rightarrow> ('a, 'io fjall_error) result list \<Rightarrow> bool" where
  "owes next_row s left \<longleftrightarrow> config_ok (bs_config s) \<and>
    (case stream_source s of
       None \<Rightarrow> left = bs_rows s
     | Some c \<Rightarrow> bs_executor s \<and> list_all is_ok (bs_rows s) \<and>
         (\<exists>rest. left = bs_rows s @ rest \<and> yields next_row c rest))"

lemma owes_new: "config_ok cfg \<Longrightarrow> yields next_row c out \<Longrightarrow> owes next_row (blocking_stream_new c cfg) out"
  by (simp add: owes_def stream_source_def blocking_stream_new_def)

lemma fetch_yields:
  assumes "yields next_row c out" "config_ok cfg"
  shows "case bt_cursor (fetch next_row cfg c) of
      None \<Rightarrow> bt_rows (fetch next_row cfg c) = out \<or> overflowed out (bt_rows (fetch next_row cfg c))
    | Some c' \<Rightarrow> (\<exists>left. out = bt_rows (fetch next_row cfg c) @ left \<and> yields next_row c' left) \<and>
        list_all is_ok (bt_rows (fetch next_row cfg c)) \<and> bt_rows (fetch next_row cfg c) \<noteq> []"
  using fetch_rows_yields [OF assms(1) refl, of "bc_scan_batch_bytes cfg" "bc_scan_batch_rows cfg" 0 "[]"] assms(2)
  by (auto simp: fetch_def config_ok_def split: option.splits)

text \<open>The three things one poll can do: deliver or wait as owed, or end the scan early with an error.\<close>

lemma stream_poll_owes:
  assumes "owes next_row s left" "stream_poll_next next_row reply s = (r, s')"
  shows "(case r of
      PollPending \<Rightarrow> owes next_row s' left \<and> reply = FetchPending
    | PollReady None \<Rightarrow> left = []
    | PollReady (Some row) \<Rightarrow> (\<exists>left'. left = row # left' \<and> owes next_row s' left' \<and>
        (is_ok row \<or> stream_source s' = None))) \<or>
    (\<exists>m e. m \<le> length left \<and> list_all is_ok (take m left) \<and> (e = FjScanLengthOverflow \<or> reply = FetchFailed e) \<and>
      (\<exists>row. r = PollReady (Some row) \<and> row # bs_rows s' = take m left @ [Inl e]) \<and> stream_source s' = None)"
proof (cases "bs_rows s")
  case (Cons row rest)
  with assms show ?thesis
    by (auto simp: stream_poll_next_def owes_def stream_source_def split: option.splits)
next
  case Nil
  show ?thesis
  proof (cases "stream_source s")
    case None
    with Nil assms show ?thesis
      by (auto simp: stream_poll_next_def owes_def stream_source_def split: option.splits)
  next
    case (Some c)
    define s0 where "s0 = (case bs_pending s of Some _ \<Rightarrow> s | None \<Rightarrow> s\<lparr>bs_cursor := None, bs_pending := Some c\<rparr>)"
    have owed: "bs_executor s" "config_ok (bs_config s)" "yields next_row c left"
      using assms(1) Some Nil by (auto simp: owes_def)
    have s0: "bs_rows s0 = []" "bs_pending s0 = Some c" "bs_config s0 = bs_config s" "bs_executor s0"
      using Some Nil owed by (auto simp: s0_def stream_source_def split: option.splits)
    have step: "fetch_outcome next_row reply c s0 = (r, s')"
      using assms(2) Some Nil owed(1)
      by (auto simp: stream_poll_next_def s0_def stream_source_def split: option.splits)
    show ?thesis
    proof (cases reply)
      case FetchPending
      with step s0 owed show ?thesis by (auto simp: fetch_outcome_def owes_def stream_source_def)
    next
      case (FetchFailed e)
      with step s0 have "r = PollReady (Some (Inl e))" "bs_rows s' = []" "stream_source s' = None"
        by (auto simp: fetch_outcome_def pop_row_def stream_source_def)
      with FetchFailed show ?thesis by (intro disjI2 exI [of _ 0] exI [of _ e]) auto
    next
      case FetchDone
      note b = fetch_yields [OF owed(3,2)]
      from FetchDone step s0
      have out: "pop_row (s0\<lparr>bs_pending := None, bs_cursor := bt_cursor (fetch next_row (bs_config s) c),
          bs_rows := bt_rows (fetch next_row (bs_config s) c),
          bs_executor := bt_cursor (fetch next_row (bs_config s) c) \<noteq> None\<rparr>) = (r, s')"
        by (auto simp: fetch_outcome_def Let_def split: if_splits)
      show ?thesis
      proof (cases "bt_cursor (fetch next_row (bs_config s) c)")
        case (Some c')
        with b obtain row rows rest where "bt_rows (fetch next_row (bs_config s) c) = row # rows"
          "left = (row # rows) @ rest" "yields next_row c' rest" "list_all is_ok (row # rows)"
          by (auto simp: neq_Nil_conv)
        with out Some owed s0 show ?thesis by (auto simp: pop_row_def owes_def stream_source_def)
      next
        case None
        with b consider (all) "bt_rows (fetch next_row (bs_config s) c) = left"
          | (cut) m where "m < length left" "list_all is_ok (take m left)" "bt_rows (fetch next_row (bs_config s) c) = take m left @ [Inl FjScanLengthOverflow]"
          by (auto simp: overflowed_def)
        then show ?thesis
        proof cases
          case all
          with out None owed s0 show ?thesis
            by (cases left) (auto simp: pop_row_def owes_def stream_source_def)
        next
          case (cut m)
          obtain row rows where rows: "take m left @ [Inl FjScanLengthOverflow] = row # rows"
            by (cases "take m left @ [Inl FjScanLengthOverflow]") auto
          with out None cut s0 have "r = PollReady (Some row)" "bs_rows s' = rows" "stream_source s' = None"
            by (auto simp: pop_row_def stream_source_def)
          with cut(1,2) rows show ?thesis
            by (intro disjI2 exI [of _ m] exI [of _ FjScanLengthOverflow]) auto
        qed
      qed
    qed
  qed
qed

lemma stream_polls_drained:
  assumes "stream_source s = None"
  shows "stream_polls next_row replies s = take (length replies) (bs_rows s)"
  using assms
proof (induction replies arbitrary: s)
  case (Cons reply replies)
  then show ?case
    by (cases "bs_rows s")
      (auto simp: stream_poll_next_def stream_source_def split: option.splits)
qed simp

definition cut_short ::
  "'io fetch_poll list \<Rightarrow> ('a, 'io fjall_error) result list \<Rightarrow> ('a, 'io fjall_error) result list \<Rightarrow> bool" where
  "cut_short replies out got \<longleftrightarrow> (\<exists>m e. m \<le> length out \<and> list_all is_ok (take m out) \<and> got = take m out @ [Inl e] \<and>
    (e = FjScanLengthOverflow \<or> FetchFailed e \<in> set replies))"

lemma cut_short_Cons:
  "cut_short replies out got \<Longrightarrow> is_ok row \<Longrightarrow> cut_short (reply # replies) (row # out) (row # got)"
  unfolding cut_short_def by (elim exE conjE, rule_tac x = "Suc m" in exI) auto

lemma cut_short_later: "cut_short replies out got \<Longrightarrow> cut_short (reply # replies) out got"
  unfolding cut_short_def by auto

lemma stream_polls_owes:
  assumes "owes next_row s left"
  shows "prefix (stream_polls next_row replies s) left \<or> cut_short replies left (stream_polls next_row replies s)"
    and "length left < length (filter (\<lambda>r. r \<noteq> FetchPending) replies) \<Longrightarrow>
      stream_polls next_row replies s = left \<or> cut_short replies left (stream_polls next_row replies s)"
proof -
  have "(prefix (stream_polls next_row replies s) left \<and>
      (length left < length (filter (\<lambda>r. r \<noteq> FetchPending) replies) \<longrightarrow> stream_polls next_row replies s = left)) \<or>
    cut_short replies left (stream_polls next_row replies s)"
    using assms
  proof (induction replies arbitrary: s left)
    case Nil
    then show ?case by simp
  next
    case (Cons reply replies)
    obtain r s' where step: "stream_poll_next next_row reply s = (r, s')" by (metis prod.collapse)
    from stream_poll_owes [OF Cons.prems step] show ?case
    proof (rule disjE)
      assume owed: "case r of PollPending \<Rightarrow> owes next_row s' left \<and> reply = FetchPending
        | PollReady None \<Rightarrow> left = []
        | PollReady (Some row) \<Rightarrow> (\<exists>left'. left = row # left' \<and> owes next_row s' left' \<and>
            (is_ok row \<or> stream_source s' = None))"
      show ?thesis
      proof (cases r)
        case PollPending
        with owed have "owes next_row s' left" "reply = FetchPending" by auto
        with Cons.IH [of s' left] step PollPending show ?thesis by (auto intro: cut_short_later)
      next
        case (PollReady x)
        show ?thesis
        proof (cases x)
          case None
          with owed PollReady step show ?thesis by simp
        next
          case (Some row)
          with owed PollReady obtain left' where left': "left = row # left'" "owes next_row s' left'"
            "is_ok row \<or> stream_source s' = None" by auto
          show ?thesis
          proof (cases "is_ok row")
            case True
            with left' Cons.IH [of s' left'] step PollReady Some show ?thesis
              by (auto intro: cut_short_Cons split: if_splits)
          next
            case False
            with left' have rest: "stream_source s' = None" "bs_rows s' = left'" by (auto simp: owes_def)
            have "length (filter (\<lambda>r. r \<noteq> FetchPending) replies) \<le> length replies" by simp
            with rest show ?thesis using step PollReady Some left'(1)
              by (auto simp: stream_polls_drained take_is_prefix dest: order.strict_trans2 [OF _ length_filter_le])
          qed
        qed
      qed
    next
      assume "\<exists>m e. m \<le> length left \<and> list_all is_ok (take m left) \<and> (e = FjScanLengthOverflow \<or> reply = FetchFailed e) \<and>
        (\<exists>row. r = PollReady (Some row) \<and> row # bs_rows s' = take m left @ [Inl e]) \<and> stream_source s' = None"
      then obtain m e row where m: "m \<le> length left" "list_all is_ok (take m left)" and e: "e = FjScanLengthOverflow \<or> reply = FetchFailed e"
        and r: "r = PollReady (Some row)" and rows: "row # bs_rows s' = take m left @ [Inl e]"
        and drained: "stream_source s' = None"
        by auto
      have got: "stream_polls next_row (reply # replies) s = take (Suc (length replies)) (take m left @ [Inl e])"
        using step r drained by (simp add: stream_polls_drained flip: rows)
      show ?thesis
      proof (cases "m \<le> length replies")
        case True
        then have "stream_polls next_row (reply # replies) s = take m left @ [Inl e]"
          using m by (simp add: got del: stream_polls.simps)
        with m e show ?thesis unfolding cut_short_def by auto
      next
        case False
        then have "stream_polls next_row (reply # replies) s = take (Suc (length replies)) left"
          using m by (simp add: got min_absorb1 del: stream_polls.simps)
        moreover have "length (filter (\<lambda>r. r \<noteq> FetchPending) (reply # replies)) \<le> Suc (length replies)"
          by (metis length_Cons length_filter_le)
        ultimately show ?thesis using False m by (auto simp: take_is_prefix simp del: filter.simps stream_polls.simps)
      qed
    qed
  qed
  then show "prefix (stream_polls next_row replies s) left \<or> cut_short replies left (stream_polls next_row replies s)"
    and "length left < length (filter (\<lambda>r. r \<noteq> FetchPending) replies) \<Longrightarrow>
      stream_polls next_row replies s = left \<or> cut_short replies left (stream_polls next_row replies s)"
    by blast+
qed

text \<open>Both cursors of the adapter are read this way: an event cursor by its sized rows, and the stream
catalog by its ids.\<close>

lemma cursor_yields: "yields (next_sized strategy) c (cursor_drain strategy c)"
proof (induction strategy c rule: cursor_drain.induct)
  case (1 strategy c)
  obtain r c' where step: "next_sized strategy c = (r, c')" by (metis prod.collapse)
  show ?case
  proof (cases r)
    case None
    with step show ?thesis
      by (subst cursor_drain.simps) (auto simp: poll_one_def intro: yields_end)
  next
    case (Some row)
    obtain x n where row: "row = (x, n)" by (metis prod.collapse)
    have poll: "poll_one strategy c = (Some x, c')" using step Some row by (simp add: poll_one_def)
    have drain: "cursor_drain strategy c = x # cursor_drain strategy c'"
      by (subst cursor_drain.simps) (simp add: poll)
    from 1 poll have IH: "yields (next_sized strategy) c' (cursor_drain strategy c')" by simp
    show ?thesis
    proof (cases x)
      case (Inl e)
      then have "sc_poisoned c'" using step Some row
        by (auto simp: next_sized_def Let_def split: if_splits list.splits sum.splits prod.splits option.splits)
      then have "cursor_drain strategy c' = []"
        by (metis (full_types) cursor_drain_end(2) scan_cursor.surjective unit.exhaust)
      with Inl step Some row drain show ?thesis by (auto intro: yields_error)
    next
      case (Inr y)
      with step Some row drain IH show ?thesis by (auto intro: yields_row)
    qed
  qed
qed

lemma id_yields: "yields id_next_row c (id_drain c)"
proof (induction c rule: id_drain.induct)
  case (1 c)
  obtain r c' where poll: "id_poll_one c = (r, c')" by (metis prod.collapse)
  show ?case
  proof (cases r)
    case None
    with poll show ?thesis
      by (subst id_drain.simps) (auto simp: id_next_row_def intro: yields_end)
  next
    case (Some x)
    then have drain: "id_drain c = x # id_drain c'"
      by (subst id_drain.simps) (simp add: poll)
    from 1 poll Some have IH: "yields id_next_row c' (id_drain c')" by simp
    show ?thesis
    proof (cases x)
      case (Inl e)
      then have "sc_poisoned c'" using poll Some
        by (auto simp: id_poll_one_def split: if_splits list.splits sum.splits prod.splits)
      then have "id_drain c' = []" by (subst id_drain.simps) (simp add: id_poll_one_def)
      with Inl poll Some drain show ?thesis by (auto simp: id_next_row_def intro: yields_error)
    next
      case (Inr y)
      with poll Some have "id_next_row c = (Some (Inr y, length (key_bytes y)), c')" by (simp add: id_next_row_def)
      from yields_row [of id_next_row, OF this IH] Inr drain show ?thesis by simp
    qed
  qed
qed

end
