(* ===== verification/Fjall_Worker.thy ===== *)
theory Fjall_Worker
  imports Fjall_Blocking
begin

text \<open>
  The blocking worker of the fjall adapter, \<open>adapters/fjall/src/blocking.rs\<close>: one thread that takes
  storage jobs from one bounded queue and the cleanups of dropped cursors from another. The channels
  and the biased choice between two receives belong to the libraries the adapter calls and are a
  parameter. The lemmas show that every admitted job runs at most once and in the order it was
  admitted, that none is lost, that cleanups cannot starve jobs, that live scans stay within their
  limit, and that a worker whose handles are gone drains both queues and ends.
\<close>

section \<open>Channels\<close>

datatype side = LeftReady | RightReady

record ('ch, 'j) channel_lib =
  cl_recv :: "'ch \<Rightarrow> 'j option poll \<times> 'ch"
  cl_reserve :: "'ch \<Rightarrow> 'ch option"
  cl_send :: "'j \<Rightarrow> 'ch \<Rightarrow> 'ch"
  cl_release :: "'ch \<Rightarrow> 'ch"
  cl_drop_handles :: "'ch \<Rightarrow> 'ch"
  cl_select :: "bool \<Rightarrow> bool \<Rightarrow> side option"

text \<open>What the documentation of a bounded channel lets one see of it: the queued messages, the reserved
slots not yet used, the capacity, and whether sending handles are left.\<close>

record 'j channel_view =
  cv_queue :: "'j list"
  cv_permits :: nat
  cv_capacity :: nat
  cv_handles :: bool

definition channel_lib_ok :: "('ch, 'j) channel_lib \<Rightarrow> ('ch \<Rightarrow> 'j channel_view) \<Rightarrow> bool" where
  "channel_lib_ok lib view \<longleftrightarrow>
    (\<forall>ch. case cv_queue (view ch) of
        j # rest \<Rightarrow> (\<exists>ch'. cl_recv lib ch = (PollReady (Some j), ch') \<and> view ch' = (view ch)\<lparr>cv_queue := rest\<rparr>)
      | [] \<Rightarrow> (\<exists>ch'. view ch' = view ch \<and>
          cl_recv lib ch = (if cv_handles (view ch) \<or> 0 < cv_permits (view ch) then PollPending else PollReady None, ch'))) \<and>
    (\<forall>ch. case cl_reserve lib ch of
        None \<Rightarrow> cv_capacity (view ch) \<le> length (cv_queue (view ch)) + cv_permits (view ch)
      | Some ch' \<Rightarrow> length (cv_queue (view ch)) + cv_permits (view ch) < cv_capacity (view ch) \<and>
          view ch' = (view ch)\<lparr>cv_permits := Suc (cv_permits (view ch))\<rparr>) \<and>
    (\<forall>ch j. 0 < cv_permits (view ch) \<longrightarrow>
      view (cl_send lib j ch) = (view ch)\<lparr>cv_queue := cv_queue (view ch) @ [j], cv_permits := cv_permits (view ch) - 1\<rparr>) \<and>
    (\<forall>ch. 0 < cv_permits (view ch) \<longrightarrow> view (cl_release lib ch) = (view ch)\<lparr>cv_permits := cv_permits (view ch) - 1\<rparr>) \<and>
    (\<forall>ch. view (cl_drop_handles lib ch) = (view ch)\<lparr>cv_handles := False\<rparr>) \<and>
    (\<forall>b. cl_select lib True b = Some LeftReady) \<and>
    cl_select lib False True = Some RightReady \<and>
    cl_select lib False False = None"

lemma channel_lib_okD:
  assumes "channel_lib_ok lib view"
  shows "cv_queue (view ch) = j # rest \<Longrightarrow>
      \<exists>ch'. cl_recv lib ch = (PollReady (Some j), ch') \<and> view ch' = (view ch)\<lparr>cv_queue := rest\<rparr>"
    and "cv_queue (view ch) = [] \<Longrightarrow> \<exists>ch'. view ch' = view ch \<and>
      cl_recv lib ch = (if cv_handles (view ch) \<or> 0 < cv_permits (view ch) then PollPending else PollReady None, ch')"
    and "cl_reserve lib ch = Some ch' \<Longrightarrow> length (cv_queue (view ch)) + cv_permits (view ch) < cv_capacity (view ch)"
    and "cl_reserve lib ch = Some ch' \<Longrightarrow> view ch' = (view ch)\<lparr>cv_permits := Suc (cv_permits (view ch))\<rparr>"
    and "cl_reserve lib ch = None \<Longrightarrow> cv_capacity (view ch) \<le> length (cv_queue (view ch)) + cv_permits (view ch)"
    and "0 < cv_permits (view ch) \<Longrightarrow> view (cl_send lib j ch) =
      (view ch)\<lparr>cv_queue := cv_queue (view ch) @ [j], cv_permits := cv_permits (view ch) - 1\<rparr>"
    and "0 < cv_permits (view ch) \<Longrightarrow> view (cl_release lib ch) = (view ch)\<lparr>cv_permits := cv_permits (view ch) - 1\<rparr>"
    and "view (cl_drop_handles lib ch) = (view ch)\<lparr>cv_handles := False\<rparr>"
    and "cl_select lib True b = Some LeftReady"
    and "cl_select lib False True = Some RightReady"
    and "cl_select lib False False = None"
proof -
  from assms have all: "\<And>ch. case cv_queue (view ch) of
        j # rest \<Rightarrow> (\<exists>ch'. cl_recv lib ch = (PollReady (Some j), ch') \<and> view ch' = (view ch)\<lparr>cv_queue := rest\<rparr>)
      | [] \<Rightarrow> (\<exists>ch'. view ch' = view ch \<and>
          cl_recv lib ch = (if cv_handles (view ch) \<or> 0 < cv_permits (view ch) then PollPending else PollReady None, ch'))"
    "\<And>ch. case cl_reserve lib ch of
        None \<Rightarrow> cv_capacity (view ch) \<le> length (cv_queue (view ch)) + cv_permits (view ch)
      | Some ch' \<Rightarrow> length (cv_queue (view ch)) + cv_permits (view ch) < cv_capacity (view ch) \<and>
          view ch' = (view ch)\<lparr>cv_permits := Suc (cv_permits (view ch))\<rparr>"
    unfolding channel_lib_ok_def by blast+
  show "cv_queue (view ch) = j # rest \<Longrightarrow>
      \<exists>ch'. cl_recv lib ch = (PollReady (Some j), ch') \<and> view ch' = (view ch)\<lparr>cv_queue := rest\<rparr>"
    using all(1) [of ch] by simp
  show "cv_queue (view ch) = [] \<Longrightarrow> \<exists>ch'. view ch' = view ch \<and>
      cl_recv lib ch = (if cv_handles (view ch) \<or> 0 < cv_permits (view ch) then PollPending else PollReady None, ch')"
    using all(1) [of ch] by simp
  show "cl_reserve lib ch = Some ch' \<Longrightarrow> length (cv_queue (view ch)) + cv_permits (view ch) < cv_capacity (view ch)"
    "cl_reserve lib ch = Some ch' \<Longrightarrow> view ch' = (view ch)\<lparr>cv_permits := Suc (cv_permits (view ch))\<rparr>"
    "cl_reserve lib ch = None \<Longrightarrow> cv_capacity (view ch) \<le> length (cv_queue (view ch)) + cv_permits (view ch)"
    using all(2) [of ch] by simp_all
qed (use assms in \<open>unfold channel_lib_ok_def, blast+\<close>)

section \<open>The worker loop\<close>

datatype queue = QueueJobs | QueueCleanup

datatype open_queues = OpenBoth queue | OpenJobs | OpenCleanup | OpenClosed

datatype 'j worker_event = WorkerJob 'j open_queues | ChannelClosed open_queues | TimerTick

definition received :: "'j option \<Rightarrow> open_queues \<Rightarrow> open_queues \<Rightarrow> 'j worker_event" where
  "received work nxt closed = (case work of None \<Rightarrow> ChannelClosed closed | Some ready \<Rightarrow> WorkerJob ready nxt)"

definition recv_event ::
  "('ch, 'j) channel_lib \<Rightarrow> 'ch \<Rightarrow> open_queues \<Rightarrow> open_queues \<Rightarrow> ('j worker_event \<times> 'ch) option" where
  "recv_event lib ch nxt closed =
    (case cl_recv lib ch of
       (PollPending, _) \<Rightarrow> None
     | (PollReady work, ch') \<Rightarrow> Some (received work nxt closed, ch'))"

definition recv_ready :: "('ch, 'j) channel_lib \<Rightarrow> 'ch \<Rightarrow> bool" where
  "recv_ready lib ch = (case fst (cl_recv lib ch) of PollPending \<Rightarrow> False | PollReady _ \<Rightarrow> True)"

text \<open>None means that the worker goes on waiting.\<close>

fun next_job :: "('ch, 'j) channel_lib \<Rightarrow> 'ch \<Rightarrow> 'ch \<Rightarrow> open_queues \<Rightarrow> ('j worker_event \<times> 'ch \<times> 'ch) option" where
  "next_job lib receiver discarded (OpenBoth QueueCleanup) =
    (case cl_select lib (recv_ready lib discarded) (recv_ready lib receiver) of
       None \<Rightarrow> None
     | Some LeftReady \<Rightarrow>
         map_option (\<lambda>(ev, ch). (ev, receiver, ch)) (recv_event lib discarded (OpenBoth QueueJobs) OpenJobs)
     | Some RightReady \<Rightarrow>
         map_option (\<lambda>(ev, ch). (ev, ch, discarded)) (recv_event lib receiver (OpenBoth QueueCleanup) OpenCleanup))"
| "next_job lib receiver discarded (OpenBoth QueueJobs) =
    (case cl_select lib (recv_ready lib receiver) (recv_ready lib discarded) of
       None \<Rightarrow> None
     | Some LeftReady \<Rightarrow>
         map_option (\<lambda>(ev, ch). (ev, ch, discarded)) (recv_event lib receiver (OpenBoth QueueCleanup) OpenCleanup)
     | Some RightReady \<Rightarrow>
         map_option (\<lambda>(ev, ch). (ev, receiver, ch)) (recv_event lib discarded (OpenBoth QueueJobs) OpenJobs))"
| "next_job lib receiver discarded OpenJobs =
    map_option (\<lambda>(ev, ch). (ev, ch, discarded)) (recv_event lib receiver OpenJobs OpenClosed)"
| "next_job lib receiver discarded OpenCleanup =
    map_option (\<lambda>(ev, ch). (ev, receiver, ch)) (recv_event lib discarded OpenCleanup OpenClosed)"
| "next_job lib receiver discarded OpenClosed = Some (ChannelClosed OpenClosed, receiver, discarded)"

text \<open>The worker with a record of what was sent to it and what it ran. Every message carries the queue
it was sent to.\<close>

record ('ch, 'j) worker =
  wk_receiver :: 'ch
  wk_discarded :: 'ch
  wk_open :: open_queues
  wk_sent :: "(queue \<times> 'j) list"
  wk_ran :: "(queue \<times> 'j) list"

definition worker_new :: "'ch \<Rightarrow> 'ch \<Rightarrow> ('ch, 'j) worker" where
  "worker_new receiver discarded =
    \<lparr>wk_receiver = receiver, wk_discarded = discarded, wk_open = OpenBoth QueueCleanup, wk_sent = [], wk_ran = []\<rparr>"

text \<open>One turn of the loop, unless the loop is over or nothing is ready. The expiry timer is only
looked at when neither queue has anything.\<close>

definition worker_turn :: "('ch, queue \<times> 'j) channel_lib \<Rightarrow> bool \<Rightarrow> ('ch, 'j) worker \<Rightarrow> ('ch, 'j) worker option" where
  "worker_turn lib expired w =
    (if wk_open w = OpenClosed then None
     else case (case next_job lib (wk_receiver w) (wk_discarded w) (wk_open w) of
         Some ev \<Rightarrow> Some ev
       | None \<Rightarrow> if expired then Some (TimerTick, wk_receiver w, wk_discarded w) else None) of
       None \<Rightarrow> None
     | Some (WorkerJob work nxt, receiver, discarded) \<Rightarrow>
         Some (w\<lparr>wk_receiver := receiver, wk_discarded := discarded, wk_open := nxt, wk_ran := wk_ran w @ [work]\<rparr>)
     | Some (ChannelClosed nxt, receiver, discarded) \<Rightarrow>
         Some (w\<lparr>wk_receiver := receiver, wk_discarded := discarded, wk_open := nxt\<rparr>)
     | Some (TimerTick, receiver, discarded) \<Rightarrow> Some (w\<lparr>wk_receiver := receiver, wk_discarded := discarded\<rparr>))"

primrec run_worker :: "('ch, queue \<times> 'j) channel_lib \<Rightarrow> nat \<Rightarrow> ('ch, 'j) worker \<Rightarrow> ('ch, 'j) worker" where
  "run_worker lib 0 w = w"
| "run_worker lib (Suc n) w = (case worker_turn lib False w of None \<Rightarrow> w | Some w' \<Rightarrow> run_worker lib n w')"

section \<open>Its clients\<close>

definition worker_reserve :: "('ch, queue \<times> 'j) channel_lib \<Rightarrow> ('ch, 'j) worker \<Rightarrow> ('ch, 'j) worker option" where
  "worker_reserve lib w = map_option (\<lambda>ch. w\<lparr>wk_receiver := ch\<rparr>) (cl_reserve lib (wk_receiver w))"

definition worker_submit :: "('ch, queue \<times> 'j) channel_lib \<Rightarrow> 'j \<Rightarrow> ('ch, 'j) worker \<Rightarrow> ('ch, 'j) worker" where
  "worker_submit lib j w =
    w\<lparr>wk_receiver := cl_send lib (QueueJobs, j) (wk_receiver w), wk_sent := wk_sent w @ [(QueueJobs, j)]\<rparr>"

definition worker_reserve_cursor :: "('ch, queue \<times> 'j) channel_lib \<Rightarrow> ('ch, 'j) worker \<Rightarrow> ('ch, 'j) worker option" where
  "worker_reserve_cursor lib w = map_option (\<lambda>ch. w\<lparr>wk_discarded := ch\<rparr>) (cl_reserve lib (wk_discarded w))"

definition managed_cursor_drop :: "('ch, queue \<times> 'j) channel_lib \<Rightarrow> 'j \<Rightarrow> ('ch, 'j) worker \<Rightarrow> ('ch, 'j) worker" where
  "managed_cursor_drop lib j w =
    w\<lparr>wk_discarded := cl_send lib (QueueCleanup, j) (wk_discarded w), wk_sent := wk_sent w @ [(QueueCleanup, j)]\<rparr>"

definition worker_drop_handles :: "('ch, queue \<times> 'j) channel_lib \<Rightarrow> ('ch, 'j) worker \<Rightarrow> ('ch, 'j) worker" where
  "worker_drop_handles lib w =
    w\<lparr>wk_receiver := cl_drop_handles lib (wk_receiver w), wk_discarded := cl_drop_handles lib (wk_discarded w)\<rparr>"

text \<open>A slot borrows its handle, so handles are dropped only once no slot is left; the reservation of a
cursor owns its own handle and outlives them.\<close>

inductive client_step ::
  "('ch, queue \<times> 'j) channel_lib \<Rightarrow> ('ch \<Rightarrow> (queue \<times> 'j) channel_view) \<Rightarrow> ('ch, 'j) worker \<Rightarrow> ('ch, 'j) worker \<Rightarrow> bool"
  for lib view where
  slot_reserved: "cv_handles (view (wk_receiver w)) \<Longrightarrow> worker_reserve lib w = Some w' \<Longrightarrow> client_step lib view w w'"
| slot_released: "0 < cv_permits (view (wk_receiver w)) \<Longrightarrow>
    client_step lib view w (w\<lparr>wk_receiver := cl_release lib (wk_receiver w)\<rparr>)"
| job_submitted: "0 < cv_permits (view (wk_receiver w)) \<Longrightarrow> client_step lib view w (worker_submit lib j w)"
| cursor_reserved: "cv_handles (view (wk_discarded w)) \<Longrightarrow> worker_reserve_cursor lib w = Some w' \<Longrightarrow>
    client_step lib view w w'"
| cursor_released: "0 < cv_permits (view (wk_discarded w)) \<Longrightarrow>
    client_step lib view w (w\<lparr>wk_discarded := cl_release lib (wk_discarded w)\<rparr>)"
| cursor_dropped: "0 < cv_permits (view (wk_discarded w)) \<Longrightarrow> client_step lib view w (managed_cursor_drop lib j w)"
| handles_dropped: "cv_permits (view (wk_receiver w)) = 0 \<Longrightarrow> client_step lib view w (worker_drop_handles lib w)"

text \<open>Executions, with the number of turns the worker took in them; ticks of the timer are not counted.\<close>

inductive worker_exec ::
  "('ch, queue \<times> 'j) channel_lib \<Rightarrow> ('ch \<Rightarrow> (queue \<times> 'j) channel_view) \<Rightarrow> nat \<Rightarrow> ('ch, 'j) worker \<Rightarrow> ('ch, 'j) worker \<Rightarrow> bool"
  for lib view where
  exec_none: "worker_exec lib view 0 w w"
| exec_client: "worker_exec lib view n w w' \<Longrightarrow> client_step lib view w' w'' \<Longrightarrow> worker_exec lib view n w w''"
| exec_tick: "worker_exec lib view n w w' \<Longrightarrow> worker_turn lib False w' = None \<Longrightarrow>
    worker_turn lib True w' = Some w'' \<Longrightarrow> worker_exec lib view n w w''"
| exec_turn: "worker_exec lib view n w w' \<Longrightarrow> worker_turn lib False w' = Some w'' \<Longrightarrow>
    worker_exec lib view (Suc n) w w''"

section \<open>Lemmas: one turn\<close>

definition drained :: "'j channel_view \<Rightarrow> bool" where
  "drained v \<longleftrightarrow> cv_queue v = [] \<and> \<not> cv_handles v \<and> cv_permits v = 0"

lemma recv_event_cases:
  assumes "channel_lib_ok lib view"
  obtains (message) j rest ch' where "cv_queue (view ch) = j # rest" "recv_ready lib ch"
    "recv_event lib ch nxt closed = Some (WorkerJob j nxt, ch')" "view ch' = (view ch)\<lparr>cv_queue := rest\<rparr>"
  | (closed) ch' where "drained (view ch)" "recv_ready lib ch"
    "recv_event lib ch nxt closed = Some (ChannelClosed closed, ch')" "view ch' = view ch"
  | (waiting) "cv_queue (view ch) = []" "\<not> drained (view ch)" "\<not> recv_ready lib ch"
    "recv_event lib ch nxt closed = None"
proof (cases "cv_queue (view ch)")
  case (Cons j rest)
  from channel_lib_okD(1) [OF assms this] obtain ch' where "cl_recv lib ch = (PollReady (Some j), ch')"
    "view ch' = (view ch)\<lparr>cv_queue := rest\<rparr>" by auto
  with Cons show ?thesis
    by (intro message [of j rest ch']) (auto simp: recv_event_def recv_ready_def received_def)
next
  case Nil
  from channel_lib_okD(2) [OF assms this] obtain ch' where "view ch' = view ch"
    "cl_recv lib ch = (if cv_handles (view ch) \<or> 0 < cv_permits (view ch) then PollPending else PollReady None, ch')"
    by auto
  with Nil show ?thesis
    by (cases "drained (view ch)")
      (auto simp: drained_def recv_event_def recv_ready_def received_def intro: closed waiting)
qed

lemma recv_ready_iff:
  assumes "channel_lib_ok lib view"
  shows "recv_ready lib ch \<longleftrightarrow> cv_queue (view ch) \<noteq> [] \<or> drained (view ch)"
  by (rule recv_event_cases [OF assms, of ch undefined undefined]) (auto simp: drained_def)

definition after_job :: "open_queues \<Rightarrow> open_queues" where
  "after_job op = (case op of OpenBoth _ \<Rightarrow> OpenBoth QueueCleanup | _ \<Rightarrow> op)"

definition after_cleanup :: "open_queues \<Rightarrow> open_queues" where
  "after_cleanup op = (case op of OpenBoth _ \<Rightarrow> OpenBoth QueueJobs | _ \<Rightarrow> op)"

definition takes_jobs :: "open_queues \<Rightarrow> bool" where
  "takes_jobs op \<longleftrightarrow> op \<noteq> OpenCleanup \<and> op \<noteq> OpenClosed"

definition takes_cleanups :: "open_queues \<Rightarrow> bool" where
  "takes_cleanups op \<longleftrightarrow> op \<noteq> OpenJobs \<and> op \<noteq> OpenClosed"

lemmas open_simps = after_job_def after_cleanup_def takes_jobs_def takes_cleanups_def

text \<open>What one turn does, read off the queues.\<close>

inductive turns :: "('ch \<Rightarrow> (queue \<times> 'j) channel_view) \<Rightarrow> ('ch, 'j) worker \<Rightarrow> ('ch, 'j) worker \<Rightarrow> bool"
  for view where
  ran_job: "cv_queue (view (wk_receiver w)) = m # rest \<Longrightarrow> takes_jobs (wk_open w) \<Longrightarrow>
    view (wk_receiver w') = (view (wk_receiver w))\<lparr>cv_queue := rest\<rparr> \<Longrightarrow>
    view (wk_discarded w') = view (wk_discarded w) \<Longrightarrow> wk_open w' = after_job (wk_open w) \<Longrightarrow>
    wk_sent w' = wk_sent w \<Longrightarrow> wk_ran w' = wk_ran w @ [m] \<Longrightarrow> turns view w w'"
| ran_cleanup: "cv_queue (view (wk_discarded w)) = m # rest \<Longrightarrow> takes_cleanups (wk_open w) \<Longrightarrow>
    wk_open w = OpenBoth QueueJobs \<longrightarrow> cv_queue (view (wk_receiver w)) = [] \<Longrightarrow>
    view (wk_receiver w') = view (wk_receiver w) \<Longrightarrow>
    view (wk_discarded w') = (view (wk_discarded w))\<lparr>cv_queue := rest\<rparr> \<Longrightarrow> wk_open w' = after_cleanup (wk_open w) \<Longrightarrow>
    wk_sent w' = wk_sent w \<Longrightarrow> wk_ran w' = wk_ran w @ [m] \<Longrightarrow> turns view w w'"
| jobs_closed: "drained (view (wk_receiver w)) \<Longrightarrow> takes_jobs (wk_open w) \<Longrightarrow>
    view (wk_receiver w') = view (wk_receiver w) \<Longrightarrow> view (wk_discarded w') = view (wk_discarded w) \<Longrightarrow>
    wk_open w' = (if wk_open w = OpenJobs then OpenClosed else OpenCleanup) \<Longrightarrow>
    wk_sent w' = wk_sent w \<Longrightarrow> wk_ran w' = wk_ran w \<Longrightarrow> turns view w w'"
| cleanup_closed: "drained (view (wk_discarded w)) \<Longrightarrow> takes_cleanups (wk_open w) \<Longrightarrow>
    wk_open w = OpenBoth QueueJobs \<longrightarrow> cv_queue (view (wk_receiver w)) = [] \<Longrightarrow>
    view (wk_receiver w') = view (wk_receiver w) \<Longrightarrow> view (wk_discarded w') = view (wk_discarded w) \<Longrightarrow>
    wk_open w' = (if wk_open w = OpenCleanup then OpenClosed else OpenJobs) \<Longrightarrow>
    wk_sent w' = wk_sent w \<Longrightarrow> wk_ran w' = wk_ran w \<Longrightarrow> turns view w w'"

definition waits :: "('ch \<Rightarrow> (queue \<times> 'j) channel_view) \<Rightarrow> ('ch, 'j) worker \<Rightarrow> bool" where
  "waits view w \<longleftrightarrow>
    (takes_jobs (wk_open w) \<longrightarrow> cv_queue (view (wk_receiver w)) = [] \<and> \<not> drained (view (wk_receiver w))) \<and>
    (takes_cleanups (wk_open w) \<longrightarrow> cv_queue (view (wk_discarded w)) = [] \<and> \<not> drained (view (wk_discarded w)))"

lemma worker_turn_turns:
  assumes "channel_lib_ok lib view" "worker_turn lib False w = r"
  shows "case r of Some w' \<Rightarrow> turns view w w' | None \<Rightarrow> waits view w"
proof -
  note sel = channel_lib_okD(9-11) [OF assms(1)]
  let ?Q = "wk_receiver w" and ?C = "wk_discarded w"
  show ?thesis
  proof (cases "wk_open w")
    case (OpenBoth q)
    show ?thesis
    proof (cases rule: recv_event_cases [OF assms(1), of ?Q "OpenBoth QueueCleanup" OpenCleanup,
          case_product recv_event_cases [OF assms(1), of ?C "OpenBoth QueueJobs" OpenJobs]])
    qed (use OpenBoth assms(2) sel in \<open>cases q; auto simp: worker_turn_def open_simps waits_def drained_def
        intro: turns.intros [where w = w, unfolded open_simps]\<close>)+
  next
    case OpenJobs
    show ?thesis using assms(1)
    proof (cases rule: recv_event_cases [where ch = "?Q" and nxt = OpenJobs and closed = OpenClosed])
      case message
      with OpenJobs assms(2) show ?thesis
        by (auto simp: worker_turn_def open_simps intro!: turns.ran_job)
    next
      case closed
      with OpenJobs assms(2) show ?thesis
        by (auto simp: worker_turn_def open_simps intro!: turns.jobs_closed)
    next
      case waiting
      with OpenJobs assms(2) show ?thesis by (auto simp: worker_turn_def open_simps waits_def)
    qed
  next
    case OpenCleanup
    show ?thesis using assms(1)
    proof (cases rule: recv_event_cases [where ch = "?C" and nxt = OpenCleanup and closed = OpenClosed])
      case message
      with OpenCleanup assms(2) show ?thesis
        by (auto simp: worker_turn_def open_simps intro!: turns.ran_cleanup)
    next
      case closed
      with OpenCleanup assms(2) show ?thesis
        by (auto simp: worker_turn_def open_simps intro!: turns.cleanup_closed)
    next
      case waiting
      with OpenCleanup assms(2) show ?thesis by (auto simp: worker_turn_def open_simps waits_def)
    qed
  next
    case OpenClosed
    with assms(2) show ?thesis by (auto simp: worker_turn_def waits_def open_simps)
  qed
qed

section \<open>Lemmas: executions\<close>

definition of_queue :: "queue \<Rightarrow> (queue \<times> 'j) list \<Rightarrow> (queue \<times> 'j) list" where
  "of_queue q ms = filter (\<lambda>m. fst m = q) ms"

lemma of_queue_simps [simp]:
  "of_queue q [] = []" "of_queue q (xs @ ys) = of_queue q xs @ of_queue q ys"
  "of_queue q [m] = (if fst m = q then [m] else [])"
  by (simp_all add: of_queue_def)

definition within_capacity :: "'j channel_view \<Rightarrow> bool" where
  "within_capacity v \<longleftrightarrow> length (cv_queue v) + cv_permits v \<le> cv_capacity v"

text \<open>Per queue, what was sent is what ran followed by what is waiting; a queue the worker no longer
looks at is drained for good.\<close>

definition worker_ok :: "('ch \<Rightarrow> (queue \<times> 'j) channel_view) \<Rightarrow> ('ch, 'j) worker \<Rightarrow> bool" where
  "worker_ok view w \<longleftrightarrow>
    of_queue QueueJobs (wk_sent w) = of_queue QueueJobs (wk_ran w) @ cv_queue (view (wk_receiver w)) \<and>
    of_queue QueueCleanup (wk_sent w) = of_queue QueueCleanup (wk_ran w) @ cv_queue (view (wk_discarded w)) \<and>
    (takes_jobs (wk_open w) \<or> drained (view (wk_receiver w))) \<and>
    (takes_cleanups (wk_open w) \<or> drained (view (wk_discarded w))) \<and>
    within_capacity (view (wk_receiver w)) \<and> within_capacity (view (wk_discarded w))"

lemma worker_ok_new:
  assumes "cv_queue (view receiver) = []" "cv_queue (view discarded) = []"
    "cv_permits (view receiver) = 0" "cv_permits (view discarded) = 0"
  shows "worker_ok view (worker_new receiver discarded)"
  using assms by (simp add: worker_ok_def worker_new_def open_simps within_capacity_def)

lemma waiting_tag:
  assumes "of_queue q sent = of_queue q executed @ m # rest"
  shows "fst m = q"
proof -
  have "m \<in> set (of_queue q sent)" by (simp add: assms)
  then show ?thesis by (simp add: of_queue_def)
qed

lemma turns_ok: "turns view w w' \<Longrightarrow> worker_ok view w \<Longrightarrow> worker_ok view w'"
proof (induction rule: turns.induct)
  case (ran_job w m rest w')
  then have "fst m = QueueJobs" by (auto simp: worker_ok_def dest: waiting_tag)
  with ran_job show ?case
    by (auto simp: worker_ok_def open_simps drained_def within_capacity_def split: open_queues.splits)
next
  case (ran_cleanup w m rest w')
  then have "fst m = QueueCleanup" by (auto simp: worker_ok_def dest: waiting_tag)
  with ran_cleanup show ?case
    by (auto simp: worker_ok_def open_simps drained_def within_capacity_def split: open_queues.splits)
qed (auto simp: worker_ok_def open_simps split: if_splits)

lemma client_step_ok:
  assumes "channel_lib_ok lib view" "client_step lib view w w'" "worker_ok view w"
  shows "worker_ok view w'"
  using assms(2)
proof (cases rule: client_step.cases)
  case slot_reserved
  with assms(3) channel_lib_okD(3,4) [OF assms(1), of "wk_receiver w"] show ?thesis
    by (auto simp: worker_reserve_def worker_ok_def drained_def within_capacity_def)
next
  case slot_released
  with assms(3) channel_lib_okD(7) [OF assms(1), of "wk_receiver w"] show ?thesis
    by (auto simp: worker_ok_def drained_def within_capacity_def)
next
  case job_submitted
  with assms(3) channel_lib_okD(6) [OF assms(1), of "wk_receiver w"] show ?thesis
    by (auto simp: worker_submit_def worker_ok_def drained_def within_capacity_def)
next
  case cursor_reserved
  with assms(3) channel_lib_okD(3,4) [OF assms(1), of "wk_discarded w"] show ?thesis
    by (auto simp: worker_reserve_cursor_def worker_ok_def drained_def within_capacity_def)
next
  case cursor_released
  with assms(3) channel_lib_okD(7) [OF assms(1), of "wk_discarded w"] show ?thesis
    by (auto simp: worker_ok_def drained_def within_capacity_def)
next
  case cursor_dropped
  with assms(3) channel_lib_okD(6) [OF assms(1), of "wk_discarded w"] show ?thesis
    by (auto simp: managed_cursor_drop_def worker_ok_def drained_def within_capacity_def)
next
  case handles_dropped
  with assms(3) channel_lib_okD(8) [OF assms(1)] show ?thesis
    by (auto simp: worker_drop_handles_def worker_ok_def drained_def within_capacity_def)
qed

text \<open>A tick of the timer changes nothing of the queues.\<close>

lemma worker_tick:
  assumes "worker_turn lib False w = None" "worker_turn lib True w = Some w'"
  shows "w' = w"
  using assms by (auto simp: worker_turn_def split: if_splits option.splits prod.splits worker_event.splits)

lemma worker_turn_SomeD:
  "channel_lib_ok lib view \<Longrightarrow> worker_turn lib False w = Some w' \<Longrightarrow> turns view w w'"
  using worker_turn_turns [of lib view w "Some w'"] by simp

lemma worker_exec_ok:
  assumes "channel_lib_ok lib view" "worker_exec lib view n w w'" "worker_ok view w"
  shows "worker_ok view w'"
  using assms(2,3)
proof (induction rule: worker_exec.induct)
  case (exec_client n w w' w'')
  then show ?case using client_step_ok [OF assms(1)] by blast
next
  case (exec_tick n w w' w'')
  then show ?case using worker_tick by blast
next
  case (exec_turn n w w' w'')
  then show ?case using worker_turn_SomeD [OF assms(1)] turns_ok by blast
qed simp

section \<open>Lemmas: no starvation\<close>

lemma prefix_of_queue: "prefix xs ys \<Longrightarrow> prefix (of_queue q xs) (of_queue q ys)"
  by (auto elim: prefixE)

lemma worker_exec_grows:
  assumes "channel_lib_ok lib view" "worker_exec lib view n w w'"
  shows "prefix (wk_sent w) (wk_sent w') \<and> prefix (wk_ran w) (wk_ran w')"
  using assms(2)
proof (induction rule: worker_exec.induct)
  case (exec_client n w w' w'')
  have "prefix (wk_sent w') (wk_sent w'') \<and> wk_ran w'' = wk_ran w'"
    using exec_client.hyps(2)
    by (cases rule: client_step.cases)
      (auto simp: worker_reserve_def worker_submit_def worker_reserve_cursor_def managed_cursor_drop_def
        worker_drop_handles_def)
  with exec_client.IH show ?case by (metis prefix_order.trans)
next
  case (exec_tick n w w' w'')
  then show ?case using worker_tick by blast
next
  case (exec_turn n w w' w'')
  from worker_turn_SomeD [OF assms(1) exec_turn.hyps(2)]
  have "wk_sent w'' = wk_sent w' \<and> prefix (wk_ran w') (wk_ran w'')" by (cases rule: turns.cases) auto
  with exec_turn.IH show ?case by (metis prefix_order.trans)
qed simp

definition jobs_ran :: "('ch, 'j) worker \<Rightarrow> (queue \<times> 'j) list" where
  "jobs_ran w = of_queue QueueJobs (wk_ran w)"

text \<open>A potential that every turn raises while a job is waiting: two for each job run, and one while it
is the jobs' turn.\<close>

definition turn_credit :: "('ch, 'j) worker \<Rightarrow> nat" where
  "turn_credit w = 2 * length (jobs_ran w) + (if wk_open w \<in> {OpenBoth QueueJobs, OpenJobs} then 1 else 0)"

lemma turns_credit:
  assumes "turns view w w'" "worker_ok view w" "cv_queue (view (wk_receiver w)) \<noteq> []"
  shows "turn_credit w < turn_credit w'"
  using assms(1)
proof (cases rule: turns.cases)
  case (ran_job m rest)
  with assms(2) have "fst m = QueueJobs" by (auto simp: worker_ok_def dest: waiting_tag)
  with ran_job show ?thesis
    by (auto simp: turn_credit_def jobs_ran_def open_simps split: open_queues.splits)
next
  case (ran_cleanup m rest)
  with assms(2) have "fst m = QueueCleanup" by (auto simp: worker_ok_def dest: waiting_tag)
  moreover have "wk_open w = OpenBoth QueueCleanup"
    using ran_cleanup(2,3) assms(2,3)
    by (cases "wk_open w") (auto simp: worker_ok_def open_simps drained_def intro: queue.exhaust)
  ultimately show ?thesis using ran_cleanup
    by (auto simp: turn_credit_def jobs_ran_def open_simps)
next
  case jobs_closed
  with assms(3) show ?thesis by (simp add: drained_def)
next
  case cleanup_closed
  moreover have "wk_open w = OpenBoth QueueCleanup"
    using cleanup_closed(2,3) assms(2,3)
    by (cases "wk_open w") (auto simp: worker_ok_def open_simps drained_def intro: queue.exhaust)
  ultimately show ?thesis by (auto simp: turn_credit_def jobs_ran_def)
qed

lemma worker_exec_credit:
  assumes "channel_lib_ok lib view" "worker_exec lib view n w w'" "worker_ok view w"
    "i < length (cv_queue (view (wk_receiver w)))"
  shows "length (jobs_ran w) + i < length (jobs_ran w') \<or> turn_credit w + n \<le> turn_credit w'"
  using assms(2-4)
proof (induction rule: worker_exec.induct)
  case (exec_client n w w' w'')
  then have "wk_ran w'' = wk_ran w' \<and> wk_open w'' = wk_open w'"
    by (auto simp: worker_reserve_def worker_submit_def worker_reserve_cursor_def managed_cursor_drop_def
        worker_drop_handles_def elim!: client_step.cases)
  with exec_client show ?case by (simp add: jobs_ran_def turn_credit_def)
next
  case (exec_tick n w w' w'')
  then show ?case using worker_tick by blast
next
  case (exec_turn n w w' w'')
  note turns = worker_turn_SomeD [OF assms(1) exec_turn.hyps(2)]
  have grows: "prefix (of_queue QueueJobs (wk_sent w)) (of_queue QueueJobs (wk_sent w'))"
    using worker_exec_grows [OF assms(1) exec_turn.hyps(1)] by (simp add: prefix_of_queue)
  have ok: "worker_ok view w'" using worker_exec_ok [OF assms(1) exec_turn.hyps(1)] exec_turn.prems by simp
  have more: "length (jobs_ran w') \<le> length (jobs_ran w'')"
    using turns by (cases rule: turns.cases) (auto simp: jobs_ran_def)
  show ?case
  proof (cases "length (jobs_ran w) + i < length (jobs_ran w')")
    case True
    with more show ?thesis by linarith
  next
    case False
    have "length (jobs_ran w) + length (cv_queue (view (wk_receiver w))) \<le>
      length (jobs_ran w') + length (cv_queue (view (wk_receiver w')))"
      using prefix_length_le [OF grows] exec_turn.prems(1) ok by (simp add: worker_ok_def jobs_ran_def)
    with False exec_turn.prems(2) have "cv_queue (view (wk_receiver w')) \<noteq> []" by auto
    from turns_credit [OF turns ok this] exec_turn.IH [OF exec_turn.prems] False show ?thesis by linarith
  qed
qed simp

lemma worker_exec_serves:
  assumes "channel_lib_ok lib view" "worker_exec lib view n w w'" "worker_ok view w"
    "i < length (cv_queue (view (wk_receiver w)))" "2 * i + 2 \<le> n"
  shows "prefix (jobs_ran w @ take (Suc i) (cv_queue (view (wk_receiver w)))) (jobs_ran w')"
proof -
  have long: "length (jobs_ran w) + i < length (jobs_ran w')"
    using worker_exec_credit [OF assms(1-4)] assms(5) by (auto simp: turn_credit_def split: if_splits)
  have "prefix (jobs_ran w') (of_queue QueueJobs (wk_sent w'))"
    using worker_exec_ok [OF assms(1-3)] by (simp add: worker_ok_def jobs_ran_def)
  note ran = this
  have "prefix (of_queue QueueJobs (wk_sent w)) (of_queue QueueJobs (wk_sent w'))"
    using worker_exec_grows [OF assms(1,2)] by (simp add: prefix_of_queue)
  then have "prefix (jobs_ran w @ cv_queue (view (wk_receiver w))) (of_queue QueueJobs (wk_sent w'))"
    using assms(3) by (simp add: worker_ok_def jobs_ran_def)
  then have "prefix (jobs_ran w @ take (Suc i) (cv_queue (view (wk_receiver w)))) (of_queue QueueJobs (wk_sent w'))"
    by (rule prefix_order.trans [rotated]) (simp add: take_is_prefix)
  from prefix_length_prefix [OF this ran] long show ?thesis by simp
qed

lemma waiting_job_turns:
  assumes "channel_lib_ok lib view" "worker_ok view w" "cv_queue (view (wk_receiver w)) \<noteq> []"
  shows "\<exists>w'. worker_turn lib False w = Some w'"
  using worker_turn_turns [OF assms(1) refl, of w] assms(2,3)
  by (cases "worker_turn lib False w") (auto simp: waits_def worker_ok_def drained_def)

section \<open>Lemmas: ending\<close>

definition closing :: "('ch \<Rightarrow> (queue \<times> 'j) channel_view) \<Rightarrow> ('ch, 'j) worker \<Rightarrow> bool" where
  "closing view w \<longleftrightarrow> \<not> cv_handles (view (wk_receiver w)) \<and> cv_permits (view (wk_receiver w)) = 0 \<and>
    \<not> cv_handles (view (wk_discarded w)) \<and> cv_permits (view (wk_discarded w)) = 0"

definition turns_left :: "('ch \<Rightarrow> (queue \<times> 'j) channel_view) \<Rightarrow> ('ch, 'j) worker \<Rightarrow> nat" where
  "turns_left view w = length (cv_queue (view (wk_receiver w))) + length (cv_queue (view (wk_discarded w))) +
    (case wk_open w of OpenBoth _ \<Rightarrow> 2 | OpenJobs \<Rightarrow> 1 | OpenCleanup \<Rightarrow> 1 | OpenClosed \<Rightarrow> 0)"

lemma turns_closing:
  assumes "turns view w w'" "closing view w"
  shows "closing view w' \<and> turns_left view w = Suc (turns_left view w') \<and> wk_sent w' = wk_sent w"
  using assms by (cases rule: turns.cases)
    (auto simp: closing_def turns_left_def open_simps drained_def split: open_queues.splits)

lemma run_worker_drains:
  assumes "channel_lib_ok lib view" "worker_ok view w" "closing view w" "turns_left view w \<le> n"
  shows "wk_open (run_worker lib n w) = OpenClosed \<and> worker_ok view (run_worker lib n w) \<and>
    wk_sent (run_worker lib n w) = wk_sent w"
  using assms(2-)
proof (induction n arbitrary: w)
  case 0
  then show ?case by (simp add: turns_left_def split: open_queues.splits)
next
  case (Suc n)
  show ?case
  proof (cases "worker_turn lib False w")
    case None
    with worker_turn_turns [OF assms(1) None] have "waits view w" by simp
    with Suc.prems(2) have "wk_open w = OpenClosed"
      by (cases "wk_open w") (auto simp: waits_def closing_def open_simps drained_def)
    with None Suc.prems show ?thesis by simp
  next
    case (Some w')
    from worker_turn_SomeD [OF assms(1) Some] have "turns view w w'" .
    with turns_closing [OF this Suc.prems(2)] turns_ok [OF this Suc.prems(1)] Suc.prems(3)
      Suc.IH [of w'] Some show ?thesis by simp
  qed
qed

lemma worker_exec_capacity:
  assumes "channel_lib_ok lib view" "worker_exec lib view n w w'"
  shows "cv_capacity (view (wk_discarded w')) = cv_capacity (view (wk_discarded w))"
  using assms(2)
proof (induction rule: worker_exec.induct)
  case (exec_client n w w' w'')
  from exec_client.hyps(2) have "cv_capacity (view (wk_discarded w'')) = cv_capacity (view (wk_discarded w'))"
    by (cases rule: client_step.cases)
      (auto simp: worker_reserve_def worker_submit_def worker_reserve_cursor_def managed_cursor_drop_def
        worker_drop_handles_def channel_lib_okD(4,6,7,8) [OF assms(1)])
  with exec_client.IH show ?case by simp
next
  case (exec_tick n w w' w'')
  then show ?case using worker_tick by blast
next
  case (exec_turn n w w' w'')
  from worker_turn_SomeD [OF assms(1) exec_turn.hyps(2)] exec_turn.IH show ?case
    by (cases rule: turns.cases) auto
qed simp

definition fresh_channel :: "'j channel_view \<Rightarrow> bool" where
  "fresh_channel v \<longleftrightarrow> cv_queue v = [] \<and> cv_permits v = 0"

lemma worker_reached_ok:
  assumes "channel_lib_ok lib view" "fresh_channel (view receiver)" "fresh_channel (view discarded)"
    "worker_exec lib view n (worker_new receiver discarded) w"
  shows "worker_ok view w"
  using worker_exec_ok [OF assms(1,4) worker_ok_new] assms(2,3) by (simp add: fresh_channel_def)

text \<open>A channel that is its own view, for concrete instances.\<close>

definition list_channels :: "('j channel_view, 'j) channel_lib" where
  "list_channels =
    \<lparr>cl_recv = (\<lambda>ch. case cv_queue ch of
        j # rest \<Rightarrow> (PollReady (Some j), ch\<lparr>cv_queue := rest\<rparr>)
      | [] \<Rightarrow> (if cv_handles ch \<or> 0 < cv_permits ch then PollPending else PollReady None, ch)),
     cl_reserve = (\<lambda>ch. if length (cv_queue ch) + cv_permits ch < cv_capacity ch
       then Some (ch\<lparr>cv_permits := Suc (cv_permits ch)\<rparr>) else None),
     cl_send = (\<lambda>j ch. ch\<lparr>cv_queue := cv_queue ch @ [j], cv_permits := cv_permits ch - 1\<rparr>),
     cl_release = (\<lambda>ch. ch\<lparr>cv_permits := cv_permits ch - 1\<rparr>),
     cl_drop_handles = (\<lambda>ch. ch\<lparr>cv_handles := False\<rparr>),
     cl_select = (\<lambda>l r. if l then Some LeftReady else if r then Some RightReady else None)\<rparr>"

lemma list_channels_ok: "channel_lib_ok list_channels (\<lambda>ch. ch)"
  by (simp add: channel_lib_ok_def list_channels_def split: list.splits)

definition demo_channel :: "(queue \<times> nat) channel_view" where
  "demo_channel = \<lparr>cv_queue = [], cv_permits = 0, cv_capacity = 2, cv_handles = True\<rparr>"

definition demo_worker :: "((queue \<times> nat) channel_view, nat) worker" where
  "demo_worker =
    \<lparr>wk_receiver = demo_channel\<lparr>cv_queue := [(QueueJobs, 7)], cv_permits := 0\<rparr>,
     wk_discarded = demo_channel\<lparr>cv_queue := [(QueueCleanup, 3)], cv_permits := 0\<rparr>,
     wk_open = OpenBoth QueueCleanup, wk_sent = [(QueueCleanup, 3), (QueueJobs, 7)], wk_ran = []\<rparr>"

lemma demo_channel_fresh: "fresh_channel demo_channel"
  by (simp add: fresh_channel_def demo_channel_def)

lemma demo_worker_reached:
  "worker_exec list_channels (\<lambda>ch. ch) 0 (worker_new demo_channel demo_channel) demo_worker"
proof -
  let ?w0 = "worker_new demo_channel demo_channel :: ((queue \<times> nat) channel_view, nat) worker"
  let ?w1 = "?w0\<lparr>wk_discarded := demo_channel\<lparr>cv_permits := 1\<rparr>\<rparr>"
  let ?w2 = "managed_cursor_drop list_channels 3 ?w1"
  let ?w3 = "?w2\<lparr>wk_receiver := demo_channel\<lparr>cv_permits := 1\<rparr>\<rparr>"
  let ?step = "client_step list_channels (\<lambda>ch. ch)"
  note unf = demo_channel_def worker_new_def list_channels_def managed_cursor_drop_def
  have "?step ?w0 ?w1" by (rule cursor_reserved) (simp_all add: unf worker_reserve_cursor_def)
  moreover have "?step ?w1 ?w2" by (rule cursor_dropped) (simp add: unf)
  moreover have "?step ?w2 ?w3" by (rule slot_reserved) (simp_all add: unf worker_reserve_def)
  moreover have "?step ?w3 (worker_submit list_channels 7 ?w3)" by (rule job_submitted) (simp add: unf)
  ultimately have "worker_exec list_channels (\<lambda>ch. ch) 0 ?w0 (worker_submit list_channels 7 ?w3)"
    by (meson exec_none exec_client)
  then show ?thesis by (simp add: unf worker_submit_def demo_worker_def)
qed

lemma demo_worker_two_turns:
  "worker_exec list_channels (\<lambda>ch. ch) 2 demo_worker (run_worker list_channels 2 demo_worker)"
proof -
  note unf = worker_turn_def demo_worker_def demo_channel_def list_channels_def recv_ready_def recv_event_def received_def
  obtain w1 where w1: "worker_turn list_channels False demo_worker = Some w1" "wk_open w1 = OpenBoth QueueJobs"
    "cv_queue (wk_receiver w1) = [(QueueJobs, 7)]"
    by (simp add: unf)
  obtain w2 where w2: "worker_turn list_channels False w1 = Some w2"
    using w1(2,3) by (simp add: worker_turn_def list_channels_def recv_ready_def recv_event_def received_def)
  have "worker_exec list_channels (\<lambda>ch. ch) (Suc (Suc 0)) demo_worker w2"
    by (rule exec_turn [OF exec_turn [OF exec_none w1(1)] w2])
  with w1(1) w2 show ?thesis by (simp add: numeral_2_eq_2)
qed

section \<open>Properties\<close>

text \<open>C18: the blocking worker runs every admitted storage job and every cursor cleanup at most once and
in the order of admission, and loses none: per queue, what was sent is what ran followed by what is
still queued. Live scans together with the queued cleanups of dropped ones never exceed the limit given
when the store was opened.\<close>

theorem worker_runs_each_job_once:
  assumes "channel_lib_ok lib view" "fresh_channel (view receiver)" "fresh_channel (view discarded)"
    "worker_exec lib view n (worker_new receiver discarded) w"
  shows "of_queue QueueJobs (wk_sent w) = of_queue QueueJobs (wk_ran w) @ cv_queue (view (wk_receiver w)) \<and>
    of_queue QueueCleanup (wk_sent w) = of_queue QueueCleanup (wk_ran w) @ cv_queue (view (wk_discarded w)) \<and>
    length (cv_queue (view (wk_discarded w))) + cv_permits (view (wk_discarded w)) \<le> cv_capacity (view discarded)"
  using worker_reached_ok [OF assms] worker_exec_capacity [OF assms(1,4)]
  by (simp add: worker_ok_def within_capacity_def worker_new_def)

theorem worker_runs_each_job_once_witness:
  "of_queue QueueJobs (wk_sent demo_worker) = of_queue QueueJobs (wk_ran demo_worker) @ cv_queue (wk_receiver demo_worker) \<and>
    length (cv_queue (wk_discarded demo_worker)) + cv_permits (wk_discarded demo_worker) \<le> cv_capacity demo_channel"
  using worker_runs_each_job_once [OF list_channels_ok demo_channel_fresh demo_channel_fresh demo_worker_reached] by simp

text \<open>C13: cleanups cannot starve jobs: whatever the clients do meanwhile, a job with i jobs ahead of it
has run once the worker has taken 2 * i + 2 turns, and a worker with a waiting job never blocks.\<close>

theorem worker_never_starves_jobs:
  assumes "channel_lib_ok lib view" "fresh_channel (view receiver)" "fresh_channel (view discarded)"
    "worker_exec lib view k (worker_new receiver discarded) w"
    "i < length (cv_queue (view (wk_receiver w)))"
  shows "(\<exists>w'. worker_turn lib False w = Some w') \<and>
    (\<forall>n w'. worker_exec lib view n w w' \<longrightarrow> 2 * i + 2 \<le> n \<longrightarrow>
      prefix (jobs_ran w @ take (Suc i) (cv_queue (view (wk_receiver w)))) (jobs_ran w'))"
proof -
  note ok = worker_reached_ok [OF assms(1-4)]
  from assms(5) have "cv_queue (view (wk_receiver w)) \<noteq> []" by auto
  with waiting_job_turns [OF assms(1) ok] worker_exec_serves [OF assms(1) _ ok assms(5)] show ?thesis by blast
qed

theorem worker_never_starves_jobs_witness:
  "prefix (jobs_ran demo_worker @ take (Suc 0) (cv_queue (wk_receiver demo_worker)))
    (jobs_ran (run_worker list_channels 2 demo_worker)) \<and>
    jobs_ran (run_worker list_channels 2 demo_worker) = [(QueueJobs, 7)]"
proof -
  have "0 < length (cv_queue (wk_receiver demo_worker))" by (simp add: demo_worker_def)
  from worker_never_starves_jobs [OF list_channels_ok demo_channel_fresh demo_channel_fresh demo_worker_reached this]
    demo_worker_two_turns
  have "prefix (jobs_ran demo_worker @ take (Suc 0) (cv_queue (wk_receiver demo_worker)))
    (jobs_ran (run_worker list_channels 2 demo_worker))" by simp
  moreover have "jobs_ran (run_worker list_channels 2 demo_worker) = [(QueueJobs, 7)]"
    by (simp add: numeral_2_eq_2 worker_turn_def demo_worker_def demo_channel_def list_channels_def recv_ready_def
        recv_event_def received_def jobs_ran_def of_queue_def)
  ultimately show ?thesis by simp
qed

text \<open>C19: once the last handle is gone and no scan is left open, the worker runs everything that was
admitted and its loop ends, after at most one turn per queued message and two more.\<close>

theorem worker_drains_and_ends:
  assumes "channel_lib_ok lib view" "fresh_channel (view receiver)" "fresh_channel (view discarded)"
    "worker_exec lib view k (worker_new receiver discarded) w"
    "closing view w"
    "length (cv_queue (view (wk_receiver w))) + length (cv_queue (view (wk_discarded w))) + 2 \<le> n"
  shows "wk_open (run_worker lib n w) = OpenClosed \<and>
    (\<forall>q. of_queue q (wk_ran (run_worker lib n w)) = of_queue q (wk_sent w))"
proof -
  have "turns_left view w \<le> n"
    using assms(6) by (simp add: turns_left_def split: open_queues.splits)
  note ended = run_worker_drains [OF assms(1) worker_reached_ok [OF assms(1-4)] assms(5) this]
  have "of_queue q (wk_ran (run_worker lib n w)) = of_queue q (wk_sent w)" for q
    using ended by (cases q) (auto simp: worker_ok_def open_simps drained_def)
  with ended show ?thesis by simp
qed

theorem worker_drains_and_ends_witness:
  "wk_open (run_worker list_channels 4 (worker_drop_handles list_channels demo_worker)) = OpenClosed \<and>
    of_queue QueueJobs (wk_ran (run_worker list_channels 4 (worker_drop_handles list_channels demo_worker))) =
      [(QueueJobs, 7)]"
proof -
  have "worker_exec list_channels (\<lambda>ch. ch) 0 (worker_new demo_channel demo_channel)
      (worker_drop_handles list_channels demo_worker)"
    by (rule exec_client [OF demo_worker_reached handles_dropped]) (simp add: demo_worker_def)
  from worker_drains_and_ends [OF list_channels_ok demo_channel_fresh demo_channel_fresh this, of 4]
  show ?thesis
    by (simp add: closing_def worker_drop_handles_def demo_worker_def demo_channel_def list_channels_def of_queue_def)
qed

end
