(* ===== verification/Fjall_Async.thy ===== *)
theory Fjall_Async
  imports Fjall_Store Fjall_Worker
begin

text \<open>
  The asynchronous face of the fjall adapter, \<open>adapters/fjall/src/async_store.rs\<close>, over the jobs of
  \<open>blocking.rs\<close>: an operation checks its arguments, reserves a slot, runs the synchronous operation
  of the store as a job on the worker and returns what the job returned. Every operation of the store
  is modelled with the fate of its job as an argument: it was not admitted, its caller gave up while it
  was queued, or it ran. The lemmas show that an operation whose job ran is the synchronous operation, and
  that any other changes nothing, so the guarantees of the synchronous store carry over.
\<close>

section \<open>Jobs\<close>

text \<open>The job built for an operation. None is sent to nobody; a panic of the operation becomes an error
that carries its message.\<close>

definition worker_job ::
  "bool \<Rightarrow> bytes \<Rightarrow> ('s \<Rightarrow> 'r call \<times> 's) \<Rightarrow> 's \<Rightarrow> ('r, 'io fjall_error) result option \<times> 's" where
  "worker_job canceled message operation st =
    (if canceled then (None, st)
     else case operation st of
       (Returns r, st') \<Rightarrow> (Some (Inr r), st')
     | (Panics, st') \<Rightarrow> (Some (Inl (FjWorkerPanicked (error_id_from_display 128 [message]))), st'))"

definition completion :: "('r, 'io fjall_error) result option \<Rightarrow> ('r, 'io fjall_error) result" where
  "completion sent = (case sent of None \<Rightarrow> Inl FjWorkerResponseCanceled | Some r \<Rightarrow> r)"

datatype fate = NotAdmitted | CanceledQueued | RanJob bytes

definition executor_submit ::
  "fate \<Rightarrow> ('s \<Rightarrow> 'r call \<times> 's) \<Rightarrow> 's \<Rightarrow> ('r, 'io fjall_error) result \<times> 's" where
  "executor_submit fate operation st =
    (case fate of
       NotAdmitted \<Rightarrow> (Inl FjWorkerQueueClosed, st)
     | CanceledQueued \<Rightarrow> (case worker_job True [] operation st of (sent, st') \<Rightarrow> (completion sent, st'))
     | RanJob message \<Rightarrow> (case worker_job False message operation st of (sent, st') \<Rightarrow> (completion sent, st')))"

text \<open>Operations that cannot panic, and reads, as jobs.\<close>

definition sync :: "('s \<Rightarrow> 'r \<times> 's) \<Rightarrow> 's \<Rightarrow> 'r call \<times> 's" where
  "sync operation st = (case operation st of (r, st') \<Rightarrow> (Returns r, st'))"

definition reading :: "('s \<Rightarrow> 'r) \<Rightarrow> 's \<Rightarrow> 'r call \<times> 's" where
  "reading operation st = (Returns (operation st), st)"

section \<open>Operations\<close>

definition fj_async_flush ::
  "('db, 'tx, 'io) engine \<Rightarrow> fate \<Rightarrow> 'db storage \<Rightarrow> (unit, 'io fjall_error) result \<times> 'db storage" where
  "fj_async_flush eng fate st =
    (case executor_submit fate (sync (fj_flush eng)) st of (r, st') \<Rightarrow> (and_then r (\<lambda>x. x), st'))"

definition fj_async_append ::
  "('db, 'tx, 'io) engine \<Rightarrow> fate \<Rightarrow> stream_key \<Rightarrow> version option \<Rightarrow> pending_batch \<Rightarrow> 'db storage
    \<Rightarrow> (global_seq, 'io fjall_error append_error) result \<times> 'db storage" where
  "fj_async_append eng fate k expected_version envelopes st =
    (case validate_key (key_bytes k) MAX_STREAM_ID_LEN of
       Inl e \<Rightarrow> (Inl (AppendStore e), st)
     | Inr _ \<Rightarrow>
         let owned = batch_from_parts (pb_first envelopes) (tl (batch_iter envelopes)) in
         (case executor_submit fate (fj_append eng k expected_version owned) st of (r, st') \<Rightarrow>
            (and_then (map_err AppendStore r) (\<lambda>x. x), st')))"

definition fj_async_atomic_append_many ::
  "('db, 'tx, 'io) engine \<Rightarrow> fate \<Rightarrow> planned_append list \<Rightarrow> 'db storage
    \<Rightarrow> (global_seq option, 'io fjall_error atomic_append_error) result \<times> 'db storage" where
  "fj_async_atomic_append_many eng fate writes st =
    (if writes = [] then (Inr None, st)
     else case atomic_validate writes of
       Inl e \<Rightarrow> (Inl e, st)
     | Inr _ \<Rightarrow>
         (case executor_submit fate (fj_atomic_append_many eng writes) st of (r, st') \<Rightarrow>
            (and_then (map_err AtomicStore r) (\<lambda>x. x), st')))"

definition fj_async_hydrate ::
  "('db, 'tx, 'io) engine \<Rightarrow> fate \<Rightarrow> bytes \<Rightarrow> 'db storage \<Rightarrow> bytes \<Rightarrow> schema_version
    \<Rightarrow> ((bytes, version) hydrated, 'io fjall_error) result" where
  "fj_async_hydrate eng fate label st i schema =
    and_then (validate_key i MAX_KEY_LEN) (\<lambda>_.
    and_then (fst (executor_submit fate (reading (\<lambda>st. fj_hydrate eng label st i schema)) st)) (\<lambda>x. x))"

definition fj_async_commit ::
  "('db, 'tx, 'io) engine \<Rightarrow> fate \<Rightarrow> bytes \<Rightarrow> schema_version \<Rightarrow> version \<Rightarrow> bytes \<Rightarrow> 'db storage
    \<Rightarrow> (unit, 'io fjall_error) result \<times> 'db storage" where
  "fj_async_commit eng fate i schema position state st =
    (case and_then (validate_key i MAX_KEY_LEN) (\<lambda>_. state_value_len (length state)) of
       Inl e \<Rightarrow> (Inl e, st)
     | Inr _ \<Rightarrow>
         (case executor_submit fate (sync (fj_commit eng i schema position state)) st of (r, st') \<Rightarrow>
            (and_then r (\<lambda>x. x), st')))"

definition fj_async_hydrate_checkpoint ::
  "('db, 'tx, 'io) engine \<Rightarrow> fate \<Rightarrow> keyspace \<Rightarrow> bytes \<Rightarrow> 'db storage \<Rightarrow> bytes \<Rightarrow> schema_version
    \<Rightarrow> ((bytes, 64 nonzero) checkpoint_hydrated, 'io fjall_error) result" where
  "fj_async_hydrate_checkpoint eng fate ks label st i schema =
    and_then (validate_key i MAX_KEY_LEN) (\<lambda>_.
    and_then (fst (executor_submit fate (reading (\<lambda>st. fj_hydrate_checkpoint eng ks label st i schema)) st)) (\<lambda>x. x))"

definition fj_async_commit_checkpoint ::
  "('db, 'tx, 'io) engine \<Rightarrow> fate \<Rightarrow> keyspace \<Rightarrow> bytes \<Rightarrow> bytes \<Rightarrow> (bytes, 64 nonzero) checkpoint_write \<Rightarrow> 'db storage
    \<Rightarrow> (revision, 'io fjall_error checkpoint_error) result \<times> 'db storage" where
  "fj_async_commit_checkpoint eng fate ks label i w st =
    (case and_then (validate_key i MAX_KEY_LEN) (\<lambda>_. checkpoint_value_len (length (cw_state w))) of
       Inl e \<Rightarrow> (Inl (CkStoreError e), st)
     | Inr _ \<Rightarrow>
         (case executor_submit fate (sync (fj_commit_checkpoint eng ks label i w)) st of (r, st') \<Rightarrow>
            (and_then (map_err CkStoreError r) (\<lambda>x. x), st')))"

text \<open>A read first reserves the place of its cursor among the open scans.\<close>

definition reserve_cursor :: "bool \<Rightarrow> (unit, 'io fjall_error) result" where
  "reserve_cursor free = (if free then Inr () else Inl FjScanCapacity)"

definition open_scan ::
  "bool \<Rightarrow> fate \<Rightarrow> blocking_config \<Rightarrow> ('s \<Rightarrow> ('c, 'io fjall_error) result) \<Rightarrow> 's
    \<Rightarrow> (('c, 'a, 'io) blocking_stream, 'io fjall_error) result" where
  "open_scan free fate cfg operation st =
    and_then (reserve_cursor free) (\<lambda>_.
    and_then (fst (executor_submit fate (reading operation) st)) (\<lambda>opened.
    and_then opened (\<lambda>cursor. Inr (blocking_stream_new cursor cfg))))"

definition fj_async_read_stream ::
  "('db, 'tx, 'io) engine \<Rightarrow> bool \<Rightarrow> fate \<Rightarrow> blocking_config \<Rightarrow> stream_key \<Rightarrow> version \<Rightarrow> 'db storage
    \<Rightarrow> (('io scan_cursor, persisted_envelope, 'io) blocking_stream, 'io fjall_error) result" where
  "fj_async_read_stream eng free fate cfg k v st =
    and_then (validate_key (key_bytes k) MAX_STREAM_ID_LEN) (\<lambda>_. open_scan free fate cfg (fj_read_stream eng k v) st)"

definition fj_async_read_all ::
  "('db, 'tx, 'io) engine \<Rightarrow> bool \<Rightarrow> fate \<Rightarrow> blocking_config \<Rightarrow> global_seq option \<Rightarrow> 'db storage
    \<Rightarrow> (('io scan_cursor, global_seq \<times> stream_key \<times> persisted_envelope, 'io) blocking_stream, 'io fjall_error) result" where
  "fj_async_read_all eng free fate cfg p st = open_scan free fate cfg (fj_read_all eng p) st"

definition fj_async_list_streams ::
  "('db, 'tx, 'io) engine \<Rightarrow> bool \<Rightarrow> fate \<Rightarrow> blocking_config \<Rightarrow> 'db storage
    \<Rightarrow> (('io scan_cursor, stream_key, 'io) blocking_stream, 'io fjall_error) result" where
  "fj_async_list_streams eng free fate cfg st = open_scan free fate cfg (fj_list_streams eng) st"

text \<open>Closing gives up the last handle and waits for the worker to signal its end; the guard it holds
on the storage is gone by then, also when the signal was lost.\<close>

definition executor_shutdown :: "nat \<Rightarrow> bool \<Rightarrow> (unit, 'io fjall_error) result" where
  "executor_shutdown strong_count finished =
    (if strong_count \<noteq> 1 then Inl (FjOutstandingHandles strong_count)
     else if finished then Inr () else Inl FjWorkerResponseCanceled)"

definition fj_async_close :: "nat \<Rightarrow> bool \<Rightarrow> 'db storage \<Rightarrow> (unit, 'io fjall_error) result \<times> 'db fj_system" where
  "fj_async_close strong_count finished st =
    (executor_shutdown strong_count finished, if strong_count \<noteq> 1 then Opened st else Closed (fj_db st))"

section \<open>Lemmas: jobs\<close>

lemma executor_submit_simps [simp]:
  "executor_submit NotAdmitted operation st = (Inl FjWorkerQueueClosed, st)"
  "executor_submit CanceledQueued operation st = (Inl FjWorkerResponseCanceled, st)"
  "executor_submit (RanJob message) (sync synced) st = (Inr (fst (synced st)), snd (synced st))"
  "executor_submit (RanJob message) (reading looked) st = (Inr (looked st), st)"
  "operation st = (Returns x, st') \<Longrightarrow> executor_submit (RanJob message) operation st = (Inr x, st')"
  by (simp_all add: executor_submit_def worker_job_def completion_def sync_def reading_def case_prod_beta)

lemma owned_batch [simp]: "batch_from_parts (pb_first b) (tl (batch_iter b)) = b"
  by (simp add: batch_from_parts_def batch_iter_def)

section \<open>Lemmas: appends and reads\<close>

lemma fj_async_append_ran:
  assumes "engine_ok eng contents tview" "fj_represents contents st log" "batch_ok b"
    "fj_async_append eng (RanJob message) k expected b st = (r, st')"
  shows "fj_append eng k expected b st = (Returns r, st')"
proof (cases "validate_key (key_bytes k) MAX_STREAM_ID_LEN :: (unit, 'c fjall_error) result")
  case (Inl e)
  with assms(4) show ?thesis by (auto simp: fj_async_append_def fj_append_def)
next
  case (Inr u)
  obtain q st'' where q: "fj_append eng k expected b st = (q, st'')" by (metis prod.collapse)
  with fj_append_outcome [OF assms(1-3) q] obtain x where "q = Returns x"
    by (cases q) (auto simp: append_outcome_def)
  with assms(4) Inr q show ?thesis
    by (auto simp: fj_async_append_def executor_submit_def worker_job_def completion_def result_simps)
qed

lemma fj_async_append_not_run:
  assumes "fj_async_append eng fate k expected b st = (r, st')" "\<forall>message. fate \<noteq> RanJob message"
  shows "st' = st \<and> (\<exists>e. r = Inl (AppendStore e) \<and> e \<in> {FjWorkerQueueClosed, FjWorkerResponseCanceled,
    FjInvalidKey (length (key_bytes k)) MAX_STREAM_ID_LEN})"
  using assms
  by (cases fate)
    (auto simp: fj_async_append_def executor_submit_def worker_job_def completion_def result_simps validate_key_def
      split: sum.splits if_splits)

text \<open>The checks made before a job is submitted are the ones the synchronous operation makes first, so an
operation whose job ran is the synchronous operation.\<close>

lemma fj_async_atomic_ran:
  assumes "engine_ok eng contents tview" "fj_represents contents st log" "\<forall>w \<in> set ws. planned_ok w"
    "fj_async_atomic_append_many eng (RanJob message) ws st = (r, st')"
  shows "fj_atomic_append_many eng ws st = (Returns r, st')"
proof -
  obtain q st'' where q: "fj_atomic_append_many eng ws st = (q, st'')" by (metis prod.collapse)
  then obtain x where x: "q = Returns x"
    using fj_atomic_outcome [OF assms(1-3) q] by (cases q) (auto simp: atomic_outcome_def)
  show ?thesis
  proof (cases "ws = []")
    case True
    with assms(4) show ?thesis by (auto simp: fj_async_atomic_append_many_def fj_atomic_append_many_def)
  next
    case False
    show ?thesis
    proof (cases "atomic_validate ws :: (unit, 'c fjall_error atomic_append_error) result")
      case (Inl e)
      with False assms(4) show ?thesis by (auto simp: fj_async_atomic_append_many_def fj_atomic_append_many_def)
    next
      case (Inr u)
      with False assms(4) q x show ?thesis by (auto simp: fj_async_atomic_append_many_def result_simps)
    qed
  qed
qed

lemma and_then_twice: "and_then a (\<lambda>_. and_then a g) = and_then a g"
  by (cases a) (simp_all add: result_simps)

lemma fj_async_state_ran:
  "fj_async_commit eng (RanJob message) i schema position state st = fj_commit eng i schema position state st"
  "fj_async_commit_checkpoint eng (RanJob message) ks label i w st = fj_commit_checkpoint eng ks label i w st"
  by (auto simp: fj_async_commit_def fj_commit_def fj_async_commit_checkpoint_def fj_commit_checkpoint_def
      encode_snapshot_value_def result_simps case_prod_beta split: sum.splits)

lemma fj_async_hydrate_ran:
  "fj_async_hydrate eng (RanJob message) label st i schema = fj_hydrate eng label st i schema"
  "fj_async_hydrate_checkpoint eng (RanJob message) ks label st i schema = fj_hydrate_checkpoint eng ks label st i schema"
  "fj_async_flush eng (RanJob message) st = fj_flush eng st"
  unfolding fj_async_hydrate_def fj_hydrate_def fj_async_hydrate_checkpoint_def fj_hydrate_checkpoint_def fj_async_flush_def
  by (simp_all add: and_then_twice)

lemma and_then_refused: "\<exists>e. and_then a (\<lambda>_. Inl x) = Inl e"
  by (cases a) simp_all

lemma fj_async_state_not_run:
  assumes "\<nexists>message. fate = RanJob message"
  shows "\<exists>e. fj_async_commit eng fate i schema position state st = (Inl e, st)"
    "\<exists>e. fj_async_commit_checkpoint eng fate ks label i w st = (Inl e, st)"
    "\<exists>e. fj_async_hydrate eng fate label st i schema = Inl e"
    "\<exists>e. fj_async_hydrate_checkpoint eng fate ks label st i schema = Inl e"
    "\<exists>e. fj_async_flush eng fate st = (Inl e, st)"
proof -
  have f: "fate = NotAdmitted \<or> fate = CanceledQueued" using assms by (cases fate) simp_all
  show "\<exists>e. fj_async_commit eng fate i schema position state st = (Inl e, st)"
    using f unfolding fj_async_commit_def by (auto split: sum.split)
  show "\<exists>e. fj_async_commit_checkpoint eng fate ks label i w st = (Inl e, st)"
    using f unfolding fj_async_commit_checkpoint_def by (auto split: sum.split)
  show "\<exists>e. fj_async_hydrate eng fate label st i schema = Inl e"
    using f unfolding fj_async_hydrate_def by (auto simp: and_then_refused)
  show "\<exists>e. fj_async_hydrate_checkpoint eng fate ks label st i schema = Inl e"
    using f unfolding fj_async_hydrate_checkpoint_def by (auto simp: and_then_refused)
  show "\<exists>e. fj_async_flush eng fate st = (Inl e, st)"
    using f unfolding fj_async_flush_def by auto
qed

text \<open>What a consumer sees of a list of items: some of them, or some of them and then one error.\<close>

definition reads_as :: "'a list \<Rightarrow> ('a, 'e) result list \<Rightarrow> bool" where
  "reads_as xs got \<longleftrightarrow> (\<exists>m. got = map Inr (take m xs) \<or> (\<exists>e. got = map Inr (take m xs) @ [Inl e]))"

definition reads_fully :: "'a list \<Rightarrow> ('a, 'e) result list \<Rightarrow> bool" where
  "reads_fully xs got \<longleftrightarrow> got = map Inr xs \<or> (\<exists>m e. got = map Inr (take m xs) @ [Inl e])"

lemma delivers_prefix:
  assumes "delivers xs out" "prefix got out"
  shows "reads_as xs got"
proof -
  from assms(2) have got: "got = take (length got) out" by (metis append_eq_conv_conj prefixE)
  from assms(1) consider (all) "out = map Inr xs" | (cut) n io where "out = map Inr (take n xs) @ [Inl (FjIo io)]"
    by (auto simp: delivers_def)
  then show ?thesis
  proof cases
    case all
    with got show ?thesis unfolding reads_as_def by (metis take_map)
  next
    case (cut n io)
    show ?thesis
    proof (cases "length got \<le> length (take n xs)")
      case True
      then have "take (length got) out = map Inr (take (length got) (take n xs))" by (simp add: cut take_map)
      with got have "got = map Inr (take (length got) (take n xs))" by simp
      then show ?thesis unfolding reads_as_def by (metis take_take)
    next
      case False
      then have "length out \<le> length got" by (auto simp: cut min_def split: if_splits)
      then have "take (length got) out = out" by simp
      with got have "got = out" by simp
      with cut show ?thesis unfolding reads_as_def by blast
    qed
  qed
qed

lemma delivers_length: "delivers xs out \<Longrightarrow> length out \<le> Suc (length xs)"
  by (auto simp: delivers_def)

lemma delivers_fully: "delivers xs out \<Longrightarrow> reads_fully xs out"
  by (auto simp: delivers_def reads_fully_def)

lemma delivers_cut_short:
  assumes "delivers xs out" "cut_short replies out got"
  shows "\<exists>m e. got = map Inr (take m xs) @ [Inl e]"
proof -
  from assms(2) obtain m e where cut: "m \<le> length out" "list_all is_ok (take m out)" "got = take m out @ [Inl e]"
    by (auto simp: cut_short_def)
  have "\<exists>n. take m out = map Inr (take n xs)"
    using assms(1) unfolding delivers_def
  proof (elim disjE exE)
    assume "out = map Inr xs"
    then show ?thesis by (auto simp: take_map)
  next
    fix n io assume out: "out = map Inr (take n xs) @ [Inl (FjIo io)]"
    have "m \<le> length (take n xs)"
    proof (rule ccontr)
      assume "\<not> m \<le> length (take n xs)"
      with out have "length out \<le> m" by (auto simp: min_def split: if_splits)
      then have "take m out = out" by simp
      with cut(2) have "list_all is_ok out" by simp
      with out show False by (simp add: is_ok_def)
    qed
    with out have "take m out = map Inr (take (min m n) xs)" by (simp add: take_map)
    then show ?thesis by blast
  qed
  with cut(3) show ?thesis by auto
qed

lemma scan_delivers:
  assumes "delivers xs out" "yields next_row c out" "config_ok cfg"
  shows "reads_as xs (stream_polls next_row replies (blocking_stream_new c cfg)) \<and>
    (Suc (length xs) < length (filter (\<lambda>r. r \<noteq> FetchPending) replies) \<longrightarrow>
      reads_fully xs (stream_polls next_row replies (blocking_stream_new c cfg)))"
proof -
  let ?got = "stream_polls next_row replies (blocking_stream_new c cfg)"
  note polls = stream_polls_owes [OF owes_new [OF assms(3,2)], of replies]
  have cut: "cut_short replies out ?got \<Longrightarrow> \<exists>m e. ?got = map Inr (take m xs) @ [Inl e]"
    by (rule delivers_cut_short [OF assms(1)])
  have "reads_as xs ?got"
    using polls(1) cut delivers_prefix [OF assms(1)] unfolding reads_as_def by blast
  moreover have "reads_fully xs ?got" if "Suc (length xs) < length (filter (\<lambda>r. r \<noteq> FetchPending) replies)"
  proof -
    have "length out < length (filter (\<lambda>r. r \<noteq> FetchPending) replies)"
      using that delivers_length [OF assms(1)] by linarith
    from polls(2) [OF this] cut delivers_fully [OF assms(1)] show ?thesis unfolding reads_fully_def by metis
  qed
  ultimately show ?thesis by blast
qed

lemma open_scan_ran:
  "open_scan True (RanJob message) cfg operation st =
    and_then (operation st) (\<lambda>cursor. Inr (blocking_stream_new cursor cfg))"
  by (simp add: open_scan_def reserve_cursor_def executor_submit_def worker_job_def completion_def reading_def result_simps)

section \<open>Properties\<close>

text \<open>C23: An append through the asynchronous store is an append of the synchronous one, or nothing. If its
  job ran, result and state are exactly those of the synchronous append, and a panic never surfaces; if
  the queue was closed or the caller gave up while the job was queued, nothing changed and the error says
  so. Either way the store holds the old log or the log with the batch, and an acknowledged append holds
  the latter.\<close>

theorem fj_async_append_refines_append:
  assumes "engine_ok eng contents tview" "fj_represents contents st log" "batch_ok b"
    "fj_async_append eng fate k expected b st = (r, st')"
  shows "append_outcome contents log (log @ map (Pair k) (batch_iter b)) (Returns r) st' \<and>
    (case fate of
       RanJob message \<Rightarrow> fj_append eng k expected b st = (Returns r, st')
     | _ \<Rightarrow> st' = st \<and> (\<exists>e. r = Inl (AppendStore e)))"
proof (cases fate)
  case (RanJob message)
  with fj_async_append_ran [OF assms(1-3)] assms(4) have ran: "fj_append eng k expected b st = (Returns r, st')"
    by simp
  with RanJob fj_append_outcome [OF assms(1-3) ran] show ?thesis by simp
qed (use fj_async_append_not_run [OF assms(4)] append_outcome_rejected [OF assms(2)] in auto)

theorem fj_async_append_refines_append_witness:
  "fj_append list_engine sample_key None sample_batch fj_sample =
      (Returns (fst (fj_async_append list_engine (RanJob []) sample_key None sample_batch fj_sample)),
       snd (fj_async_append list_engine (RanJob []) sample_key None sample_batch fj_sample)) \<and>
    snd (fj_async_append list_engine CanceledQueued sample_key None sample_batch fj_sample) = fj_sample"
  using fj_async_append_refines_append [OF le_engine_ok fj_sample_represents sample_batch_ok(1) surjective_pairing,
      where fate = "RanJob []" and k = sample_key and expected = None]
    fj_async_append_refines_append [OF le_engine_ok fj_sample_represents sample_batch_ok(1) surjective_pairing,
      where fate = CanceledQueued and k = sample_key and expected = None]
  by simp

text \<open>C26: The other operations of the asynchronous store are those of the synchronous one, or nothing. If the job
  ran, an atomic append, a snapshot or checkpoint commit or read, and a flush return what the synchronous
  operation with the same arguments returns and leave what it leaves. If the queue was closed or the caller
  gave up while the job was queued, nothing changed and the caller gets an error, but for the atomic append
  of no writes, which needs no job. Either way the store holds the old log or the log with all the runs of
  the atomic append, and an acknowledged one holds the latter.\<close>

theorem fj_async_operations_exact:
  assumes "engine_ok eng contents tview" "fj_represents contents st log" "\<forall>w \<in> set ws. planned_ok w"
  shows "atomic_outcome contents log (log @ planned_entries ws)
      (Returns (fst (fj_async_atomic_append_many eng fate ws st))) (snd (fj_async_atomic_append_many eng fate ws st)) \<and>
    (case fate of
       RanJob _ \<Rightarrow>
         fj_atomic_append_many eng ws st = map_prod Returns id (fj_async_atomic_append_many eng fate ws st) \<and>
         fj_async_commit eng fate i schema position state st = fj_commit eng i schema position state st \<and>
         fj_async_commit_checkpoint eng fate ks label i w st = fj_commit_checkpoint eng ks label i w st \<and>
         fj_async_hydrate eng fate label st i schema = fj_hydrate eng label st i schema \<and>
         fj_async_hydrate_checkpoint eng fate ks label st i schema = fj_hydrate_checkpoint eng ks label st i schema \<and>
         fj_async_flush eng fate st = fj_flush eng st
     | _ \<Rightarrow>
         (if ws = [] then fj_async_atomic_append_many eng fate ws st = (Inr None, st)
          else \<exists>e. fj_async_atomic_append_many eng fate ws st = (Inl e, st)) \<and>
         (\<exists>e. fj_async_commit eng fate i schema position state st = (Inl e, st)) \<and>
         (\<exists>e. fj_async_commit_checkpoint eng fate ks label i w st = (Inl e, st)) \<and>
         (\<exists>e. fj_async_hydrate eng fate label st i schema = Inl e) \<and>
         (\<exists>e. fj_async_hydrate_checkpoint eng fate ks label st i schema = Inl e) \<and>
         (\<exists>e. fj_async_flush eng fate st = (Inl e, st)))"
proof (cases "\<exists>message. fate = RanJob message")
  case True
  then obtain message where f: "fate = RanJob message" ..
  obtain r st' where a: "fj_async_atomic_append_many eng fate ws st = (r, st')" by fastforce
  with f have ran: "fj_atomic_append_many eng ws st = (Returns r, st')" using fj_async_atomic_ran [OF assms] by simp
  with fj_atomic_outcome [OF assms ran] a show ?thesis by (simp add: f fj_async_state_ran fj_async_hydrate_ran)
next
  case False
  have a: "if ws = [] then fj_async_atomic_append_many eng fate ws st = (Inr None, st)
      else \<exists>e. fj_async_atomic_append_many eng fate ws st = (Inl e, st)"
    using False by (cases fate) (auto simp: fj_async_atomic_append_many_def result_simps split: sum.splits)
  have "atomic_outcome contents log (log @ planned_entries ws)
      (Returns (fst (fj_async_atomic_append_many eng fate ws st))) (snd (fj_async_atomic_append_many eng fate ws st))"
  proof (cases "ws = []")
    case True
    with a assms(2) show ?thesis by (simp add: atomic_outcome_def planned_entries_def)
  next
    case False
    with a obtain e where "fj_async_atomic_append_many eng fate ws st = (Inl e, st)" by auto
    with atomic_outcome_rejected [OF assms(2)] show ?thesis by simp
  qed
  moreover have "\<exists>e. fj_async_commit eng fate i schema position state st = (Inl e, st)"
    "\<exists>e. fj_async_commit_checkpoint eng fate ks label i w st = (Inl e, st)"
    "\<exists>e. fj_async_hydrate eng fate label st i schema = Inl e"
    "\<exists>e. fj_async_hydrate_checkpoint eng fate ks label st i schema = Inl e"
    "\<exists>e. fj_async_flush eng fate st = (Inl e, st)"
    by (rule fj_async_state_not_run [OF False])+
  ultimately show ?thesis using False a by (cases fate) simp_all
qed

text \<open>A write to a fresh store whose job runs, and one whose caller gives up.\<close>

theorem fj_async_operations_exact_witness:
  "fj_atomic_append_many list_engine [sample_write] fj_sample =
      map_prod Returns id (fj_async_atomic_append_many list_engine (RanJob []) [sample_write] fj_sample) \<and>
    atomic_outcome le_contents [] (planned_entries [sample_write])
      (Returns (fst (fj_async_atomic_append_many list_engine (RanJob []) [sample_write] fj_sample)))
      (snd (fj_async_atomic_append_many list_engine (RanJob []) [sample_write] fj_sample)) \<and>
    fj_async_commit list_engine (RanJob []) [1] schema_INITIAL version_INITIAL [2, 3] fj_sample =
      fj_commit list_engine [1] schema_INITIAL version_INITIAL [2, 3] fj_sample \<and>
    (\<exists>e. fj_async_atomic_append_many list_engine CanceledQueued [sample_write] fj_sample = (Inl e, fj_sample)) \<and>
    (\<exists>e. fj_async_commit list_engine CanceledQueued [1] schema_INITIAL version_INITIAL [2, 3] fj_sample = (Inl e, fj_sample))"
  using fj_async_operations_exact [OF le_engine_ok fj_sample_represents, where ws = "[sample_write]" and fate = "RanJob []"
      and i = "[1]" and schema = schema_INITIAL and position = version_INITIAL and state = "[2, 3]"]
    fj_async_operations_exact [OF le_engine_ok fj_sample_represents, where ws = "[sample_write]" and fate = CanceledQueued
      and i = "[1]" and schema = schema_INITIAL and position = version_INITIAL and state = "[2, 3]"]
  by simp

text \<open>C17: Whatever the batch limits of the store, a stream read through the worker delivers the events of the
  stream from the requested version on, in order and each once. At any moment the consumer has seen a
  prefix of them, or a prefix and one error that ends the scan; once enough fetches have completed it has
  seen all of them, or the error.\<close>

theorem fj_async_read_stream_exact:
  assumes "engine_ok eng contents tview" "fj_represents contents st log" "key_ok k" "config_ok cfg"
  shows "\<exists>s. fj_async_read_stream eng True (RanJob message) cfg k v st = Inr s \<and>
    (let events = map persisted_of (drop (vnum v - 1) (log_events log k));
         got = stream_polls (next_sized (fj_stream_scan k)) replies s in
     reads_as events got \<and>
     (Suc (length events) < length (filter (\<lambda>r. r \<noteq> FetchPending) replies) \<longrightarrow> reads_fully events got))"
proof -
  obtain c where c: "fj_read_stream eng k v st = Inr c"
    "delivers (map persisted_of (drop (vnum v - 1) (log_events log k))) (cursor_drain (fj_stream_scan k) c)"
    using fj_read_stream_delivers [OF assms(1-3)] by blast
  have "fj_async_read_stream eng True (RanJob message) cfg k v st = Inr (blocking_stream_new c cfg)"
    using c(1) assms(3)
    by (simp add: fj_async_read_stream_def open_scan_ran validate_key_def key_ok_def result_simps)
  with scan_delivers [OF c(2) cursor_yields assms(4), of replies] show ?thesis by (simp add: Let_def)
qed

theorem fj_async_read_stream_exact_witness:
  "\<exists>s. fj_async_read_stream list_engine True (RanJob []) config_default sample_key (version_of 2) fj_filled = Inr s \<and>
    reads_fully [persisted_of (sample_event 2)]
      (stream_polls (next_sized (fj_stream_scan sample_key)) [FetchDone, FetchPending, FetchDone, FetchDone] s)"
proof -
  have "key_ok sample_key" by (simp add: key_ok_def sample_key_def fjall_sizes)
  moreover have "config_ok config_default" by (simp add: config_ok_def config_default_def)
  ultimately show ?thesis
    using fj_async_read_stream_exact [OF le_engine_ok fj_filled_represents, where k = sample_key and cfg = config_default
      and message = "[]" and v = "version_of 2" and replies = "[FetchDone, FetchPending, FetchDone, FetchDone]"]
    by (auto simp: batch_iter_def sample_batch_def vmax_def log_events_def Let_def)
qed

end
