(* ===== verification/InMemory_Export.thy ===== *)
theory InMemory_Export
  imports InMemory_Reads InMemory_Atomic
begin

text \<open>
  Consistent export: the error of \<open>crates/store/src/export.rs\<close> and the export session of the
  in-memory adapter, \<open>adapters/inmemory/src/export.rs\<close>. A session captures the head of every stream
  under the commit lock; its cursors read the live rows, capped at the captured heads. The lemmas
  show that whatever commits happen between two polls, a cursor yields the history as it was when
  the session was opened.
\<close>

section \<open>Instants\<close>

text \<open>Monotonic clock readings and durations in nanoseconds. The clock of a 64-bit platform counts
seconds in an \<open>i64\<close>.\<close>

type_synonym instant = nat
type_synonym duration = nat

definition instant_MAX :: instant where
  "instant_MAX = 2 ^ 63 * 10 ^ 9 - 1"

definition instant_checked_add :: "instant \<Rightarrow> duration \<Rightarrow> instant option" where
  "instant_checked_add at d = (if at + d \<le> instant_MAX then Some (at + d) else None)"

section \<open>Sessions\<close>

datatype 'e export_error = ExStore 'e | ExInvalidLifetime duration | ExExpired

record im_export_session =
  xs_heads :: "stream_key \<rightharpoonup> u64"
  xs_deadline :: instant

definition export_heads :: "inner \<Rightarrow> stream_key \<rightharpoonup> u64" where
  "export_heads s k =
    (case im_streams s k of
       None \<Rightarrow> None
     | Some rows \<Rightarrow> if rows = [] then None else Some (sf_version (last rows)))"

definition im_open_export_session ::
  "instant \<Rightarrow> duration \<Rightarrow> im_store \<Rightarrow> (im_export_session, inmemory_error export_error) result" where
  "im_open_export_session now lifetime st =
    (if lifetime = 0 then Inl (ExInvalidLifetime lifetime)
     else and_then (ok_or (ExInvalidLifetime lifetime) (instant_checked_add now lifetime)) (\<lambda>deadline.
       Inr \<lparr>xs_heads = export_heads (im_inner st), xs_deadline = deadline\<rparr>))"

definition xs_check_live :: "instant \<Rightarrow> im_export_session \<Rightarrow> (unit, inmemory_error export_error) result" where
  "xs_check_live now ses = (if now \<ge> xs_deadline ses then Inl ExExpired else Inr ())"

section \<open>Cursors\<close>

text \<open>A cursor wraps an inner stream and drops it at the deadline, at its end and at the first error.\<close>

record 'u export_cursor =
  xc_inner :: "'u option"
  xc_deadline :: instant

definition export_cursor_poll ::
  "('u \<Rightarrow> (('a, 'e export_error) result \<times> 'u) option) \<Rightarrow> instant \<Rightarrow> 'u export_cursor
    \<Rightarrow> ('a, 'e export_error) result option \<times> 'u export_cursor" where
  "export_cursor_poll inner_next now c =
    (case xc_inner c of
       None \<Rightarrow> (None, c)
     | Some u \<Rightarrow>
         if now \<ge> xc_deadline c then (Some (Inl ExExpired), c\<lparr>xc_inner := None\<rparr>)
         else case inner_next u of
           None \<Rightarrow> (None, c\<lparr>xc_inner := None\<rparr>)
         | Some (Inl e, _) \<Rightarrow> (Some (Inl e), c\<lparr>xc_inner := None\<rparr>)
         | Some (Inr item, u') \<Rightarrow> (Some (Inr item), c\<lparr>xc_inner := Some u'\<rparr>))"

text \<open>The listing walks the captured keys in the iteration order of the hash map, which is not
specified: \<open>order\<close> is that order.\<close>

definition export_list_next ::
  "stream_key list \<Rightarrow> ((stream_key, inmemory_error export_error) result \<times> stream_key list) option" where
  "export_list_next ks = (case ks of [] \<Rightarrow> None | k # rest \<Rightarrow> Some (Inr k, rest))"

definition im_export_list_streams ::
  "stream_key list \<Rightarrow> instant \<Rightarrow> im_export_session
    \<Rightarrow> (stream_key list export_cursor, inmemory_error export_error) result" where
  "im_export_list_streams order now ses =
    and_then (xs_check_live now ses) (\<lambda>_. Inr \<lparr>xc_inner = Some order, xc_deadline = xs_deadline ses\<rparr>)"

text \<open>The refill of an event cursor under the lock: the rows from \<open>start\<close> up to the captured head.
\<open>None\<close> ends the stream.\<close>

definition export_refill ::
  "stream_key \<Rightarrow> u64 option \<Rightarrow> nat \<Rightarrow> inner \<Rightarrow> version option \<Rightarrow> stored_frame list option" where
  "export_refill k head batch_size s next_v =
    (case next_v of
       None \<Rightarrow> None
     | Some start \<Rightarrow>
         (case head of
            None \<Rightarrow> None
          | Some ceiling \<Rightarrow>
              if as_u64 start > ceiling then None
              else case im_streams s k of
                None \<Rightarrow> None
              | Some history \<Rightarrow>
                  let first = length (takeWhile (\<lambda>row. sf_version row < as_u64 start) history) in
                  Some (take batch_size (takeWhile (\<lambda>row. sf_version row \<le> ceiling) (drop first history)))))"

type_synonym export_rows = "version option \<times> stored_frame list"

definition export_next ::
  "stream_key \<Rightarrow> u64 option \<Rightarrow> nat \<Rightarrow> inner \<Rightarrow> export_rows
    \<Rightarrow> ((persisted_envelope, inmemory_error export_error) result \<times> export_rows) option" where
  "export_next k head batch_size s u =
    (case (if snd u = [] then export_refill k head batch_size s (fst u) else Some (snd u)) of
       None \<Rightarrow> None
     | Some [] \<Rightarrow> None
     | Some (row # rest) \<Rightarrow>
         let envelope = map_err ExStore (frame_to_envelope row);
             following = (case envelope of Inl _ \<Rightarrow> None | Inr event \<Rightarrow> version_next (ps_version event)) in
         Some (envelope, (following, rest)))"

definition im_export_stream ::
  "instant \<Rightarrow> version \<Rightarrow> im_export_session \<Rightarrow> (export_rows export_cursor, inmemory_error export_error) result" where
  "im_export_stream now from ses =
    and_then (xs_check_live now ses) (\<lambda>_. Inr \<lparr>xc_inner = Some (Some from, []), xc_deadline = xs_deadline ses\<rparr>)"

definition im_export_poll ::
  "stream_key \<Rightarrow> im_export_session \<Rightarrow> im_store \<Rightarrow> instant \<Rightarrow> export_rows export_cursor
    \<Rightarrow> (persisted_envelope, inmemory_error export_error) result option \<times> export_rows export_cursor" where
  "im_export_poll k ses st now c =
    export_cursor_poll (export_next k (xs_heads ses k) (im_batch_size st) (im_inner st)) now c"

text \<open>A consumer that polls once in each of a sequence of stores and instants, until the cursor ends.\<close>

primrec export_polls ::
  "stream_key \<Rightarrow> im_export_session \<Rightarrow> (im_store \<times> instant) list \<Rightarrow> export_rows export_cursor
    \<Rightarrow> (persisted_envelope, inmemory_error export_error) result list" where
  "export_polls k ses [] c = []"
| "export_polls k ses (x # xs) c =
    (case im_export_poll k ses (fst x) (snd x) c of
       (None, _) \<Rightarrow> []
     | (Some item, c') \<Rightarrow> item # export_polls k ses xs c')"

text \<open>The same for the listing, which does not read the store again.\<close>

primrec export_list_polls ::
  "instant list \<Rightarrow> stream_key list export_cursor \<Rightarrow> (stream_key, inmemory_error export_error) result list" where
  "export_list_polls [] c = []"
| "export_list_polls (now # ts) c =
    (case export_cursor_poll export_list_next now c of
       (None, _) \<Rightarrow> []
     | (Some item, c') \<Rightarrow> item # export_list_polls ts c')"

section \<open>The exported view\<close>

lemma takeWhile_run_head:
  "run_from m h \<Longrightarrow> takeWhile (\<lambda>p. vnum (pe_version p) \<le> n) h = take (n - m) h"
proof (induction h arbitrary: m)
  case (Cons p h)
  show ?case
  proof (cases "Suc m \<le> n")
    case True
    then have "n - m = Suc (n - Suc m)" by simp
    with Cons True show ?thesis by simp
  next
    case False
    with Cons.prems show ?thesis by simp
  qed
qed simp

lemma run_from_drop: "run_from m h \<Longrightarrow> n \<le> length h \<Longrightarrow> run_from (m + n) (drop n h)"
proof (induction n arbitrary: m h)
  case (Suc n)
  then obtain p h' where "h = p # h'" by (cases h) auto
  with Suc show ?case by (auto dest: Suc.IH)
qed simp

lemma export_heads_hist:
  assumes "im_inv st"
  shows "export_heads (im_inner st) k =
    (if im_hist st k = [] then None else Some (of_nat (length (im_hist st k))))"
proof -
  have rows: "im_rows (im_inner st) k = map stored_of (im_hist st k)" by (rule im_rows_hist [OF assms])
  have run: "run_from 0 (im_hist st k)"
    using assms inner_inv_run [of "im_inner st" k] by (simp add: im_inv_def im_hist_def)
  have "as_u64 (pe_version (last (im_hist st k))) = of_nat (length (im_hist st k))" if ne: "im_hist st k \<noteq> []"
  proof -
    have "vnum (pe_version (last (im_hist st k))) = length (im_hist st k)"
      using run_from_nth [OF run, of "length (im_hist st k) - 1"] ne by (simp add: last_conv_nth)
    then show ?thesis by (metis vnum_def of_nat_unat ucast_id)
  qed
  with rows show ?thesis
    by (cases "im_streams (im_inner st) k") (auto simp: export_heads_def im_rows_def last_map)
qed

text \<open>The state of an event cursor whose next row is the \<open>n\<close>-th of the captured history \<open>h\<close>.\<close>

definition export_inv :: "pending_envelope list \<Rightarrow> nat \<Rightarrow> export_rows \<Rightarrow> bool" where
  "export_inv h n u \<longleftrightarrow> snd u = map stored_of (take (length (snd u)) (drop n h)) \<and>
    (\<exists>v. fst u = Some v \<and> vnum v = Suc n)"

lemma export_refill_view:
  assumes "run_from 0 (h @ new)" "im_rows s k = map stored_of (h @ new)" "vnum v = Suc n" "length h < vmax"
  shows "export_refill k (if h = [] then None else Some (of_nat (length h))) b s (Some v) =
    (if n < length h then Some (map stored_of (take b (drop n h))) else None)"
proof (cases "n < length h")
  case True
  let ?c = "of_nat (length h) :: u64"
  have c: "unat ?c = length h" using assms(4) by (simp add: unsigned_of_nat take_bit_nat_eq_self vmax_def)
  have le: "as_u64 w \<le> ?c \<longleftrightarrow> vnum w \<le> length h" for w
    by (simp add: word_le_nat_alt c vnum_def)
  have rows: "im_streams s k = Some (map stored_of (h @ new))"
    using assms(2) True by (auto simp: im_rows_def split: option.splits)
  have "length (takeWhile (\<lambda>row. sf_version row < as_u64 v) (map stored_of (h @ new))) =
      length (takeWhile (\<lambda>p. vnum (pe_version p) < vnum v) (h @ new))"
    by (simp add: takeWhile_map comp_def vnum_def word_less_nat_alt del: map_append)
  also have "\<dots> = n" using takeWhile_run [OF assms(1)] assms(3) True by simp
  finally have first: "length (takeWhile (\<lambda>row. sf_version row < as_u64 v) (map stored_of (h @ new))) = n" .
  have "run_from n (drop n (h @ new))" using run_from_drop [OF assms(1), of n] True by simp
  from takeWhile_run_head [OF this, of "length h"] True
  have "takeWhile (\<lambda>p. vnum (pe_version p) \<le> length h) (drop n (h @ new)) = drop n h" by simp
  then have "takeWhile (\<lambda>row. sf_version row \<le> ?c) (drop n (map stored_of (h @ new))) = map stored_of (drop n h)"
    by (simp only: drop_map takeWhile_map) (simp add: comp_def le)
  with True rows first assms(3) le [of v] show ?thesis
    by (auto simp: export_refill_def Let_def take_map not_less simp del: map_append)
next
  case False
  then have "as_u64 v > of_nat (length h)"
    using assms(3,4) by (simp add: word_less_nat_alt unsigned_of_nat take_bit_nat_eq_self vmax_def vnum_def)
  with False show ?thesis by (simp add: export_refill_def)
qed

lemma export_next_view:
  assumes "im_inv st" "im_hist st k = h @ new" "export_inv h n u"
  shows "if n < length h
    then \<exists>u'. export_next k (if h = [] then None else Some (of_nat (length h))) (im_batch_size st) (im_inner st) u =
        Some (Inr (persisted_of (h ! n)), u') \<and> export_inv h (Suc n) u'
    else export_next k (if h = [] then None else Some (of_nat (length h))) (im_batch_size st) (im_inner st) u = None"
proof -
  let ?head = "if h = [] then None else Some (of_nat (length h) :: u64)"
  have inner: "inner_inv (im_inner st)" "0 < im_batch_size st" using assms(1) by (simp_all add: im_inv_def)
  have rows: "im_rows (im_inner st) k = map stored_of (h @ new)" using im_rows_hist [OF assms(1), of k] assms(2) by simp
  have run: "run_from 0 (h @ new)" using inner_inv_run [OF inner(1), of k] assms(2) by (simp add: im_hist_def)
  have len: "length h < vmax" using inner_inv_length [OF inner(1), of k] rows by simp
  obtain v where v: "fst u = Some v" "vnum v = Suc n" using assms(3) by (auto simp: export_inv_def)
  have buf: "(if snd u = [] then export_refill k ?head (im_batch_size st) (im_inner st) (fst u) else Some (snd u)) =
      (if n < length h then Some (map stored_of (take (Suc m) (drop n h))) else None)"
    if m: "Suc m = (if snd u = [] then im_batch_size st else length (snd u))" for m
  proof (cases "snd u = []")
    case True
    with m export_refill_view [OF run rows v(2) len] v(1) show ?thesis by simp
  next
    case False
    then have "drop n h \<noteq> []" using assms(3) unfolding export_inv_def by (metis list.map_disc_iff take_Nil)
    then have "n < length h" by simp
    with False m assms(3) show ?thesis by (simp add: export_inv_def)
  qed
  obtain m where m: "Suc m = (if snd u = [] then im_batch_size st else length (snd u))"
    using inner(2) by (metis gr0_implies_Suc length_greater_0_conv)
  show ?thesis
  proof (cases "n < length h")
    case True
    then have d: "take (Suc m) (drop n h) = h ! n # take m (drop (Suc n) h)"
      by (simp add: Cons_nth_drop_Suc [symmetric])
    have "fits (h ! n)" using im_hist_fits [OF assms(1), of "h ! n" k] assms(2) True by simp
    then have env: "frame_to_envelope (stored_of (h ! n)) = Inr (persisted_of (h ! n))"
      by (rule frame_to_envelope_stored_of)
    have vn: "vnum (pe_version (h ! n)) = Suc n" using run_from_nth [OF run, of n] True by (simp add: nth_append)
    obtain w where w: "version_next (pe_version (h ! n)) = Some w" "vnum w = Suc (Suc n)"
      using len True vn by (metis Suc_leI leD not_None_eq version_next_None version_next_Some)
    have "export_inv h (Suc n) (Some w, map stored_of (take m (drop (Suc n) h)))"
      using w(2) by (simp add: export_inv_def min_def)
    with True buf [OF m] d env w(1) show ?thesis by (simp add: export_next_def Let_def)
  next
    case False
    with buf [OF m] show ?thesis by (simp add: export_next_def)
  qed
qed

lemma export_poll_view:
  assumes "im_inv st" "im_hist st k = h @ new" "xs_heads ses k = (if h = [] then None else Some (of_nat (length h)))"
    "xc_inner c = Some u" "export_inv h n u"
  obtains (expired) "xc_deadline c \<le> now" "im_export_poll k ses st now c = (Some (Inl ExExpired), c\<lparr>xc_inner := None\<rparr>)"
  | (item) u' where "now < xc_deadline c" "n < length h" "export_inv h (Suc n) u'"
      "im_export_poll k ses st now c = (Some (Inr (persisted_of (h ! n))), c\<lparr>xc_inner := Some u'\<rparr>)"
  | (ended) "now < xc_deadline c" "length h \<le> n" "im_export_poll k ses st now c = (None, c\<lparr>xc_inner := None\<rparr>)"
proof (cases "xc_deadline c \<le> now")
  case True
  with assms(4) show thesis by (intro expired) (simp_all add: im_export_poll_def export_cursor_poll_def)
next
  case False
  note N = export_next_view [OF assms(1,2,5)]
  show thesis
  proof (cases "n < length h")
    case True
    with N obtain u' where "export_next k (xs_heads ses k) (im_batch_size st) (im_inner st) u =
        Some (Inr (persisted_of (h ! n)), u')" "export_inv h (Suc n) u'"
      unfolding assms(3) by auto
    with False True assms(4) show thesis by (intro item [of u']) (simp_all add: im_export_poll_def export_cursor_poll_def)
  next
    case end': False
    with N have "export_next k (xs_heads ses k) (im_batch_size st) (im_inner st) u = None" unfolding assms(3) by auto
    with False end' assms(4) show thesis by (intro ended) (simp_all add: im_export_poll_def export_cursor_poll_def)
  qed
qed

lemma export_polls_view:
  assumes "\<forall>x \<in> set xs. im_inv (fst x) \<and> (\<exists>new. im_hist (fst x) k = h @ new)"
    "xs_heads ses k = (if h = [] then None else Some (of_nat (length h)))"
    "xc_inner c = Some u" "export_inv h n u"
  shows "(\<exists>m. export_polls k ses xs c = take m (map (Inr \<circ> persisted_of) (drop n h)) \<or>
      export_polls k ses xs c = take m (map (Inr \<circ> persisted_of) (drop n h)) @ [Inl ExExpired]) \<and>
    ((\<forall>x \<in> set xs. snd x < xc_deadline c) \<longrightarrow>
      export_polls k ses xs c = take (length xs) (map (Inr \<circ> persisted_of) (drop n h)))"
  using assms(1,3,4)
proof (induction xs arbitrary: c u n)
  case Nil
  show ?case by (auto intro: exI [of _ 0])
next
  case (Cons x xs)
  have x: "im_inv (fst x)" and hist: "\<exists>new. im_hist (fst x) k = h @ new" using Cons.prems(1) by simp_all
  from hist obtain new where new: "im_hist (fst x) k = h @ new" ..
  let ?E = "map (Inr \<circ> persisted_of) (drop n h) :: (persisted_envelope, inmemory_error export_error) result list"
  show ?case
    using x new assms(2) Cons.prems(2,3)
  proof (cases rule: export_poll_view [where now = "snd x"])
    case expired
    have "export_polls k ses xs (c\<lparr>xc_inner := None\<rparr>) = []"
      by (cases xs) (simp_all add: im_export_poll_def export_cursor_poll_def)
    with expired show ?thesis by (auto intro: exI [of _ 0])
  next
    case (item u')
    define E' where "E' = map (Inr \<circ> persisted_of :: _ \<Rightarrow> (persisted_envelope, inmemory_error export_error) result) (drop (Suc n) h)"
    have E: "?E = Inr (persisted_of (h ! n)) # E'"
      unfolding E'_def using item(2) by (simp add: Cons_nth_drop_Suc [symmetric])
    define P where "P = export_polls k ses xs (c\<lparr>xc_inner := Some u'\<rparr>)"
    have polls: "export_polls k ses (x # xs) c = Inr (persisted_of (h ! n)) # P" using item(4) by (simp add: P_def)
    have "\<forall>x \<in> set xs. im_inv (fst x) \<and> (\<exists>new. im_hist (fst x) k = h @ new)" using Cons.prems(1) by simp
    from Cons.IH [OF this _ item(3), of "c\<lparr>xc_inner := Some u'\<rparr>"]
    have "\<exists>m. P = take m E' \<or> P = take m E' @ [Inl ExExpired]"
      and live: "(\<forall>x \<in> set xs. snd x < xc_deadline c) \<longrightarrow> P = take (length xs) E'"
      unfolding P_def [symmetric] E'_def [symmetric] by simp_all
    then obtain m where "P = take m E' \<or> P = take m E' @ [Inl ExExpired]" by blast
    then have "export_polls k ses (x # xs) c = take (Suc m) ?E \<or>
        export_polls k ses (x # xs) c = take (Suc m) ?E @ [Inl ExExpired]"
      unfolding polls E by auto
    with live show ?thesis unfolding polls E by (intro conjI exI [of _ "Suc m"]) simp_all
  next
    case ended
    then show ?thesis by (auto intro: exI [of _ 0])
  qed
qed

lemma hist_extends:
  assumes "im_inv st" "im_step\<^sup>*\<^sup>* st st'"
  shows "im_inv st' \<and> (\<exists>new. im_hist st' k = im_hist st k @ new)"
  using im_steps_inv [OF assms(2,1), of k] by (auto simp: im_hist_def)

lemma im_export_view:
  assumes "im_reachable st" "im_open_export_session now lifetime st = Inr ses"
    "im_export_stream now' from ses = Inr c" "\<forall>x \<in> set polls. im_step\<^sup>*\<^sup>* st (fst x)"
  shows "(\<exists>m. export_polls k ses polls c = take m (map (Inr \<circ> persisted_of) (drop (vnum from - 1) (im_hist st k))) \<or>
      export_polls k ses polls c =
        take m (map (Inr \<circ> persisted_of) (drop (vnum from - 1) (im_hist st k))) @ [Inl ExExpired]) \<and>
    ((\<forall>x \<in> set polls. snd x < xs_deadline ses) \<longrightarrow>
      export_polls k ses polls c = take (length polls) (map (Inr \<circ> persisted_of) (drop (vnum from - 1) (im_hist st k)))) \<and>
    dom (xs_heads ses) = {k. im_hist st k \<noteq> []}"
proof -
  have inv: "im_inv st" using assms(1) by (rule im_reachable_inv)
  have ses: "xs_heads ses = export_heads (im_inner st)"
    using assms(2) by (auto simp: im_open_export_session_def result_simps split: if_splits)
  have c: "xc_inner c = Some (Some from, [])" "xc_deadline c = xs_deadline ses"
    using assms(3) by (auto simp: im_export_stream_def xs_check_live_def result_simps split: if_splits)
  have "\<forall>x \<in> set polls. im_inv (fst x) \<and> (\<exists>new. im_hist (fst x) k = im_hist st k @ new)"
    using assms(4) hist_extends [OF inv] by blast
  moreover have "export_inv (im_hist st k) (vnum from - 1) (Some from, [])" by (simp add: export_inv_def)
  moreover have "dom (xs_heads ses) = {k. im_hist st k \<noteq> []}" by (auto simp: ses export_heads_hist [OF inv])
  moreover have "xs_heads ses k = (if im_hist st k = [] then None else Some (of_nat (length (im_hist st k))))"
    by (simp add: ses export_heads_hist [OF inv])
  ultimately show ?thesis using export_polls_view [of polls k "im_hist st k" ses c] c by auto
qed

lemma export_list_polls_order:
  "xc_inner c = Some order \<Longrightarrow> \<forall>t \<in> set ts. t < xc_deadline c \<Longrightarrow> export_list_polls ts c = map Inr (take (length ts) order)"
proof (induction ts arbitrary: c order)
  case (Cons t ts)
  then show ?case by (cases order) (simp_all add: export_cursor_poll_def export_list_next_def)
qed simp

lemma im_export_listing:
  assumes "t < xs_deadline ses" "\<forall>t \<in> set ts. t < xs_deadline ses"
  shows "\<exists>lc. im_export_list_streams order t ses = Inr lc \<and> export_list_polls ts lc = map Inr (take (length ts) order)"
  using assms export_list_polls_order [of "\<lparr>xc_inner = Some order, xc_deadline = xs_deadline ses\<rparr>" order ts]
  by (simp add: im_export_list_streams_def xs_check_live_def)

section \<open>Properties\<close>

text \<open>C25: An export session is one fixed view of the store. Whatever commits happen between opening the
  session and any poll of a cursor, the cursor yields the events the stream had when the session was
  opened, in order and from the requested version on: a prefix of them, possibly cut off by the
  expiry error, and all of them when it is polled often enough before the deadline. The session
  lists exactly the streams that had events at that moment, in the order of its map of captured heads,
  each poll before the deadline giving the next.\<close>

theorem im_export_view_fixed:
  assumes "im_reachable st" "im_open_export_session now lifetime st = Inr ses"
    "im_export_stream now' from ses = Inr c" "\<forall>x \<in> set polls. im_step\<^sup>*\<^sup>* st (fst x)"
  shows "(\<exists>m. export_polls k ses polls c = take m (map (Inr \<circ> persisted_of) (drop (vnum from - 1) (im_hist st k))) \<or>
      export_polls k ses polls c =
        take m (map (Inr \<circ> persisted_of) (drop (vnum from - 1) (im_hist st k))) @ [Inl ExExpired]) \<and>
    ((\<forall>x \<in> set polls. snd x < xs_deadline ses) \<longrightarrow>
      export_polls k ses polls c = take (length polls) (map (Inr \<circ> persisted_of) (drop (vnum from - 1) (im_hist st k)))) \<and>
    dom (xs_heads ses) = {k. im_hist st k \<noteq> []} \<and>
    (\<forall>order t ts. set order = dom (xs_heads ses) \<and> t < xs_deadline ses \<and> (\<forall>t' \<in> set ts. t' < xs_deadline ses) \<longrightarrow>
      set order = {k. im_hist st k \<noteq> []} \<and>
      (\<exists>lc. im_export_list_streams order t ses = Inr lc \<and> export_list_polls ts lc = map Inr (take (length ts) order)))"
proof -
  have "set order = {k. im_hist st k \<noteq> []} \<and>
      (\<exists>lc. im_export_list_streams order t ses = Inr lc \<and> export_list_polls ts lc = map Inr (take (length ts) order))"
    if "set order = dom (xs_heads ses)" "t < xs_deadline ses" "\<forall>t' \<in> set ts. t' < xs_deadline ses" for order t ts
    using that im_export_listing [OF that(2,3)] im_export_view [OF assms, of k] by simp
  with im_export_view [OF assms, of k] show ?thesis by blast
qed

theorem im_export_view_fixed_witness:
  "\<exists>pos st ses c. im_append sample_key None sample_batch im_new = (Returns (Inr pos), st) \<and>
    im_open_export_session 5 10 im_new = Inr ses \<and> im_export_stream 6 version_INITIAL ses = Inr c \<and>
    export_polls sample_key ses [(st, 7)] c = [] \<and>
    (\<exists>ses c. im_open_export_session 5 10 st = Inr ses \<and> im_export_stream 6 version_INITIAL ses = Inr c \<and>
      export_polls sample_key ses [(st, 7), (st, 8), (st, 9)] c =
        [Inr (persisted_of (sample_event 1)), Inr (persisted_of (sample_event 2))] \<and>
      (\<exists>lc. im_export_list_streams [sample_key] 6 ses = Inr lc \<and> export_list_polls [7, 8] lc = [Inr sample_key]))"
proof -
  obtain pos st where st: "im_append sample_key None sample_batch im_new = (Returns (Inr pos), st)"
    "im_reachable im_new" "im_hist st sample_key = batch_iter sample_batch" and reach: "im_reachable st"
    by (rule sample_store)
  have step: "im_step im_new st" by (rule step_append [OF sample_batch_ok(1) st(1)])
  have o1: "im_open_export_session 5 10 s = Inr \<lparr>xs_heads = export_heads (im_inner s), xs_deadline = 15\<rparr>" for s
    by (simp add: im_open_export_session_def instant_checked_add_def instant_MAX_def result_simps)
  have e1: "im_export_stream 6 version_INITIAL \<lparr>xs_heads = hd', xs_deadline = 15\<rparr> =
      Inr \<lparr>xc_inner = Some (Some version_INITIAL, []), xc_deadline = 15\<rparr>" for hd'
    by (simp add: im_export_stream_def xs_check_live_def result_simps)
  have "\<forall>x \<in> set [(st, 7::nat)]. im_step\<^sup>*\<^sup>* im_new (fst x)" using step by auto
  note V1 = im_export_view_fixed [OF st(2) o1 e1 this, of sample_key]
  have "\<forall>x \<in> set [(st, 7::nat), (st, 8), (st, 9)]. im_step\<^sup>*\<^sup>* st (fst x)" by simp
  note V2 = im_export_view_fixed [OF reach o1 e1 this, of sample_key]
  let ?ses = "\<lparr>xs_heads = export_heads (im_inner st), xs_deadline = 15\<rparr>"
  have "im_hist st k = []" if "k \<noteq> sample_key" for k
    using im.hist_append(2) [OF _ sample_batch_ok(1) st(1) that] by simp
  then have "{k. im_hist st k \<noteq> []} = {sample_key}" using st(3) by (auto simp: sample_batch_def batch_iter_def)
  with V2 have "set [sample_key] = dom (xs_heads ?ses)" by simp
  with V2 [THEN conjunct2, THEN conjunct2, THEN conjunct2, rule_format, of "[sample_key]" 6 "[7, 8]"]
  have "\<exists>lc. im_export_list_streams [sample_key] 6 ?ses = Inr lc \<and>
      export_list_polls [7, 8] lc = map Inr (take (length [7, 8 :: nat]) [sample_key])"
    by (simp del: export_list_polls.simps)
  moreover have "export_polls sample_key ?ses [(st, 7), (st, 8), (st, 9)] \<lparr>xc_inner = Some (Some version_INITIAL, []), xc_deadline = 15\<rparr> =
      [Inr (persisted_of (sample_event 1)), Inr (persisted_of (sample_event 2))]"
    using V2 st(3) by (simp add: sample_batch_def batch_iter_def del: export_polls.simps)
  moreover have "export_polls sample_key \<lparr>xs_heads = export_heads (im_inner im_new), xs_deadline = 15\<rparr> [(st, 7)]
      \<lparr>xc_inner = Some (Some version_INITIAL, []), xc_deadline = 15\<rparr> = []"
    using V1 [THEN conjunct2, THEN conjunct1] by (simp del: export_polls.simps)
  ultimately show ?thesis using st(1)
    by (intro exI [of _ pos] exI [of _ st]) (simp add: o1 e1 del: export_polls.simps export_list_polls.simps)
qed

end
