(* ===== verification/Fjall_Export.thy ===== *)
theory Fjall_Export
  imports Fjall_Async InMemory_Export
begin

text \<open>
  The export sessions of the fjall adapter, \<open>adapters/fjall/src/export.rs\<close>. The worker keeps a registry
  of deadline-bound database views; a session names one of them, and its cursors fetch bounded batches
  from that view, each fetch opening a new iterator after the last row delivered. The lemmas show that
  the batches of a cursor join to the contents of the view, whatever was committed since and whatever
  other sessions do.
\<close>

section \<open>Views\<close>

record 'db export_view =
  ev_snapshot :: 'db
  ev_deadline :: instant

record 'db views =
  vs_active :: "(u64 \<times> 'db export_view) list"
  vs_next_id :: "u64 option"

definition views_default :: "'db views" where
  "views_default = \<lparr>vs_active = [], vs_next_id = Some 1\<rparr>"

definition views_expire :: "instant \<Rightarrow> 'db views \<Rightarrow> 'db views" where
  "views_expire now vs = vs\<lparr>vs_active := filter (\<lambda>x. ev_deadline (snd x) > now) (vs_active vs)\<rparr>"

definition views_deadline :: "'db views \<Rightarrow> instant option" where
  "views_deadline vs =
    (case map (\<lambda>x. ev_deadline (snd x)) (vs_active vs) of [] \<Rightarrow> None | d # ds \<Rightarrow> Some (fold min ds d))"

definition views_get :: "instant \<Rightarrow> u64 \<Rightarrow> 'db views \<Rightarrow> ('db, 'io fjall_error export_error) result" where
  "views_get now i vs =
    and_then (ok_or ExExpired (map_of (vs_active vs) i)) (\<lambda>view.
      if now \<ge> ev_deadline view then Inl ExExpired else Inr (ev_snapshot view))"

record lease =
  ls_id :: u64
  ls_deadline :: instant

text \<open>\<open>read_tx\<close> is the engine's snapshot of a database.\<close>

definition views_open ::
  "('db \<Rightarrow> 'db) \<Rightarrow> instant \<Rightarrow> duration \<Rightarrow> 'db \<Rightarrow> 'db views
    \<Rightarrow> (lease, 'io fjall_error export_error) result \<times> 'db views" where
  "views_open read_tx now lifetime db vs =
    (case vs_next_id vs of
       None \<Rightarrow> (Inl (ExStore FjExportSessionIdOverflow), vs)
     | Some i \<Rightarrow>
         (case (if lifetime = 0 then None else instant_checked_add now lifetime) of
            None \<Rightarrow> (Inl (ExInvalidLifetime lifetime), vs)
          | Some deadline \<Rightarrow>
              (Inr \<lparr>ls_id = i, ls_deadline = deadline\<rparr>,
               vs\<lparr>vs_active := btree_insert i \<lparr>ev_snapshot = read_tx db, ev_deadline = deadline\<rparr> (vs_active vs),
                  vs_next_id := checked_add i 1\<rparr>)))"

definition views_close :: "u64 \<Rightarrow> 'db views \<Rightarrow> 'db views" where
  "views_close i vs = vs\<lparr>vs_active := btree_remove i (vs_active vs)\<rparr>"

inductive views_step :: "('db \<Rightarrow> 'db) \<Rightarrow> 'db views \<Rightarrow> 'db views \<Rightarrow> bool" for read_tx where
  view_opened: "views_open read_tx now lifetime db vs = (Inr l :: (lease, unit fjall_error export_error) result, vs') \<Longrightarrow>
    views_step read_tx vs vs'"
| views_expired: "views_step read_tx vs (views_expire now vs)"
| view_closed: "views_step read_tx vs (views_close i vs)"

section \<open>Sessions\<close>

definition fj_open_export_session ::
  "('db \<Rightarrow> 'db) \<Rightarrow> instant \<Rightarrow> bool \<Rightarrow> fate \<Rightarrow> instant \<Rightarrow> duration \<Rightarrow> 'db storage \<Rightarrow> 'db views
    \<Rightarrow> (lease, 'io fjall_error export_error) result \<times> 'db views" where
  "fj_open_export_session read_tx now free fate worker_now lifetime st vs =
    (if lifetime = 0 \<or> instant_checked_add now lifetime = None then (Inl (ExInvalidLifetime lifetime), vs)
     else case map_err ExStore (reserve_cursor free) of
       Inl e \<Rightarrow> (Inl e, vs)
     | Inr _ \<Rightarrow>
         (case executor_submit fate (sync (views_open read_tx worker_now lifetime (fj_db st))) vs of (r, vs') \<Rightarrow>
            (and_then (map_err ExStore r) (\<lambda>x. x), vs')))"

definition fj_check_live :: "instant \<Rightarrow> lease \<Rightarrow> (unit, 'io fjall_error export_error) result" where
  "fj_check_live now l = (if now \<ge> ls_deadline l then Inl ExExpired else Inr ())"

section \<open>Scans of a view\<close>

definition listing_open ::
  "('db, 'tx, 'io) engine \<Rightarrow> 'db \<Rightarrow> stream_key option \<Rightarrow> ('io scan_cursor, 'io fjall_error) result" where
  "listing_open eng snapshot after = Inr (id_cursor_from_iter (stream_ids_after eng snapshot after))"

definition listing_advance :: "stream_key \<Rightarrow> stream_key option \<Rightarrow> stream_key option option" where
  "listing_advance item after = Some (Some item)"

definition events_open ::
  "('db, 'tx, 'io) engine \<Rightarrow> 'db \<Rightarrow> stream_key \<times> version \<Rightarrow> ('io scan_cursor, 'io fjall_error) result" where
  "events_open eng snapshot scan = cursor_open eng snapshot ''events'' (fj_stream_scan (fst scan)) (snd scan)"

definition events_advance :: "persisted_envelope \<Rightarrow> stream_key \<times> version \<Rightarrow> (stream_key \<times> version) option" where
  "events_advance item scan = map_option (Pair (fst scan)) (version_next (ps_version item))"

record ('sc, 'a, 'io) session_batch =
  sb_scan :: "'sc option"
  sb_rows :: "('a, 'io fjall_error export_error) result list"

primrec session_rows ::
  "('c, 'a, 'io) next_row \<Rightarrow> ('a \<Rightarrow> 'sc \<Rightarrow> 'sc option) \<Rightarrow> nat \<Rightarrow> nat \<Rightarrow> nat
    \<Rightarrow> ('a, 'io fjall_error export_error) result list \<Rightarrow> 'sc \<Rightarrow> 'c \<Rightarrow> ('sc, 'a, 'io) session_batch" where
  "session_rows next_row advance budget 0 bytes rows scan cursor = \<lparr>sb_scan = Some scan, sb_rows = rows\<rparr>"
| "session_rows next_row advance budget (Suc n) bytes rows scan cursor =
    (case next_row cursor of
       (None, _) \<Rightarrow> \<lparr>sb_scan = None, sb_rows = rows\<rparr>
     | (Some (Inl e, _), _) \<Rightarrow> \<lparr>sb_scan = None, sb_rows = rows @ [Inl (ExStore e)]\<rparr>
     | (Some (Inr item, len), cursor) \<Rightarrow>
         (case checked_add_usize bytes len of
            None \<Rightarrow> \<lparr>sb_scan = None, sb_rows = rows @ [Inl (ExStore FjScanLengthOverflow)]\<rparr>
          | Some acc \<Rightarrow>
              (case advance item scan of
                 None \<Rightarrow> \<lparr>sb_scan = None, sb_rows = rows @ [Inr item]\<rparr>
               | Some scan \<Rightarrow>
                   if acc \<ge> budget then \<lparr>sb_scan = Some scan, sb_rows = rows @ [Inr item]\<rparr>
                   else session_rows next_row advance budget n acc (rows @ [Inr item]) scan cursor)))"

definition session_fetch ::
  "('sc \<Rightarrow> ('c, 'io fjall_error) result) \<Rightarrow> ('c, 'a, 'io) next_row \<Rightarrow> ('a \<Rightarrow> 'sc \<Rightarrow> 'sc option) \<Rightarrow> blocking_config \<Rightarrow> 'sc
    \<Rightarrow> (('sc, 'a, 'io) session_batch, 'io fjall_error export_error) result" where
  "session_fetch open_at next_row advance cfg scan =
    and_then (map_err ExStore (open_at scan)) (\<lambda>cursor.
      Inr (session_rows next_row advance (bc_scan_batch_bytes cfg) (bc_scan_batch_rows cfg) 0 [] scan cursor))"

section \<open>Cursors\<close>

text \<open>The next batch of a cursor, fetched by a job that looks the view up when it runs.\<close>

definition session_result ::
  "('db \<Rightarrow> 'sc \<Rightarrow> ('c, 'io fjall_error) result) \<Rightarrow> ('c, 'a, 'io) next_row \<Rightarrow> ('a \<Rightarrow> 'sc \<Rightarrow> 'sc option)
    \<Rightarrow> blocking_config \<Rightarrow> u64 \<Rightarrow> fate \<Rightarrow> 'db views \<Rightarrow> instant \<Rightarrow> 'sc
    \<Rightarrow> (('sc, 'a, 'io) session_batch, 'io fjall_error export_error) result" where
  "session_result open_view next_row advance cfg i fate vs now scan =
    and_then (map_err ExStore (fst (executor_submit fate (reading (\<lambda>vs.
      and_then (views_get now i vs) (\<lambda>snapshot. session_fetch (open_view snapshot) next_row advance cfg scan))) vs)))
      (\<lambda>x. x)"

text \<open>What the job of a pending fetch does when a cursor is polled: it has not finished, or it met the
given fate, with the views and the clock it found.\<close>

datatype 'db session_reply = SessionWaiting | SessionReplied fate "'db views" instant

definition session_pop ::
  "('sc, 'a, 'io) session_batch
    \<Rightarrow> (('a, 'io fjall_error export_error) result \<times> ('sc, 'a, 'io) session_batch) option" where
  "session_pop b = (case sb_rows b of [] \<Rightarrow> None | row # rest \<Rightarrow> Some (row, b\<lparr>sb_rows := rest\<rparr>))"

definition session_unfold ::
  "('db \<Rightarrow> 'sc \<Rightarrow> ('c, 'io fjall_error) result) \<Rightarrow> ('c, 'a, 'io) next_row \<Rightarrow> ('a \<Rightarrow> 'sc \<Rightarrow> 'sc option)
    \<Rightarrow> blocking_config \<Rightarrow> u64 \<Rightarrow> 'db session_reply \<Rightarrow> ('sc, 'a, 'io) session_batch
    \<Rightarrow> (('a, 'io fjall_error export_error) result \<times> ('sc, 'a, 'io) session_batch) option poll" where
  "session_unfold open_view next_row advance cfg i reply b =
    (if sb_rows b = [] then
       case sb_scan b of
         None \<Rightarrow> PollReady None
       | Some scan \<Rightarrow>
           (case reply of
              SessionWaiting \<Rightarrow> PollPending
            | SessionReplied fate vs now \<Rightarrow>
                PollReady (session_pop (case session_result open_view next_row advance cfg i fate vs now scan of
                  Inr fetched \<Rightarrow> fetched
                | Inl e \<Rightarrow> \<lparr>sb_scan = None, sb_rows = [Inl e]\<rparr>)))
     else PollReady (session_pop b))"

record 'u fj_export_cursor =
  fx_inner :: "'u option"
  fx_deadline :: instant
  fx_cleanup :: bool

definition fj_session_cursor ::
  "instant \<Rightarrow> bool \<Rightarrow> lease \<Rightarrow> 'sc
    \<Rightarrow> (('sc, 'a, 'io) session_batch fj_export_cursor, 'io fjall_error export_error) result" where
  "fj_session_cursor now free l initial =
    and_then (fj_check_live now l) (\<lambda>_.
    and_then (map_err ExStore (reserve_cursor free)) (\<lambda>_.
      Inr \<lparr>fx_inner = Some \<lparr>sb_scan = Some initial, sb_rows = []\<rparr>, fx_deadline = ls_deadline l, fx_cleanup = True\<rparr>))"

definition fj_export_list_streams ::
  "instant \<Rightarrow> bool \<Rightarrow> lease
    \<Rightarrow> ((stream_key option, stream_key, 'io) session_batch fj_export_cursor, 'io fjall_error export_error) result" where
  "fj_export_list_streams now free l = fj_session_cursor now free l None"

definition fj_export_stream ::
  "instant \<Rightarrow> bool \<Rightarrow> lease \<Rightarrow> stream_key \<Rightarrow> version
    \<Rightarrow> ((stream_key \<times> version, persisted_envelope, 'io) session_batch fj_export_cursor, 'io fjall_error export_error) result" where
  "fj_export_stream now free l k v =
    and_then (fj_check_live now l) (\<lambda>_.
    and_then (map_err ExStore (validate_key (key_bytes k) MAX_STREAM_ID_LEN)) (\<lambda>_.
      fj_session_cursor now free l (k, v)))"

definition fj_export_poll ::
  "('r \<Rightarrow> 'u \<Rightarrow> (('a, 'io fjall_error export_error) result \<times> 'u) option poll) \<Rightarrow> instant \<Rightarrow> 'r \<Rightarrow> 'u fj_export_cursor
    \<Rightarrow> ('a, 'io fjall_error export_error) result option poll \<times> 'u fj_export_cursor" where
  "fj_export_poll inner_poll now reply c =
    (case fx_inner c of
       None \<Rightarrow> (PollReady None, c)
     | Some u \<Rightarrow>
         if now \<ge> fx_deadline c then (PollReady (Some (Inl ExExpired)), c\<lparr>fx_inner := None, fx_cleanup := False\<rparr>)
         else case inner_poll reply u of
           PollPending \<Rightarrow> (PollPending, c)
         | PollReady None \<Rightarrow> (PollReady None, c\<lparr>fx_inner := None, fx_cleanup := False\<rparr>)
         | PollReady (Some (Inl e, _)) \<Rightarrow> (PollReady (Some (Inl e)), c\<lparr>fx_inner := None, fx_cleanup := False\<rparr>)
         | PollReady (Some (Inr item, u')) \<Rightarrow> (PollReady (Some (Inr item)), c\<lparr>fx_inner := Some u'\<rparr>))"

text \<open>What a consumer collects over a sequence of polls, up to the first end of the stream.\<close>

primrec fj_export_polls ::
  "('r \<Rightarrow> 'u \<Rightarrow> (('a, 'io fjall_error export_error) result \<times> 'u) option poll) \<Rightarrow> (instant \<times> 'r) list
    \<Rightarrow> 'u fj_export_cursor \<Rightarrow> ('a, 'io fjall_error export_error) result list" where
  "fj_export_polls inner_poll [] c = []"
| "fj_export_polls inner_poll (x # xs) c =
    (case fj_export_poll inner_poll (fst x) (snd x) c of
       (PollPending, c') \<Rightarrow> fj_export_polls inner_poll xs c'
     | (PollReady None, c') \<Rightarrow> []
     | (PollReady (Some item), c') \<Rightarrow> item # fj_export_polls inner_poll xs c')"

section \<open>Lemmas: views\<close>

definition issued :: "'db views \<Rightarrow> u64 \<Rightarrow> bool" where
  "issued vs i \<longleftrightarrow> (case vs_next_id vs of None \<Rightarrow> True | Some n \<Rightarrow> i < n)"

definition views_ok :: "'db views \<Rightarrow> bool" where
  "views_ok vs \<longleftrightarrow> btree_ok (vs_active vs) \<and> (\<forall>x \<in> set (vs_active vs). issued vs (fst x))"

lemma views_ok_default: "views_ok views_default"
  by (simp add: views_ok_def views_default_def)

lemma checked_add_issued:
  "issued (vs\<lparr>vs_active := xs, vs_next_id := checked_add n 1\<rparr>) i \<longleftrightarrow> i \<le> n" for n i :: u64
proof (cases "checked_add n 1")
  case None
  then have "unat i \<le> unat n"
    using unsigned_less [of i, where 'a = nat] by (simp add: checked_add_None)
  with None show ?thesis by (simp add: issued_def word_le_nat_alt)
next
  case (Some c)
  then have "unat c = Suc (unat n)" by (simp add: checked_add_Some)
  with Some show ?thesis by (simp add: issued_def word_le_nat_alt word_less_nat_alt less_Suc_eq_le)
qed

lemma views_insert_ok:
  assumes "views_ok vs" "vs_next_id vs = Some n"
    "vs' = vs\<lparr>vs_active := btree_insert n view (vs_active vs), vs_next_id := checked_add n 1\<rparr>"
  shows "views_ok vs' \<and> (issued vs i \<longrightarrow> issued vs' i \<and> map_of (vs_active vs') i = map_of (vs_active vs) i)"
proof -
  have old: "\<forall>x \<in> set (vs_active vs). fst x < n" "btree_ok (vs_active vs)"
    using assms(1,2) by (auto simp: views_ok_def issued_def)
  then have "btree_insert n view (vs_active vs) = vs_active vs @ [(n, view)]" by (intro btree_insert_append) auto
  with btree_insert_ok [OF old(2), of n view] have ok: "btree_ok (vs_active vs @ [(n, view)])" by simp
  have "views_ok vs'"
    using old(1) ok \<open>btree_insert n view (vs_active vs) = _\<close>
    by (auto simp: assms(3) views_ok_def checked_add_issued less_imp_le)
  moreover have "issued vs' i \<and> map_of (vs_active vs') i = map_of (vs_active vs) i" if "issued vs i"
    using that assms(2) map_of_btree_insert [OF old(2), of n view]
    by (auto simp: assms(3) checked_add_issued) (auto simp: issued_def)
  ultimately show ?thesis by blast
qed

lemma views_step_ok:
  assumes "views_step read_tx vs vs'" "views_ok vs"
  shows "views_ok vs' \<and> (issued vs i \<longrightarrow> issued vs' i \<and>
    (map_of (vs_active vs') i = None \<or> map_of (vs_active vs') i = map_of (vs_active vs) i))"
  using assms(1)
proof (cases rule: views_step.cases)
  case (view_opened now lifetime db l)
  then obtain n d where "vs_next_id vs = Some n"
    "vs' = vs\<lparr>vs_active := btree_insert n \<lparr>ev_snapshot = read_tx db, ev_deadline = d\<rparr> (vs_active vs),
      vs_next_id := checked_add n 1\<rparr>"
    by (auto simp: views_open_def split: option.splits if_splits)
  from views_insert_ok [OF assms(2) this] show ?thesis by blast
next
  case (views_expired now)
  have "map_of (filter (\<lambda>x. now < ev_deadline (snd x)) (vs_active vs)) i \<in> {None, map_of (vs_active vs) i}"
    using assms(2)
    by (cases "map_of (filter (\<lambda>x. now < ev_deadline (snd x)) (vs_active vs)) i")
      (auto simp: views_ok_def dest!: map_of_SomeD intro: sym [OF iffD2 [OF map_of_btree_get]])
  with views_expired assms(2) show ?thesis
    by (auto simp: views_expire_def views_ok_def issued_def btree_ok_def sorted_wrt_map intro: sorted_wrt_filter)
next
  case (view_closed j)
  with assms(2) show ?thesis
    by (auto simp: views_close_def views_ok_def issued_def btree_remove_ok map_of_btree_remove)
      (auto simp: btree_remove_def)
qed

lemma views_steps_ok:
  assumes "(views_step read_tx)\<^sup>*\<^sup>* vs vs'" "views_ok vs" "issued vs i"
  shows "views_ok vs' \<and> issued vs' i \<and>
    (map_of (vs_active vs') i = None \<or> map_of (vs_active vs') i = map_of (vs_active vs) i)"
  using assms(1)
proof (induction rule: rtranclp_induct)
  case base
  with assms(2,3) show ?case by simp
next
  case (step vs' vs'')
  from step.IH views_step_ok [OF step.hyps(2), of i] show ?case by auto
qed

lemma views_open_holds:
  assumes "views_ok vs" "views_open read_tx now lifetime db vs = (Inr l, vs')"
  shows "views_ok vs' \<and> issued vs' (ls_id l) \<and> ls_deadline l = now + lifetime \<and>
    map_of (vs_active vs') (ls_id l) = Some \<lparr>ev_snapshot = read_tx db, ev_deadline = ls_deadline l\<rparr>"
proof -
  from assms obtain n where n: "vs_next_id vs = Some n" "l = \<lparr>ls_id = n, ls_deadline = now + lifetime\<rparr>"
    "vs' = vs\<lparr>vs_active := btree_insert n \<lparr>ev_snapshot = read_tx db, ev_deadline = now + lifetime\<rparr> (vs_active vs),
      vs_next_id := checked_add n 1\<rparr>"
    by (auto simp: views_open_def instant_checked_add_def split: option.splits if_splits)
  from views_insert_ok [OF assms(1) n(1,3)] have "views_ok vs'" by blast
  with n assms(1) show ?thesis
    by (simp add: checked_add_issued map_of_btree_insert views_ok_def)
qed

text \<open>Whatever the registry went through since, the view of an issued lease is the one it was opened on,
or gone.\<close>

lemma views_get_snapshot:
  assumes "views_ok vs" "views_open read_tx now lifetime db vs = (Inr l, vs')" "(views_step read_tx)\<^sup>*\<^sup>* vs' vs''"
  shows "views_get t (ls_id l) vs'' = Inl ExExpired \<or> views_get t (ls_id l) vs'' = Inr (read_tx db)"
proof -
  note opened = views_open_holds [OF assms(1,2)]
  then have "map_of (vs_active vs'') (ls_id l) = None \<or>
    map_of (vs_active vs'') (ls_id l) = Some \<lparr>ev_snapshot = read_tx db, ev_deadline = ls_deadline l\<rparr>"
    using views_steps_ok [OF assms(3)] by metis
  then show ?thesis by (auto simp: views_get_def result_simps)
qed

section \<open>Lemmas: joining batches\<close>

text \<open>What a cursor relies on: opening a scan yields what remains of it, and advancing past the next
item leaves the rest.\<close>

definition resumable ::
  "('sc \<Rightarrow> ('c, 'io fjall_error) result) \<Rightarrow> ('c, 'a, 'io) next_row \<Rightarrow> ('a \<Rightarrow> 'sc \<Rightarrow> 'sc option)
    \<Rightarrow> ('sc \<Rightarrow> bool) \<Rightarrow> ('sc \<Rightarrow> 'a list) \<Rightarrow> bool" where
  "resumable open_at next_row advance good rest_of \<longleftrightarrow>
    (\<forall>scan. good scan \<longrightarrow> (\<exists>c out. open_at scan = Inr c \<and> yields next_row c out \<and> delivers (rest_of scan) out)) \<and>
    (\<forall>scan x xs. good scan \<longrightarrow> rest_of scan = x # xs \<longrightarrow>
      (case advance x scan of None \<Rightarrow> xs = [] | Some scan' \<Rightarrow> good scan' \<and> rest_of scan' = xs))"

lemma resumable_open:
  assumes "resumable open_at next_row advance good rest_of" "good scan"
  obtains c out where "open_at scan = Inr c" "yields next_row c out" "delivers (rest_of scan) out"
  using assms unfolding resumable_def by blast

lemma resumable_advance:
  assumes "resumable open_at next_row advance good rest_of" "good scan" "rest_of scan = x # xs"
  shows "case advance x scan of None \<Rightarrow> xs = [] | Some scan' \<Rightarrow> good scan' \<and> rest_of scan' = xs"
  using assms unfolding resumable_def by blast

lemma delivers_NilD: "delivers xs [] \<Longrightarrow> xs = []"
  by (auto simp: delivers_def)

lemma delivers_ConsD: "delivers xs (Inr x # out) \<Longrightarrow> \<exists>xs'. xs = x # xs' \<and> delivers xs' out"
proof -
  assume "delivers xs (Inr x # out)"
  then consider (all) "Inr x # out = map Inr xs" | (cut) n io where "Inr x # out = map Inr (take n xs) @ [Inl (FjIo io)]"
    by (auto simp: delivers_def)
  then show ?thesis
  proof cases
    case all
    then show ?thesis by (auto simp: delivers_def)
  next
    case (cut n io)
    then obtain m ys where "n = Suc m" "xs = x # ys" by (cases n; cases xs) auto
    with cut show ?thesis by (auto simp: delivers_def)
  qed
qed

definition batch_covers ::
  "('sc \<Rightarrow> bool) \<Rightarrow> ('sc \<Rightarrow> 'a list) \<Rightarrow> 'a list \<Rightarrow> 'sc option \<Rightarrow> ('a, 'e) result list \<Rightarrow> bool" where
  "batch_covers good rest_of xs left rows \<longleftrightarrow>
    (case left of
       Some scan \<Rightarrow> good scan \<and> (\<exists>ys. rows = map Inr ys \<and> xs = ys @ rest_of scan)
     | None \<Rightarrow> reads_fully xs rows)"

lemma reads_fully_Cons: "reads_fully xs rows \<Longrightarrow> reads_fully (x # xs) (Inr x # rows)"
  unfolding reads_fully_def by (metis append_Cons list.simps(9) take_Suc_Cons)

lemma reads_as_Cons: "reads_as xs rows \<Longrightarrow> reads_as (x # xs) (Inr x # rows)"
  unfolding reads_as_def by (metis append_Cons list.simps(9) take_Suc_Cons)

lemma reads_fully_error [simp]: "reads_fully xs [Inl e]"
  unfolding reads_fully_def by (rule disjI2, rule exI [of _ 0]) simp

lemma batch_covers_Cons:
  assumes "batch_covers good rest_of xs left rows"
  shows "batch_covers good rest_of (x # xs) left (Inr x # rows)"
proof (cases left)
  case None
  with assms show ?thesis by (simp add: batch_covers_def reads_fully_Cons)
next
  case (Some scan)
  with assms obtain ys where "rows = map Inr ys" "xs = ys @ rest_of scan" by (auto simp: batch_covers_def)
  then have "Inr x # rows = map Inr (x # ys)" "x # xs = (x # ys) @ rest_of scan" by simp_all
  then have "\<exists>zs. Inr x # rows = map Inr zs \<and> x # xs = zs @ rest_of scan"
    by (intro exI [of _ "x # ys"] conjI)
  moreover have "good scan" using assms Some by (simp add: batch_covers_def)
  ultimately show ?thesis using Some by (simp only: batch_covers_def option.case)
qed

lemma reads_as_error [simp]: "reads_as xs [Inl e]"
  unfolding reads_as_def by (rule exI [of _ 0], rule disjI2) simp

lemma session_rows_of:
  assumes "resumable open_at next_row advance good rest_of" "yields next_row c out" "delivers (rest_of scan) out"
    "good scan" "session_rows next_row advance budget n bytes rows scan c = b"
  shows "\<exists>new. sb_rows b = rows @ new \<and> batch_covers good rest_of (rest_of scan) (sb_scan b) new \<and>
    (0 < n \<longrightarrow> sb_scan b \<noteq> None \<longrightarrow> new \<noteq> [])"
  using assms(2-5)
proof (induction n arbitrary: c out bytes rows scan)
  case 0
  then show ?case by (auto simp: batch_covers_def)
next
  case (Suc n)
  show ?case using Suc.prems(1)
  proof (cases rule: yieldsE)
    case (at_end c')
    with Suc.prems(2) have "rest_of scan = []" by (auto dest: delivers_NilD)
    with at_end Suc.prems(4) show ?thesis by (auto simp: batch_covers_def reads_fully_def)
  next
    case (at_error e len c')
    with Suc.prems(4) show ?thesis by (auto simp: batch_covers_def)
  next
    case (at_row x len c' out')
    with Suc.prems(2) obtain xs where xs: "rest_of scan = x # xs" "delivers xs out'" by (auto dest: delivers_ConsD)
    show ?thesis
    proof (cases "checked_add_usize bytes len")
      case None
      with at_row(2) Suc.prems(4) show ?thesis by (auto simp: batch_covers_def)
    next
      case (Some acc)
      show ?thesis
      proof (cases "advance x scan")
        case None
        with resumable_advance [OF assms(1) Suc.prems(3) xs(1)] have "xs = []" by simp
        with None Some at_row xs(1) Suc.prems(4) show ?thesis by (auto simp: batch_covers_def reads_fully_def)
      next
        case adv: (Some scan')
        with resumable_advance [OF assms(1) Suc.prems(3) xs(1)] have left: "good scan'" "rest_of scan' = xs" by simp_all
        show ?thesis
        proof (cases "acc \<ge> budget")
          case True
          with adv Some at_row Suc.prems(4) have "b = \<lparr>sb_scan = Some scan', sb_rows = rows @ [Inr x]\<rparr>" by simp
          with xs(1) left show ?thesis by (auto simp: batch_covers_def intro: exI [of _ "[x]"])
        next
          case False
          with adv Some at_row Suc.prems(4)
          have "session_rows next_row advance budget n acc (rows @ [Inr x]) scan' c' = b" by simp
          from Suc.IH [OF at_row(3) _ left(1) this] xs(2) left(2)
          obtain new where "sb_rows b = (rows @ [Inr x]) @ new" "batch_covers good rest_of xs (sb_scan b) new" by auto
          with xs(1) batch_covers_Cons [of good rest_of xs "sb_scan b" new x] show ?thesis by auto
        qed
      qed
    qed
  qed
qed

lemma session_fetch_of:
  assumes "resumable open_at next_row advance good rest_of" "config_ok cfg" "good scan"
  shows "\<exists>b. session_fetch open_at next_row advance cfg scan = Inr b \<and>
    batch_covers good rest_of (rest_of scan) (sb_scan b) (sb_rows b) \<and> (sb_scan b \<noteq> None \<longrightarrow> sb_rows b \<noteq> [])"
proof -
  obtain c out where c: "open_at scan = Inr c" "yields next_row c out" "delivers (rest_of scan) out"
    using assms(1,3) by (rule resumable_open)
  from session_rows_of [OF assms(1) c(2,3) assms(3) refl, of "bc_scan_batch_bytes cfg" "bc_scan_batch_rows cfg" 0 "[]"] assms(2) c(1)
  show ?thesis by (auto simp: session_fetch_def result_simps config_ok_def)
qed

lemma reads_fully_NilD: "reads_fully xs [] \<Longrightarrow> xs = []"
  by (auto simp: reads_fully_def)

lemma reads_fully_ConsD:
  assumes "reads_fully xs (Inr x # rows)"
  shows "\<exists>xs'. xs = x # xs' \<and> reads_fully xs' rows"
proof -
  from assms consider (all) "Inr x # rows = map Inr xs" | (cut) n e where "Inr x # rows = map Inr (take n xs) @ [Inl e]"
    by (auto simp: reads_fully_def)
  then show ?thesis
  proof cases
    case all
    then show ?thesis by (auto simp: reads_fully_def)
  next
    case (cut n e)
    then obtain m ys where "n = Suc m" "xs = x # ys" by (cases n; cases xs) auto
    with cut show ?thesis by (auto simp: reads_fully_def)
  qed
qed

lemma batch_covers_pop:
  assumes "batch_covers good rest_of xs left (Inr x # rows)"
  shows "\<exists>xs'. xs = x # xs' \<and> batch_covers good rest_of xs' left rows"
proof (cases left)
  case None
  with assms reads_fully_ConsD [of xs x rows] show ?thesis by (simp add: batch_covers_def)
next
  case (Some scan)
  with assms have "\<exists>ys. Inr x # rows = map Inr ys \<and> xs = ys @ rest_of scan" and good: "good scan"
    by (simp_all add: batch_covers_def)
  then obtain ys where ys: "Inr x # rows = map Inr ys" "xs = ys @ rest_of scan" by (elim exE conjE)
  then obtain zs where "ys = x # zs" "rows = map Inr zs" by (cases ys) auto
  with ys(2) Some good show ?thesis by (auto simp: batch_covers_def)
qed

text \<open>The job of a fetch finds the view it was opened on or none, so it fetches from that view or fails.\<close>

definition reply_sees :: "'db \<Rightarrow> u64 \<Rightarrow> 'db session_reply \<Rightarrow> bool" where
  "reply_sees snapshot i reply \<longleftrightarrow>
    (case reply of
       SessionWaiting \<Rightarrow> True
     | SessionReplied fate vs now \<Rightarrow> (case map_of (vs_active vs) i of
         None \<Rightarrow> True
       | Some view \<Rightarrow> ev_snapshot view = snapshot))"

lemma session_result_of:
  fixes next_row :: "('c, 'a, 'io) next_row" and vs :: "'db views"
  assumes "resumable (open_view snapshot) next_row advance good rest_of" "config_ok cfg"
    "reply_sees snapshot i (SessionReplied fate vs now)" "good scan"
  shows "case session_result open_view next_row advance cfg i fate vs now scan of
      Inl _ \<Rightarrow> True
    | Inr b \<Rightarrow> batch_covers good rest_of (rest_of scan) (sb_scan b) (sb_rows b) \<and> (sb_scan b \<noteq> None \<longrightarrow> sb_rows b \<noteq> [])"
proof -
  obtain b where b: "session_fetch (open_view snapshot) next_row advance cfg scan = Inr b"
    "batch_covers good rest_of (rest_of scan) (sb_scan b) (sb_rows b)" "sb_scan b \<noteq> None \<longrightarrow> sb_rows b \<noteq> []"
    using session_fetch_of [OF assms(1,2,4)] by blast
  have "(views_get now i vs :: ('db, 'io fjall_error export_error) result) = Inl ExExpired \<or>
    (views_get now i vs :: ('db, 'io fjall_error export_error) result) = Inr snapshot"
    using assms(3) by (auto simp: reply_sees_def views_get_def result_simps split: option.splits)
  then have "session_result open_view next_row advance cfg i fate vs now scan = Inr b \<or>
    (\<exists>e. session_result open_view next_row advance cfg i fate vs now scan = Inl e)"
  proof
    assume gone: "(views_get now i vs :: ('db, 'io fjall_error export_error) result) = Inl ExExpired"
    show ?thesis
      by (cases fate) (simp_all add: session_result_def executor_submit_def worker_job_def completion_def reading_def
          result_simps gone)
  next
    assume found: "(views_get now i vs :: ('db, 'io fjall_error export_error) result) = Inr snapshot"
    show ?thesis
      by (cases fate) (simp_all add: session_result_def executor_submit_def worker_job_def completion_def reading_def
          result_simps found b(1))
  qed
  with b(2,3) show ?thesis by (elim disjE exE) simp_all
qed

lemma session_unfold_of:
  assumes "resumable (open_view snapshot) next_row advance good rest_of" "config_ok cfg" "reply_sees snapshot i reply"
    "batch_covers good rest_of left (sb_scan b) (sb_rows b)"
  shows "case session_unfold open_view next_row advance cfg i reply b of
      PollPending \<Rightarrow> reply = SessionWaiting
    | PollReady None \<Rightarrow> left = []
    | PollReady (Some (Inl e, b')) \<Rightarrow> True
    | PollReady (Some (Inr x, b')) \<Rightarrow> (\<exists>left'. left = x # left' \<and> batch_covers good rest_of left' (sb_scan b') (sb_rows b'))"
proof -
  have pop: "case session_pop b of None \<Rightarrow> sb_rows b = [] | Some (Inl e, b') \<Rightarrow> True
    | Some (Inr x, b') \<Rightarrow> (\<exists>left'. left = x # left' \<and> batch_covers good rest_of left' (sb_scan b') (sb_rows b'))"
    if "batch_covers good rest_of left (sb_scan b) (sb_rows b)" for b and left
    using that batch_covers_pop [of good rest_of left "sb_scan b"]
    by (auto simp: session_pop_def split: list.splits sum.splits)
  show ?thesis
  proof (cases "sb_rows b = []")
    case False
    with pop [OF assms(4)] show ?thesis by (auto simp: session_unfold_def split: option.splits)
  next
    case empty: True
    show ?thesis
    proof (cases "sb_scan b")
      case None
      with assms(4) empty show ?thesis by (auto simp: session_unfold_def batch_covers_def dest: reads_fully_NilD)
    next
      case (Some scan)
      with assms(4) empty have left: "left = rest_of scan" "good scan" by (simp_all add: batch_covers_def)
      show ?thesis
      proof (cases reply)
        case SessionWaiting
        with empty Some show ?thesis by (simp add: session_unfold_def)
      next
        case (SessionReplied fate vs now)
        note fetched = session_result_of [where open_view = open_view and snapshot = snapshot and fate = fate and
          vs = vs and now = now and scan = scan, OF assms(1,2) _ left(2), of i]
        show ?thesis
        proof (cases "session_result open_view next_row advance cfg i fate vs now scan")
          case (Inl e)
          with empty Some SessionReplied show ?thesis by (simp add: session_unfold_def session_pop_def)
        next
          case (Inr b')
          with fetched assms(3) SessionReplied
          have b': "batch_covers good rest_of left (sb_scan b') (sb_rows b')" "sb_scan b' \<noteq> None \<longrightarrow> sb_rows b' \<noteq> []"
            by (simp_all add: left(1))
          have "sb_rows b' = [] \<Longrightarrow> left = []"
            using b' by (cases "sb_scan b'") (auto simp: batch_covers_def dest: reads_fully_NilD)
          with pop [OF b'(1)] empty Some SessionReplied Inr show ?thesis
            by (auto simp: session_unfold_def split: option.splits)
        qed
      qed
    qed
  qed
qed

lemma fj_export_polls_done:
  "fx_inner c = None \<Longrightarrow> fj_export_polls inner_poll xs c = []"
  by (cases xs) (simp_all add: fj_export_poll_def)

lemma fj_export_polls_of:
  assumes "resumable (open_view snapshot) next_row advance good rest_of" "config_ok cfg"
    "list_all (\<lambda>p. reply_sees snapshot i (snd p)) polls"
    "fx_inner c = Some b" "batch_covers good rest_of left (sb_scan b) (sb_rows b)"
  shows "reads_as left (fj_export_polls (session_unfold open_view next_row advance cfg i) polls c) \<and>
    (length left \<le> length (filter (\<lambda>p. snd p \<noteq> SessionWaiting) polls) \<longrightarrow>
      reads_fully left (fj_export_polls (session_unfold open_view next_row advance cfg i) polls c))"
  using assms(3-5)
proof (induction polls arbitrary: c b left)
  case Nil
  then show ?case by (auto simp: reads_as_def reads_fully_def intro: exI [of _ 0])
next
  case (Cons p polls)
  let ?next = "session_unfold open_view next_row advance cfg i"
  show ?case
  proof (cases "fst p \<ge> fx_deadline c")
    case True
    with Cons.prems(2) show ?thesis by (simp add: fj_export_poll_def fj_export_polls_done)
  next
    case live: False
    have sees: "reply_sees snapshot i (snd p)" using Cons.prems(1) by simp
    note step = session_unfold_of [where open_view = open_view and snapshot = snapshot, OF assms(1,2) sees Cons.prems(3)]
    show ?thesis
    proof (cases "?next (snd p) b")
      case PollPending
      with step have "snd p = SessionWaiting" by simp
      with live PollPending Cons.IH [OF _ Cons.prems(2,3)] Cons.prems(1,2) show ?thesis
        by (simp add: fj_export_poll_def)
    next
      case (PollReady r)
      show ?thesis
      proof (cases r)
        case None
        with step PollReady have "left = []" by simp
        with live PollReady None Cons.prems(2) show ?thesis
          by (simp add: fj_export_poll_def reads_as_def reads_fully_def)
      next
        case (Some rb)
        obtain row b' where rb: "rb = (row, b')" by (cases rb)
        show ?thesis
        proof (cases row)
          case (Inl e)
          with live PollReady Some rb Cons.prems(2) show ?thesis
            by (simp add: fj_export_poll_def fj_export_polls_done)
        next
          case (Inr x)
          with step PollReady Some rb obtain left' where left': "left = x # left'"
            "batch_covers good rest_of left' (sb_scan b') (sb_rows b')" by auto
          let ?got = "fj_export_polls ?next polls (c\<lparr>fx_inner := Some b'\<rparr>)"
          have got: "fj_export_polls ?next (p # polls) c = Inr x # ?got"
            using live PollReady Some rb Inr Cons.prems(2) by (simp add: fj_export_poll_def)
          have IH: "reads_as left' ?got" "length left' \<le> length (filter (\<lambda>p. snd p \<noteq> SessionWaiting) polls) \<Longrightarrow>
              reads_fully left' ?got"
            using Cons.IH [of "c\<lparr>fx_inner := Some b'\<rparr>" b' left'] Cons.prems(1) left'(2) by simp_all
          have "length left \<le> length (filter (\<lambda>p. snd p \<noteq> SessionWaiting) (p # polls)) \<Longrightarrow>
              length left' \<le> length (filter (\<lambda>p. snd p \<noteq> SessionWaiting) polls)"
            by (simp add: left'(1) split: if_splits)
          with IH reads_fully_Cons [of left' ?got x] reads_as_Cons [of left' ?got x] show ?thesis
            unfolding got left'(1) by blast
        qed
      qed
    qed
  qed
qed

section \<open>Lemmas: the two scans\<close>

definition events_rest :: "event_log \<Rightarrow> stream_key \<times> version \<Rightarrow> persisted_envelope list" where
  "events_rest log scan = map persisted_of (drop (vnum (snd scan) - 1) (log_events log (fst scan)))"

text \<open>The streams of a log in the order of their keys, and those after a key.\<close>

definition log_keys :: "event_log \<Rightarrow> stream_key list" where
  "log_keys log = map StreamKey (sorted_list_of_set (key_bytes ` fst ` set log))"

definition listing_rest :: "event_log \<Rightarrow> stream_key option \<Rightarrow> stream_key list" where
  "listing_rest log after =
    filter (\<lambda>k. case after of None \<Rightarrow> True | Some j \<Rightarrow> key_bytes j < key_bytes k) (log_keys log)"

lemma events_resumable:
  assumes "engine_ok eng contents tview" "log_ok log" "disk_image mode log (contents snapshot)" "key_ok k"
  shows "resumable (events_open eng snapshot) (next_sized (fj_stream_scan k)) events_advance (\<lambda>scan. fst scan = k)
    (events_rest log)"
proof -
  define st where "st = \<lparr>fj_durability = undefined, fj_db = snapshot, fj_mode = mode, fj_notifiers = notifiers_new\<rparr>"
  have rep: "fj_represents contents st log" using assms(2,3) by (simp add: st_def fj_represents_def)
  have run: "run_from 0 (log_events log k)" and "length log \<le> vmax" using assms(2) by (simp_all add: log_ok_def vmax_def)
  then have short: "length (log_events log k) \<le> vmax"
    using length_filter_le [of "\<lambda>x. fst x = k" log] by (simp add: log_events_def del: length_filter_le)
  have opens: "\<exists>c. events_open eng snapshot scan = Inr c \<and>
      delivers (events_rest log scan) (cursor_drain (fj_stream_scan k) c)" if "fst scan = k" for scan
    using fj_read_stream_delivers [OF assms(1) rep assms(4), of "snd scan"] that assms(4)
    by (auto simp: fj_read_stream_def events_open_def events_rest_def st_def validate_key_def key_ok_def result_simps)
  have advance: "case events_advance x scan of None \<Rightarrow> xs = [] | Some scan' \<Rightarrow> fst scan' = k \<and> events_rest log scan' = xs"
    if scan: "fst scan = k" and cons: "events_rest log scan = x # xs" for scan x xs
  proof -
    let ?n = "vnum (snd scan) - 1"
    have pos: "0 < vnum (snd scan)" by simp
    have n: "?n < length (log_events log k)"
    proof (rule ccontr)
      assume "\<not> ?n < length (log_events log k)"
      then have "events_rest log scan = []" using scan by (simp add: events_rest_def)
      with cons show False by simp
    qed
    have "drop ?n (log_events log k) = log_events log k ! ?n # drop (Suc ?n) (log_events log k)"
      using n by (rule Cons_nth_drop_Suc [symmetric])
    with cons scan have x: "x = persisted_of (log_events log k ! ?n)" "xs = map persisted_of (drop (Suc ?n) (log_events log k))"
      by (simp_all add: events_rest_def)
    have same: "vnum (ps_version x) = vnum (snd scan)"
      using run_from_nth [OF run n] pos by (simp add: x(1) persisted_of_def Let_def)
    show ?thesis
    proof (cases "version_next (ps_version x)")
      case None
      then have "vnum (snd scan) = vmax" using same by (simp add: version_next_None)
      with None x(2) short pos show ?thesis by (simp add: events_advance_def)
    next
      case (Some w)
      then have "vnum w = Suc (vnum (snd scan))" using same by (simp add: version_next_Some)
      with Some x(2) pos scan show ?thesis by (simp add: events_advance_def events_rest_def)
    qed
  qed
  show ?thesis unfolding resumable_def
    using opens advance cursor_yields by blast
qed

lemma log_keys_sorted: "sorted_wrt (<) (map key_bytes (log_keys log))"
  by (simp add: log_keys_def comp_def)

lemma set_log_keys: "set (log_keys log) = fst ` set log"
  by (auto simp: log_keys_def image_image)

lemma listing_rest_unique:
  assumes "sorted_wrt (<) (map key_bytes ks)"
    "set ks = {k \<in> fst ` set log. case after of None \<Rightarrow> True | Some j \<Rightarrow> key_bytes j < key_bytes k}"
  shows "ks = listing_rest log after"
proof -
  have "set ks = set (listing_rest log after)" using assms(2) by (auto simp: listing_rest_def set_log_keys)
  moreover have "sorted_wrt (<) (map key_bytes (listing_rest log after))"
    using log_keys_sorted [of log] by (simp add: listing_rest_def sorted_wrt_map sorted_wrt_filter)
  ultimately have "map key_bytes ks = map key_bytes (listing_rest log after)"
    using assms(1) by (metis list.set_map strict_sorted_equal)
  then show ?thesis by (simp add: inj_map_eq_map inj_def stream_key.expand)
qed

lemma listing_resumable:
  assumes "engine_ok eng contents tview" "log_ok log" "disk_image mode log (contents snapshot)"
  shows "resumable (listing_open eng snapshot) id_next_row listing_advance (\<lambda>_. True) (listing_rest log)"
proof -
  define st where "st = \<lparr>fj_durability = undefined, fj_db = snapshot, fj_mode = mode, fj_notifiers = notifiers_new\<rparr>"
  have rep: "fj_represents contents st log" using assms(2,3) by (simp add: st_def fj_represents_def)
  have opens: "delivers (listing_rest log after) (id_drain (id_cursor_from_iter (stream_ids_after eng snapshot after)))" for after
    using stream_ids_after_delivers [OF assms(1) rep, of after] listing_rest_unique by (auto simp: st_def)
  have advance: "listing_rest log (Some x) = xs" if cons: "listing_rest log after = x # xs" for after x xs
  proof -
    let ?above = "\<lambda>k. key_bytes x < key_bytes k"
    let ?P = "\<lambda>k. case after of None \<Rightarrow> True | Some j \<Rightarrow> key_bytes j < key_bytes k"
    have "x \<in> set (listing_rest log after)" by (simp add: cons)
    then have px: "?P x" by (simp add: listing_rest_def)
    have up: "?above k \<Longrightarrow> ?P k" for k using px by (auto split: option.splits dest: order.strict_trans)
    have "sorted_wrt (<) (map key_bytes (x # xs))"
      using log_keys_sorted [of log] by (simp add: listing_rest_def sorted_wrt_map sorted_wrt_filter flip: cons)
    then have "filter ?above (x # xs) = xs" by (simp add: filter_id_conv)
    moreover have "filter ?above (listing_rest log after) = filter ?above (log_keys log)"
      unfolding listing_rest_def filter_filter by (rule filter_cong [OF refl]) (use up in blast)
    moreover have "listing_rest log (Some x) = filter ?above (log_keys log)" by (simp add: listing_rest_def)
    ultimately show ?thesis unfolding cons by metis
  qed
  show ?thesis unfolding resumable_def listing_open_def listing_advance_def
    using opens advance id_yields by (simp add: Let_def) blast
qed

section \<open>Properties\<close>

text \<open>What the polls of a cursor find of the registry: any state it can reach from a given one.\<close>

definition polls_from :: "('db \<Rightarrow> 'db) \<Rightarrow> 'db views \<Rightarrow> (instant \<times> 'db session_reply) list \<Rightarrow> bool" where
  "polls_from read_tx vs polls \<longleftrightarrow>
    (\<forall>p \<in> set polls. case snd p of SessionWaiting \<Rightarrow> True | SessionReplied fate vs' now \<Rightarrow> (views_step read_tx)\<^sup>*\<^sup>* vs vs')"

lemma fj_open_export_session_opens:
  assumes "fj_open_export_session read_tx now free fate worker_now lifetime st vs = (Inr l :: (lease, 'io fjall_error export_error) result, vs')"
  shows "views_open read_tx worker_now lifetime (fj_db st) vs = (Inr l :: (lease, 'io fjall_error export_error) result, vs')"
proof (cases fate)
  case (RanJob message)
  with assms show ?thesis
    by (cases "views_open read_tx worker_now lifetime (fj_db st) vs :: (lease, 'io fjall_error export_error) result \<times> _")
      (auto simp: fj_open_export_session_def executor_submit_def worker_job_def completion_def sync_def
        reserve_cursor_def result_simps split: if_splits)
qed (use assms in \<open>auto simp: fj_open_export_session_def executor_submit_def worker_job_def completion_def
        reserve_cursor_def result_simps split: if_splits\<close>)

lemma polls_see:
  assumes "views_ok vs" "views_open read_tx now lifetime db vs = (Inr l, vs')" "polls_from read_tx vs' polls"
  shows "list_all (\<lambda>p. reply_sees (read_tx db) (ls_id l) (snd p)) polls"
proof -
  note opened = views_open_holds [OF assms(1,2)]
  have "reply_sees (read_tx db) (ls_id l) (SessionReplied fate vs'' t)" if "(views_step read_tx)\<^sup>*\<^sup>* vs' vs''"
    for fate vs'' t
    using views_steps_ok [OF that, of "ls_id l"] opened by (auto simp: reply_sees_def split: option.splits)
  with assms(3) show ?thesis
    by (auto simp: polls_from_def list_all_iff reply_sees_def split: session_reply.splits)
qed

lemma views_reached_ok: "(views_step read_tx)\<^sup>*\<^sup>* views_default vs \<Longrightarrow> views_ok vs"
proof (induction rule: rtranclp_induct)
  case (step vs vs')
  then show ?case using views_step_ok by blast
qed (rule views_ok_default)

definition polled :: "(instant \<times> 'db session_reply) list \<Rightarrow> nat" where
  "polled polls = length (filter (\<lambda>p. snd p \<noteq> SessionWaiting) polls)"

lemma fj_export_list_streams_reads:
  assumes "engine_ok eng contents tview" "log_ok log" "disk_image mode log (contents snapshot)" "config_ok cfg"
    "list_all (\<lambda>p. reply_sees snapshot (ls_id l) (snd p)) polls" "fj_export_list_streams t free l = Inr c"
    "got = fj_export_polls (session_unfold (listing_open eng) id_next_row listing_advance cfg (ls_id l)) polls c"
  shows "reads_as (log_keys log) got \<and> (length (log_keys log) \<le> polled polls \<longrightarrow> reads_fully (log_keys log) got)"
proof -
  have "fx_inner c = Some \<lparr>sb_scan = Some None, sb_rows = []\<rparr>"
    using assms(6) by (auto simp: fj_export_list_streams_def fj_session_cursor_def fj_check_live_def reserve_cursor_def
        result_simps split: if_splits)
  from fj_export_polls_of [where open_view = "listing_open eng" and snapshot = snapshot,
      OF listing_resumable [OF assms(1-3)] assms(4,5) this, of "log_keys log"]
  show ?thesis by (simp add: assms(7) batch_covers_def listing_rest_def polled_def)
qed

lemma fj_export_stream_reads:
  assumes "engine_ok eng contents tview" "log_ok log" "disk_image mode log (contents snapshot)" "config_ok cfg"
    "list_all (\<lambda>p. reply_sees snapshot (ls_id l) (snd p)) polls" "fj_export_stream t free l k v = Inr c"
    "got = fj_export_polls (session_unfold (events_open eng) (next_sized (fj_stream_scan k)) events_advance cfg (ls_id l))
      polls c"
    "events = map persisted_of (drop (vnum v - 1) (log_events log k))"
  shows "reads_as events got \<and> (length events \<le> polled polls \<longrightarrow> reads_fully events got)"
proof -
  have c: "key_ok k" "fx_inner c = Some \<lparr>sb_scan = Some (k, v), sb_rows = []\<rparr>"
    using assms(6) by (auto simp: fj_export_stream_def fj_session_cursor_def fj_check_live_def reserve_cursor_def
        validate_key_def key_ok_def result_simps split: if_splits)
  from fj_export_polls_of [where open_view = "events_open eng" and snapshot = snapshot,
      OF events_resumable [OF assms(1-3) c(1)] assms(4,5) c(2), of "events_rest log (k, v)"]
  show ?thesis by (simp add: assms(7,8) batch_covers_def events_rest_def polled_def)
qed

text \<open>C14: An export session of a fjall store is a consistent view. A session opened when the store held some
  log lists exactly the streams of that log in key order, and exports of each stream exactly its events
  in that log from the requested version on. This holds whatever was committed since and whatever other
  sessions were opened, expired or closed. A cursor that expires or meets an error ends with that error
  after a prefix; given enough polls it is complete or ends so.\<close>

theorem fj_export_view_fixed:
  assumes "engine_ok eng contents tview" "\<forall>db. contents (read_tx db) = contents db" "config_ok cfg"
    "fj_represents contents st log" "(views_step read_tx)\<^sup>*\<^sup>* views_default vs"
    "fj_open_export_session read_tx now True fate worker_now lifetime st vs = (Inr l, vs')"
    "polls_from read_tx vs' polls"
  shows "(\<forall>c. fj_export_list_streams t free l = Inr c \<longrightarrow>
      (let got = fj_export_polls (session_unfold (listing_open eng) id_next_row listing_advance cfg (ls_id l)) polls c in
       reads_as (log_keys log) got \<and>
       (length (log_keys log) \<le> polled polls \<longrightarrow> reads_fully (log_keys log) got))) \<and>
    (\<forall>k v c. fj_export_stream t free l k v = Inr c \<longrightarrow>
      (let events = map persisted_of (drop (vnum v - 1) (log_events log k));
         got = fj_export_polls (session_unfold (events_open eng) (next_sized (fj_stream_scan k)) events_advance cfg (ls_id l))
           polls c in
       reads_as events got \<and>
       (length events \<le> polled polls \<longrightarrow> reads_fully events got)))"
proof -
  note sees = polls_see [OF views_reached_ok [OF assms(5)] fj_open_export_session_opens [OF assms(6)] assms(7)]
  have image: "log_ok log" "disk_image (fj_mode st) log (contents (read_tx (fj_db st)))"
    using assms(2,4) by (simp_all add: fj_represents_def)
  show ?thesis
    using fj_export_list_streams_reads [OF assms(1) image assms(3) sees _ refl]
      fj_export_stream_reads [OF assms(1) image assms(3) sees _ refl refl]
    unfolding Let_def by blast
qed

definition demo_lease :: lease where
  "demo_lease = \<lparr>ls_id = 1, ls_deadline = 10\<rparr>"

definition demo_views :: "list_db views" where
  "demo_views = \<lparr>vs_active = [(1, \<lparr>ev_snapshot = fj_db fj_filled, ev_deadline = 10\<rparr>)], vs_next_id = Some 2\<rparr>"

definition demo_polls :: "(instant \<times> list_db session_reply) list" where
  "demo_polls = [(1, SessionWaiting), (2, SessionReplied (RanJob []) demo_views 2), (3, SessionReplied (RanJob []) demo_views 3)]"

lemma demo_session:
  "fj_open_export_session (\<lambda>db. db) 0 True (RanJob []) 0 10 fj_filled views_default = (Inr demo_lease, demo_views)"
  by (simp add: fj_open_export_session_def executor_submit_def worker_job_def completion_def sync_def reserve_cursor_def
      result_simps views_open_def views_default_def instant_checked_add_def instant_MAX_def demo_lease_def demo_views_def
      checked_add_def)

theorem fj_export_view_fixed_witness:
  "\<exists>c. fj_export_stream 1 True demo_lease sample_key (version_of 2) = Inr c \<and>
    reads_fully [persisted_of (sample_event 2)]
      (fj_export_polls (session_unfold (events_open list_engine) (next_sized (fj_stream_scan sample_key)) events_advance
        config_default 1) demo_polls c)"
proof -
  have polls: "polls_from (\<lambda>db. db) demo_views demo_polls"
    by (simp add: polls_from_def demo_polls_def)
  have cfg: "config_ok config_default" by (simp add: config_ok_def config_default_def)
  have "key_ok sample_key" by (simp add: key_ok_def sample_key_def fjall_sizes)
  then obtain c :: "(stream_key \<times> version, persisted_envelope, unit) session_batch fj_export_cursor"
    where c: "fj_export_stream 1 True demo_lease sample_key (version_of 2) = Inr c"
    by (auto simp: fj_export_stream_def fj_session_cursor_def fj_check_live_def demo_lease_def reserve_cursor_def
        validate_key_def key_ok_def result_simps)
  have events: "map persisted_of (drop (vnum (version_of 2) - 1) (log_events (map (Pair sample_key) (batch_iter sample_batch))
      sample_key)) = [persisted_of (sample_event 2)]"
    by (simp add: batch_iter_def sample_batch_def vmax_def log_events_def)
  have enough: "length [persisted_of (sample_event 2)] \<le> polled demo_polls" by (simp add: polled_def demo_polls_def)
  note view = fj_export_view_fixed [where read_tx = "\<lambda>db. db" and free = True and t = 1, OF le_engine_ok _ cfg
      fj_filled_represents rtranclp.rtrancl_refl demo_session polls]
  from view have "\<forall>k v c. fj_export_stream 1 True demo_lease k v = Inr c \<longrightarrow>
      length (map persisted_of (drop (vnum v - 1) (log_events (map (Pair sample_key) (batch_iter sample_batch)) k)))
        \<le> polled demo_polls \<longrightarrow>
      reads_fully (map persisted_of (drop (vnum v - 1) (log_events (map (Pair sample_key) (batch_iter sample_batch)) k)))
        (fj_export_polls (session_unfold (events_open list_engine) (next_sized (fj_stream_scan k)) events_advance
          config_default (ls_id demo_lease)) demo_polls c)"
    by (simp only: Let_def) blast
  from this [rule_format, OF c] enough c show ?thesis unfolding events by (auto simp: demo_lease_def)
qed

end
