(* ===== verification/Backup_Format.thy ===== *)
theory Backup_Format
  imports Import_Plan "HOL-Library.Sublist"
begin

text \<open>
  The CBOR backup container, \<open>crates/store/src/cbor.rs\<close>: the streaming chunk writer over any sink and
  the decoders \<open>decode_header\<close>, \<open>salvage_chunk\<close> and \<open>decode_chunk\<close>. The CBOR primitives, the
  derived codecs of the record shapes (crate \<open>minicbor\<close>) and the checksum (crate \<open>crc32c\<close>) are
  the parameter \<open>backup_lib\<close>, with their documented behaviour in \<open>backup_lib_ok\<close>. A decoder is a
  function of the bytes that are left; its position is how many are gone.
\<close>

definition MAGIC :: bytes where "MAGIC = [0x6E, 0x78, 0x63, 0x68]"
definition BACKUP_FORMAT_VERSION :: u32 where "BACKUP_FORMAT_VERSION = 2"
definition COMPLETION_TAG :: u64 where "COMPLETION_TAG = 60000"

section \<open>Errors\<close>

datatype backup_event_error =
    BeVersionZero
  | BeValue value_error
  | BeLengthOverflow
  | BeOffset
  | BeWire wire_error
  | BeEnvelope envelope_error

datatype 'de completion_error =
    CpLegacy
  | CpMissing
  | CpDecode 'de
  | CpShape
  | CpCounts u64 u64 u64 u64
  | CpLength u64 u64
  | CpChecksum
  | CpTrailingBytes
  | CpCountConversion
  | CpCountOverflow

datatype 'de chunk_error =
    ChMalformed string
  | ChDecode string 'de
  | ChEvent backup_event_error
  | ChCompletion "'de completion_error"
  | ChCorruptBlock

datatype 'we chunk_sink_error = SinkFailed 'we | SinkLengthConversion | SinkLengthOverflow

datatype 'we write_error = WrEncode "'we chunk_sink_error" | WrScratch | WrPoisoned | WrCountOverflow

datatype ('we, 'r) section_error = SeWrite "'we write_error" | SeRead 'r

section \<open>Record shapes\<close>

record header_repr =
  hr_magic :: bytes
  hr_format_version :: u32
  hr_origin :: "bytes option"

record body_repr =
  br_version :: u64
  br_schema :: u32
  br_event_type :: bytes
  br_metadata :: "bytes option"
  br_payload :: bytes

record chunk_header =
  ch_format_version :: u32
  ch_origin :: "bytes option"

section \<open>The libraries\<close>

text \<open>An encoder writes an item as a sequence of \<open>write_all\<close> calls. A decoder returns the item and
the bytes after it; the length of an array or a map is \<open>None\<close> when it is indefinite.\<close>

datatype cbor_type = TyTag | TyMap | TyArray | TyOther

record 'de backup_lib =
  mc_u32 :: "u32 \<Rightarrow> bytes list"
  mc_u64 :: "u64 \<Rightarrow> bytes list"
  mc_tag :: "u64 \<Rightarrow> bytes list"
  mc_array :: "u64 \<Rightarrow> bytes list"
  mc_map :: "u64 \<Rightarrow> bytes list"
  mc_bytes :: "bytes \<Rightarrow> bytes list"
  mc_str :: "bytes \<Rightarrow> bytes list"
  md_datatype :: "bytes \<Rightarrow> (cbor_type, 'de) result"
  md_u32 :: "bytes \<Rightarrow> (u32 \<times> bytes, 'de) result"
  md_u64 :: "bytes \<Rightarrow> (u64 \<times> bytes, 'de) result"
  md_tag :: "bytes \<Rightarrow> (u64 \<times> bytes, 'de) result"
  md_array :: "bytes \<Rightarrow> (u64 option \<times> bytes, 'de) result"
  md_map :: "bytes \<Rightarrow> (u64 option \<times> bytes, 'de) result"
  md_bytes :: "bytes \<Rightarrow> (bytes \<times> bytes, 'de) result"
  md_skip :: "bytes \<Rightarrow> (bytes, 'de) result"
  md_header :: "bytes \<Rightarrow> (header_repr \<times> bytes, 'de) result"
  md_heading :: "bytes \<Rightarrow> (bytes \<times> bytes, 'de) result"
  md_body :: "bytes \<Rightarrow> (body_repr \<times> bytes, 'de) result"
  md_message :: "string \<Rightarrow> 'de"
  md_is_end_of_input :: "'de \<Rightarrow> bool"
  crc32c :: "bytes \<Rightarrow> u32"
  crc32c_append :: "u32 \<Rightarrow> bytes \<Rightarrow> u32"

text \<open>The derived encoders: a map from the field's number to its value, absent options left out; a block
is an array.\<close>

definition enc_header :: "'de backup_lib \<Rightarrow> header_repr \<Rightarrow> bytes list" where
  "enc_header lib h =
    mc_map lib (if hr_origin h = None then 2 else 3) @
    mc_u32 lib 0 @ mc_bytes lib (hr_magic h) @
    mc_u32 lib 1 @ mc_u32 lib (hr_format_version h) @
    (case hr_origin h of None \<Rightarrow> [] | Some origin \<Rightarrow> mc_u32 lib 2 @ mc_bytes lib origin)"

definition enc_heading :: "'de backup_lib \<Rightarrow> bytes \<Rightarrow> bytes list" where
  "enc_heading lib stream_id = mc_map lib 1 @ mc_u32 lib 0 @ mc_bytes lib stream_id"

definition enc_body :: "'de backup_lib \<Rightarrow> body_repr \<Rightarrow> bytes list" where
  "enc_body lib b =
    mc_map lib (if br_metadata b = None then 4 else 5) @
    mc_u32 lib 0 @ mc_u64 lib (br_version b) @
    mc_u32 lib 1 @ mc_u32 lib (br_schema b) @
    mc_u32 lib 2 @ mc_str lib (br_event_type b) @
    (case br_metadata b of None \<Rightarrow> [] | Some m \<Rightarrow> mc_u32 lib 3 @ mc_bytes lib m) @
    mc_u32 lib 4 @ mc_bytes lib (br_payload b)"

definition enc_block :: "'de backup_lib \<Rightarrow> u32 \<Rightarrow> bytes \<Rightarrow> bytes list" where
  "enc_block lib crc body = mc_array lib 2 @ mc_u32 lib crc @ mc_bytes lib body"

section \<open>The writer\<close>

type_synonym ('w, 'we) sink_write = "bytes \<Rightarrow> 'w \<Rightarrow> (unit, 'we) result \<times> 'w"

record 'w tracked_sink =
  ts_inner :: 'w
  ts_bytes :: u64
  ts_crc :: u32

definition tracked_write_all ::
  "'de backup_lib \<Rightarrow> ('w, 'we) sink_write \<Rightarrow> bytes \<Rightarrow> 'w tracked_sink
    \<Rightarrow> (unit, 'we chunk_sink_error) result \<times> 'w tracked_sink" where
  "tracked_write_all lib write bs ts =
    (if length bs \<ge> 2 ^ 64 then (Inl SinkLengthConversion, ts)
     else case checked_add (ts_bytes ts) (of_nat (length bs)) of
       None \<Rightarrow> (Inl SinkLengthOverflow, ts)
     | Some next_bytes \<Rightarrow>
         (case write bs (ts_inner ts) of
            (Inl e, w) \<Rightarrow> (Inl (SinkFailed e), ts\<lparr>ts_inner := w\<rparr>)
          | (Inr _, w) \<Rightarrow>
              (Inr (), \<lparr>ts_inner = w, ts_bytes = next_bytes, ts_crc = crc32c_append lib (ts_crc ts) bs\<rparr>)))"

primrec encode_calls ::
  "'de backup_lib \<Rightarrow> ('w, 'we) sink_write \<Rightarrow> bytes list \<Rightarrow> 'w tracked_sink
    \<Rightarrow> (unit, 'we chunk_sink_error) result \<times> 'w tracked_sink" where
  "encode_calls lib write [] ts = (Inr (), ts)"
| "encode_calls lib write (bs # calls) ts =
    (case tracked_write_all lib write bs ts of
       (Inl e, ts) \<Rightarrow> (Inl e, ts)
     | (Inr _, ts) \<Rightarrow> encode_calls lib write calls ts)"

datatype writer_state = WsReady | WsPoisoned

record 'w chunk_writer =
  kw_enc :: "'w tracked_sink"
  kw_state :: writer_state
  kw_sections :: u64
  kw_events :: u64

definition kw_new ::
  "'de backup_lib \<Rightarrow> ('w, 'we) sink_write \<Rightarrow> 'w \<Rightarrow> bytes option \<Rightarrow> ('w chunk_writer, 'we write_error) result" where
  "kw_new lib write sink origin =
    (case encode_calls lib write
        (enc_header lib \<lparr>hr_magic = MAGIC, hr_format_version = BACKUP_FORMAT_VERSION, hr_origin = origin\<rparr>)
        \<lparr>ts_inner = sink, ts_bytes = 0, ts_crc = 0\<rparr> of
       (Inl e, _) \<Rightarrow> Inl (WrEncode e)
     | (Inr _, ts) \<Rightarrow> Inr \<lparr>kw_enc = ts, kw_state = WsReady, kw_sections = 0, kw_events = 0\<rparr>)"

definition kw_ensure_ready :: "'w chunk_writer \<Rightarrow> (unit, 'we write_error) result" where
  "kw_ensure_ready w = (case kw_state w of WsReady \<Rightarrow> Inr () | WsPoisoned \<Rightarrow> Inl WrPoisoned)"

definition kw_section ::
  "'de backup_lib \<Rightarrow> ('w, 'we) sink_write \<Rightarrow> bytes \<Rightarrow> 'w chunk_writer
    \<Rightarrow> (unit, 'we write_error) result \<times> 'w chunk_writer" where
  "kw_section lib write stream_id w =
    (case kw_ensure_ready w of
       Inl e \<Rightarrow> (Inl e, w)
     | Inr _ \<Rightarrow>
         let w = w\<lparr>kw_state := WsPoisoned\<rparr> in
         (case checked_add (kw_sections w) 1 of
            None \<Rightarrow> (Inl WrCountOverflow, w)
          | Some next_sections \<Rightarrow>
              (case encode_calls lib write (enc_heading lib stream_id) (kw_enc w) of
                 (Inl e, ts) \<Rightarrow> (Inl (WrEncode e), w\<lparr>kw_enc := ts\<rparr>)
               | (Inr _, ts) \<Rightarrow>
                   (Inr (), w\<lparr>kw_enc := ts, kw_sections := next_sections, kw_state := WsReady\<rparr>))))"

definition kw_finish ::
  "'de backup_lib \<Rightarrow> ('w, 'we) sink_write \<Rightarrow> 'w chunk_writer \<Rightarrow> ('w, 'we write_error) result" where
  "kw_finish lib write w =
    and_then (kw_ensure_ready w) (\<lambda>_.
      let prefix_bytes = ts_bytes (kw_enc w);
          prefix_crc = ts_crc (kw_enc w) in
      (case encode_calls lib write
          (mc_tag lib COMPLETION_TAG @ mc_array lib 4 @ mc_u64 lib (kw_sections w) @ mc_u64 lib (kw_events w) @
           mc_u64 lib prefix_bytes @ mc_u32 lib prefix_crc) (kw_enc w) of
         (Inl e, _) \<Rightarrow> Inl (WrEncode e)
       | (Inr _, ts) \<Rightarrow> Inr (ts_inner ts)))"

definition into_unfinished_sink :: "'w chunk_writer \<Rightarrow> 'w" where
  "into_unfinished_sink w = ts_inner (kw_enc w)"

definition body_of :: "persisted_envelope \<Rightarrow> body_repr" where
  "body_of event =
    \<lparr>br_version = as_u64 (ps_version event), br_schema = get (ps_schema event),
     br_event_type = ps_event_type event, br_metadata = ps_metadata event, br_payload = ps_payload event\<rparr>"

text \<open>\<open>minicbor::to_vec\<close> collects the calls in a vector, which never fails.\<close>

definition kw_write_block ::
  "'de backup_lib \<Rightarrow> ('w, 'we) sink_write \<Rightarrow> persisted_envelope \<Rightarrow> 'w chunk_writer
    \<Rightarrow> (unit, 'we write_error) result \<times> 'w chunk_writer" where
  "kw_write_block lib write event w =
    (case checked_add (kw_events w) 1 of
       None \<Rightarrow> (Inl WrCountOverflow, w)
     | Some next_events \<Rightarrow>
         let body_bytes = concat (enc_body lib (body_of event)) in
         (case encode_calls lib write (enc_block lib (crc32c lib body_bytes) body_bytes) (kw_enc w) of
            (Inl e, ts) \<Rightarrow> (Inl (WrEncode e), w\<lparr>kw_enc := ts\<rparr>)
          | (Inr _, ts) \<Rightarrow> (Inr (), w\<lparr>kw_enc := ts, kw_events := next_events\<rparr>)))"

text \<open>The drain of \<open>try_extend\<close>, on the items the source yields before it ends.\<close>

primrec kw_drain ::
  "'de backup_lib \<Rightarrow> ('w, 'we) sink_write \<Rightarrow> (persisted_envelope, 'r) result list \<Rightarrow> 'w chunk_writer
    \<Rightarrow> (unit, ('we, 'r) section_error) result \<times> 'w chunk_writer" where
  "kw_drain lib write [] w = (Inr (), w)"
| "kw_drain lib write (item # items) w =
    (case item of
       Inl e \<Rightarrow> (Inl (SeRead e), w)
     | Inr env \<Rightarrow>
         (case kw_write_block lib write env w of
            (Inl e, w) \<Rightarrow> (Inl (SeWrite e), w)
          | (Inr _, w) \<Rightarrow> kw_drain lib write items w))"

definition kw_try_extend ::
  "'de backup_lib \<Rightarrow> ('w, 'we) sink_write \<Rightarrow> (persisted_envelope, 'r) result list \<Rightarrow> 'w chunk_writer
    \<Rightarrow> (unit, ('we, 'r) section_error) result \<times> 'w chunk_writer" where
  "kw_try_extend lib write items w =
    (case kw_ensure_ready w of
       Inl e \<Rightarrow> (Inl (SeWrite e), w)
     | Inr _ \<Rightarrow>
         (case kw_drain lib write items (w\<lparr>kw_state := WsPoisoned\<rparr>) of
            (Inl e, w) \<Rightarrow> (Inl e, w)
          | (Inr _, w) \<Rightarrow> (Inr (), w\<lparr>kw_state := WsReady\<rparr>)))"

text \<open>A \<open>try_extend\<close> whose future is dropped after it drained \<open>items\<close>: no result is observed. A future
  dropped before its first poll ran nothing and is no operation.\<close>

definition kw_extend_dropped ::
  "'de backup_lib \<Rightarrow> ('w, 'we) sink_write \<Rightarrow> persisted_envelope list \<Rightarrow> 'w chunk_writer \<Rightarrow> 'w chunk_writer" where
  "kw_extend_dropped lib write items w =
    (case kw_ensure_ready w :: (unit, 'we write_error) result of
       Inl _ \<Rightarrow> w
     | Inr _ \<Rightarrow> snd (kw_drain lib write (map Inr items :: (persisted_envelope, unit) result list) (w\<lparr>kw_state := WsPoisoned\<rparr>)))"

definition kw_block ::
  "'de backup_lib \<Rightarrow> ('w, 'we) sink_write \<Rightarrow> persisted_envelope \<Rightarrow> 'w chunk_writer
    \<Rightarrow> (unit, 'we write_error) result \<times> 'w chunk_writer" where
  "kw_block lib write event w =
    (case kw_ensure_ready w of
       Inl e \<Rightarrow> (Inl e, w)
     | Inr _ \<Rightarrow>
         (case kw_write_block lib write event (w\<lparr>kw_state := WsPoisoned\<rparr>) of
            (Inl e, w) \<Rightarrow> (Inl e, w)
          | (Inr _, w) \<Rightarrow> (Inr (), w\<lparr>kw_state := WsReady\<rparr>)))"

section \<open>Decoding\<close>

text \<open>The probe of \<open>decode_map\<close> over the entries of a map, with the keys seen so far.\<close>

primrec probe_keys :: "'de backup_lib \<Rightarrow> nat \<Rightarrow> u32 list \<Rightarrow> bytes \<Rightarrow> (unit, 'de) result" where
  "probe_keys lib 0 keys probe = Inr ()"
| "probe_keys lib (Suc n) keys probe =
    and_then (md_u32 lib probe) (\<lambda>(key, probe).
      if key \<in> set keys then Inl (md_message lib ''duplicate backup map key'')
      else and_then (md_skip lib probe) (\<lambda>probe. probe_keys lib n (key # keys) probe))"

definition decode_map ::
  "'de backup_lib \<Rightarrow> (bytes \<Rightarrow> ('t \<times> bytes, 'de) result) \<Rightarrow> bytes \<Rightarrow> ('t \<times> bytes, 'de) result" where
  "decode_map lib decode bs =
    and_then (md_map lib bs) (\<lambda>(len, probe).
    and_then (ok_or (md_message lib ''indefinite backup map'') len) (\<lambda>n.
    and_then (probe_keys lib (unat n) [] probe) (\<lambda>_. decode bs)))"

definition validate_header :: "bytes \<Rightarrow> u32 \<Rightarrow> (unit, 'de chunk_error) result" where
  "validate_header magic format_version =
    (if magic \<noteq> MAGIC then Inl (ChMalformed ''bad magic'')
     else if \<not> (format_version = 1 \<or> format_version = BACKUP_FORMAT_VERSION)
       then Inl (ChMalformed ''unknown format version'')
     else Inr ())"

definition header_at :: "'de backup_lib \<Rightarrow> bytes \<Rightarrow> (chunk_header \<times> bytes, 'de chunk_error) result" where
  "header_at lib bs =
    and_then (map_err (ChDecode ''unreadable header'') (decode_map lib (md_header lib) bs)) (\<lambda>(repr, rest).
    and_then (validate_header (hr_magic repr) (hr_format_version repr)) (\<lambda>_.
      Inr (\<lparr>ch_format_version = hr_format_version repr, ch_origin = hr_origin repr\<rparr>, rest)))"

definition decode_header :: "'de backup_lib \<Rightarrow> bytes \<Rightarrow> (chunk_header, 'de chunk_error) result" where
  "decode_header lib bs = map_ok fst (header_at lib bs)"

definition check_fields :: "body_repr \<Rightarrow> (unit, backup_event_error) result" where
  "check_fields body =
    (if length (br_event_type body) > MAX_EVENT_TYPE_LEN
       then Inl (BeValue (EventTypeTooLong (length (br_event_type body))))
     else case (case br_metadata body of
         None \<Rightarrow> None
       | Some m \<Rightarrow>
           if m = [] then Some MetadataEmpty
           else if length m > MAX_METADATA_LEN then Some (MetadataTooLong (length m))
           else None) of
       Some e \<Rightarrow> Inl (BeValue e)
     | None \<Rightarrow>
         if length (br_payload body) > MAX_PAYLOAD_LEN then Inl (BeValue (PayloadTooLong (length (br_payload body))))
         else Inr ())"

text \<open>The slices of the compact copy are the fields themselves.\<close>

definition reconstruct :: "body_repr \<Rightarrow> (persisted_envelope, backup_event_error) result call" where
  "reconstruct body =
    (case and_then (ok_or BeVersionZero (version_new (br_version body))) (\<lambda>version.
          and_then (map_err BeValue (schema_from_u32 (br_schema body))) (\<lambda>schema.
          and_then (check_fields body) (\<lambda>_.
          and_then (ok_or BeLengthOverflow (checked_add_usize (length (br_event_type body))
              (case br_metadata body of None \<Rightarrow> 0 | Some m \<Rightarrow> length m))) (\<lambda>metadata_end.
          and_then (ok_or BeLengthOverflow (checked_add_usize metadata_end (length (br_payload body)))) (\<lambda>total.
          and_then (ok_or BeOffset (u32_try_from total)) (\<lambda>_.
          and_then (map_err BeValue (event_type_from_bytes (br_event_type body))) (\<lambda>event_kind.
          and_then (map_err BeValue (payload_from_bytes (br_payload body))) (\<lambda>payload.
          and_then (case br_metadata body of
              None \<Rightarrow> Inr None
            | Some m \<Rightarrow> map_ok Some (map_err BeValue (metadata_from_bytes m))) (\<lambda>metadata.
            Inr (version, schema, event_kind, payload, metadata)))))))))) of
       Inl e \<Rightarrow> Returns (Inl e)
     | Inr (version, schema, event_kind, payload, metadata) \<Rightarrow>
         call_bind (encode_frame schema event_kind payload metadata) (\<lambda>r.
           Returns (and_then (map_err BeWire r) (\<lambda>frame.
             map_err BeEnvelope (try_new version (ef_value frame) schema (fo_event_type (ef_offsets frame))
               (fo_payload (ef_offsets frame)) (fo_metadata (ef_offsets frame)))))))"

text \<open>A decoder error inside a block: the end of the input is a torn tail (\<open>None\<close>).\<close>

definition block_read ::
  "'de backup_lib \<Rightarrow> string \<Rightarrow> ('a, 'de) result
    \<Rightarrow> ('a \<Rightarrow> ((import_block \<times> bytes) option, 'de chunk_error) result call)
    \<Rightarrow> ((import_block \<times> bytes) option, 'de chunk_error) result call" where
  "block_read lib context r k =
    (case r of
       Inr x \<Rightarrow> k x
     | Inl e \<Rightarrow> if md_is_end_of_input lib e then Returns (Inr None) else Returns (Inl (ChDecode context e)))"

definition decode_block ::
  "'de backup_lib \<Rightarrow> bytes \<Rightarrow> ((import_block \<times> bytes) option, 'de chunk_error) result call" where
  "decode_block lib d =
    block_read lib ''malformed block array'' (md_array lib d) (\<lambda>(len, d).
      case len of
        None \<Rightarrow> Returns (Inl (ChMalformed ''indefinite-length block array''))
      | Some n \<Rightarrow>
          if n \<noteq> 2 then Returns (Inl (ChMalformed ''block array must have exactly 2 elements''))
          else
            block_read lib ''malformed block crc'' (md_u32 lib d) (\<lambda>(crc, d).
            block_read lib ''malformed block body bytes'' (md_bytes lib d) (\<lambda>(body, d).
              if crc32c lib body \<noteq> crc then Returns (Inr (Some (BlockCorrupt, d)))
              else case decode_map lib (md_body lib) body of
                Inl e \<Rightarrow> Returns (Inl (ChDecode ''crc-valid body failed to decode'' e))
              | Inr (parsed, left) \<Rightarrow>
                  if left \<noteq> [] then Returns (Inl (ChMalformed ''trailing bytes in block body''))
                  else call_bind (reconstruct parsed) (\<lambda>r.
                    Returns (and_then (map_err ChEvent r) (\<lambda>env. Inr (Some (BlockEvent env, d))))))))"

definition completion_read ::
  "'de backup_lib \<Rightarrow> ('a, 'de) result \<Rightarrow> ('a, 'de completion_error) result" where
  "completion_read lib r = map_err (\<lambda>e. if md_is_end_of_input lib e then CpMissing else CpDecode e) r"

definition decode_completion ::
  "'de backup_lib \<Rightarrow> bytes \<Rightarrow> bytes \<Rightarrow> u64 \<Rightarrow> u64 \<Rightarrow> (unit, 'de completion_error) result" where
  "decode_completion lib d bs sections events =
    (let prefix = length bs - length d in
     and_then (completion_read lib (md_tag lib d)) (\<lambda>(tag, d).
     if tag \<noteq> COMPLETION_TAG then Inl CpShape
     else and_then (completion_read lib (md_array lib d)) (\<lambda>(len, d).
     if len \<noteq> Some 4 then Inl CpShape
     else and_then (completion_read lib (md_u64 lib d)) (\<lambda>(declared_sections, d).
     and_then (completion_read lib (md_u64 lib d)) (\<lambda>(declared_events, d).
     and_then (completion_read lib (md_u64 lib d)) (\<lambda>(declared, d).
     and_then (completion_read lib (md_u32 lib d)) (\<lambda>(crc, d).
     if d \<noteq> [] then Inl CpTrailingBytes
     else if declared_sections \<noteq> sections \<or> declared_events \<noteq> events
       then Inl (CpCounts declared_sections sections declared_events events)
     else if prefix \<ge> 2 ^ 64 then Inl CpCountConversion
     else if declared \<noteq> of_nat prefix then Inl (CpLength declared (of_nat prefix))
     else if crc \<noteq> crc32c lib (take prefix bs) then Inl CpChecksum
     else Inr ())))))))"

definition push_block :: "import_block \<Rightarrow> stream_section list \<Rightarrow> stream_section list" where
  "push_block b secs =
    (case rev secs of [] \<Rightarrow> [] | s # before \<Rightarrow> rev before @ [s\<lparr>ss_blocks := ss_blocks s @ [b]\<rparr>])"

text \<open>The loop of \<open>salvage_chunk\<close> over the items of the body; \<open>Some\<close> is its result, if it ends.\<close>

type_synonym 'de salvage = "stream_section list \<times> (unit, 'de completion_error) result"

partial_function (option) salvage_loop ::
  "'de backup_lib \<Rightarrow> bytes \<Rightarrow> u32 \<Rightarrow> bytes \<Rightarrow> stream_section list \<Rightarrow> u64 \<Rightarrow> (unit, 'de completion_error) result
    \<Rightarrow> ('de salvage, 'de chunk_error) result call option" where
  "salvage_loop lib bs format_version d sections event_count completion =
    (if d = [] then Some (Returns (Inr (sections, completion)))
     else case md_datatype lib d of
       Inl e \<Rightarrow>
         if md_is_end_of_input lib e then Some (Returns (Inr (sections, completion)))
         else Some (Returns (Inl (ChDecode ''decode error'' e)))
     | Inr TyTag \<Rightarrow>
         if format_version \<noteq> BACKUP_FORMAT_VERSION then Some (Returns (Inl (ChMalformed ''unexpected item type'')))
         else if length sections \<ge> 2 ^ 64 then Some (Returns (Inl (ChCompletion CpCountConversion)))
         else Some (Returns (Inr (sections, decode_completion lib d bs (of_nat (length sections)) event_count)))
     | Inr TyMap \<Rightarrow>
         (case decode_map lib (md_heading lib) d of
            Inr (stream_id, d) \<Rightarrow>
              salvage_loop lib bs format_version d (sections @ [\<lparr>ss_origin = stream_id, ss_blocks = []\<rparr>])
                event_count completion
          | Inl e \<Rightarrow>
              if md_is_end_of_input lib e then Some (Returns (Inr (sections, completion)))
              else Some (Returns (Inl (ChDecode ''malformed section heading'' e))))
     | Inr TyArray \<Rightarrow>
         if sections = [] then Some (Returns (Inl (ChMalformed ''block before section heading'')))
         else (case decode_block lib d of
            Panics \<Rightarrow> Some Panics
          | Returns (Inl e) \<Rightarrow> Some (Returns (Inl e))
          | Returns (Inr None) \<Rightarrow> Some (Returns (Inr (sections, completion)))
          | Returns (Inr (Some (block, d))) \<Rightarrow>
              (case checked_add event_count 1 of
                 None \<Rightarrow> Some (Returns (Inl (ChCompletion CpCountOverflow)))
               | Some event_count \<Rightarrow>
                   salvage_loop lib bs format_version d (push_block block sections) event_count completion))
     | Inr TyOther \<Rightarrow> Some (Returns (Inl (ChMalformed ''unexpected item type''))))"

record 'de salvaged_chunk =
  sv_header :: chunk_header
  sv_sections :: "stream_section list"
  sv_completion :: "(unit, 'de completion_error) result"

definition salvage_chunk ::
  "'de backup_lib \<Rightarrow> bytes \<Rightarrow> ('de salvaged_chunk, 'de chunk_error) result call option" where
  "salvage_chunk lib bs =
    (case header_at lib bs of
       Inl e \<Rightarrow> Some (Returns (Inl e))
     | Inr (header, d) \<Rightarrow>
         map_option (\<lambda>c. call_bind c (\<lambda>r. Returns (map_ok
             (\<lambda>(sections, completion). \<lparr>sv_header = header, sv_sections = sections, sv_completion = completion\<rparr>) r)))
           (salvage_loop lib bs (ch_format_version header) d [] 0
             (Inl (if ch_format_version header = 1 then CpLegacy else CpMissing))))"

definition decode_chunk ::
  "'de backup_lib \<Rightarrow> bytes \<Rightarrow> (stream_section list, 'de chunk_error) result call option" where
  "decode_chunk lib bs =
    map_option (\<lambda>c. call_bind c (\<lambda>r. Returns
        (and_then r (\<lambda>recovered.
         and_then (map_err ChCompletion (sv_completion recovered)) (\<lambda>_.
           if list_ex (\<lambda>s. list_ex (\<lambda>b. b = BlockCorrupt) (ss_blocks s)) (sv_sections recovered)
           then Inl ChCorruptBlock else Inr (sv_sections recovered))))))
      (salvage_chunk lib bs)"

end
