(* ===== verification/Backup_Roundtrip.thy ===== *)
theory Backup_Roundtrip
  imports Backup_Format
begin

text \<open>
  What a finished backup decodes to. The documented behaviour of the CBOR and checksum crates is the
  predicate \<open>backup_lib_ok\<close>. The lemmas follow the layout of a chunk: the entries of a map, a block,
  the completion record, and the items of the body; each is shown to read back and to be recognised
  as cut off when it is truncated.
\<close>

section \<open>The libraries' behaviour\<close>

definition cut_off :: "'de backup_lib \<Rightarrow> ('a, 'de) result \<Rightarrow> bool" where
  "cut_off lib r \<longleftrightarrow> (\<exists>e. r = Inl e \<and> md_is_end_of_input lib e)"

definition framed :: "'de backup_lib \<Rightarrow> (bytes \<Rightarrow> ('x \<times> bytes, 'de) result) \<Rightarrow> 'x \<Rightarrow> bytes \<Rightarrow> bool" where
  "framed lib decode x enc \<longleftrightarrow>
    (\<forall>rest. decode (enc @ rest) = Inr (x, rest)) \<and> (\<forall>q. strict_prefix q enc \<longrightarrow> cut_off lib (decode q))"

definition skippable :: "'de backup_lib \<Rightarrow> bytes \<Rightarrow> bool" where
  "skippable lib enc \<longleftrightarrow>
    (\<forall>rest. md_skip lib (enc @ rest) = Inr rest) \<and> (\<forall>q. strict_prefix q enc \<longrightarrow> cut_off lib (md_skip lib q))"

definition starts :: "'de backup_lib \<Rightarrow> bytes \<Rightarrow> cbor_type \<Rightarrow> bool" where
  "starts lib enc ty \<longleftrightarrow> enc \<noteq> [] \<and> (\<forall>rest. md_datatype lib (hd enc # rest) = Inr ty)"

definition short :: "bytes \<Rightarrow> bool" where
  "short b \<longleftrightarrow> length b < 2 ^ 64"

definition short_opt :: "bytes option \<Rightarrow> bool" where
  "short_opt b \<longleftrightarrow> (case b of None \<Rightarrow> True | Some x \<Rightarrow> short x)"

text \<open>Primitive items read back and are recognised when truncated; the derived record codecs invert
each other; a decoder consumes what it reads; a checksum can be continued.\<close>

definition primitives_ok :: "'de backup_lib \<Rightarrow> bool" where
  "primitives_ok lib \<longleftrightarrow>
    (\<forall>x. framed lib (md_u32 lib) x (concat (mc_u32 lib x)) \<and> skippable lib (concat (mc_u32 lib x))) \<and>
    (\<forall>x. framed lib (md_u64 lib) x (concat (mc_u64 lib x)) \<and> skippable lib (concat (mc_u64 lib x))) \<and>
    (\<forall>x. framed lib (md_tag lib) x (concat (mc_tag lib x)) \<and> starts lib (concat (mc_tag lib x)) TyTag) \<and>
    (\<forall>n. framed lib (md_array lib) (Some n) (concat (mc_array lib n)) \<and> starts lib (concat (mc_array lib n)) TyArray) \<and>
    (\<forall>n. framed lib (md_map lib) (Some n) (concat (mc_map lib n)) \<and> starts lib (concat (mc_map lib n)) TyMap) \<and>
    (\<forall>b. short b \<longrightarrow> framed lib (md_bytes lib) b (concat (mc_bytes lib b)) \<and> skippable lib (concat (mc_bytes lib b))) \<and>
    (\<forall>s. short s \<and> utf8_valid s \<longrightarrow> skippable lib (concat (mc_str lib s))) \<and>
    (\<forall>b. length b \<le> length (concat (mc_bytes lib b)))"

definition derived_ok :: "'de backup_lib \<Rightarrow> bool" where
  "derived_ok lib \<longleftrightarrow>
    (\<forall>h rest. short (hr_magic h) \<and> short_opt (hr_origin h) \<longrightarrow>
      md_header lib (concat (enc_header lib h) @ rest) = Inr (h, rest)) \<and>
    (\<forall>i rest. short i \<longrightarrow> md_heading lib (concat (enc_heading lib i) @ rest) = Inr (i, rest)) \<and>
    (\<forall>b rest. short (br_event_type b) \<and> utf8_valid (br_event_type b) \<and> short_opt (br_metadata b) \<and>
      short (br_payload b) \<longrightarrow> md_body lib (concat (enc_body lib b) @ rest) = Inr (b, rest))"

definition consumes :: "(bytes \<Rightarrow> ('x \<times> bytes, 'de) result) \<Rightarrow> bool" where
  "consumes decode \<longleftrightarrow> (\<forall>d x rest. decode d = Inr (x, rest) \<longrightarrow> length rest < length d)"

definition checksum_ok :: "'de backup_lib \<Rightarrow> bool" where
  "checksum_ok lib \<longleftrightarrow> crc32c lib [] = 0 \<and> (\<forall>a b. crc32c_append lib (crc32c lib a) b = crc32c lib (a @ b))"

definition backup_lib_ok :: "'de backup_lib \<Rightarrow> bool" where
  "backup_lib_ok lib \<longleftrightarrow> primitives_ok lib \<and> derived_ok lib \<and> checksum_ok lib \<and>
    consumes (md_array lib) \<and> consumes (md_u32 lib) \<and> consumes (md_bytes lib) \<and> consumes (md_heading lib)"

lemma backup_lib_okD:
  assumes "backup_lib_ok lib"
  shows "framed lib (md_u32 lib) x (concat (mc_u32 lib x))" "skippable lib (concat (mc_u32 lib x))"
    "framed lib (md_u64 lib) y (concat (mc_u64 lib y))" "skippable lib (concat (mc_u64 lib y))"
    "framed lib (md_tag lib) y (concat (mc_tag lib y))" "starts lib (concat (mc_tag lib y)) TyTag"
    "framed lib (md_array lib) (Some y) (concat (mc_array lib y))" "starts lib (concat (mc_array lib y)) TyArray"
    "framed lib (md_map lib) (Some y) (concat (mc_map lib y))" "starts lib (concat (mc_map lib y)) TyMap"
    "short b \<Longrightarrow> framed lib (md_bytes lib) b (concat (mc_bytes lib b))"
    "short b \<Longrightarrow> skippable lib (concat (mc_bytes lib b))"
    "short b \<Longrightarrow> utf8_valid b \<Longrightarrow> skippable lib (concat (mc_str lib b))"
    "length b \<le> length (concat (mc_bytes lib b))"
  using assms unfolding backup_lib_ok_def primitives_ok_def by blast+

lemma checksum_okD:
  assumes "backup_lib_ok lib"
  shows "crc32c lib [] = 0" "crc32c_append lib (crc32c lib a) b = crc32c lib (a @ b)"
  using assms by (simp_all add: backup_lib_ok_def checksum_ok_def)

lemma framedD: "framed lib decode x enc \<Longrightarrow> decode (enc @ rest) = Inr (x, rest)"
  by (simp add: framed_def)

lemma framed_cut: "framed lib decode x enc \<Longrightarrow> strict_prefix q enc \<Longrightarrow> cut_off lib (decode q)"
  by (simp add: framed_def)

lemma skippableD: "skippable lib enc \<Longrightarrow> md_skip lib (enc @ rest) = Inr rest"
  by (simp add: skippable_def)

lemma skippable_cut: "skippable lib enc \<Longrightarrow> strict_prefix q enc \<Longrightarrow> cut_off lib (md_skip lib q)"
  by (simp add: skippable_def)

lemma startsD: "starts lib enc ty \<Longrightarrow> md_datatype lib (enc @ rest) = Inr ty"
  by (cases enc) (simp_all add: starts_def)

lemma starts_cut: "starts lib enc ty \<Longrightarrow> q \<noteq> [] \<Longrightarrow> prefix q (enc @ rest) \<Longrightarrow> md_datatype lib q = Inr ty"
  by (cases q; cases enc) (auto simp: starts_def)

lemma cut_off_Inl: "cut_off lib (Inl e) \<longleftrightarrow> md_is_end_of_input lib e"
  by (simp add: cut_off_def)

lemma strict_prefix_append_cases:
  assumes "strict_prefix q (a @ b)"
  obtains "strict_prefix q a" | q' where "q = a @ q'" "strict_prefix q' b"
proof (cases "prefix a q")
  case True
  then obtain q' where q: "q = a @ q'" by (auto simp: prefix_def)
  with assms have "strict_prefix q' b" by (auto simp: strict_prefix_def)
  with q that(2) show thesis by blast
next
  case False
  have "prefix q a" using assms False by (metis prefix_append prefix_def strict_prefix_def)
  with False that(1) show thesis by (metis prefix_order.dual_order.refl strict_prefix_def)
qed

section \<open>Maps\<close>

definition entries :: "'de backup_lib \<Rightarrow> (u32 \<times> bytes) list \<Rightarrow> bytes" where
  "entries lib fs = concat (map (\<lambda>(k, v). concat (mc_u32 lib k) @ v) fs)"

lemma entries_simps [simp]:
  "entries lib [] = []" "entries lib (f # fs) = concat (mc_u32 lib (fst f)) @ snd f @ entries lib fs"
  by (simp_all add: entries_def case_prod_beta)

lemma probe_keys_full:
  assumes "backup_lib_ok lib" "\<forall>f \<in> set fs. skippable lib (snd f)" "distinct (map fst fs)"
    "set (map fst fs) \<inter> set keys = {}"
  shows "probe_keys lib (length fs) keys (entries lib fs @ rest) = Inr ()"
  using assms(2-)
proof (induction fs arbitrary: keys)
  case (Cons f fs)
  then have "probe_keys lib (length fs) (fst f # keys) (entries lib fs @ rest) = Inr ()" by auto
  with Cons.prems show ?case
    by (simp add: framedD [OF backup_lib_okD(1) [OF assms(1)]] skippableD)
qed simp

lemma cut_off_and_then: "cut_off lib r \<Longrightarrow> cut_off lib (and_then r f)"
  by (auto simp: cut_off_def)

lemma probe_keys_cut:
  assumes "backup_lib_ok lib" "\<forall>f \<in> set fs. skippable lib (snd f)" "distinct (map fst fs)"
    "set (map fst fs) \<inter> set keys = {}" "strict_prefix q (entries lib fs)"
  shows "cut_off lib (probe_keys lib (length fs) keys q)"
  using assms(2-)
proof (induction fs arbitrary: keys q)
  case (Cons f fs)
  note K = backup_lib_okD(1) [OF assms(1), of "fst f"]
  from Cons.prems(4) have "strict_prefix q (concat (mc_u32 lib (fst f)) @ snd f @ entries lib fs)" by simp
  then show ?case
  proof (cases rule: strict_prefix_append_cases)
    case 1
    from cut_off_and_then [OF framed_cut [OF K 1]] show ?thesis by simp
  next
    case (2 q')
    have key: "fst f \<notin> set keys" using Cons.prems(3) by auto
    from 2(2) show ?thesis
    proof (cases rule: strict_prefix_append_cases)
      case 1
      have "cut_off lib (md_skip lib q')" using Cons.prems(1) 1 by (auto intro: skippable_cut)
      from cut_off_and_then [OF this] show ?thesis using key by (simp add: 2(1) framedD [OF K])
    next
      case b: (2 q'')
      have "cut_off lib (probe_keys lib (length fs) (fst f # keys) q'')"
        using Cons.prems b(2) by (intro Cons.IH) auto
      then show ?thesis
        using key Cons.prems(1) by (simp add: 2(1) b(1) framedD [OF K] skippableD)
    qed
  qed
qed (simp add: strict_prefix_def)

definition map_enc :: "'de backup_lib \<Rightarrow> u64 \<Rightarrow> (u32 \<times> bytes) list \<Rightarrow> bytes" where
  "map_enc lib n fs = concat (mc_map lib n) @ entries lib fs"

definition fields_ok :: "'de backup_lib \<Rightarrow> u64 \<Rightarrow> (u32 \<times> bytes) list \<Rightarrow> bool" where
  "fields_ok lib n fs \<longleftrightarrow> unat n = length fs \<and> distinct (map fst fs) \<and> (\<forall>f \<in> set fs. skippable lib (snd f))"

lemma decode_map_full:
  assumes "backup_lib_ok lib" "fields_ok lib n fs"
  shows "decode_map lib decode (map_enc lib n fs @ rest) = decode (map_enc lib n fs @ rest)"
  using assms probe_keys_full [OF assms(1), of fs "[]" rest] framedD [OF backup_lib_okD(9) [OF assms(1), of n]]
  by (simp add: decode_map_def map_enc_def fields_ok_def)

lemma decode_map_cut:
  assumes "backup_lib_ok lib" "fields_ok lib n fs" "strict_prefix q (map_enc lib n fs)"
  shows "cut_off lib (decode_map lib decode q)"
  using assms(3) unfolding map_enc_def
proof (cases rule: strict_prefix_append_cases)
  case 1
  from cut_off_and_then [OF framed_cut [OF backup_lib_okD(9) [OF assms(1)] 1]] show ?thesis
    by (simp add: decode_map_def)
next
  case (2 q')
  have "cut_off lib (probe_keys lib (length fs) [] q')"
    using assms(2) 2(2) by (intro probe_keys_cut [OF assms(1)]) (simp_all add: fields_ok_def)
  from cut_off_and_then [OF this] show ?thesis
    using assms(2) by (simp add: decode_map_def 2(1) framedD [OF backup_lib_okD(9) [OF assms(1)]] fields_ok_def)
qed

section \<open>Headers, headings and bodies\<close>

definition header_fields :: "'de backup_lib \<Rightarrow> header_repr \<Rightarrow> (u32 \<times> bytes) list" where
  "header_fields lib h =
    [(0, concat (mc_bytes lib (hr_magic h))), (1, concat (mc_u32 lib (hr_format_version h)))] @
    (case hr_origin h of None \<Rightarrow> [] | Some origin \<Rightarrow> [(2, concat (mc_bytes lib origin))])"

definition body_fields :: "'de backup_lib \<Rightarrow> body_repr \<Rightarrow> (u32 \<times> bytes) list" where
  "body_fields lib b =
    [(0, concat (mc_u64 lib (br_version b))), (1, concat (mc_u32 lib (br_schema b))),
     (2, concat (mc_str lib (br_event_type b)))] @
    (case br_metadata b of None \<Rightarrow> [] | Some m \<Rightarrow> [(3, concat (mc_bytes lib m))]) @
    [(4, concat (mc_bytes lib (br_payload b)))]"

definition body_short :: "body_repr \<Rightarrow> bool" where
  "body_short b \<longleftrightarrow> short (br_event_type b) \<and> utf8_valid (br_event_type b) \<and> short_opt (br_metadata b) \<and>
    short (br_payload b)"

lemma concat_enc:
  "concat (enc_header lib h) = map_enc lib (if hr_origin h = None then 2 else 3) (header_fields lib h)"
  "concat (enc_heading lib i) = map_enc lib 1 [(0, concat (mc_bytes lib i))]"
  "concat (enc_body lib b) = map_enc lib (if br_metadata b = None then 4 else 5) (body_fields lib b)"
  by (simp_all add: enc_header_def enc_heading_def enc_body_def map_enc_def header_fields_def body_fields_def
      split: option.split)

lemma shapes_ok:
  assumes "backup_lib_ok lib"
  shows "short (hr_magic h) \<Longrightarrow> short_opt (hr_origin h) \<Longrightarrow>
      fields_ok lib (if hr_origin h = None then 2 else 3) (header_fields lib h)"
    "short i \<Longrightarrow> fields_ok lib 1 [(0, concat (mc_bytes lib i))]"
    "body_short b \<Longrightarrow> fields_ok lib (if br_metadata b = None then 4 else 5) (body_fields lib b)"
  using backup_lib_okD(2,4,12,13) [OF assms]
  by (auto simp: fields_ok_def header_fields_def body_fields_def body_short_def short_opt_def split: option.split)

lemma header_full:
  assumes "backup_lib_ok lib" "short (hr_magic h)" "short_opt (hr_origin h)"
  shows "decode_map lib (md_header lib) (concat (enc_header lib h) @ rest) = Inr (h, rest)"
  using assms decode_map_full [OF assms(1) shapes_ok(1) [OF assms], of "md_header lib" rest]
  by (simp add: concat_enc [symmetric] backup_lib_ok_def derived_ok_def)

lemma heading_full:
  assumes "backup_lib_ok lib" "short i"
  shows "decode_map lib (md_heading lib) (concat (enc_heading lib i) @ rest) = Inr (i, rest)"
  using assms decode_map_full [OF assms(1) shapes_ok(2) [OF assms], of "md_heading lib" rest]
  by (simp add: concat_enc [symmetric] backup_lib_ok_def derived_ok_def)

lemma body_full:
  assumes "backup_lib_ok lib" "body_short b"
  shows "decode_map lib (md_body lib) (concat (enc_body lib b)) = Inr (b, [])"
  using assms decode_map_full [OF assms(1) shapes_ok(3) [OF assms], of "md_body lib" "[]"]
  by (simp add: concat_enc [symmetric] backup_lib_ok_def derived_ok_def body_short_def)
    (metis append_Nil2)

section \<open>Blocks\<close>

text \<open>An event that can be rebuilt from its fields: they are valid and its frame fits. The rebuilt
envelope is the one of the event's own frame.\<close>

definition backup_fits :: "persisted_envelope \<Rightarrow> bool" where
  "backup_fits e \<longleftrightarrow> pending_ok (from_persisted e) \<and> pending_len (from_persisted e) < 2 ^ 32"

definition rebuilt :: "persisted_envelope \<Rightarrow> persisted_envelope" where
  "rebuilt e = persisted_of (from_persisted e)"

lemma rebuilt_persisted_of [simp]: "rebuilt (persisted_of p) = persisted_of p"
  by (simp add: rebuilt_def)

lemma field_lengths:
  assumes "backup_fits e"
  shows "length (ps_event_type e) \<le> MAX_EVENT_TYPE_LEN" "utf8_valid (ps_event_type e)"
    "ps_metadata e = Some m \<Longrightarrow> m \<noteq> [] \<and> length m \<le> MAX_METADATA_LEN"
    "length (ps_event_type e) + (case ps_metadata e of None \<Rightarrow> 0 | Some m \<Rightarrow> length m) + length (ps_payload e) < 2 ^ 32"
proof -
  show "length (ps_event_type e) \<le> MAX_EVENT_TYPE_LEN" "utf8_valid (ps_event_type e)"
    "ps_metadata e = Some m \<Longrightarrow> m \<noteq> [] \<and> length m \<le> MAX_METADATA_LEN"
    using assms
    by (auto simp: backup_fits_def pending_ok_def from_persisted_def event_type_ok_def metadata_opt_ok_def
        metadata_ok_def ps_event_type_value_def ps_metadata_value_def)
  have "frame_len (ps_event_type_value e) (ps_payload_value e) (ps_metadata_value e) < 2 ^ 32"
    using assms by (simp add: backup_fits_def pending_len_def from_persisted_def)
  then show "length (ps_event_type e) + (case ps_metadata e of None \<Rightarrow> 0 | Some m \<Rightarrow> length m) + length (ps_payload e) < 2 ^ 32"
    by (cases "ps_metadata e")
      (auto simp: frame_len_def payload_offset_def Let_def opt_bytes_def ps_event_type_value_def ps_payload_value_def
        ps_metadata_value_def)
qed

lemma body_of_short: "backup_fits e \<Longrightarrow> body_short (body_of e)"
  using field_lengths [of e]
  by (cases "ps_metadata e") (auto simp: body_short_def body_of_def short_def short_opt_def)

lemma reconstruct_body_of:
  assumes "backup_fits e"
  shows "reconstruct (body_of e) = Returns (Inr (rebuilt e))"
proof -
  note L = field_lengths [OF assms]
  have fields: "check_fields (body_of e) = Inr ()"
    using L by (cases "ps_metadata e") (auto simp: check_fields_def body_of_def MAX_PAYLOAD_LEN_def)
  have total: "length (ps_event_type e) + (case ps_metadata e of None \<Rightarrow> 0 | Some m \<Rightarrow> length m) \<le> usize_max"
    "length (ps_event_type e) + (case ps_metadata e of None \<Rightarrow> 0 | Some m \<Rightarrow> length m) + length (ps_payload e) \<le> usize_max"
    using L(4) by (simp_all add: usize_max_def)
  have meta: "(case ps_metadata e of None \<Rightarrow> Inr None | Some m \<Rightarrow> map_ok Some (map_err BeValue (metadata_from_bytes m))) =
      Inr (ps_metadata_value e)"
    using L(3) by (cases "ps_metadata e") (auto simp: metadata_from_bytes_def ps_metadata_value_def)
  have et: "event_type_from_bytes (ps_event_type e) = Inr (ps_event_type_value e)"
    "payload_from_bytes (ps_payload e) = Inr (ps_payload_value e)"
    using L by (simp_all add: event_type_from_bytes_def payload_from_bytes_def ps_event_type_value_def
        ps_payload_value_def MAX_PAYLOAD_LEN_def)
  have "persisted_ok (rebuilt e)" using assms persisted_of_ok by (simp add: backup_fits_def rebuilt_def)
  from try_new_complete [OF this]
  have T: "try_new (ps_version e) (ps_value (rebuilt e)) (ps_schema e) (ps_event_type_range (rebuilt e))
      (ps_payload_range (rebuilt e)) (ps_metadata_range (rebuilt e)) = Inr (rebuilt e)"
    by (simp add: rebuilt_def persisted_of_def Let_def from_persisted_def)
  have E: "encode_frame (ps_schema e) (ps_event_type_value e) (ps_payload_value e) (ps_metadata_value e) =
      Returns (Inr \<lparr>ef_value = ps_value (rebuilt e),
        ef_offsets = \<lparr>fo_event_type = ps_event_type_range (rebuilt e), fo_metadata = ps_metadata_range (rebuilt e),
          fo_payload = ps_payload_range (rebuilt e)\<rparr>\<rparr>)"
    using assms encode_pending [of "from_persisted e"] by (simp add: backup_fits_def rebuilt_def from_persisted_def)
  show ?thesis
    using fields total meta et L(4) E T
    by (simp add: reconstruct_def checked_add_usize_def u32_try_from_def schema_from_u32_def nonzero_new_get
        version_new_as_u64 body_of_def del: version_new_Some nonzero_new_Some)
qed

definition body_bytes :: "'de backup_lib \<Rightarrow> persisted_envelope \<Rightarrow> bytes" where
  "body_bytes lib e = concat (enc_body lib (body_of e))"

definition block_enc :: "'de backup_lib \<Rightarrow> persisted_envelope \<Rightarrow> bytes" where
  "block_enc lib e = concat (enc_block lib (crc32c lib (body_bytes lib e)) (body_bytes lib e))"

lemma block_enc_append:
  "block_enc lib e = concat (mc_array lib 2) @ concat (mc_u32 lib (crc32c lib (body_bytes lib e))) @
    concat (mc_bytes lib (body_bytes lib e))"
  by (simp add: block_enc_def enc_block_def)

lemma block_read_simps [simp]:
  "block_read lib c (Inr x) k = k x"
  by (simp add: block_read_def)

lemma block_read_cut: "cut_off lib r \<Longrightarrow> block_read lib c r k = Returns (Inr None)"
  by (auto simp: block_read_def cut_off_def)

lemma block_full:
  assumes "backup_lib_ok lib" "backup_fits e" "short (body_bytes lib e)"
  shows "decode_block lib (block_enc lib e @ rest) = Returns (Inr (Some (BlockEvent (rebuilt e), rest)))"
  using body_full [OF assms(1) body_of_short [OF assms(2)]] reconstruct_body_of [OF assms(2)]
  by (simp add: decode_block_def block_enc_append framedD [OF backup_lib_okD(7) [OF assms(1)]]
      framedD [OF backup_lib_okD(1) [OF assms(1)]] framedD [OF backup_lib_okD(11) [OF assms(1,3)]]
      body_bytes_def [symmetric])

lemma block_cut:
  assumes "backup_lib_ok lib" "short (body_bytes lib e)" "strict_prefix q (block_enc lib e)"
  shows "decode_block lib q = Returns (Inr None)"
  using assms(3) unfolding block_enc_append
proof (cases rule: strict_prefix_append_cases)
  case 1
  from block_read_cut [OF framed_cut [OF backup_lib_okD(7) [OF assms(1)] 1]] show ?thesis
    by (simp add: decode_block_def)
next
  case a: (2 q')
  from a(2) show ?thesis
  proof (cases rule: strict_prefix_append_cases)
    case 1
    from block_read_cut [OF framed_cut [OF backup_lib_okD(1) [OF assms(1)] 1]] show ?thesis
      by (simp add: decode_block_def a(1) framedD [OF backup_lib_okD(7) [OF assms(1)]])
  next
    case b: (2 q'')
    from block_read_cut [OF framed_cut [OF backup_lib_okD(11) [OF assms(1,2)] b(2)]] show ?thesis
      by (simp add: decode_block_def a(1) b(1) framedD [OF backup_lib_okD(7) [OF assms(1)]]
          framedD [OF backup_lib_okD(1) [OF assms(1)]])
  qed
qed

section \<open>Completion\<close>

definition completion_enc :: "'de backup_lib \<Rightarrow> u64 \<Rightarrow> u64 \<Rightarrow> u64 \<Rightarrow> u32 \<Rightarrow> bytes" where
  "completion_enc lib sections events len crc =
    concat (mc_tag lib COMPLETION_TAG) @ concat (mc_array lib 4) @ concat (mc_u64 lib sections) @
    concat (mc_u64 lib events) @ concat (mc_u64 lib len) @ concat (mc_u32 lib crc)"

lemma completion_read_simps [simp]: "completion_read lib (Inr x) = Inr x"
  by (simp add: completion_read_def)

lemma completion_read_cut: "cut_off lib r \<Longrightarrow> completion_read lib r = Inl CpMissing"
  by (auto simp: completion_read_def cut_off_def)

lemma completion_full:
  assumes "backup_lib_ok lib" "short pre"
  shows "decode_completion lib (completion_enc lib s e (of_nat (length pre)) (crc32c lib pre))
    (pre @ completion_enc lib s e (of_nat (length pre)) (crc32c lib pre)) s e = Inr ()"
proof -
  note D = framedD [OF backup_lib_okD(5) [OF assms(1)]] framedD [OF backup_lib_okD(7) [OF assms(1)]]
    framedD [OF backup_lib_okD(3) [OF assms(1)]] framedD [OF backup_lib_okD(1) [OF assms(1)]]
  have u: "md_u32 lib (concat (mc_u32 lib x)) = Inr (x, [])" for x using D(4) [of x "[]"] by simp
  show ?thesis using assms(2) by (simp add: decode_completion_def completion_enc_def D u short_def)
qed

lemma completion_cut:
  assumes "backup_lib_ok lib" "strict_prefix q (completion_enc lib s e n c)"
  shows "decode_completion lib q bs s' e' = Inl CpMissing"
proof -
  note F = backup_lib_okD(5,7,3,1) [OF assms(1)]
  note D = framedD [OF F(1)] framedD [OF F(2)] framedD [OF F(3)] framedD [OF F(4)]
  note C = completion_read_cut [OF framed_cut [OF F(1)]] completion_read_cut [OF framed_cut [OF F(2)]]
    completion_read_cut [OF framed_cut [OF F(3)]] completion_read_cut [OF framed_cut [OF F(4)]]
  from assms(2) show ?thesis unfolding completion_enc_def
  proof (cases rule: strict_prefix_append_cases)
    case 1 then show ?thesis by (simp add: decode_completion_def C)
  next
    case q1: (2 q1)
    from q1(2) show ?thesis
    proof (cases rule: strict_prefix_append_cases)
      case 1 then show ?thesis by (simp add: decode_completion_def q1(1) D C)
    next
      case q2: (2 q2)
      from q2(2) show ?thesis
      proof (cases rule: strict_prefix_append_cases)
        case 1 then show ?thesis by (simp add: decode_completion_def q1(1) q2(1) D C)
      next
        case q3: (2 q3)
        from q3(2) show ?thesis
        proof (cases rule: strict_prefix_append_cases)
          case 1 then show ?thesis by (simp add: decode_completion_def q1(1) q2(1) q3(1) D C)
        next
          case q4: (2 q4)
          from q4(2) show ?thesis
          proof (cases rule: strict_prefix_append_cases)
            case 1 then show ?thesis by (simp add: decode_completion_def q1(1) q2(1) q3(1) q4(1) D C)
          next
            case q5: (2 q5)
            then show ?thesis by (simp add: decode_completion_def q1(1) q2(1) q3(1) q4(1) q5(1) D C)
          qed
        qed
      qed
    qed
  qed
qed

section \<open>The body\<close>

datatype backup_item = ItHeading bytes | ItEvent persisted_envelope

primrec item_enc :: "'de backup_lib \<Rightarrow> backup_item \<Rightarrow> bytes" where
  "item_enc lib (ItHeading i) = concat (enc_heading lib i)"
| "item_enc lib (ItEvent e) = block_enc lib e"

primrec item_ok :: "'de backup_lib \<Rightarrow> backup_item \<Rightarrow> bool" where
  "item_ok lib (ItHeading i) \<longleftrightarrow> short i"
| "item_ok lib (ItEvent e) \<longleftrightarrow> backup_fits e \<and> short (body_bytes lib e)"

primrec add_item :: "backup_item \<Rightarrow> stream_section list \<Rightarrow> stream_section list" where
  "add_item (ItHeading i) secs = secs @ [\<lparr>ss_origin = i, ss_blocks = []\<rparr>]"
| "add_item (ItEvent e) secs = push_block (BlockEvent (rebuilt e)) secs"

text \<open>The number of event items, and that an event never comes before a heading.\<close>

definition event_items :: "backup_item list \<Rightarrow> nat" where
  "event_items items = length (filter (\<lambda>i. case i of ItEvent _ \<Rightarrow> True | _ \<Rightarrow> False) items)"

fun headed :: "backup_item list \<Rightarrow> bool" where
  "headed (ItEvent _ # _) \<longleftrightarrow> False"
| "headed _ \<longleftrightarrow> True"

lemma event_items_simps [simp]:
  "event_items [] = 0" "event_items (ItHeading i # items) = event_items items"
  "event_items (ItEvent e # items) = Suc (event_items items)" "event_items (xs @ ys) = event_items xs + event_items ys"
  by (simp_all add: event_items_def)

lemma push_block_nonempty: "secs \<noteq> [] \<Longrightarrow> push_block b secs \<noteq> []"
  by (cases secs rule: rev_cases) (simp_all add: push_block_def)

lemma salvage_heading:
  assumes "backup_lib_ok lib" "short i"
  shows "salvage_loop lib bs fmt (concat (enc_heading lib i) @ d) secs n c =
    salvage_loop lib bs fmt d (secs @ [\<lparr>ss_origin = i, ss_blocks = []\<rparr>]) n c"
proof -
  have ne: "concat (enc_heading lib i) @ d \<noteq> []"
    using backup_lib_okD(10) [OF assms(1), of 1] by (auto simp: concat_enc map_enc_def starts_def)
  have ty: "md_datatype lib (concat (enc_heading lib i) @ d) = Inr TyMap"
    using startsD [OF backup_lib_okD(10) [OF assms(1), of 1]] by (simp add: concat_enc map_enc_def)
  show ?thesis
    by (subst salvage_loop.simps) (simp only: ne ty heading_full [OF assms] if_False sum.case cbor_type.case prod.case)
qed

lemma salvage_event:
  assumes "backup_lib_ok lib" "backup_fits e" "short (body_bytes lib e)" "secs \<noteq> []" "Suc (unat n) < 2 ^ 64"
  shows "salvage_loop lib bs fmt (block_enc lib e @ d) secs n c =
    salvage_loop lib bs fmt d (push_block (BlockEvent (rebuilt e)) secs) (n + 1) c"
proof -
  have ne: "block_enc lib e @ d \<noteq> []"
    using backup_lib_okD(8) [OF assms(1), of 2] by (auto simp: block_enc_append starts_def)
  have ty: "md_datatype lib (block_enc lib e @ d) = Inr TyArray"
    using startsD [OF backup_lib_okD(8) [OF assms(1), of 2]] by (simp add: block_enc_append)
  have add: "checked_add n 1 = Some (n + 1)" using assms(5) by (simp add: checked_add_def)
  show ?thesis
    by (subst salvage_loop.simps)
      (simp only: ne ty assms(4) block_full [OF assms(1-3)] add if_False sum.case cbor_type.case call.case option.case
        prod.case)
qed

lemma add_item_nonempty: "secs \<noteq> [] \<or> headed (it # items) \<Longrightarrow> add_item it secs \<noteq> []"
  by (cases it) (auto simp: push_block_nonempty)

lemma salvage_items:
  assumes "backup_lib_ok lib" "\<forall>i \<in> set items. item_ok lib i" "secs \<noteq> [] \<or> headed items"
    "unat n + event_items items < 2 ^ 64"
  shows "salvage_loop lib bs fmt (concat (map (item_enc lib) items) @ d) secs n c =
    salvage_loop lib bs fmt d (fold add_item items secs) (n + of_nat (event_items items)) c"
  using assms(2-)
proof (induction items arbitrary: secs n)
  case (Cons it items)
  have ne: "add_item it secs \<noteq> [] \<or> headed items" using add_item_nonempty [OF Cons.prems(2)] by blast
  have ok: "\<forall>i \<in> set items. item_ok lib i" using Cons.prems(1) by simp
  show ?case
  proof (cases it)
    case (ItHeading i)
    with Cons.prems(1) salvage_heading [OF assms(1), of i bs fmt "concat (map (item_enc lib) items) @ d" secs n c]
      Cons.IH [OF ok ne, of n] Cons.prems(3) show ?thesis by simp
  next
    case (ItEvent e)
    then have s: "secs \<noteq> []" using Cons.prems(2) by auto
    have n: "unat (n + 1) = Suc (unat n)" using Cons.prems(3) ItEvent by (simp add: unat_word_ariths)
    have "salvage_loop lib bs fmt (concat (map (item_enc lib) (it # items)) @ d) secs n c =
        salvage_loop lib bs fmt (concat (map (item_enc lib) items) @ d) (add_item it secs) (n + 1) c"
      using salvage_event [OF assms(1) _ _ s, of e n bs fmt "concat (map (item_enc lib) items) @ d" c] Cons.prems ItEvent
      by simp
    also have "\<dots> = salvage_loop lib bs fmt d (fold add_item items (add_item it secs))
        (n + 1 + of_nat (event_items items)) c"
      using Cons.prems(3) ItEvent n by (intro Cons.IH [OF ok ne]) simp
    finally show ?thesis using ItEvent by (simp add: algebra_simps)
  qed
qed simp

lemma salvage_item_cut:
  assumes "backup_lib_ok lib" "item_ok lib it" "secs \<noteq> [] \<or> headed [it]" "strict_prefix q (item_enc lib it)"
  shows "salvage_loop lib bs fmt q secs n c = Some (Returns (Inr (secs, c)))"
proof (cases "q = []")
  case True
  then show ?thesis by (simp add: salvage_loop.simps)
next
  case ne: False
  show ?thesis
  proof (cases it)
    case (ItHeading i)
    have p: "prefix q (concat (mc_map lib 1) @ entries lib [(0, concat (mc_bytes lib i))])"
      using assms(4) ItHeading by (simp add: concat_enc map_enc_def strict_prefix_def)
    from starts_cut [OF backup_lib_okD(10) [OF assms(1)] ne p] have ty: "md_datatype lib q = Inr TyMap" .
    have "fields_ok lib 1 [(0, concat (mc_bytes lib i))]" using shapes_ok(2) [OF assms(1)] assms(2) ItHeading by simp
    then have "cut_off lib (decode_map lib (md_heading lib) q)"
      using assms(4) ItHeading by (intro decode_map_cut [OF assms(1)]) (simp_all add: concat_enc)
    then obtain e where "decode_map lib (md_heading lib) q = Inl e" "md_is_end_of_input lib e" by (auto simp: cut_off_def)
    with ne ty show ?thesis by (subst salvage_loop.simps) simp
  next
    case (ItEvent e)
    have p: "prefix q (concat (mc_array lib 2) @ concat (mc_u32 lib (crc32c lib (body_bytes lib e))) @
        concat (mc_bytes lib (body_bytes lib e)))"
      using assms(4) ItEvent by (simp add: block_enc_append strict_prefix_def)
    from starts_cut [OF backup_lib_okD(8) [OF assms(1)] ne p] have ty: "md_datatype lib q = Inr TyArray" .
    have "decode_block lib q = Returns (Inr None)"
      using assms(2,4) ItEvent by (intro block_cut [OF assms(1)]) simp_all
    with ne ty assms(3) ItEvent show ?thesis by (subst salvage_loop.simps) simp
  qed
qed

lemma strict_prefix_concat:
  assumes "strict_prefix q (concat xss)"
  obtains before xs after q' where "xss = before @ xs # after" "q = concat before @ q'" "strict_prefix q' xs"
  using assms
proof (induction xss arbitrary: q thesis)
  case (Cons ys xss)
  from Cons.prems(2) have "strict_prefix q (ys @ concat xss)" by simp
  then show ?case
  proof (cases rule: strict_prefix_append_cases)
    case 1
    with Cons.prems(1) [of "[]" ys xss q] show ?thesis by simp
  next
    case (2 q')
    from Cons.IH [OF _ 2(2)] obtain before xs after q'' where
      "xss = before @ xs # after" "q' = concat before @ q''" "strict_prefix q'' xs" by blast
    with 2(1) Cons.prems(1) [of "ys # before" xs after q''] show ?thesis by simp
  qed
qed (simp add: strict_prefix_def)

lemma headed_append: "headed (xs @ ys) \<Longrightarrow> headed xs \<and> (xs = [] \<longrightarrow> headed ys)"
  by (cases xs rule: headed.cases) simp_all

lemma fold_add_nonempty: "secs \<noteq> [] \<Longrightarrow> fold add_item items secs \<noteq> []"
proof (induction items arbitrary: secs)
  case (Cons it items)
  have "add_item it secs \<noteq> []" using Cons.prems by (cases it) (simp_all add: push_block_nonempty)
  from Cons.IH [OF this] show ?case by simp
qed simp

lemma salvage_items_cut:
  assumes "backup_lib_ok lib" "\<forall>i \<in> set items. item_ok lib i" "headed items"
    "event_items items < 2 ^ 64" "strict_prefix q (concat (map (item_enc lib) items))"
  shows "\<exists>secs. salvage_loop lib bs fmt q [] 0 c = Some (Returns (Inr (secs, c)))"
proof -
  from assms(5) obtain before xs after q' where
    split: "map (item_enc lib) items = before @ xs # after" "q = concat before @ q'" "strict_prefix q' xs"
    by (rule strict_prefix_concat)
  from split(1) obtain pre it post where items: "items = pre @ it # post" "before = map (item_enc lib) pre"
    "xs = item_enc lib it"
    by (auto simp: map_eq_append_conv map_eq_Cons_conv)
  have pre: "headed pre" "pre = [] \<longrightarrow> headed [it]"
    using headed_append [of pre "it # post"] headed_append [of "[it]" post] assms(3) items(1) by auto
  have "salvage_loop lib bs fmt q [] 0 c =
      salvage_loop lib bs fmt q' (fold add_item pre []) (of_nat (event_items pre)) c"
    using salvage_items [OF assms(1), of pre "[]" 0 bs fmt q' c] assms(2,4) items split(2) pre(1) by simp
  also have "\<dots> = Some (Returns (Inr (fold add_item pre [], c)))"
  proof (rule salvage_item_cut [OF assms(1)])
    show "item_ok lib it" "strict_prefix q' (item_enc lib it)" using assms(2) items split(3) by simp_all
    show "fold add_item pre [] \<noteq> [] \<or> headed [it]"
    proof (cases pre)
      case (Cons i rest)
      then have "add_item i [] \<noteq> []" using pre(1) by (intro add_item_nonempty) simp
      with Cons show ?thesis by (simp add: fold_add_nonempty)
    qed (simp add: pre(2))
  qed
  finally show ?thesis by blast
qed

lemma salvage_completion:
  assumes "backup_lib_ok lib" "length secs < 2 ^ 64" "prefix q (completion_enc lib s e m crc)" "q \<noteq> []"
  shows "salvage_loop lib bs BACKUP_FORMAT_VERSION q secs n c =
    Some (Returns (Inr (secs, decode_completion lib q bs (of_nat (length secs)) n)))"
proof -
  have "md_datatype lib q = Inr TyTag"
    using starts_cut [OF backup_lib_okD(6) [OF assms(1)] assms(4)] assms(3) unfolding completion_enc_def by blast
  with assms(2,4) show ?thesis by (subst salvage_loop.simps) simp
qed

section \<open>Whole chunks\<close>

definition heading_items :: "backup_item list \<Rightarrow> nat" where
  "heading_items items = length (filter (\<lambda>i. case i of ItHeading _ \<Rightarrow> True | _ \<Rightarrow> False) items)"

lemma heading_items_simps [simp]:
  "heading_items [] = 0" "heading_items (ItHeading i # items) = Suc (heading_items items)"
  "heading_items (ItEvent e # items) = heading_items items"
  "heading_items (xs @ ys) = heading_items xs + heading_items ys"
  by (simp_all add: heading_items_def)

lemma length_push_block [simp]: "length (push_block b secs) = length secs"
  by (cases secs rule: rev_cases) (simp_all add: push_block_def)

lemma length_fold_add: "length (fold add_item items secs) = length secs + heading_items items"
proof (induction items arbitrary: secs)
  case (Cons it items)
  then show ?case by (cases it) simp_all
qed simp

definition intact :: "stream_section list \<Rightarrow> bool" where
  "intact secs \<longleftrightarrow> \<not> list_ex (\<lambda>s. list_ex (\<lambda>b. b = BlockCorrupt) (ss_blocks s)) secs"

lemma intact_add_item: "intact secs \<Longrightarrow> intact (add_item it secs)"
  by (cases it; cases secs rule: rev_cases) (auto simp: intact_def push_block_def)

lemma intact_fold_add: "intact secs \<Longrightarrow> intact (fold add_item items secs)"
  by (induction items arbitrary: secs) (simp_all add: intact_add_item)

definition header_bytes :: "'de backup_lib \<Rightarrow> bytes option \<Rightarrow> bytes" where
  "header_bytes lib origin =
    concat (enc_header lib \<lparr>hr_magic = MAGIC, hr_format_version = BACKUP_FORMAT_VERSION, hr_origin = origin\<rparr>)"

definition chunk_prefix :: "'de backup_lib \<Rightarrow> bytes option \<Rightarrow> backup_item list \<Rightarrow> bytes" where
  "chunk_prefix lib origin items = header_bytes lib origin @ concat (map (item_enc lib) items)"

definition chunk_completion :: "'de backup_lib \<Rightarrow> bytes option \<Rightarrow> backup_item list \<Rightarrow> bytes" where
  "chunk_completion lib origin items =
    completion_enc lib (of_nat (heading_items items)) (of_nat (event_items items))
      (of_nat (length (chunk_prefix lib origin items))) (crc32c lib (chunk_prefix lib origin items))"

definition chunk_bytes :: "'de backup_lib \<Rightarrow> bytes option \<Rightarrow> backup_item list \<Rightarrow> bytes" where
  "chunk_bytes lib origin items = chunk_prefix lib origin items @ chunk_completion lib origin items"

definition layout_ok :: "'de backup_lib \<Rightarrow> bytes option \<Rightarrow> backup_item list \<Rightarrow> bool" where
  "layout_ok lib origin items \<longleftrightarrow> short_opt origin \<and> (\<forall>i \<in> set items. item_ok lib i) \<and> headed items \<and>
    event_items items < 2 ^ 64 \<and> heading_items items < 2 ^ 64 \<and> short (chunk_prefix lib origin items)"

lemma header_at_full:
  assumes "backup_lib_ok lib" "short_opt origin"
  shows "header_at lib (header_bytes lib origin @ rest) =
    Inr (\<lparr>ch_format_version = BACKUP_FORMAT_VERSION, ch_origin = origin\<rparr>, rest)"
  using header_full [OF assms(1), of "\<lparr>hr_magic = MAGIC, hr_format_version = BACKUP_FORMAT_VERSION, hr_origin = origin\<rparr>"]
    assms(2)
  by (simp add: header_at_def header_bytes_def short_def MAGIC_def validate_header_def)

lemma header_at_cut:
  assumes "backup_lib_ok lib" "short_opt origin" "strict_prefix q (header_bytes lib origin)"
  shows "\<exists>e. header_at lib q = Inl e"
proof -
  let ?h = "\<lparr>hr_magic = MAGIC, hr_format_version = BACKUP_FORMAT_VERSION, hr_origin = origin\<rparr>"
  have "fields_ok lib (if hr_origin ?h = None then 2 else 3) (header_fields lib ?h)"
    using assms(2) by (intro shapes_ok(1) [OF assms(1)]) (simp_all add: short_def MAGIC_def)
  from decode_map_cut [OF assms(1) this] assms(3) have "cut_off lib (decode_map lib (md_header lib) q)"
    by (simp add: header_bytes_def concat_enc)
  then show ?thesis by (auto simp: header_at_def cut_off_def)
qed

lemma salvage_header:
  assumes "backup_lib_ok lib" "short_opt origin"
    "salvage_loop lib (header_bytes lib origin @ d) BACKUP_FORMAT_VERSION d [] 0 (Inl CpMissing) =
      Some (Returns (Inr (secs, completion)))"
  shows "salvage_chunk lib (header_bytes lib origin @ d) =
    Some (Returns (Inr \<lparr>sv_header = \<lparr>ch_format_version = BACKUP_FORMAT_VERSION, ch_origin = origin\<rparr>,
      sv_sections = secs, sv_completion = completion\<rparr>))"
proof -
  have "BACKUP_FORMAT_VERSION \<noteq> 1" by (simp add: BACKUP_FORMAT_VERSION_def)
  with assms(3) show ?thesis by (simp add: salvage_chunk_def header_at_full [OF assms(1,2)])
qed

lemma salvage_chunk_completion:
  assumes "backup_lib_ok lib" "heading_items items < 2 ^ 64" "prefix q (chunk_completion lib origin items)" "q \<noteq> []"
  shows "salvage_loop lib bs BACKUP_FORMAT_VERSION q (fold add_item items []) n c =
    Some (Returns (Inr (fold add_item items [], decode_completion lib q bs (of_nat (heading_items items)) n)))"
proof -
  have "length (fold add_item items []) < 2 ^ 64" using assms(2) by (simp add: length_fold_add)
  from salvage_completion [OF assms(1) this assms(3) [unfolded chunk_completion_def] assms(4)] show ?thesis
    by (simp add: length_fold_add)
qed

lemma decode_chunk_full:
  assumes "backup_lib_ok lib" "layout_ok lib origin items"
  shows "decode_chunk lib (chunk_bytes lib origin items) = Some (Returns (Inr (fold add_item items [])))"
proof -
  let ?C = "chunk_completion lib origin items"
  let ?d = "concat (map (item_enc lib) items) @ ?C"
  let ?secs = "fold add_item items []"
  let ?bs = "chunk_bytes lib origin items"
  have L: "short_opt origin" "\<forall>i \<in> set items. item_ok lib i" "headed items" "event_items items < 2 ^ 64"
    "heading_items items < 2 ^ 64" "short (chunk_prefix lib origin items)"
    using assms(2) by (simp_all add: layout_ok_def)
  have bs: "?bs = header_bytes lib origin @ ?d" by (simp add: chunk_bytes_def chunk_prefix_def)
  have ne: "?C \<noteq> []"
    using backup_lib_okD(6) [OF assms(1)] by (auto simp: chunk_completion_def completion_enc_def starts_def)
  have "salvage_loop lib ?bs BACKUP_FORMAT_VERSION ?d [] 0 (Inl CpMissing) =
      salvage_loop lib ?bs BACKUP_FORMAT_VERSION ?C ?secs (of_nat (event_items items)) (Inl CpMissing)"
    using salvage_items [OF assms(1) L(2), of "[]" 0 ?bs BACKUP_FORMAT_VERSION ?C] L(3,4) by simp
  also have "\<dots> = Some (Returns (Inr (?secs, decode_completion lib ?C ?bs (of_nat (heading_items items))
      (of_nat (event_items items)))))"
    by (rule salvage_chunk_completion [OF assms(1) L(5) prefix_order.refl ne])
  also have "decode_completion lib ?C ?bs (of_nat (heading_items items)) (of_nat (event_items items)) = Inr ()"
    unfolding chunk_bytes_def chunk_completion_def by (rule completion_full [OF assms(1) L(6)])
  finally have "salvage_chunk lib ?bs = Some (Returns (Inr
      \<lparr>sv_header = \<lparr>ch_format_version = BACKUP_FORMAT_VERSION, ch_origin = origin\<rparr>, sv_sections = ?secs,
       sv_completion = Inr ()\<rparr>))"
    unfolding bs by (intro salvage_header [OF assms(1) L(1)])
  moreover have "intact ?secs" by (rule intact_fold_add) (simp add: intact_def)
  ultimately show ?thesis by (simp add: decode_chunk_def intact_def)
qed

lemma decode_chunk_incomplete:
  "salvage_chunk lib bs = Some (Returns (Inr \<lparr>sv_header = h, sv_sections = secs, sv_completion = Inl e\<rparr>)) \<Longrightarrow>
    decode_chunk lib bs = Some (Returns (Inl (ChCompletion e)))"
  by (simp add: decode_chunk_def)

lemma decode_chunk_cut:
  assumes "backup_lib_ok lib" "layout_ok lib origin items" "strict_prefix q (chunk_bytes lib origin items)"
  shows "\<exists>e. decode_chunk lib q = Some (Returns (Inl e))"
proof -
  have L: "short_opt origin" "\<forall>i \<in> set items. item_ok lib i" "headed items" "event_items items < 2 ^ 64"
    "heading_items items < 2 ^ 64"
    using assms(2) by (simp_all add: layout_ok_def)
  from assms(3) have "strict_prefix q (header_bytes lib origin @ concat (map (item_enc lib) items) @
      chunk_completion lib origin items)" by (simp add: chunk_bytes_def chunk_prefix_def)
  then show ?thesis
  proof (cases rule: strict_prefix_append_cases)
    case 1
    from header_at_cut [OF assms(1) L(1) this] show ?thesis by (auto simp: decode_chunk_def salvage_chunk_def)
  next
    case a: (2 q')
    let ?loop = "salvage_loop lib q BACKUP_FORMAT_VERSION q' [] 0 (Inl CpMissing)"
    from a(2) have "\<exists>secs. ?loop = Some (Returns (Inr (secs, Inl CpMissing)))"
    proof (cases rule: strict_prefix_append_cases)
      case 1
      from salvage_items_cut [OF assms(1) L(2-4) 1] show ?thesis .
    next
      case b: (2 q'')
      let ?secs = "fold add_item items []"
      have "?loop = salvage_loop lib q BACKUP_FORMAT_VERSION q'' ?secs (of_nat (event_items items)) (Inl CpMissing)"
        using salvage_items [OF assms(1) L(2), of "[]" 0 q BACKUP_FORMAT_VERSION q''] L(3,4) b(1) by simp
      also have "\<dots> = Some (Returns (Inr (?secs, Inl CpMissing)))"
      proof (cases "q'' = []")
        case True
        then show ?thesis by (simp add: salvage_loop.simps)
      next
        case False
        have "prefix q'' (chunk_completion lib origin items)" using b(2) by (simp add: strict_prefix_def)
        from salvage_chunk_completion [OF assms(1) L(5) this False]
          completion_cut [OF assms(1) b(2) [unfolded chunk_completion_def]]
        show ?thesis by simp
      qed
      finally show ?thesis by blast
    qed
    then obtain secs where "?loop = Some (Returns (Inr (secs, Inl CpMissing)))" ..
    from salvage_header [OF assms(1) L(1) this [unfolded a(1)]] a(1) show ?thesis
      using decode_chunk_incomplete [of lib q] by blast
  qed
qed

section \<open>Decoding always ends\<close>

lemma reconstruct_total: "reconstruct b \<noteq> Panics"
proof -
  have "encode_frame schema et pl m \<noteq> Panics"
    if "event_type_from_bytes x = Inr et"
      "(case y of None \<Rightarrow> Inr None | Some z \<Rightarrow> map_ok Some (map_err BeValue (metadata_from_bytes z))) = Inr m"
    for x et pl y m schema
  proof -
    have ok: "event_type_ok et" "metadata_opt_ok m"
      using that by (auto simp: event_type_from_bytes_def event_type_ok_def metadata_from_bytes_def metadata_opt_ok_def
          metadata_ok_def result_simps split: if_splits option.splits)
    show ?thesis
      using encode_frame_Inr [OF ok, of pl schema] encode_frame_overflow [of et pl m schema] by fastforce
  qed
  then show ?thesis
    by (auto simp: reconstruct_def result_simps call_bind_def split: sum.splits call.splits)
qed

lemma decode_block_total: "decode_block lib d \<noteq> Panics"
  using reconstruct_total
  by (auto simp: decode_block_def block_read_def call_bind_def split: sum.splits option.splits call.splits)

lemma block_read_Some:
  "block_read lib c r k = Returns (Inr (Some x)) \<longleftrightarrow> (\<exists>y. r = Inr y \<and> k y = Returns (Inr (Some x)))"
  by (cases r) (simp_all add: block_read_def)

lemma decode_block_consumes:
  assumes "backup_lib_ok lib" "decode_block lib d = Returns (Inr (Some (b, d')))"
  shows "length d' < length d"
proof -
  have C: "consumes (md_array lib)" "consumes (md_u32 lib)" "consumes (md_bytes lib)"
    using assms(1) by (simp_all add: backup_lib_ok_def)
  obtain n d1 where n: "md_array lib d = Inr (Some n, d1)" and r:
    "(if n \<noteq> 2 then Returns (Inl (ChMalformed ''block array must have exactly 2 elements''))
      else block_read lib ''malformed block crc'' (md_u32 lib d1) (\<lambda>(crc, d).
        block_read lib ''malformed block body bytes'' (md_bytes lib d) (\<lambda>(body, d).
          if crc32c lib body \<noteq> crc then Returns (Inr (Some (BlockCorrupt, d)))
          else case decode_map lib (md_body lib) body of
            Inl e \<Rightarrow> Returns (Inl (ChDecode ''crc-valid body failed to decode'' e))
          | Inr (parsed, left) \<Rightarrow>
              if left \<noteq> [] then Returns (Inl (ChMalformed ''trailing bytes in block body''))
              else call_bind (reconstruct parsed) (\<lambda>r.
                Returns (and_then (map_err ChEvent r) (\<lambda>env. Inr (Some (BlockEvent env, d)))))))) =
      Returns (Inr (Some (b, d')))"
    using assms(2) unfolding decode_block_def block_read_Some by (auto split: option.splits)
  from r have "n = 2" by (rule contrapos_pp) simp
  with r obtain crc d2 body d3 where "md_u32 lib d1 = Inr (crc, d2)" "md_bytes lib d2 = Inr (body, d3)" "d3 = d'"
    unfolding block_read_Some by (auto simp: block_read_Some result_simps split: if_splits sum.splits)
  with n C show ?thesis unfolding consumes_def by (meson order.strict_trans)
qed

lemma decode_map_consumes:
  "consumes decode \<Longrightarrow> decode_map lib decode d = Inr (x, d') \<Longrightarrow> length d' < length d"
  by (auto simp: decode_map_def consumes_def result_simps)

lemma salvage_loop_total:
  assumes "backup_lib_ok lib"
  shows "\<exists>r. salvage_loop lib bs fmt d secs n c = Some (Returns r)"
proof (induction "length d" arbitrary: d secs n rule: less_induct)
  case less
  have heading: "\<exists>r. salvage_loop lib bs fmt d' secs' n' c = Some (Returns r)"
    if "decode_map lib (md_heading lib) d = Inr (i, d')" for i d' secs' n'
    using less decode_map_consumes [OF _ that] assms by (simp add: backup_lib_ok_def)
  have block: "\<exists>r. salvage_loop lib bs fmt d' secs' n' c = Some (Returns r)"
    if "decode_block lib d = Returns (Inr (Some (b, d')))" for b d' secs' n'
    using less decode_block_consumes [OF assms that] by simp
  show ?case
    using heading block decode_block_total [of lib d]
    by (subst salvage_loop.simps)
      (auto split: sum.splits cbor_type.splits call.splits option.splits prod.splits)
qed

lemma decode_chunk_total:
  assumes "backup_lib_ok lib"
  shows "\<exists>r. decode_chunk lib bs = Some (Returns r)"
proof -
  have "\<exists>r. salvage_chunk lib bs = Some (Returns r)"
  proof (cases "header_at lib bs")
    case (Inr x)
    obtain h d where x: "x = (h, d)" by fastforce
    from salvage_loop_total [OF assms] obtain r where
      "salvage_loop lib bs (ch_format_version h) d [] 0 (Inl (if ch_format_version h = 1 then CpLegacy else CpMissing)) =
        Some (Returns r)" by blast
    with Inr x show ?thesis by (simp add: salvage_chunk_def)
  qed (simp add: salvage_chunk_def)
  then show ?thesis by (auto simp: decode_chunk_def)
qed

end
