(* ===== verification/Backup_Writer.thy ===== *)
theory Backup_Writer
  imports Backup_Roundtrip
begin

text \<open>
  What the chunk writer of \<open>crates/store/src/cbor.rs\<close> leaves in its sink. A program of calls opens
  sections and writes events into them; any call may fail, and a drain may be dropped half way. The
  lemmas show that a writer is either poisoned, for good, or that its sink holds exactly the layout of
  everything it was told to write.
\<close>

section \<open>The tracked sink\<close>

definition sink_ok :: "('w, 'we) sink_write \<Rightarrow> ('w \<Rightarrow> bytes) \<Rightarrow> bool" where
  "sink_ok write contents \<longleftrightarrow> (\<forall>bs w w'. write bs w = (Inr (), w') \<longrightarrow> contents w' = contents w @ bs)"

definition tracked :: "'de backup_lib \<Rightarrow> ('w \<Rightarrow> bytes) \<Rightarrow> 'w tracked_sink \<Rightarrow> bytes \<Rightarrow> bool" where
  "tracked lib contents ts pre \<longleftrightarrow>
    contents (ts_inner ts) = pre \<and> unat (ts_bytes ts) = length pre \<and> ts_crc ts = crc32c lib pre"

lemma tracked_write:
  assumes "backup_lib_ok lib" "sink_ok write contents" "tracked lib contents ts pre"
    "tracked_write_all lib write bs ts = (Inr (), ts')"
  shows "tracked lib contents ts' (pre @ bs)"
proof -
  obtain n w where n: "checked_add (ts_bytes ts) (of_nat (length bs)) = Some n" "length bs < 2 ^ 64"
    "write bs (ts_inner ts) = (Inr (), w)"
    "ts' = \<lparr>ts_inner = w, ts_bytes = n, ts_crc = crc32c_append lib (ts_crc ts) bs\<rparr>"
    using assms(4) by (auto simp: tracked_write_all_def split: if_splits option.splits prod.splits sum.splits)
  have "unat n = unat (ts_bytes ts) + length bs"
    using n(1,2) by (simp add: checked_add_Some unsigned_of_nat take_bit_nat_eq_self)
  moreover have "contents w = contents (ts_inner ts) @ bs" using assms(2) n(3) by (simp add: sink_ok_def)
  ultimately show ?thesis
    using assms(3) by (simp add: tracked_def n(4) checksum_okD(2) [OF assms(1)])
qed

lemma encode_calls_tracked:
  assumes "backup_lib_ok lib" "sink_ok write contents"
    "tracked lib contents ts pre" "encode_calls lib write calls ts = (Inr (), ts')"
  shows "tracked lib contents ts' (pre @ concat calls)"
  using assms(3,4)
proof (induction calls arbitrary: ts pre)
  case (Cons bs calls)
  obtain ts1 where t: "tracked_write_all lib write bs ts = (Inr (), ts1)" "encode_calls lib write calls ts1 = (Inr (), ts')"
    using Cons.prems(2) by (auto split: prod.splits sum.splits)
  from Cons.IH [OF tracked_write [OF assms(1,2) Cons.prems(1) t(1)] t(2)] show ?case by simp
qed simp

section \<open>Programs\<close>

datatype 'r section_op =
    OpBlock persisted_envelope
  | OpExtend "(persisted_envelope, 'r) result list"
  | OpDropped "persisted_envelope list"

type_synonym 'r backup_program = "(bytes \<times> 'r section_op list) list"

fun run_op ::
  "'de backup_lib \<Rightarrow> ('w, 'we) sink_write \<Rightarrow> 'r section_op \<Rightarrow> 'w chunk_writer \<Rightarrow> 'w chunk_writer" where
  "run_op lib write (OpBlock e) w = snd (kw_block lib write e w)"
| "run_op lib write (OpExtend items) w = snd (kw_try_extend lib write items w)"
| "run_op lib write (OpDropped items) w = kw_extend_dropped lib write items w"

definition run_section ::
  "'de backup_lib \<Rightarrow> ('w, 'we) sink_write \<Rightarrow> bytes \<times> 'r section_op list \<Rightarrow> 'w chunk_writer \<Rightarrow> 'w chunk_writer" where
  "run_section lib write s w =
    (case kw_section lib write (fst s) w of
       (Inl _, w) \<Rightarrow> w
     | (Inr _, w) \<Rightarrow> fold (run_op lib write) (snd s) w)"

definition run_program ::
  "'de backup_lib \<Rightarrow> ('w, 'we) sink_write \<Rightarrow> 'r backup_program \<Rightarrow> 'w chunk_writer \<Rightarrow> 'w chunk_writer" where
  "run_program lib write prog w = fold (run_section lib write) prog w"

text \<open>What a program means to write, and that nothing in it was doomed: no source error, no dropped
drain.\<close>

fun op_events :: "'r section_op \<Rightarrow> persisted_envelope list" where
  "op_events (OpBlock e) = [e]"
| "op_events (OpExtend items) = [e. Inr e \<leftarrow> items]"
| "op_events (OpDropped items) = []"

fun op_clean :: "'r section_op \<Rightarrow> bool" where
  "op_clean (OpBlock e) \<longleftrightarrow> True"
| "op_clean (OpExtend items) \<longleftrightarrow> list_all is_ok items"
| "op_clean (OpDropped items) \<longleftrightarrow> False"

definition program_clean :: "'r backup_program \<Rightarrow> bool" where
  "program_clean prog \<longleftrightarrow> list_all (\<lambda>s. list_all op_clean (snd s)) prog"

definition section_events :: "bytes \<times> 'r section_op list \<Rightarrow> persisted_envelope list" where
  "section_events s = concat (map op_events (snd s))"

definition program_items :: "'r backup_program \<Rightarrow> backup_item list" where
  "program_items prog = concat (map (\<lambda>s. ItHeading (fst s) # map ItEvent (section_events s)) prog)"

definition program_sections :: "'r backup_program \<Rightarrow> stream_section list" where
  "program_sections prog =
    map (\<lambda>s. \<lparr>ss_origin = fst s, ss_blocks = map (BlockEvent \<circ> rebuilt) (section_events s)\<rparr>) prog"

section \<open>The writer's invariant\<close>

definition holds_items ::
  "'de backup_lib \<Rightarrow> ('w \<Rightarrow> bytes) \<Rightarrow> bytes option \<Rightarrow> backup_item list \<Rightarrow> 'w chunk_writer \<Rightarrow> bool" where
  "holds_items lib contents origin items w \<longleftrightarrow>
    tracked lib contents (kw_enc w) (chunk_prefix lib origin items) \<and>
    unat (kw_sections w) = heading_items items \<and> unat (kw_events w) = event_items items"

lemma holds_state [simp]:
  "holds_items lib contents origin items (w\<lparr>kw_state := s\<rparr>) = holds_items lib contents origin items w"
  by (simp add: holds_items_def)

lemma chunk_prefix_snoc: "chunk_prefix lib origin (items @ [it]) = chunk_prefix lib origin items @ item_enc lib it"
  by (simp add: chunk_prefix_def)

lemma ready_iff: "kw_ensure_ready w = Inr x \<longleftrightarrow> kw_state w = WsReady"
  by (simp add: kw_ensure_ready_def split: writer_state.splits)

lemma ready_simp: "kw_state w = WsReady \<Longrightarrow> kw_ensure_ready w = Inr ()"
  by (simp add: kw_ensure_ready_def)

lemma poisoned_ready: "kw_state w \<noteq> WsReady \<Longrightarrow> kw_ensure_ready w = Inl WrPoisoned"
  by (cases "kw_state w") (simp_all add: kw_ensure_ready_def)

lemma unat_checked_add1: "checked_add n 1 = Some m \<Longrightarrow> unat m = Suc (unat n)" for n m :: u64
  by (simp add: checked_add_Some)

lemma kw_new_holds:
  assumes "backup_lib_ok lib" "sink_ok write contents" "contents sink = []" "kw_new lib write sink origin = Inr w"
  shows "holds_items lib contents origin [] w \<and> kw_state w = WsReady"
proof -
  let ?h = "\<lparr>hr_magic = MAGIC, hr_format_version = BACKUP_FORMAT_VERSION, hr_origin = origin\<rparr>"
  obtain ts where e: "encode_calls lib write (enc_header lib ?h) \<lparr>ts_inner = sink, ts_bytes = 0, ts_crc = 0\<rparr> = (Inr (), ts)"
    "w = \<lparr>kw_enc = ts, kw_state = WsReady, kw_sections = 0, kw_events = 0\<rparr>"
    using assms(4) by (auto simp: kw_new_def split: prod.splits sum.splits)
  have "tracked lib contents \<lparr>ts_inner = sink, ts_bytes = 0, ts_crc = 0\<rparr> []"
    by (simp add: tracked_def assms(3) checksum_okD(1) [OF assms(1)])
  from encode_calls_tracked [OF assms(1,2) this e(1)] show ?thesis
    by (simp add: holds_items_def e(2) chunk_prefix_def header_bytes_def)
qed

lemma kw_section_holds:
  assumes "backup_lib_ok lib" "sink_ok write contents" "kw_section lib write i w = (r, w')"
  shows "(kw_state w' = WsReady \<longrightarrow> kw_state w = WsReady \<and> r = Inr () \<and>
      (holds_items lib contents origin items w \<longrightarrow> holds_items lib contents origin (items @ [ItHeading i]) w')) \<and>
    (kw_state w' \<noteq> WsReady \<longrightarrow> (\<exists>e. r = Inl e))"
proof (cases "kw_state w = WsReady")
  case False
  with assms(3) show ?thesis by (auto simp: kw_section_def poisoned_ready)
next
  case ready: True
  show ?thesis
  proof (cases "checked_add (kw_sections w) 1")
    case None
    with assms(3) ready show ?thesis by (auto simp: kw_section_def ready_simp)
  next
    case (Some n)
    show ?thesis
    proof (cases "encode_calls lib write (enc_heading lib i) (kw_enc w)")
      case (Pair x ts)
      show ?thesis
      proof (cases x)
        case (Inl e)
        with assms(3) ready Some Pair show ?thesis by (auto simp: kw_section_def ready_simp)
      next
        case (Inr u)
        then have w': "r = Inr ()" "w' = w\<lparr>kw_enc := ts, kw_sections := n, kw_state := WsReady\<rparr>"
          using assms(3) ready Some Pair by (simp_all add: kw_section_def ready_simp)
        have "holds_items lib contents origin (items @ [ItHeading i]) w'" if "holds_items lib contents origin items w"
          using that encode_calls_tracked [OF assms(1,2) _ Pair [unfolded Inr, simplified]] unat_checked_add1 [OF Some]
          by (simp add: holds_items_def w'(2) chunk_prefix_snoc)
        with w' ready show ?thesis by simp
      qed
    qed
  qed
qed

lemma kw_write_block_holds:
  assumes "backup_lib_ok lib" "sink_ok write contents" "kw_write_block lib write e w = (r, w')"
  shows "kw_state w' = kw_state w \<and> (r = Inr () \<longrightarrow> holds_items lib contents origin items w \<longrightarrow>
    holds_items lib contents origin (items @ [ItEvent e]) w')"
proof (cases "checked_add (kw_events w) 1")
  case None
  with assms(3) show ?thesis by (auto simp: kw_write_block_def)
next
  case (Some n)
  show ?thesis
  proof (cases "encode_calls lib write (enc_block lib (crc32c lib (body_bytes lib e)) (body_bytes lib e)) (kw_enc w)")
    case (Pair x ts)
    show ?thesis
    proof (cases x)
      case (Inl e')
      with assms(3) Some Pair show ?thesis by (auto simp: kw_write_block_def body_bytes_def)
    next
      case (Inr u)
      then have w': "w' = w\<lparr>kw_enc := ts, kw_events := n\<rparr>"
        using assms(3) Some Pair by (simp add: kw_write_block_def body_bytes_def)
      have "holds_items lib contents origin (items @ [ItEvent e]) w'" if "holds_items lib contents origin items w"
        using that encode_calls_tracked [OF assms(1,2) _ Pair [unfolded Inr, simplified]] unat_checked_add1 [OF Some]
        by (simp add: holds_items_def w' chunk_prefix_snoc block_enc_def)
      with w' show ?thesis by simp
    qed
  qed
qed

lemma kw_drain_holds:
  assumes "backup_lib_ok lib" "sink_ok write contents" "kw_drain lib write xs w = (r, w')"
  shows "kw_state w' = kw_state w \<and> (r = Inr () \<longrightarrow> list_all is_ok xs \<and>
    (holds_items lib contents origin items w \<longrightarrow>
      holds_items lib contents origin (items @ map ItEvent [e. Inr e \<leftarrow> xs]) w'))"
  using assms(3)
proof (induction xs arbitrary: items w)
  case (Cons x xs)
  show ?case
  proof (cases x)
    case (Inl e)
    with Cons.prems show ?thesis by auto
  next
    case (Inr e)
    obtain b w1 where b: "kw_write_block lib write e w = (b, w1)" by fastforce
    note W = kw_write_block_holds [OF assms(1,2) b, of origin items]
    show ?thesis
    proof (cases b)
      case (Inl e')
      with Cons.prems Inr b W show ?thesis by auto
    next
      case b': (Inr u)
      with Cons.prems Inr b have "kw_drain lib write xs w1 = (r, w')" by simp
      from Cons.IH [OF this, of "items @ [ItEvent e]"] W Inr b' show ?thesis by simp
    qed
  qed
qed simp

lemma run_op_holds:
  assumes "backup_lib_ok lib" "sink_ok write contents" "kw_state (run_op lib write op w) = WsReady"
  shows "kw_state w = WsReady \<and> op_clean op \<and> (holds_items lib contents origin items w \<longrightarrow>
    holds_items lib contents origin (items @ map ItEvent (op_events op)) (run_op lib write op w))"
proof (cases "kw_state w = WsReady")
  case False
  with assms(3) show ?thesis
    by (cases op) (simp_all add: kw_block_def kw_try_extend_def kw_extend_dropped_def poisoned_ready)
next
  case ready: True
  let ?w = "w\<lparr>kw_state := WsPoisoned\<rparr>"
  show ?thesis
  proof (cases op)
    case (OpBlock e)
    obtain r w1 where b: "kw_write_block lib write e ?w = (r, w1)" by fastforce
    from kw_write_block_holds [OF assms(1,2) b, of origin items] b ready assms(3) OpBlock show ?thesis
      by (cases r) (auto simp: kw_block_def ready_simp)
  next
    case (OpExtend xs)
    obtain r w1 where b: "kw_drain lib write xs ?w = (r, w1)" by fastforce
    from kw_drain_holds [OF assms(1,2) b, of origin items] b ready assms(3) OpExtend show ?thesis
      by (cases r) (auto simp: kw_try_extend_def ready_simp)
  next
    case (OpDropped es)
    obtain r w1 where b: "kw_drain lib write (map Inr es :: (persisted_envelope, unit) result list) ?w = (r, w1)" by fastforce
    from kw_drain_holds [OF assms(1,2) b] b ready assms(3) OpDropped show ?thesis
      by (auto simp: kw_extend_dropped_def ready_simp)
  qed
qed

lemma run_ops_holds:
  assumes "backup_lib_ok lib" "sink_ok write contents" "kw_state (fold (run_op lib write) ops w) = WsReady"
  shows "kw_state w = WsReady \<and> list_all op_clean ops \<and> (holds_items lib contents origin items w \<longrightarrow>
    holds_items lib contents origin (items @ map ItEvent (concat (map op_events ops))) (fold (run_op lib write) ops w))"
  using assms(3)
proof (induction ops arbitrary: w items)
  case (Cons op ops)
  from Cons.IH [of "run_op lib write op w" "items @ map ItEvent (op_events op)"] Cons.prems
    run_op_holds [OF assms(1,2), of op w origin items]
  show ?case by simp
qed simp

lemma run_section_holds:
  assumes "backup_lib_ok lib" "sink_ok write contents" "kw_state (run_section lib write s w) = WsReady"
  shows "kw_state w = WsReady \<and> list_all op_clean (snd s) \<and> (holds_items lib contents origin items w \<longrightarrow>
    holds_items lib contents origin (items @ ItHeading (fst s) # map ItEvent (section_events s)) (run_section lib write s w))"
proof -
  obtain r w1 where s: "kw_section lib write (fst s) w = (r, w1)" by fastforce
  note S = kw_section_holds [OF assms(1,2) s, of origin items]
  show ?thesis
  proof (cases r)
    case (Inl e)
    with assms(3) S s show ?thesis by (auto simp: run_section_def)
  next
    case (Inr u)
    then have run: "run_section lib write s w = fold (run_op lib write) (snd s) w1" using s by (simp add: run_section_def)
    from run_ops_holds [OF assms(1,2), of "snd s" w1 origin "items @ [ItHeading (fst s)]"] assms(3) S Inr
    show ?thesis by (simp add: run section_events_def)
  qed
qed

lemma run_program_holds:
  assumes "backup_lib_ok lib" "sink_ok write contents" "kw_state (run_program lib write prog w) = WsReady"
  shows "kw_state w = WsReady \<and> program_clean prog \<and> (holds_items lib contents origin items w \<longrightarrow>
    holds_items lib contents origin (items @ program_items prog) (run_program lib write prog w))"
  using assms(3)
proof (induction prog arbitrary: w items)
  case Nil
  then show ?case by (simp add: run_program_def program_clean_def program_items_def)
next
  case (Cons s prog)
  have run: "run_program lib write (s # prog) w = run_program lib write prog (run_section lib write s w)"
    by (simp add: run_program_def)
  from Cons.IH [of "run_section lib write s w" "items @ ItHeading (fst s) # map ItEvent (section_events s)"] Cons.prems
    run_section_holds [OF assms(1,2), of s w origin items]
  show ?case by (simp add: run program_clean_def program_items_def)
qed

section \<open>Finished chunks\<close>

lemma fold_add_events:
  "secs \<noteq> [] \<Longrightarrow> fold add_item (map ItEvent es) secs =
    butlast secs @ [last secs\<lparr>ss_blocks := ss_blocks (last secs) @ map (BlockEvent \<circ> rebuilt) es\<rparr>]"
proof (induction es arbitrary: secs)
  case Nil
  then show ?case by (cases secs rule: rev_cases) simp_all
next
  case (Cons e es)
  obtain before s where secs: "secs = before @ [s]" using Cons.prems by (cases secs rule: rev_cases) auto
  from Cons.IH [of "push_block (BlockEvent (rebuilt e)) secs"] show ?case by (simp add: secs push_block_def)
qed

lemma fold_program_items: "fold add_item (program_items prog) secs = secs @ program_sections prog"
proof (induction prog arbitrary: secs)
  case (Cons s prog)
  then show ?case by (simp add: program_items_def program_sections_def fold_add_events)
qed (simp add: program_items_def program_sections_def)

lemma headed_program_items: "headed (program_items prog)"
  by (cases prog) (simp_all add: program_items_def)

lemma item_part_length:
  assumes "it \<in> set items"
  shows "length (item_enc lib it) \<le> length (chunk_prefix lib origin items)"
proof -
  obtain xs ys where "items = xs @ it # ys" using assms by (meson split_list)
  then show ?thesis by (simp add: chunk_prefix_def)
qed

lemma u64_bound: "unat w < 2 ^ 64" for w :: u64
  using unsigned_less [of w, where 'a = nat] by simp

lemma kw_finish_bytes:
  assumes "backup_lib_ok lib" "sink_ok write contents" "holds_items lib contents origin items w"
    "kw_finish lib write w = Inr out"
  shows "contents out = chunk_bytes lib origin items \<and> event_items items < 2 ^ 64 \<and> heading_items items < 2 ^ 64 \<and>
    short (chunk_prefix lib origin items)"
proof -
  let ?pre = "chunk_prefix lib origin items"
  have H: "contents (ts_inner (kw_enc w)) = ?pre" "unat (ts_bytes (kw_enc w)) = length ?pre"
    "ts_crc (kw_enc w) = crc32c lib ?pre" "unat (kw_sections w) = heading_items items" "unat (kw_events w) = event_items items"
    "tracked lib contents (kw_enc w) ?pre"
    using assms(3) by (simp_all add: holds_items_def tracked_def)
  have W: "ts_bytes (kw_enc w) = of_nat (length ?pre)" "kw_sections w = of_nat (heading_items items)"
    "kw_events w = of_nat (event_items items)"
    by (simp_all flip: H(2,4,5))
  obtain ts where ts: "encode_calls lib write
      (mc_tag lib COMPLETION_TAG @ mc_array lib 4 @ mc_u64 lib (kw_sections w) @ mc_u64 lib (kw_events w) @
       mc_u64 lib (ts_bytes (kw_enc w)) @ mc_u32 lib (ts_crc (kw_enc w))) (kw_enc w) = (Inr (), ts)" "out = ts_inner ts"
    using assms(4) by (auto simp: kw_finish_def Let_def result_simps split: prod.splits sum.splits)
  have "contents out = chunk_bytes lib origin items"
    using encode_calls_tracked [OF assms(1,2) H(6) ts(1)]
    by (simp add: tracked_def ts(2) chunk_bytes_def chunk_completion_def completion_enc_def W H(3))
  moreover have "length ?pre < 2 ^ 64" "heading_items items < 2 ^ 64" "event_items items < 2 ^ 64"
    using u64_bound [of "ts_bytes (kw_enc w)"] u64_bound [of "kw_sections w"] u64_bound [of "kw_events w"] H(2,4,5)
    by simp_all
  ultimately show ?thesis by (simp add: short_def)
qed

lemma program_finished:
  assumes "backup_lib_ok lib" "sink_ok write contents" "contents sink = []" "kw_new lib write sink origin = Inr w"
    "kw_finish lib write (run_program lib write prog w) = Inr out"
    "\<forall>s \<in> set prog. \<forall>e \<in> set (section_events s). backup_fits e"
  shows "program_clean prog \<and> contents out = chunk_bytes lib origin (program_items prog) \<and>
    layout_ok lib origin (program_items prog)"
proof -
  let ?items = "program_items prog" and ?w = "run_program lib write prog w"
  have "kw_state ?w = WsReady" using assms(5) by (auto simp: kw_finish_def result_simps ready_iff)
  from run_program_holds [OF assms(1,2) this, of origin "[]"] kw_new_holds [OF assms(1-4)]
  have clean: "program_clean prog" and holds: "holds_items lib contents origin ?items ?w" by simp_all
  note F = kw_finish_bytes [OF assms(1,2) holds assms(5)]
  have len: "length (item_enc lib it) < 2 ^ 64" if "it \<in> set ?items" for it
    using item_part_length [OF that, of lib origin] F by (simp add: short_def)
  have "item_ok lib it" if it: "it \<in> set ?items" for it
  proof (cases it)
    case (ItHeading i)
    have "length i \<le> length (item_enc lib it)"
      using backup_lib_okD(14) [OF assms(1), of i] ItHeading by (simp add: enc_heading_def)
    with len [OF it] ItHeading show ?thesis by (simp add: short_def)
  next
    case (ItEvent e)
    have "length (body_bytes lib e) \<le> length (item_enc lib it)"
      using backup_lib_okD(14) [OF assms(1), of "body_bytes lib e"] ItEvent by (simp add: block_enc_append)
    moreover have "backup_fits e" using it ItEvent assms(6) by (auto simp: program_items_def)
    ultimately show ?thesis using len [OF it] ItEvent by (simp add: short_def)
  qed
  moreover have "short_opt origin"
  proof (cases origin)
    case (Some b)
    have "length b \<le> length (header_bytes lib origin)"
      using backup_lib_okD(14) [OF assms(1), of b] Some by (simp add: header_bytes_def enc_header_def)
    also have "\<dots> \<le> length (chunk_prefix lib origin ?items)" by (simp add: chunk_prefix_def)
    finally show ?thesis using F Some by (simp add: short_def short_opt_def)
  qed (simp add: short_opt_def)
  ultimately show ?thesis using clean F headed_program_items by (auto simp: layout_ok_def)
qed

section \<open>Progress\<close>

text \<open>On a sink that takes every write, a program without doomed operations whose chunk stays below
\<open>2 ^ 64\<close> bytes always finishes.\<close>

definition sink_reliable :: "('w, 'we) sink_write \<Rightarrow> bool" where
  "sink_reliable write \<longleftrightarrow> (\<forall>bs w. fst (write bs w) = Inr ())"

lemma encode_calls_progress:
  assumes "sink_reliable write" "unat (ts_bytes ts) + length (concat calls) < 2 ^ 64"
  shows "fst (encode_calls lib write calls ts) = Inr ()"
  using assms(2)
proof (induction calls arbitrary: ts)
  case (Cons bs calls)
  have len: "unat (ts_bytes ts) + length bs < 2 ^ 64" "length bs < 2 ^ 64" using Cons.prems by simp_all
  then have u: "unat (of_nat (length bs) :: u64) = length bs" by (simp add: unat_of_nat_small)
  then have c: "checked_add (ts_bytes ts) (of_nat (length bs)) = Some (ts_bytes ts + of_nat (length bs))"
    using len by (simp add: checked_add_def)
  obtain w where w: "write bs (ts_inner ts) = (Inr (), w)"
    using assms(1) by (cases "write bs (ts_inner ts)") (metis fst_conv sink_reliable_def)
  have "unat (ts_bytes ts + of_nat (length bs)) = unat (ts_bytes ts) + length bs" using c u by (metis checked_add_Some)
  with Cons.prems have "fst (encode_calls lib write calls
      \<lparr>ts_inner = w, ts_bytes = ts_bytes ts + of_nat (length bs), ts_crc = crc32c_append lib (ts_crc ts) bs\<rparr>) = Inr ()"
    by (intro Cons.IH) simp
  with len(2) c w show ?case by (simp add: tracked_write_all_def)
qed simp

lemma items_le_bytes:
  assumes "backup_lib_ok lib"
  shows "heading_items items + event_items items \<le> length (chunk_prefix lib origin items)"
proof -
  have "item_enc lib it \<noteq> []" for it
    using backup_lib_okD(8,10) [OF assms] by (cases it) (auto simp: block_enc_append enc_heading_def starts_def)
  then have one: "Suc 0 \<le> length (item_enc lib it)" for it by (simp add: Suc_le_eq)
  have "length items \<le> length (concat (map (item_enc lib) items))"
  proof (induction items)
    case (Cons it items)
    with one [of it] show ?case by simp
  qed simp
  moreover have "heading_items items + event_items items = length items"
    by (induction items) (simp_all add: heading_items_def event_items_def split: backup_item.split)
  ultimately show ?thesis by (simp add: chunk_prefix_def)
qed

definition fits_chunk :: "'de backup_lib \<Rightarrow> bytes option \<Rightarrow> backup_item list \<Rightarrow> bool" where
  "fits_chunk lib origin items \<longleftrightarrow> length (chunk_bytes lib origin items) < 2 ^ 64"

lemma chunk_prefix_append:
  "chunk_prefix lib origin (xs @ ys) = chunk_prefix lib origin xs @ concat (map (item_enc lib) ys)"
  by (simp add: chunk_prefix_def)

lemma counter_progress:
  assumes "backup_lib_ok lib" "holds_items lib contents origin items w"
    "length (chunk_prefix lib origin (items @ [it])) < 2 ^ 64"
  shows "unat (ts_bytes (kw_enc w)) + length (item_enc lib it) < 2 ^ 64"
    "\<exists>n. checked_add (kw_sections w) 1 = Some n" "\<exists>n. checked_add (kw_events w) 1 = Some n"
proof -
  show "unat (ts_bytes (kw_enc w)) + length (item_enc lib it) < 2 ^ 64"
    using assms(2,3) by (simp add: holds_items_def tracked_def chunk_prefix_append)
  have "Suc (heading_items items + event_items items) < 2 ^ 64"
  proof -
    have "Suc (heading_items items + event_items items) = heading_items (items @ [it]) + event_items (items @ [it])"
      by (cases it) simp_all
    also have "\<dots> < 2 ^ 64" using items_le_bytes [OF assms(1), of "items @ [it]" origin] assms(3) by simp
    finally show ?thesis .
  qed
  then show "\<exists>n. checked_add (kw_sections w) 1 = Some n" "\<exists>n. checked_add (kw_events w) 1 = Some n"
    using assms(2) by (auto simp: holds_items_def checked_add_def)
qed

lemma write_block_progress:
  assumes "backup_lib_ok lib" "sink_ok write contents" "sink_reliable write" "holds_items lib contents origin items w"
    "length (chunk_prefix lib origin (items @ [ItEvent e])) < 2 ^ 64"
  shows "fst (kw_write_block lib write e w) = Inr ()"
proof -
  note P = counter_progress [OF assms(1,4,5)]
  obtain n where n: "checked_add (kw_events w) 1 = Some n" using P(3) by blast
  have "fst (encode_calls lib write (enc_block lib (crc32c lib (body_bytes lib e)) (body_bytes lib e)) (kw_enc w)) = Inr ()"
    using P(1) by (intro encode_calls_progress [OF assms(3)]) (simp add: block_enc_def)
  with n show ?thesis by (auto simp: kw_write_block_def body_bytes_def Let_def split: prod.splits)
qed

lemma drain_progress:
  assumes "backup_lib_ok lib" "sink_ok write contents" "sink_reliable write" "holds_items lib contents origin items w"
    "list_all is_ok xs" "length (chunk_prefix lib origin (items @ map ItEvent [e. Inr e \<leftarrow> xs])) < 2 ^ 64"
  shows "fst (kw_drain lib write xs w) = Inr ()"
  using assms(4-)
proof (induction xs arbitrary: items w)
  case (Cons x xs)
  then obtain e where x: "x = Inr e" by (auto simp: is_ok_iff)
  have "fst (kw_write_block lib write e w) = Inr ()"
    using Cons.prems(3) x by (intro write_block_progress [OF assms(1-3) Cons.prems(1)]) (simp add: chunk_prefix_append)
  then obtain w1 where w1: "kw_write_block lib write e w = (Inr (), w1)" by (metis prod.collapse)
  have "holds_items lib contents origin (items @ [ItEvent e]) w1"
    using kw_write_block_holds [OF assms(1,2) w1] Cons.prems(1) by blast
  from Cons.IH [OF this] Cons.prems(2,3) x have "fst (kw_drain lib write xs w1) = Inr ()" by simp
  with x w1 show ?case by simp
qed simp

lemma run_op_progress:
  assumes "backup_lib_ok lib" "sink_ok write contents" "sink_reliable write" "holds_items lib contents origin items w"
    "kw_state w = WsReady" "op_clean op" "length (chunk_prefix lib origin (items @ map ItEvent (op_events op))) < 2 ^ 64"
  shows "kw_state (run_op lib write op w) = WsReady"
proof (cases op)
  case (OpBlock e)
  let ?w = "w\<lparr>kw_state := WsPoisoned\<rparr>"
  have "fst (kw_write_block lib write e ?w) = Inr ()"
    using assms(4,7) OpBlock by (intro write_block_progress [OF assms(1-3), of origin items]) simp_all
  with OpBlock assms(5) show ?thesis by (auto simp: kw_block_def ready_simp split: prod.splits)
next
  case (OpExtend xs)
  let ?w = "w\<lparr>kw_state := WsPoisoned\<rparr>"
  have "fst (kw_drain lib write xs ?w) = Inr ()"
    using assms(4,6,7) OpExtend by (intro drain_progress [OF assms(1-3), of origin items]) simp_all
  with OpExtend assms(5) show ?thesis by (auto simp: kw_try_extend_def ready_simp split: prod.splits)
qed (use assms(6) in simp)

lemma run_ops_progress:
  assumes "backup_lib_ok lib" "sink_ok write contents" "sink_reliable write" "holds_items lib contents origin items w"
    "kw_state w = WsReady" "list_all op_clean ops"
    "length (chunk_prefix lib origin (items @ map ItEvent (concat (map op_events ops)))) < 2 ^ 64"
  shows "kw_state (fold (run_op lib write) ops w) = WsReady"
  using assms(4-)
proof (induction ops arbitrary: items w)
  case (Cons op ops)
  have r: "kw_state (run_op lib write op w) = WsReady"
    using Cons.prems by (intro run_op_progress [OF assms(1-3) Cons.prems(1)]) (simp_all add: chunk_prefix_append)
  have "holds_items lib contents origin (items @ map ItEvent (op_events op)) (run_op lib write op w)"
    using run_op_holds [OF assms(1,2) r] Cons.prems(1) by blast
  from Cons.IH [OF this r] Cons.prems(3,4) show ?case by simp
qed simp

lemma run_section_progress:
  assumes "backup_lib_ok lib" "sink_ok write contents" "sink_reliable write" "holds_items lib contents origin items w"
    "kw_state w = WsReady" "list_all op_clean (snd s)"
    "length (chunk_prefix lib origin (items @ ItHeading (fst s) # map ItEvent (section_events s))) < 2 ^ 64"
  shows "kw_state (run_section lib write s w) = WsReady"
proof -
  have len: "length (chunk_prefix lib origin (items @ [ItHeading (fst s)])) < 2 ^ 64"
    using assms(7) by (simp add: chunk_prefix_append)
  note P = counter_progress [OF assms(1,4) len]
  obtain n where n: "checked_add (kw_sections w) 1 = Some n" using P(2) by blast
  have "fst (encode_calls lib write (enc_heading lib (fst s)) (kw_enc w)) = Inr ()"
    using P(1) by (intro encode_calls_progress [OF assms(3)]) simp
  then obtain ts where "encode_calls lib write (enc_heading lib (fst s)) (kw_enc w) = (Inr (), ts)"
    by (metis prod.collapse)
  then obtain w1 where w1: "kw_section lib write (fst s) w = (Inr (), w1)" "kw_state w1 = WsReady"
    using n assms(5) by (simp add: kw_section_def ready_simp)
  have "holds_items lib contents origin (items @ [ItHeading (fst s)]) w1"
    using kw_section_holds [OF assms(1,2) w1(1)] w1(2) assms(4) by blast
  from run_ops_progress [OF assms(1-3) this w1(2) assms(6)] assms(7) w1(1) show ?thesis
    by (simp add: run_section_def section_events_def)
qed

lemma run_program_progress:
  assumes "backup_lib_ok lib" "sink_ok write contents" "sink_reliable write" "holds_items lib contents origin items w"
    "kw_state w = WsReady" "program_clean prog" "length (chunk_prefix lib origin (items @ program_items prog)) < 2 ^ 64"
  shows "kw_state (run_program lib write prog w) = WsReady"
  using assms(4-)
proof (induction prog arbitrary: items w)
  case Nil
  then show ?case by (simp add: run_program_def)
next
  case (Cons s prog)
  have r: "kw_state (run_section lib write s w) = WsReady"
    using Cons.prems by (intro run_section_progress [OF assms(1-3) Cons.prems(1)])
      (simp_all add: chunk_prefix_append program_clean_def program_items_def)
  have "holds_items lib contents origin (items @ ItHeading (fst s) # map ItEvent (section_events s)) (run_section lib write s w)"
    using run_section_holds [OF assms(1,2) r] Cons.prems(1) by blast
  from Cons.IH [OF this r] Cons.prems(3,4) show ?case by (simp add: run_program_def program_clean_def program_items_def)
qed

lemma program_finishes:
  assumes "backup_lib_ok lib" "sink_ok write contents" "sink_reliable write" "contents sink = []"
    "program_clean prog" "fits_chunk lib origin (program_items prog)"
  shows "\<exists>w out. kw_new lib write sink origin = Inr w \<and> kw_finish lib write (run_program lib write prog w) = Inr out"
proof -
  let ?items = "program_items prog" and ?ts = "\<lparr>ts_inner = sink, ts_bytes = 0, ts_crc = 0\<rparr>"
  let ?h = "\<lparr>hr_magic = MAGIC, hr_format_version = BACKUP_FORMAT_VERSION, hr_origin = origin\<rparr>"
  have len: "length (chunk_prefix lib origin ?items) + length (chunk_completion lib origin ?items) < 2 ^ 64"
    using assms(6) by (simp add: fits_chunk_def chunk_bytes_def)
  then have "fst (encode_calls lib write (enc_header lib ?h) ?ts) = Inr ()"
    by (intro encode_calls_progress [OF assms(3)]) (simp add: chunk_prefix_def header_bytes_def)
  then obtain w where w: "kw_new lib write sink origin = Inr w"
    by (cases "encode_calls lib write (enc_header lib ?h) ?ts") (simp add: kw_new_def)
  let ?w = "run_program lib write prog w"
  have new: "holds_items lib contents origin [] w" "kw_state w = WsReady"
    using kw_new_holds [OF assms(1,2,4) w] by simp_all
  have r: "kw_state ?w = WsReady"
    using len assms(5) by (intro run_program_progress [OF assms(1-3) new]) simp_all
  have "holds_items lib contents origin ([] @ ?items) ?w" using run_program_holds [OF assms(1,2) r] new(1) by blast
  then have H: "unat (ts_bytes (kw_enc ?w)) = length (chunk_prefix lib origin ?items)"
    "ts_crc (kw_enc ?w) = crc32c lib (chunk_prefix lib origin ?items)"
    "unat (kw_sections ?w) = heading_items ?items" "unat (kw_events ?w) = event_items ?items"
    by (simp_all add: holds_items_def tracked_def)
  have "fst (encode_calls lib write
      (mc_tag lib COMPLETION_TAG @ mc_array lib 4 @ mc_u64 lib (kw_sections ?w) @ mc_u64 lib (kw_events ?w) @
       mc_u64 lib (ts_bytes (kw_enc ?w)) @ mc_u32 lib (ts_crc (kw_enc ?w))) (kw_enc ?w)) = Inr ()"
    using len H(2) by (intro encode_calls_progress [OF assms(3)])
      (simp add: chunk_completion_def completion_enc_def flip: H(1,3,4))
  then obtain ts where "encode_calls lib write
      (mc_tag lib COMPLETION_TAG @ mc_array lib 4 @ mc_u64 lib (kw_sections ?w) @ mc_u64 lib (kw_events ?w) @
       mc_u64 lib (ts_bytes (kw_enc ?w)) @ mc_u32 lib (ts_crc (kw_enc ?w))) (kw_enc ?w) = (Inr (), ts)"
    by (metis prod.collapse)
  then have "kw_finish lib write ?w = Inr (ts_inner ts)"
    using r by (simp add: kw_finish_def Let_def ready_simp)
  with w show ?thesis by blast
qed

end
