(* ===== verification/Backup_Restore.thy ===== *)
theory Backup_Restore
  imports InMemory_Export Backup_Writer
begin

text \<open>
  Backup and restore end to end: a consistent export of an in-memory store is written into a chunk,
  the chunk is decoded and imported into an empty store. The theory holds the properties of the
  container and of that composition, and a length-prefixed codec that shows that the assumptions on
  the libraries can be met.
\<close>

section \<open>A codec that meets the assumptions\<close>

definition tlv_head :: "u8 \<Rightarrow> u64 \<Rightarrow> bytes" where
  "tlv_head kind n = kind # u64_be n"

definition tlv_read :: "u8 \<Rightarrow> bytes \<Rightarrow> (u64 \<times> bytes, bool) result" where
  "tlv_read kind d =
    (if d = [] then Inl True
     else if hd d \<noteq> kind then Inl False
     else if length d < 9 then Inl True
     else Inr (be_word (take 8 (tl d)), drop 9 d))"

definition tlv_read_bytes :: "u8 \<Rightarrow> bytes \<Rightarrow> (bytes \<times> bytes, bool) result" where
  "tlv_read_bytes kind d =
    and_then (tlv_read kind d) (\<lambda>(n, d).
      if length d < unat n then Inl True else Inr (take (unat n) d, drop (unat n) d))"

definition tlv_u32 :: "bytes \<Rightarrow> (u32 \<times> bytes, bool) result" where
  "tlv_u32 d = map_ok (\<lambda>(n, d). (ucast n, d)) (tlv_read 0 d)"

definition tlv_field :: "(bytes \<Rightarrow> ('x \<times> bytes, bool) result) \<Rightarrow> bytes \<Rightarrow> ('x \<times> bytes, bool) result" where
  "tlv_field rd d = and_then (tlv_u32 d) (\<lambda>(_, d). rd d)"

definition tlv_skip :: "bytes \<Rightarrow> (bytes, bool) result" where
  "tlv_skip d =
    (if d = [] then Inl True
     else if hd d = 5 then map_ok snd (tlv_read_bytes 5 d)
     else map_ok snd (tlv_read (hd d) d))"

definition tlv_datatype :: "bytes \<Rightarrow> (cbor_type, bool) result" where
  "tlv_datatype d =
    (case d of
       [] \<Rightarrow> Inl True
     | kind # _ \<Rightarrow> Inr (if kind = 2 then TyTag else if kind = 3 then TyArray else if kind = 4 then TyMap else TyOther))"

definition tlv_header :: "bytes \<Rightarrow> (header_repr \<times> bytes, bool) result" where
  "tlv_header d =
    and_then (tlv_read 4 d) (\<lambda>(n, d).
    and_then (tlv_field (tlv_read_bytes 5) d) (\<lambda>(magic, d).
    and_then (tlv_field tlv_u32 d) (\<lambda>(version, d).
    and_then (if n = 2 then Inr (None, d) else map_ok (\<lambda>(b, d). (Some b, d)) (tlv_field (tlv_read_bytes 5) d)) (\<lambda>(origin, d).
      Inr (\<lparr>hr_magic = magic, hr_format_version = version, hr_origin = origin\<rparr>, d)))))"

definition tlv_heading :: "bytes \<Rightarrow> (bytes \<times> bytes, bool) result" where
  "tlv_heading d = and_then (tlv_read 4 d) (\<lambda>(_, d). tlv_field (tlv_read_bytes 5) d)"

definition tlv_body :: "bytes \<Rightarrow> (body_repr \<times> bytes, bool) result" where
  "tlv_body d =
    and_then (tlv_read 4 d) (\<lambda>(n, d).
    and_then (tlv_field (tlv_read 1) d) (\<lambda>(version, d).
    and_then (tlv_field tlv_u32 d) (\<lambda>(schema, d).
    and_then (tlv_field (tlv_read_bytes 5) d) (\<lambda>(et, d).
    and_then (if n = 4 then Inr (None, d) else map_ok (\<lambda>(b, d). (Some b, d)) (tlv_field (tlv_read_bytes 5) d)) (\<lambda>(metadata, d).
    and_then (tlv_field (tlv_read_bytes 5) d) (\<lambda>(payload, d).
      Inr (\<lparr>br_version = version, br_schema = schema, br_event_type = et, br_metadata = metadata,
            br_payload = payload\<rparr>, d)))))))"

definition tlv_lib :: "bool backup_lib" where
  "tlv_lib =
    \<lparr>mc_u32 = (\<lambda>x. [tlv_head 0 (ucast x)]), mc_u64 = (\<lambda>x. [tlv_head 1 x]), mc_tag = (\<lambda>x. [tlv_head 2 x]),
     mc_array = (\<lambda>n. [tlv_head 3 n]), mc_map = (\<lambda>n. [tlv_head 4 n]),
     mc_bytes = (\<lambda>b. [tlv_head 5 (of_nat (length b)), b]), mc_str = (\<lambda>b. [tlv_head 5 (of_nat (length b)), b]),
     md_datatype = tlv_datatype, md_u32 = tlv_u32, md_u64 = tlv_read 1, md_tag = tlv_read 2,
     md_array = (\<lambda>d. map_ok (\<lambda>(n, d). (Some n, d)) (tlv_read 3 d)),
     md_map = (\<lambda>d. map_ok (\<lambda>(n, d). (Some n, d)) (tlv_read 4 d)),
     md_bytes = tlv_read_bytes 5, md_skip = tlv_skip, md_header = tlv_header, md_heading = tlv_heading,
     md_body = tlv_body, md_message = (\<lambda>_. False), md_is_end_of_input = (\<lambda>e. e),
     crc32c = (\<lambda>bs. fold (\<lambda>b c. 31 * c + ucast b) bs 0), crc32c_append = (\<lambda>c bs. fold (\<lambda>b c. 31 * c + ucast b) bs c)\<rparr>"

lemma tlv_sel [simp]:
  "mc_u32 tlv_lib x = [tlv_head 0 (ucast x)]" "mc_u64 tlv_lib y = [tlv_head 1 y]" "mc_tag tlv_lib y = [tlv_head 2 y]"
  "mc_array tlv_lib y = [tlv_head 3 y]" "mc_map tlv_lib y = [tlv_head 4 y]"
  "mc_bytes tlv_lib b = [tlv_head 5 (of_nat (length b)), b]" "mc_str tlv_lib b = [tlv_head 5 (of_nat (length b)), b]"
  "md_datatype tlv_lib = tlv_datatype" "md_u32 tlv_lib = tlv_u32" "md_u64 tlv_lib = tlv_read 1"
  "md_tag tlv_lib = tlv_read 2" "md_array tlv_lib = (\<lambda>d. map_ok (\<lambda>(n, d). (Some n, d)) (tlv_read 3 d))"
  "md_map tlv_lib = (\<lambda>d. map_ok (\<lambda>(n, d). (Some n, d)) (tlv_read 4 d))" "md_bytes tlv_lib = tlv_read_bytes 5"
  "md_skip tlv_lib = tlv_skip" "md_header tlv_lib = tlv_header" "md_heading tlv_lib = tlv_heading"
  "md_body tlv_lib = tlv_body" "md_is_end_of_input tlv_lib = (\<lambda>e. e)"
  "crc32c tlv_lib = (\<lambda>bs. fold (\<lambda>b c. 31 * c + ucast b) bs 0)"
  "crc32c_append tlv_lib = (\<lambda>c bs. fold (\<lambda>b c. 31 * c + ucast b) bs c)"
  by (simp_all add: tlv_lib_def)

lemma length_tlv_head [simp]: "length (tlv_head k n) = 9"
  by (simp add: tlv_head_def codec_simps)

lemma tlv_read_full [simp]: "tlv_read k (tlv_head k n @ rest) = Inr (n, rest)"
  by (simp add: tlv_read_def tlv_head_def codec_simps)

lemma ucast_u32_u64 [simp]: "ucast (ucast x :: u64) = x" for x :: u32
  by (rule bit_word_eqI) (simp add: bit_simps)

lemma tlv_u32_full [simp]: "tlv_u32 (tlv_head 0 (ucast x) @ rest) = Inr (x, rest)"
  by (simp add: tlv_u32_def)

lemma tlv_bytes_full [simp]:
  "short b \<Longrightarrow> tlv_read_bytes k (tlv_head k (of_nat (length b)) @ b @ rest) = Inr (b, rest)"
  by (simp add: tlv_read_bytes_def short_def unat_of_nat_small)

lemma strict_prefix_head:
  "strict_prefix q (x # xs) \<Longrightarrow> q \<noteq> [] \<Longrightarrow> hd q = x" "strict_prefix q xs \<Longrightarrow> length q < length xs"
  by (auto simp: strict_prefix_def prefix_def) (metis hd_append2 list.sel(1))+

lemma tlv_read_cut: "strict_prefix q (tlv_head k n) \<Longrightarrow> tlv_read k q = Inl True"
  using strict_prefix_head(2) [of q "tlv_head k n"] strict_prefix_head(1) [of q k "u64_be n"]
  by (auto simp: tlv_read_def tlv_head_def codec_simps)

lemma tlv_bytes_cut:
  assumes "short b" "strict_prefix q (tlv_head k (of_nat (length b)) @ b)"
  shows "tlv_read_bytes k q = Inl True"
  using assms(2)
proof (cases rule: strict_prefix_append_cases)
  case 1
  then show ?thesis by (simp add: tlv_read_bytes_def tlv_read_cut)
next
  case (2 q')
  with assms(1) strict_prefix_head(2) [OF 2(2)] show ?thesis
    by (simp add: tlv_read_bytes_def short_def unat_of_nat_small)
qed

lemma tlv_cut_off [simp]: "cut_off tlv_lib (Inl True)"
  unfolding cut_off_def by (intro exI [of _ True]) simp

lemma tlv_skippable:
  "k \<noteq> 5 \<Longrightarrow> skippable tlv_lib (tlv_head k n)"
  "short b \<Longrightarrow> skippable tlv_lib (tlv_head 5 (of_nat (length b)) @ b)"
proof -
  show "skippable tlv_lib (tlv_head k n)" if "k \<noteq> 5"
  proof -
    have "tlv_skip (tlv_head k n @ rest) = Inr rest" for rest
      using tlv_read_full [of k n rest] that by (simp add: tlv_skip_def tlv_head_def)
    moreover have "tlv_skip q = Inl True" if q: "strict_prefix q (tlv_head k n)" for q
      using tlv_read_cut [OF q] strict_prefix_head(1) [of q k "u64_be n"] q \<open>k \<noteq> 5\<close>
      by (auto simp: tlv_skip_def tlv_head_def)
    ultimately show ?thesis by (simp add: skippable_def)
  qed
  show "skippable tlv_lib (tlv_head 5 (of_nat (length b)) @ b)" if "short b"
  proof -
    have "tlv_skip (tlv_head 5 (of_nat (length b)) @ b @ rest) = Inr rest" for rest
      using tlv_bytes_full [OF that, of 5 rest] by (simp add: tlv_skip_def tlv_head_def)
    moreover have "tlv_skip q = Inl True" if q: "strict_prefix q (tlv_head 5 (of_nat (length b)) @ b)" for q
      using tlv_bytes_cut [OF \<open>short b\<close> q] strict_prefix_head(1) [of q 5 "u64_be (of_nat (length b)) @ b"] q
      by (auto simp: tlv_skip_def tlv_head_def)
    ultimately show ?thesis by (simp add: skippable_def)
  qed
qed

lemma tlv_framed:
  "framed tlv_lib (tlv_read k) n (tlv_head k n)"
  "framed tlv_lib tlv_u32 x (tlv_head 0 (ucast x))"
  "framed tlv_lib (\<lambda>d. map_ok (\<lambda>(n, d). (Some n, d)) (tlv_read k d)) (Some n) (tlv_head k n)"
  "short b \<Longrightarrow> framed tlv_lib (tlv_read_bytes k) b (tlv_head k (of_nat (length b)) @ b)"
  by (simp_all add: framed_def tlv_read_cut tlv_u32_def tlv_bytes_cut)

lemma tlv_starts:
  "starts tlv_lib (tlv_head 2 n) TyTag" "starts tlv_lib (tlv_head 3 n) TyArray" "starts tlv_lib (tlv_head 4 n) TyMap"
  by (simp_all add: starts_def tlv_head_def tlv_datatype_def)

lemma tlv_field_full [simp]: "tlv_field rd (tlv_head 0 0 @ rest) = rd rest"
  "tlv_field rd (tlv_head 0 n @ rest) = rd rest"
  by (simp_all add: tlv_field_def tlv_u32_def)

lemma tlv_derived: "derived_ok tlv_lib"
proof -
  have "tlv_header (concat (enc_header tlv_lib h) @ rest) = Inr (h, rest)"
    if "short (hr_magic h)" "short_opt (hr_origin h)" for h rest
    using that by (cases h; cases "hr_origin h") (simp_all add: enc_header_def tlv_header_def short_opt_def)
  moreover have "tlv_heading (concat (enc_heading tlv_lib i) @ rest) = Inr (i, rest)" if "short i" for i rest
    using that by (simp add: enc_heading_def tlv_heading_def)
  moreover have "tlv_body (concat (enc_body tlv_lib b) @ rest) = Inr (b, rest)"
    if "short (br_event_type b)" "short_opt (br_metadata b)" "short (br_payload b)" for b rest
    using that by (cases b; cases "br_metadata b") (simp_all add: enc_body_def tlv_body_def short_opt_def)
  ultimately show ?thesis by (simp add: derived_ok_def)
qed

lemma tlv_consumes:
  "consumes (tlv_read k)" "consumes tlv_u32" "consumes (tlv_read_bytes k)" "consumes tlv_heading"
  "consumes (\<lambda>d. map_ok (\<lambda>(n, d). (Some n, d)) (tlv_read k d))"
proof -
  have r: "length rest < length d" if "tlv_read k d = Inr (x, rest)" for k d x rest
    using that by (auto simp: tlv_read_def split: if_splits)
  have b: "length rest < length d" if "tlv_read_bytes k d = Inr (x, rest)" for k d x rest
    using that by (auto simp: tlv_read_bytes_def result_simps dest!: r split: if_splits)
  have u: "length rest < length d" if "tlv_u32 d = Inr (x, rest)" for d x rest
    using that by (auto simp: tlv_u32_def result_simps dest!: r)
  have "length rest < length d" if h: "tlv_heading d = Inr (x, rest)" for d x rest
  proof -
    from h obtain n d1 y d2 where "tlv_read 4 d = Inr (n, d1)" "tlv_u32 d1 = Inr (y, d2)" "tlv_read_bytes 5 d2 = Inr (x, rest)"
      by (auto simp: tlv_heading_def tlv_field_def result_simps)
    then show ?thesis using r u b by (meson order.strict_trans)
  qed
  with r b u show "consumes (tlv_read k)" "consumes tlv_u32" "consumes (tlv_read_bytes k)" "consumes tlv_heading"
    "consumes (\<lambda>d. map_ok (\<lambda>(n, d). (Some n, d)) (tlv_read k d))"
    by (auto simp: consumes_def result_simps)
qed

lemma tlv_lib_ok: "backup_lib_ok tlv_lib"
proof -
  have "primitives_ok tlv_lib"
    unfolding primitives_ok_def
    by (simp add: tlv_framed tlv_starts tlv_skippable del: of_nat_numeral)
  moreover have "checksum_ok tlv_lib" by (simp add: checksum_ok_def)
  ultimately show ?thesis by (simp add: backup_lib_ok_def tlv_derived tlv_consumes)
qed

section \<open>A sink that keeps what it is given\<close>

definition vec_write :: "(bytes, unit) sink_write" where
  "vec_write bs w = (Inr (), w @ bs)"

lemma vec_sink: "sink_ok vec_write (\<lambda>w. w)" "sink_reliable vec_write"
  by (simp_all add: sink_ok_def sink_reliable_def vec_write_def)

section \<open>Importing complete histories\<close>

lemma stage_writes_complete:
  assumes "\<forall>w \<in> set ws. \<forall>p \<in> set (batch_iter (pa_batch w)). fits p"
    "vnum seq + length (planned_entries ws) \<le> vmax"
  shows "\<exists>x. stage_writes ws seq l acc = Returns (Inr x)"
  using assms
proof (induction ws arbitrary: seq l acc)
  case (Cons w ws)
  have f: "\<forall>p \<in> set (batch_iter (pa_batch w)). fits p" using Cons.prems(1) by simp
  have len: "vnum seq + length (batch_iter (pa_batch w)) + length (planned_entries ws) \<le> vmax"
    using Cons.prems(2) by (simp add: planned_entries_def)
  obtain rows l' seq' where s: "stage_rows (batch_iter (pa_batch w)) seq l [] = Returns (Inr (rows, l', seq'))"
    using stage_rows_complete [OF f, of seq l "[]"] len by auto
  have "vnum seq' = vnum seq + length (batch_iter (pa_batch w))"
    using stage_rows_Inr [OF _ s] f by (auto simp: fits_def)
  with s len Cons.prems(1) Cons.IH [of seq' l' "acc @ [(pa_target w, rows)]"] show ?case by simp
qed simp

lemma im_atomic_complete:
  assumes "im_inv st" "distinct (map pa_target ws)"
    "\<forall>w \<in> set ws. pa_expected w = head_version (length (im_hist st (pa_target w))) \<and>
      run_from (length (im_hist st (pa_target w))) (batch_iter (pa_batch w)) \<and>
      (\<forall>p \<in> set (batch_iter (pa_batch w)). fits p)"
    "length (im_log st) + length (planned_entries ws) < vmax"
  shows "\<exists>pos st'. im_atomic_append_many ws st = (Returns (Inr pos), st')"
proof (cases "ws = []")
  case False
  let ?s = "im_inner st"
  have s: "inner_inv ?s" using assms(1) by (simp add: im_inv_def)
  have len: "length (im_hist st k) = length (im_rows ?s k)" "length (im_rows ?s k) < vmax" for k
    using inner_inv_length [OF s, of k] by (simp_all add: im_hist_def)
  have "validate_distinct_targets (map pa_target ws) = Inr ()" using assms(2) by (simp add: validate_distinct_targets_Inr)
  moreover have "validate_atomic_runs ws = Inr ()"
  proof -
    have "(case head_version n of None \<Rightarrow> 0 | Some v \<Rightarrow> vnum v) = n" if "n < vmax" for n
      using that by (simp add: head_version_def)
    with assms(3) len show ?thesis unfolding validate_atomic_runs_Inr by simp
  qed
  moreover have "check_heads ?s 0 ws = Inr ()"
  proof -
    have "length (im_rows ?s k) < 2 ^ 64" for k using len(2) [of k] by (simp add: vmax_def)
    with assms(3) len(1) show ?thesis by (simp add: check_heads_Inr)
  qed
  moreover have "vnum (im_next_seq ?s) = Suc (length (im_log st))" using s by (simp add: inner_inv_def im_log_def)
  then obtain staged l seq where "stage_writes ws (im_next_seq ?s) (im_next_seq ?s) [] = Returns (Inr (staged, l, seq))"
    using stage_writes_complete [of ws "im_next_seq ?s" "im_next_seq ?s" "[]"] assms(3,4) by (auto simp: Suc_le_eq)
  ultimately show ?thesis using False by (simp add: im_atomic_append_many_def im_atomic_append_locked_def Let_def)
qed (simp add: im_atomic_append_many_def im_atomic_append_locked_def)

lemma plan_blocks_full:
  assumes "run_from (vnum v) h"
  shows "plan_blocks (map (BlockEvent \<circ> persisted_of) h) acc v =
    Inr (acc @ h, if h = [] then v else pe_version (last h), HaltComplete)"
  using assms
proof (induction h arbitrary: acc v)
  case (Cons p h)
  have "version_next v = Some (pe_version p)" using Cons.prems by (simp add: version_next_Some)
  with Cons.IH [of "pe_version p" "acc @ [p]"] Cons.prems show ?case by simp
qed simp

definition history_section :: "stream_key \<Rightarrow> pending_envelope list \<Rightarrow> stream_section" where
  "history_section k h = \<lparr>ss_origin = key_bytes k, ss_blocks = map (BlockEvent \<circ> persisted_of) h\<rparr>"

definition history_write :: "stream_key \<Rightarrow> pending_envelope list \<Rightarrow> planned_append" where
  "history_write k h = \<lparr>pa_target = k, pa_expected = None, pa_head = hd h, pa_tail = tl h\<rparr>"

lemma plan_section_full:
  assumes "run_from 0 h" "h \<noteq> []"
  shows "\<exists>first last_v. plan_section (history_section k h) = Inr (PlanRun first None (hd h) (tl h) last_v HaltComplete)"
proof -
  obtain p t where h: "h = p # t" using assms(2) by (cases h) auto
  then have p: "vnum (pe_version p) = 1" "run_from (vnum (pe_version p)) t" using assms(1) by simp_all
  have "version_new (as_u64 (pe_version p) - 1) = None"
    using version_new_pred [of "pe_version p"] p(1) by (simp add: head_version_def)
  with plan_blocks_full [OF p(2), of "[]"] h show ?thesis by (simp add: plan_section_def history_section_def Let_def)
qed

lemma plan_chunk_full:
  assumes "\<forall>k \<in> set ks. run_from 0 (hist k) \<and> hist k \<noteq> []"
  shows "\<exists>fs' ls'. plan_chunk (map (\<lambda>k. (history_section k (hist k), k)) ks) ws fs ls =
    (Inr (ws @ map (\<lambda>k. history_write k (hist k)) ks, fs', ls') :: (_, 'err import_error) result)"
  using assms
proof (induction ks arbitrary: ws fs ls)
  case (Cons k ks)
  obtain first last_v where
    "plan_section (history_section k (hist k)) = Inr (PlanRun first None (hd (hist k)) (tl (hist k)) last_v HaltComplete)"
    using plan_section_full [of "hist k" k] Cons.prems by auto
  with Cons.IH [of "ws @ [history_write k (hist k)]"] Cons.prems show ?case by (simp add: history_write_def)
qed simp

lemma sum_filters:
  assumes "distinct ks"
  shows "sum_list (map (\<lambda>k. length (filter (\<lambda>x. f x = k) xs)) ks) \<le> length xs"
  using assms
proof (induction ks arbitrary: xs)
  case (Cons k ks)
  let ?ys = "filter (\<lambda>x. f x \<noteq> k) xs"
  have "filter (\<lambda>x. f x = j) ?ys = filter (\<lambda>x. f x = j) xs" if "j \<in> set ks" for j
    using that Cons.prems by (auto intro: filter_cong)
  then have "map (\<lambda>j. length (filter (\<lambda>x. f x = j) xs)) ks = map (\<lambda>j. length (filter (\<lambda>x. f x = j) ?ys)) ks"
    by (intro map_cong refl) simp
  then have "sum_list (map (\<lambda>j. length (filter (\<lambda>x. f x = j) xs)) ks) =
      sum_list (map (\<lambda>j. length (filter (\<lambda>x. f x = j) ?ys)) ks)" by (rule arg_cong)
  also have "\<dots> \<le> length ?ys" using Cons.IH [of ?ys] Cons.prems by simp
  finally show ?case using sum_length_filter_compl [of "\<lambda>x. f x = k" xs] by simp
qed simp

lemma import_histories:
  assumes "im_inv st" "distinct ks" "\<forall>k \<in> set ks. im_hist st k \<noteq> []" "\<forall>k. k \<notin> set ks \<longrightarrow> im_hist st k = []"
  shows "\<exists>reports st'. import_whole_chunk im_atomic_append_many (map (\<lambda>k. history_section k (im_hist st k)) ks) StreamKey im_new =
      (Returns (Inr reports), st') \<and> (\<forall>k. im_hist st' k = im_hist st k)"
proof -
  let ?secs = "map (\<lambda>k. history_section k (im_hist st k)) ks"
  let ?ws = "map (\<lambda>k. history_write k (im_hist st k)) ks"
  have run: "run_from 0 (im_hist st k)" for k
    using assms(1) inner_inv_run [of "im_inner st" k] by (simp add: im_inv_def im_hist_def)
  have fit: "fits p" if "p \<in> set (im_hist st k)" for p k using im_hist_fits [OF assms(1) that] .
  have batch: "batch_iter (pa_batch (history_write k (im_hist st k))) = im_hist st k" if "k \<in> set ks" for k
    using assms(3) that by (simp add: history_write_def pa_batch_def batch_from_parts_def batch_iter_def)
  have targets: "map (\<lambda>s. StreamKey (ss_origin s)) ?secs = ks" by (simp add: history_section_def comp_def)
  then have route: "route_sections ?secs StreamKey = Inr ks" using assms(2) by (simp add: route_sections_Inr)
  obtain fs ls where plan: "plan_chunk (zip ?secs ks) [] [] [] = (Inr (?ws, fs, ls) :: (_, inmemory_error import_error) result)"
    using plan_chunk_full [of ks "im_hist st" "[]" "[]" "[]"] run assms(3) by (auto simp: zip_map1 zip_same_conv_map comp_def)
  have "length (planned_entries ?ws) = sum_list (map (\<lambda>k. length (im_hist st k)) ks)"
    using batch by (simp add: planned_entries_def length_concat comp_def cong: map_cong)
  also have "\<dots> \<le> length (im_log st)"
    using sum_filters [OF assms(2), of "\<lambda>x. fst (snd x)" "im_log st"] by (simp add: im_hist_log [OF assms(1)])
  also have "\<dots> < vmax"
  proof -
    have "vnum (im_next_seq (im_inner st)) = Suc (length (im_log st))"
      using assms(1) by (simp add: im_inv_def inner_inv_def im_log_def)
    then show ?thesis by (metis Suc_le_lessD vnum_le_vmax)
  qed
  finally have room: "length (im_log im_new) + length (planned_entries ?ws) < vmax" by simp
  have "\<exists>pos st'. im_atomic_append_many ?ws im_new = (Returns (Inr pos), st')"
  proof (rule im_atomic_complete [OF im_new_inv(1) _ _ room])
    show "distinct (map pa_target ?ws)" using assms(2) by (simp add: history_write_def comp_def)
    show "\<forall>w \<in> set ?ws. pa_expected w = head_version (length (im_hist im_new (pa_target w))) \<and>
        run_from (length (im_hist im_new (pa_target w))) (batch_iter (pa_batch w)) \<and>
        (\<forall>p \<in> set (batch_iter (pa_batch w)). fits p)"
      using run fit batch by (auto simp: history_write_def head_version_def)
  qed
  then obtain pos st' where at: "im_atomic_append_many ?ws im_new = (Returns (Inr pos), st')" by blast
  then obtain reports where imp: "import_whole_chunk im_atomic_append_many ?secs StreamKey im_new = (Returns (Inr reports), st')"
    using route plan by (simp add: import_whole_chunk_def)
  have ok: "sections_ok ?secs"
    using fit persisted_of_ok by (auto simp: sections_ok_def history_section_def fits_def)
  note S = ima.import_whole_chunk_success [OF im_new_inv(1) ok imp]
  have "im_hist st' k = im_hist st k" for k
  proof (cases "k \<in> set ks")
    case True
    then have "history_section k (im_hist st k) \<in> set ?secs" by simp
    from S(2) [OF this] obtain evs where "map (BlockEvent \<circ> persisted_of) (im_hist st k) = map BlockEvent evs"
      "im_hist st' k = map from_persisted evs"
      by (auto simp: history_section_def)
    moreover from this(1) have "evs = map persisted_of (im_hist st k)"
      by (metis (no_types, lifting) import_block.inject injI inj_map_eq_map map_map)
    ultimately show ?thesis by (simp add: comp_def)
  next
    case False
    then have "k \<notin> (\<lambda>sec. StreamKey (ss_origin sec)) ` set ?secs" by (auto simp: history_section_def)
    with S(3) assms(4) False show ?thesis by simp
  qed
  with imp show ?thesis by blast
qed

section \<open>A small program\<close>

lemma body_of_persisted_of:
  "body_of (persisted_of p) =
    \<lparr>br_version = as_u64 (pe_version p), br_schema = get (pe_schema p), br_event_type = et_bytes (pe_event_type p),
     br_metadata = map_option metadata_bytes (pe_metadata p), br_payload = payload_bytes (pe_payload p)\<rparr>"
proof -
  have "from_persisted (persisted_of p) = p" by simp
  then have "pe_version p = ps_version (persisted_of p)" "pe_schema p = ps_schema (persisted_of p)"
    "pe_event_type p = ps_event_type_value (persisted_of p)" "pe_payload p = ps_payload_value (persisted_of p)"
    "pe_metadata p = ps_metadata_value (persisted_of p)"
    unfolding from_persisted_def by (metis pending_envelope.select_convs)+
  then show ?thesis
    by (simp add: body_of_def ps_event_type_value_def ps_payload_value_def ps_metadata_value_def option.map_comp comp_def
        option.map_ident)
qed

definition sample_program :: "unit backup_program" where
  "sample_program =
    [([0x6B], [OpBlock (persisted_of (sample_event 1)), OpExtend [Inr (persisted_of (sample_event 2))]])]"

lemma tlv_lengths:
  "length (block_enc tlv_lib (persisted_of (sample_event n))) < 1000"
  "length (concat (enc_heading tlv_lib i)) = 27 + length i" "length (header_bytes tlv_lib None) < 1000"
  "length (completion_enc tlv_lib s e l c) = 54"
  by (simp_all add: block_enc_append body_bytes_def enc_body_def enc_heading_def body_of_persisted_of sample_event_def
      header_bytes_def enc_header_def MAGIC_def completion_enc_def)

lemma sample_events_fit:
  "backup_fits (persisted_of (sample_event n))"
  using sample_fits(1) [of n] by (simp add: backup_fits_def fits_def)

lemma sample_finishes:
  assumes "program_items prog = [ItHeading [0x6B], ItEvent (persisted_of (sample_event 1)), ItEvent (persisted_of (sample_event 2))]"
    "program_clean prog"
  shows "\<exists>w out. kw_new tlv_lib vec_write [] None = Inr w \<and> kw_finish tlv_lib vec_write (run_program tlv_lib vec_write prog w) = Inr out"
proof -
  have "fits_chunk tlv_lib None (program_items prog)"
    using tlv_lengths(1) [of 1] tlv_lengths(1) [of 2] tlv_lengths(3)
    by (simp add: fits_chunk_def chunk_bytes_def chunk_prefix_def chunk_completion_def assms(1) tlv_lengths(2,4)
        del: One_nat_def)
  from program_finishes [OF tlv_lib_ok vec_sink _ assms(2) this] show ?thesis by simp
qed

section \<open>A store's export as a program\<close>

text \<open>One section per listed stream, fed by an export cursor of the session that is polled at the given
stores and instants.\<close>

definition export_program ::
  "im_export_session \<Rightarrow> (stream_key \<Rightarrow> (im_store \<times> instant) list) \<Rightarrow> export_rows export_cursor \<Rightarrow> stream_key list
    \<Rightarrow> inmemory_error export_error backup_program" where
  "export_program ses polls c ks = map (\<lambda>k. (key_bytes k, [OpExtend (export_polls k ses (polls k) c)])) ks"

lemma inr_events [simp]: "concat (map (case_sum (\<lambda>_. []) (\<lambda>e. [e]) \<circ> (Inr \<circ> f)) h) = map f h"
  by (induction h) simp_all

lemma export_program_events:
  assumes "im_reachable st" "im_open_export_session now lifetime st = Inr ses"
    "im_export_stream now' version_INITIAL ses = Inr c"
    "\<forall>k \<in> set ks. length (im_hist st k) \<le> length (polls k) \<and>
      (\<forall>x \<in> set (polls k). im_step\<^sup>*\<^sup>* st (fst x) \<and> snd x < xs_deadline ses)"
  shows "\<forall>k \<in> set ks. export_polls k ses (polls k) c = map (Inr \<circ> persisted_of) (im_hist st k)"
    "program_sections (export_program ses polls c ks) = map (\<lambda>k. history_section k (im_hist st k)) ks"
    "\<forall>s \<in> set (export_program ses polls c ks). \<forall>e \<in> set (section_events s). backup_fits e"
proof -
  show polls: "\<forall>k \<in> set ks. export_polls k ses (polls k) c = map (Inr \<circ> persisted_of) (im_hist st k)"
    using im_export_view [OF assms(1-3)] assms(4) by (simp add: vmax_def)
  show "program_sections (export_program ses polls c ks) = map (\<lambda>k. history_section k (im_hist st k)) ks"
    using polls by (simp add: program_sections_def export_program_def section_events_def history_section_def)
  have "fits p" if "p \<in> set (im_hist st k)" for p k using im_hist_fits [OF im_reachable_inv [OF assms(1)] that] .
  then show "\<forall>s \<in> set (export_program ses polls c ks). \<forall>e \<in> set (section_events s). backup_fits e"
    using polls by (auto simp: export_program_def section_events_def backup_fits_def fits_def)
qed

section \<open>Properties\<close>

text \<open>C12: A finished backup decodes to exactly what was written. Over a sink that starts empty and appends what
  it accepts, and for events whose canonical frame fits its 32-bit length, whatever the caller did with the
  writer, sink failures and ignored errors included, if \<open>finish\<close> succeeds then no source error and no
  dropped drain happened, and decoding the sink's bytes gives every section with every event that the
  caller wrote, in order, each with its own version, schema, type, metadata and payload.\<close>

theorem backup_roundtrip:
  assumes "backup_lib_ok lib" "sink_ok write contents" "contents sink = []" "kw_new lib write sink origin = Inr w"
    "kw_finish lib write (run_program lib write prog w) = Inr out"
    "\<forall>s \<in> set prog. \<forall>e \<in> set (section_events s). backup_fits e"
  shows "program_clean prog \<and> decode_chunk lib (contents out) = Some (Returns (Inr (program_sections prog)))"
  using program_finished [OF assms] decode_chunk_full [OF assms(1), of origin "program_items prog"]
  by (simp add: fold_program_items)

theorem backup_roundtrip_witness:
  "\<exists>w out. kw_new tlv_lib vec_write [] None = Inr w \<and>
    kw_finish tlv_lib vec_write (run_program tlv_lib vec_write sample_program w) = Inr out \<and>
    decode_chunk tlv_lib out = Some (Returns (Inr [sample_section]))"
proof -
  obtain w out where w: "kw_new tlv_lib vec_write [] None = Inr w"
    "kw_finish tlv_lib vec_write (run_program tlv_lib vec_write sample_program w) = Inr out"
    using sample_finishes [of sample_program]
    by (auto simp: program_items_def sample_program_def section_events_def program_clean_def is_ok_iff)
  have "\<forall>s \<in> set sample_program. \<forall>e \<in> set (section_events s). backup_fits e"
    by (simp add: sample_program_def section_events_def sample_events_fit)
  moreover have "program_sections sample_program = [sample_section]"
    by (simp add: program_sections_def sample_program_def section_events_def sample_section_def)
  ultimately show ?thesis using backup_roundtrip [OF tlv_lib_ok vec_sink(1) _ w] w by simp
qed

text \<open>C29: A truncated backup is always refused: no proper prefix of a finished chunk decodes, wherever it
  is cut.\<close>

theorem backup_truncation_refused:
  assumes "backup_lib_ok lib" "sink_ok write contents" "contents sink = []" "kw_new lib write sink origin = Inr w"
    "kw_finish lib write (run_program lib write prog w) = Inr out"
    "\<forall>s \<in> set prog. \<forall>e \<in> set (section_events s). backup_fits e" "n < length (contents out)"
  shows "\<exists>e. decode_chunk lib (take n (contents out)) = Some (Returns (Inl e))"
proof -
  note F = program_finished [OF assms(1-6)]
  have "strict_prefix (take n (contents out)) (contents out)"
    using assms(7) take_is_prefix [of n "contents out"] by (auto simp: strict_prefix_def)
  with F decode_chunk_cut [OF assms(1), of origin "program_items prog" "take n (contents out)"] show ?thesis by simp
qed

theorem backup_truncation_refused_witness:
  "\<exists>w out e. kw_new tlv_lib vec_write [] None = Inr w \<and>
    kw_finish tlv_lib vec_write (run_program tlv_lib vec_write ([] :: unit backup_program) w) = Inr out \<and>
    decode_chunk tlv_lib (take 5 out) = Some (Returns (Inl e))"
proof -
  have "fits_chunk tlv_lib None (program_items ([] :: unit backup_program))"
    using tlv_lengths(3)
    by (simp add: fits_chunk_def chunk_bytes_def chunk_prefix_def chunk_completion_def program_items_def tlv_lengths(4))
  from program_finishes [OF tlv_lib_ok vec_sink _ _ this] obtain w out where w: "kw_new tlv_lib vec_write [] None = Inr w"
    "kw_finish tlv_lib vec_write (run_program tlv_lib vec_write ([] :: unit backup_program) w) = Inr out"
    by (auto simp: program_clean_def)
  have "out = chunk_bytes tlv_lib None (program_items ([] :: unit backup_program))"
    using program_finished [OF tlv_lib_ok vec_sink(1) _ w] by simp
  then have "5 < length out" by (simp add: chunk_bytes_def chunk_completion_def tlv_lengths(4))
  with backup_truncation_refused [OF tlv_lib_ok vec_sink(1) _ w, of 5] w show ?thesis by auto
qed

text \<open>Decoding any bytes ends: it returns sections or an error, and never panics.\<close>

theorem backup_decode_total:
  assumes "backup_lib_ok lib"
  shows "\<exists>r. decode_chunk lib bs = Some (Returns r)"
  using assms by (rule decode_chunk_total)

theorem backup_decode_total_witness: "\<exists>r. decode_chunk tlv_lib [4, 0, 7] = Some (Returns r)"
  by (rule backup_decode_total [OF tlv_lib_ok])

text \<open>C6: Backup and restore reproduce the store. Take a consistent export session of an in-memory store,
  write one section per listed stream from the session's cursors while other writers keep committing,
  finish the chunk, decode it, and import it whole into an empty store: the import succeeds and every
  stream has exactly the events the source had when the session was opened.\<close>

theorem backup_restores_store:
  assumes "backup_lib_ok lib" "sink_ok write contents" "contents sink = []" "kw_new lib write sink origin = Inr w"
    "im_reachable st" "im_open_export_session now lifetime st = Inr ses"
    "im_export_stream now' version_INITIAL ses = Inr c" "distinct ks" "set ks = dom (xs_heads ses)"
    "\<forall>k \<in> set ks. length (im_hist st k) \<le> length (polls k) \<and>
      (\<forall>x \<in> set (polls k). im_step\<^sup>*\<^sup>* st (fst x) \<and> snd x < xs_deadline ses)"
    "kw_finish lib write (run_program lib write (export_program ses polls c ks) w) = Inr out"
  shows "\<exists>sections reports st'. decode_chunk lib (contents out) = Some (Returns (Inr sections)) \<and>
    import_whole_chunk im_atomic_append_many sections StreamKey im_new = (Returns (Inr reports), st') \<and>
    (\<forall>k. im_hist st' k = im_hist st k)"
proof -
  note E = export_program_events [OF assms(5-7,10)]
  have dec: "decode_chunk lib (contents out) = Some (Returns (Inr (map (\<lambda>k. history_section k (im_hist st k)) ks)))"
    using program_finished [OF assms(1-4,11) E(3)] decode_chunk_full [OF assms(1), of origin] E(2)
    by (simp add: fold_program_items)
  have inv: "im_inv st" using assms(5) by (rule im_reachable_inv)
  have "\<forall>k. k \<in> set ks \<longleftrightarrow> im_hist st k \<noteq> []"
    using im_export_view [OF assms(5-7), of "[]"] assms(9) by simp
  with import_histories [OF inv assms(8)] dec show ?thesis by blast
qed

theorem backup_restores_store_witness:
  "\<exists>st ses c out sections reports st'. im_hist st sample_key = [sample_event 1, sample_event 2] \<and>
    im_open_export_session 5 10 st = Inr ses \<and> im_export_stream 6 version_INITIAL ses = Inr c \<and>
    decode_chunk tlv_lib out = Some (Returns (Inr sections)) \<and>
    import_whole_chunk im_atomic_append_many sections StreamKey im_new = (Returns (Inr reports), st') \<and>
    (\<forall>k. im_hist st' k = im_hist st k)"
proof -
  obtain pos st where st: "im_append sample_key None sample_batch im_new = (Returns (Inr pos), st)" "im_reachable st"
    and hist: "im_hist st sample_key = batch_iter sample_batch" by (rule sample_store)
  have others: "im_hist st k = []" if "k \<noteq> sample_key" for k
    using im.hist_append(2) [OF im_new_inv(1) sample_batch_ok(1) st(1) that] by simp
  let ?ses = "\<lparr>xs_heads = export_heads (im_inner st), xs_deadline = 15\<rparr>"
  let ?c = "\<lparr>xc_inner = Some (Some version_INITIAL, []), xc_deadline = 15\<rparr>"
  let ?polls = "\<lambda>k :: stream_key. [(st, 7 :: nat), (st, 8)]"
  let ?prog = "export_program ?ses ?polls ?c [sample_key]"
  have ses: "im_open_export_session 5 10 st = Inr ?ses"
    by (simp add: im_open_export_session_def instant_checked_add_def instant_MAX_def result_simps)
  have c: "im_export_stream 6 version_INITIAL ?ses = Inr ?c"
    by (simp add: im_export_stream_def xs_check_live_def result_simps)
  have "im_hist st k \<noteq> [] \<longleftrightarrow> k = sample_key" for k using others [of k] hist by (auto simp: batch_iter_def)
  then have "{k. im_hist st k \<noteq> []} = {sample_key}" by simp
  moreover have "dom (xs_heads ?ses) = {k. im_hist st k \<noteq> []}" using im_export_view [OF st(2) ses c, of "[]"] by simp
  ultimately have dom: "set [sample_key] = dom (xs_heads ?ses)" by simp
  have polls: "\<forall>k \<in> set [sample_key]. length (im_hist st k) \<le> length (?polls k) \<and>
      (\<forall>x \<in> set (?polls k). im_step\<^sup>*\<^sup>* st (fst x) \<and> snd x < xs_deadline ?ses)"
    by (simp add: hist batch_iter_def sample_batch_def)
  have E: "export_polls sample_key ?ses (?polls sample_key) ?c =
      [Inr (persisted_of (sample_event 1)), Inr (persisted_of (sample_event 2))]"
    using export_program_events(1) [OF st(2) ses c polls] hist
    by (simp add: batch_iter_def sample_batch_def del: export_polls.simps)
  have key: "key_bytes sample_key = [0x6B]" by (simp add: sample_key_def)
  have "program_items ?prog = [ItHeading [0x6B], ItEvent (persisted_of (sample_event 1)), ItEvent (persisted_of (sample_event 2))]"
    "program_clean ?prog"
    by (simp_all add: export_program_def program_items_def section_events_def program_clean_def E key is_ok_iff
        del: export_polls.simps)
  from sample_finishes [OF this] obtain w out where w: "kw_new tlv_lib vec_write [] None = Inr w"
    "kw_finish tlv_lib vec_write (run_program tlv_lib vec_write ?prog w) = Inr out" by blast
  from backup_restores_store [OF tlv_lib_ok vec_sink(1) _ w(1) st(2) ses c _ dom polls w(2)]
  obtain sections reports st' where "decode_chunk tlv_lib out = Some (Returns (Inr sections))"
    "import_whole_chunk im_atomic_append_many sections StreamKey im_new = (Returns (Inr reports), st')"
    "\<forall>k. im_hist st' k = im_hist st k" by auto
  moreover have "im_hist st sample_key = [sample_event 1, sample_event 2]"
    by (simp add: hist batch_iter_def sample_batch_def)
  ultimately show ?thesis using ses c by blast
qed

end
