(* ===== verification/Spec2Isabelle.thy ===== *)
theory Spec2Isabelle
  imports Kernel_Fixture Projections Sagas Live_Subscription Fjall_Export Backup_Restore
begin

text \<open>
This development verifies mnesis, an event-sourcing library written in Rust: an aggregate decides
events, a repository appends them to a stream of an event store, and readers replay streams,
subscribe to them, and fold them into projections and sagas. Paths are relative to \<open>src/\<close>.

\<^bold>\<open>The parts and how they interact.\<close> The kernel (\<open>crates/mnesis\<close>) knows versions, events and
aggregate roots and has no storage. The store crate (\<open>crates/store\<close>) turns events into framed
bytes (\<open>wire.rs\<close>, \<open>envelope.rs\<close>), states the contract of a raw store (\<open>store.rs\<close>), and builds on
it repositories, snapshots, sagas, projections, subscriptions and imports. The adapters implement
the raw store: \<open>adapters/inmemory\<close> with ordered maps behind a lock, \<open>adapters/fjall\<close> with
transactions of the fjall key-value engine. The wake crate (\<open>crates/wake\<close>) tells a sleeping
subscription that its stream grew.

\<^bold>\<open>Conventions.\<close> A Rust integer of width w is a \<open>w word\<close>, with \<open>checked_add\<close> where the code checks;
\<open>NonZero\<close> is the type \<open>'a nonzero\<close>; a byte slice is a list of 8-bit words; a \<open>Result\<close> is a sum with the
error on the left; a call that can panic has type \<open>'a call\<close>. A method on \<open>&mut self\<close> takes the state
record and returns it updated. What runs under a lock or inside one transaction is one step; what
the in-memory adapter does after it drops the lock, the wakes, is a step of its own; a loop with suspension points is one step per suspension point. Code that is not part of
the repository (codecs, user aggregates, upcasters, metadata providers, the fjall engine) is a
parameter, and what the code relies on is a named hypothesis, satisfied by a concrete instance in
the witnesses.

\<^bold>\<open>The kernel.\<close>
\<^item> \<open>Kernel_Version\<close>, \<open>Kernel_Events\<close>: \<open>version.rs\<close>, \<open>events.rs\<close>; versions start at 1 and step by 1.
\<^item> \<open>Kernel_Aggregate\<close>: \<open>aggregate.rs\<close>; replay and commit of a root. A commit reaches the root a replay of the
  same events reaches within the rehydration limit, and a root poisoned by a failed fold stays inert.
\<^item> \<open>Kernel_Fixture\<close>: \<open>testing.rs\<close>; a passing fixture means the handler decided as expected.
\<^item> \<open>Error_Label\<close>, \<open>Text_Encoding\<close>: \<open>error_id.rs\<close>; bounded diagnostic labels are valid UTF-8.

\<^bold>\<open>The store contract and the byte formats.\<close>
\<^item> \<open>Store_Values\<close>, \<open>Wire_Frame\<close>, \<open>Envelopes\<close>: \<open>value.rs\<close>, \<open>stream_id.rs\<close>, \<open>wire.rs\<close>, \<open>envelope.rs\<close>; a frame
  decodes to what was encoded, decoded ranges lie inside the value, short frames are refused.
\<^item> \<open>Append_Contract\<close>, \<open>Import_Plan\<close>: \<open>store.rs\<close>, \<open>import.rs\<close>; the version check every adapter makes, and
  the planning of an import.
\<^item> \<open>Wake_Registry\<close>: \<open>crates/wake/src/lib.rs\<close>; a wake after arming is never lost.

\<^bold>\<open>The in-memory adapter.\<close> \<open>Ordered_Map\<close>, \<open>InMemory_Store\<close>, \<open>InMemory_Reads\<close>, \<open>InMemory_Atomic\<close> model
\<open>adapters/inmemory/src\<close>: append, atomic append, paged reads of a stream and of \<open>$all\<close>. Histories and
the global log have no gap; reads are exact, and a paged read during commits delivers an event with
every poll and ends only at the end of the stream as one of its refills saw it. The part of a write
under the lock is \<open>im_append_locked\<close> or \<open>im_atomic_append_locked\<close>, which name the wakes it leaves due.

\<^bold>\<open>The fjall adapter.\<close> \<open>Fjall_Keys\<close> has the key and value layouts, whose byte order is the order of
versions and positions. \<open>Fjall_Engine\<close> has the engine as a record of operations with the predicate
\<open>engine_ok\<close>: a transaction reads its own writes, a commit applies all or none of them or fails with an
open outcome, a range scan is sorted and may break off with an error. \<open>Fjall_Append\<close>, \<open>Fjall_Scan\<close>
and \<open>Fjall_State\<close> have the write path, the read path, and snapshots and checkpoints; \<open>Fjall_Store\<close>
has opening, the manifest and the life cycle \<open>fj_step\<close>. The keyspaces are always the layout
(\<open>disk_image\<close>) of a log that only grows, appends refine appending to that log, and reads are exact.
The engine of the witnesses is \<open>list_engine\<close>.
\<open>Fjall_Blocking\<close> and \<open>Fjall_Worker\<close> have the I/O worker of \<open>blocking.rs\<close>: scans fetched in bounded
batches, and the loop that takes jobs and cleanups from two bounded queues. The channels and the biased
choice between two receives are the parameter \<open>channel_lib\<close> with the assumptions \<open>channel_lib_ok\<close>, met by
\<open>list_channels\<close>. Batching is invisible, every admitted job runs once and in order, cleanups cannot
starve jobs, and a worker without handles drains its queues and ends. \<open>Fjall_Async\<close> has the operations
of \<open>async_store.rs\<close> with the fate of their job as an argument, and shows that an operation whose
job ran is the synchronous one and that any other changes nothing. \<open>Fjall_Export\<close> has the export sessions of \<open>export.rs\<close>: the registry of views and the
cursors that resume a view batch by batch; a session exports the log as it was when it was opened.
The snapshot the engine gives of a database is the parameter \<open>read_tx\<close>, which keeps its contents.

\<^bold>\<open>On top of a store.\<close>
\<^item> \<open>Checkpoints\<close>: \<open>checkpoint.rs\<close>, \<open>state.rs\<close>; the revision-checked write admits one winner and never
  regresses. The locale \<open>checkpoint_store\<close> is interpreted on the in-memory store, and its predicate
  is proved of the fjall store.
\<^item> \<open>Repositories\<close>, \<open>Snapshotting\<close>, \<open>Sagas\<close>: \<open>repository.rs\<close>, \<open>snapshot.rs\<close>, \<open>execute.rs\<close>, \<open>saga.rs\<close>; a
  load after a save is the saved root, with or without snapshots, and a saga's intents are pinned to
  the versions of the events that produced them.
\<^item> \<open>Decoded_Streams\<close>, \<open>Projections\<close>: \<open>step.rs\<close>, \<open>decoded.rs\<close>, \<open>projection.rs\<close>; a projection folds each
  event once, over crashes and redelivery.
\<^item> \<open>Live_Cursor\<close>, \<open>Live_Subscription\<close>: \<open>catchup.rs\<close>, \<open>subscription_cursor.rs\<close>, \<open>subscription.rs\<close>; a
  subscription delivers every event once and in order and within a bounded number of steps. Commits and
  the wakes they leave due are separate steps, as the adapter drops its lock before it wakes: a cursor
  asleep on an undelivered event has a wake on its way that resolves its wait.

\<^bold>\<open>Backup and restore.\<close> \<open>InMemory_Export\<close> models the export session of \<open>adapters/inmemory/src/export.rs\<close>: a
session is one fixed view, whatever commits happen between its polls. \<open>Backup_Format\<close> models
\<open>crates/store/src/cbor.rs\<close>; \<open>Backup_Roundtrip\<close> and \<open>Backup_Writer\<close> show that a finished chunk decodes
to what was written, that no truncated chunk decodes, and that decoding always ends.
\<open>Backup_Restore\<close> composes them with the import: exporting, writing, decoding and importing
reproduces every stream. The CBOR primitives and the checksum are the parameter \<open>backup_lib\<close> with the
assumptions \<open>backup_lib_ok\<close>, met by the codec \<open>tlv_lib\<close> of the witnesses.

\<^bold>\<open>Bounds and fuel.\<close> The code's own loops recurse structurally or on a measure. The drains \<open>read_drain\<close>
and \<open>global_drain\<close>, which poll an in-memory cursor the way a consumer does, take the number of polls
as fuel: one more than the rows left is enough, and the theorems say that it yields all of them.
The loop of
\<open>salvage_chunk\<close> is a partial function, and it is proved to return on every input. Lengths are compared with \<open>usize_max\<close>, the 64-bit maximum.

\<^bold>\<open>Not modelled.\<close>
\<^item> \<open>adapters/postgres\<close>: SQL sent to a server; the behaviour is the server's.
\<^item> \<open>crates/macros\<close>: procedural macros, which produce Rust tokens.
\<^item> \<open>crates/command\<close>: a command processor over Tokio tasks and channels; its durable records go through
  the repositories modelled here. \<open>mutants-gate\<close>: a tool that reads reports of mutation testing.
\<^item> Of the worker of \<open>adapters/fjall\<close>: thread start and the timer runtime. A tick of the timer is
  modelled, the clock is an argument.
\<^item> The test crates, fuzz targets and examples: they call the code verified here.
\<^item> Tracing, \<open>Debug\<close> output and the memory layout of buffers (alignment of allocations).
\<close>

declare upt_Suc [simp del]

section \<open>The in-memory store\<close>

text \<open>C1: Whatever sequence of appends and atomic appends a store has been through, successful or
  not, its global log carries the positions 1, 2, 3, ... without gap or repetition, every stream's
  history carries the versions 1, 2, 3, ... without gap or repetition, and a stream's history is
  exactly its entries of the global log in log order.\<close>

theorem im_reachable_gapless:
  assumes "im_reachable st"
  shows "map (\<lambda>x. vnum (fst x)) (im_log st) = [1 ..< Suc (length (im_log st))] \<and>
    map (\<lambda>p. vnum (pe_version p)) (im_hist st k) = [1 ..< Suc (length (im_hist st k))] \<and>
    im_hist st k = map (snd \<circ> snd) (filter (\<lambda>x. fst (snd x) = k) (im_log st))"
proof -
  have inv: "im_inv st" using assms by (rule im_reachable_inv)
  have "map (\<lambda>x. vnum (fst x)) (im_log st) = map (\<lambda>x. vnum (fst x)) (im_index (im_inner st))"
    by (simp add: im_log_def case_prod_beta comp_def)
  moreover have "length (im_log st) = length (im_index (im_inner st))" by (simp add: im_log_def)
  ultimately show ?thesis
    using inv im.hist_run [OF inv, of k] im.hist_log [OF inv, of k]
    by (simp add: im_inv_def inner_inv_def run_from_def)
qed

theorem im_reachable_gapless_witness:
  "\<exists>st. im_reachable st \<and> length (im_log st) = 2 \<and>
    map (\<lambda>x. vnum (fst x)) (im_log st) = [1, 2] \<and>
    map (\<lambda>p. vnum (pe_version p)) (im_hist st sample_key) = [1, 2]"
proof -
  obtain pos st where a: "im_append sample_key None sample_batch im_new = (Returns (Inr pos), st)"
    by (rule sample_append)
  have "im_reachable im_new"
    unfolding im_new_def by (rule reachable_new [of DEFAULT_BATCH]) (simp add: batch_size_new_def DEFAULT_BATCH_def MAX_BATCH_def)
  then have r: "im_reachable st" using step_append [OF _ a] by (auto intro: reachable_step)
  have h: "im_hist st sample_key = batch_iter sample_batch"
    using im.hist_append(1) [OF _ _ a] by simp
  obtain ps where "length ps = 2" "im_log st = zip ps (map (Pair sample_key) (batch_iter sample_batch))"
    using im_append_commit [OF _ _ a] by auto
  then have l: "length (im_log st) = 2" by simp
  have "[1 ..< Suc 2] = [1, 2 :: nat]" by (simp add: upt_rec numeral_2_eq_2)
  moreover have "map (\<lambda>x. vnum (fst x)) (im_log st) = [1 ..< Suc (length (im_log st))]"
    "map (\<lambda>p. vnum (pe_version p)) (im_hist st sample_key) = [1 ..< Suc (length (im_hist st sample_key))]"
    using im_reachable_gapless [OF r, of sample_key] by blast+
  ultimately show ?thesis using r h l by (intro exI [of _ st]) simp
qed

text \<open>C20: An append commits exactly when the caller's expected version is the stream's current
  head, the batch continues the stream version by version, every event's frame fits in 32 bits, and
  the position counter has room.  Then the batch is the new end of that stream's history and of the
  global log, the returned position is the last one assigned, and no other stream changes.\<close>

theorem im_append_commits_iff:
  assumes "im_inv st" "batch_ok b"
  shows "((\<exists>pos st'. im_append k e b st = (Returns (Inr pos), st')) \<longleftrightarrow>
      e = head_version (length (im_hist st k)) \<and> run_from (length (im_hist st k)) (batch_iter b) \<and>
      (\<forall>p \<in> set (batch_iter b). pending_len p < 2 ^ 32) \<and> length (im_log st) + length (batch_iter b) < vmax) \<and>
    (\<forall>pos st'. im_append k e b st = (Returns (Inr pos), st') \<longrightarrow>
      im_inv st' \<and> im_hist st' k = im_hist st k @ batch_iter b \<and> (\<forall>j. j \<noteq> k \<longrightarrow> im_hist st' j = im_hist st j) \<and>
      (\<exists>ps. length ps = length (batch_iter b) \<and> last ps = pos \<and>
        im_log st' = im_log st @ zip ps (map (Pair k) (batch_iter b))))"
proof (intro conjI allI impI)
  have "(\<forall>p \<in> set (batch_iter b). fits p) \<longleftrightarrow> (\<forall>p \<in> set (batch_iter b). pending_len p < 2 ^ 32)"
    using assms(2) by (auto simp: fits_def batch_ok_def)
  then show "(\<exists>pos st'. im_append k e b st = (Returns (Inr pos), st')) \<longleftrightarrow>
      e = head_version (length (im_hist st k)) \<and> run_from (length (im_hist st k)) (batch_iter b) \<and>
      (\<forall>p \<in> set (batch_iter b). pending_len p < 2 ^ 32) \<and> length (im_log st) + length (batch_iter b) < vmax"
    using im_append_commit [OF assms] im_append_commits_fits [OF assms] im_append_complete [OF assms(1)] by blast
qed (use im_append_commit [OF assms] im.hist_append [OF assms] in blast)+

theorem im_append_commits_iff_witness:
  "im_inv im_new \<and> batch_ok sample_batch \<and>
    (\<exists>pos st. im_append sample_key None sample_batch im_new = (Returns (Inr pos), st) \<and>
      im_inv st \<and> im_hist st sample_key = batch_iter sample_batch)"
proof -
  have "\<exists>pos st. im_append sample_key None sample_batch im_new = (Returns (Inr pos), st)"
    using im_append_commits_iff [of im_new sample_batch sample_key None] sample_batch_ok(3)
    by (simp add: head_version_def vmax_def fits_def)
  then show ?thesis
    using im_append_commits_iff [of im_new sample_batch sample_key None] by fastforce
qed

text \<open>An append that does not commit leaves the whole store as it was, counters, rows, index
  and wake registry included, and an append of valid events never panics.\<close>

theorem im_append_rejected_unchanged:
  assumes "batch_ok b" "im_append k e b st = (r, st')"
  shows "r \<noteq> Panics \<and> ((\<exists>err. r = Returns (Inl err)) \<longrightarrow> st' = st)"
  using im_append_reject [OF assms(1)] im_append_total [OF assms(1), of k e st] assms(2) by auto

theorem im_append_rejected_unchanged_witness:
  "batch_ok sample_batch \<and>
    (\<exists>l a. im_append sample_key (Some version_INITIAL) sample_batch im_new =
      (Returns (Inl (AppendConflict l (Some version_INITIAL) a)), im_new))"
proof -
  have "fst (im_append sample_key (Some version_INITIAL) sample_batch im_new) =
      Returns (Inl (AppendConflict (to_label sample_key) (Some version_INITIAL) None))"
    using im_append_conflict [of im_new "Some version_INITIAL" sample_key sample_batch]
    by (simp add: head_version_def)
  moreover obtain r st' where a: "im_append sample_key (Some version_INITIAL) sample_batch im_new = (r, st')"
    by fastforce
  ultimately show ?thesis
    using im_append_rejected_unchanged [OF sample_batch_ok(1) a] by auto
qed

text \<open>Draining a stream read from version \<open>from\<close> yields exactly the stream's events with
  version at least \<open>from\<close>, in order, each decoded from its stored frame to the event appended.\<close>

theorem im_read_stream_exact:
  assumes "im_reachable st"
  shows "im_read_stream st k from = map (Inr \<circ> persisted_of) (drop (vnum from - 1) (im_hist st k)) \<and>
    map (from_persisted \<circ> persisted_of) (im_hist st k) = im_hist st k"
proof -
  have inv: "im_inv st" using assms by (rule im_reachable_inv)
  have "filter (\<lambda>p. from \<le> pe_version p) (im_hist st k) = drop (vnum from - 1) (im_hist st k)"
    using filter_run [OF im.hist_run [OF inv, of k], of "vnum from"] by (simp add: version_le_vnum)
  then show ?thesis using im.read_stream_spec [OF inv] by (simp add: comp_def)
qed

theorem im_read_stream_exact_witness:
  "\<exists>st. im_reachable st \<and> im_read_stream st sample_key (version_of 2) = [Inr (persisted_of (sample_event 2))]"
proof -
  obtain pos st where "im_reachable st" "im_hist st sample_key = batch_iter sample_batch" by (rule sample_store)
  then show ?thesis
    using im_read_stream_exact [of st sample_key "version_of 2"]
    by (intro exI [of _ st]) (simp add: sample_batch_def batch_iter_def vmax_def)
qed

text \<open>Draining a read of all streams after position \<open>after\<close> yields exactly the log entries
  past that position, in position order.\<close>

theorem im_read_all_exact:
  assumes "im_reachable st"
  shows "im_read_all st after =
    map (\<lambda>(pos, k, p). Inr (pos, k, persisted_of p))
      (drop (case after of None \<Rightarrow> 0 | Some a \<Rightarrow> vnum a) (im_log st))"
proof -
  have inv: "im_inv st" using assms by (rule im_reachable_inv)
  have drop: "filter (\<lambda>x. n < vnum (fst x)) xs = drop (n - m) xs"
    if "map (\<lambda>x. vnum (fst x)) xs = [Suc m ..< Suc m + length xs]" for m n
    and xs :: "(all_pos \<times> stream_key \<times> pending_envelope) list"
    using that
  proof (induction xs arbitrary: m)
    case (Cons x xs)
    then have x: "vnum (fst x) = Suc m" "map (\<lambda>x. vnum (fst x)) xs = [Suc (Suc m) ..< Suc (Suc m) + length xs]"
      by (simp_all add: upt_rec [of "Suc m"])
    show ?case
    proof (cases "n \<le> m")
      case True
      have "filter (\<lambda>x. n < vnum (fst x)) xs = drop (n - Suc m) xs" by (rule Cons.IH [OF x(2)])
      with True x(1) show ?thesis by simp
    next
      case False
      then have "n - m = Suc (n - Suc m)" by simp
      with False x(1) Cons.IH [OF x(2)] show ?thesis by simp
    qed
  qed simp
  have "map (\<lambda>x. vnum (fst x)) (im_log st) = map (\<lambda>x. vnum (fst x)) (im_index (im_inner st))"
    by (simp add: im_log_def case_prod_beta comp_def)
  moreover have "length (im_log st) = length (im_index (im_inner st))" by (simp add: im_log_def)
  ultimately have "map (\<lambda>x. vnum (fst x)) (im_log st) = [Suc 0 ..< Suc 0 + length (im_log st)]"
    using inv by (simp add: im_inv_def inner_inv_def)
  from drop [OF this] show ?thesis
    using im.read_all_spec [OF inv, of after] by (cases after) (simp_all add: version_less_vnum)
qed

theorem im_read_all_exact_witness:
  "\<exists>st p q. im_reachable st \<and> im_read_all st (Some (version_of 1)) = [Inr (q, sample_key, persisted_of (sample_event 2))] \<and>
    im_read_all st None = [Inr (p, sample_key, persisted_of (sample_event 1)), Inr (q, sample_key, persisted_of (sample_event 2))]"
proof -
  obtain pos st where st: "im_reachable st"
    "\<exists>ps. length ps = 2 \<and> im_log st = zip ps (map (Pair sample_key) (batch_iter sample_batch))"
    by (rule sample_store)
  then obtain p q where "im_log st = [(p, sample_key, sample_event 1), (q, sample_key, sample_event 2)]"
    by (auto simp: sample_batch_def batch_iter_def length_Suc_conv numeral_2_eq_2)
  then show ?thesis
    using st(1) im_read_all_exact [of st "Some (version_of 1)"] im_read_all_exact [of st None]
    by (intro exI [of _ st] exI [of _ p] exI [of _ q]) (simp add: vmax_def)
qed

text \<open>C28: A paged read that is polled while writers commit in between delivers the stream's events
  from \<open>from\<close> on in order, without a gap, a repetition or an error, one with every poll, and ends only
  when it has delivered all of them as one of the stores it polled held them, so at least all that were
  there at its first poll.\<close>

theorem im_paged_read_gapless:
  assumes "im_reachable (hd sts)" "sts \<noteq> []" "successively im_step\<^sup>*\<^sup>* sts"
    and "out = read_polls (map im_inner sts) (read_stream_start (hd sts) k from)"
  shows "out = map (Inr \<circ> persisted_of) (take (length out) (drop (vnum from - 1) (im_hist (last sts) k))) \<and>
    min (length sts) (length (drop (vnum from - 1) (im_hist (hd sts) k))) \<le> length out \<and>
    (length out = length sts \<or>
      (\<exists>st \<in> set (take (Suc (length out)) sts). out = map (Inr \<circ> persisted_of) (drop (vnum from - 1) (im_hist st k))))"
proof -
  let ?n = "vnum from - 1" and ?ss = "map im_inner sts"
  have inv: "im_inv (hd sts)" using assms(1) by (rule im_reachable_inv)
  have g: "\<forall>s \<in> set ?ss. inner_inv s" "growing k ?ss"
    using steps_growing [OF assms(3,2) inv, of k] by blast+
  have r: "read_inv (map pending_of (im_rows (hd ?ss) k)) k ?n (read_stream_start (hd sts) k from)"
    by (rule read_stream_start_inv) (use inv in \<open>simp add: im_inv_def\<close>)
  obtain m where "out = map (Inr \<circ> persisted_of) (take m (drop ?n (im_hist (last sts) k)))"
    using read_polls_prefix [OF g _ r] assms(2,4) by (auto simp: last_map im_hist_def)
  then have prefix: "out = map (Inr \<circ> persisted_of) (take (length out) (drop ?n (im_hist (last sts) k)))"
    by (simp add: min_def)
  have hist: "length (im_hist (hd sts) k) \<le> length (im_hist st k)" "\<exists>new. im_hist (last sts) k = im_hist st k @ new"
    if "st \<in> set sts" for st
    using growing_between [OF g(2), of "im_inner st"] that assms(2) unfolding im_hist_def by (auto simp: last_map hd_map)
  have complete: "out = map (Inr \<circ> persisted_of) (drop ?n (im_hist st k))"
    if "st \<in> set sts" "length out = length (im_hist st k) - ?n" for st
    using hist(2) [OF that(1)] prefix that(2) by (cases "?n \<le> length (im_hist st k)") auto
  from read_polls_complete [OF g impI [OF r]] assms(4)
  have "length out = length sts \<or> (\<exists>st \<in> set (take (Suc (length out)) sts). length out = length (im_hist st k) - ?n)"
    by (auto simp: read_stream_start_def im_hist_def take_map)
  then show ?thesis
  proof
    assume "\<exists>st \<in> set (take (Suc (length out)) sts). length out = length (im_hist st k) - ?n"
    then obtain st where st: "st \<in> set (take (Suc (length out)) sts)" "length out = length (im_hist st k) - ?n" ..
    from st(1) have mem: "st \<in> set sts" by (rule in_set_takeD)
    have "min (length sts) (length (drop ?n (im_hist (hd sts) k))) \<le> length out"
      using hist(1) [OF mem] st(2) by (simp add: min_le_iff_disj diff_le_mono)
    with prefix complete [OF mem st(2)] st(1) show ?thesis by blast
  qed (use prefix in simp)
qed

text \<open>Two events and three polls: both events come out and the third poll ends the read.\<close>

theorem im_paged_read_gapless_witness:
  "\<exists>st. im_reachable im_new \<and> im_step im_new st \<and>
    read_polls (map im_inner [st, st, st]) (read_stream_start st sample_key version_INITIAL) =
      map (Inr \<circ> persisted_of) [sample_event 1, sample_event 2]"
proof -
  obtain pos st where st: "im_append sample_key None sample_batch im_new = (Returns (Inr pos), st)"
    "im_reachable im_new" "im_reachable st" "im_hist st sample_key = batch_iter sample_batch"
    by (rule sample_store)
  have s: "im_step im_new st" by (rule step_append [OF sample_batch_ok(1) st(1)])
  have h: "batch_iter sample_batch = [sample_event 1, sample_event 2]" by (simp add: sample_batch_def batch_iter_def)
  have "successively im_step\<^sup>*\<^sup>* [st, st, st]" by simp
  from im_paged_read_gapless [OF _ _ this refl, of sample_key version_INITIAL] st(3,4) h
  have "read_polls (map im_inner [st, st, st]) (read_stream_start st sample_key version_INITIAL) =
      map (Inr \<circ> persisted_of) [sample_event 1, sample_event 2]" by auto
  with st(2) s show ?thesis by blast
qed

text \<open>A reader that resumes at the first version of a batch just committed sees exactly that
  batch.\<close>

theorem im_read_your_writes:
  assumes "im_reachable st" "batch_ok b" "im_append k e b st = (Returns (Inr pos), st')"
  shows "im_read_stream st' k (pe_version (pb_first b)) = map (Inr \<circ> persisted_of) (batch_iter b)"
  by (rule im.read_your_writes [OF im_reachable_inv [OF assms(1)] assms(2,3)])

theorem im_read_your_writes_witness:
  "\<exists>pos st. im_append sample_key None sample_batch im_new = (Returns (Inr pos), st) \<and>
    im_read_stream st sample_key (pe_version (sample_event 1)) =
      [Inr (persisted_of (sample_event 1)), Inr (persisted_of (sample_event 2))]"
proof -
  obtain pos st where st: "im_append sample_key None sample_batch im_new = (Returns (Inr pos), st)"
    "im_reachable im_new" by (rule sample_store)
  from im_read_your_writes [OF st(2) sample_batch_ok(1) st(1)] st(1) show ?thesis
    by (intro exI [of _ pos] exI [of _ st]) (simp add: sample_batch_def batch_iter_def)
qed

text \<open>Of two writers with the same expectation on a stream only one commits: after a commit,
  every later append to that stream with the expectation it was given is a conflict, however many
  other operations happen in between.\<close>

theorem im_same_expectation_once:
  assumes "im_reachable st" "batch_ok b" "im_append k e b st = (Returns (Inr pos), st')"
    "im_step\<^sup>*\<^sup>* st' st''"
  shows "\<exists>a. fst (im_append k e b' st'') = Returns (Inl (AppendConflict (to_label k) e a))"
proof -
  have inv: "im_inv st" using assms(1) by (rule im_reachable_inv)
  have inv': "im_inv st'" and e: "e = head_version (length (im_hist st k))"
    using im_append_commit [OF inv assms(2,3)] by simp_all
  have "length (im_hist st k) < length (im_hist st' k)"
    using im.hist_append(1) [OF inv assms(2,3)] by simp
  moreover have inv'': "im_inv st''" and "length (im_hist st' k) \<le> length (im_hist st'' k)"
    using im_steps_inv [OF assms(4) inv', of k] by (auto simp: im_hist_def)
  moreover have "length (im_hist st'' k) \<le> vmax"
    using inv'' inner_inv_length [of "im_inner st''" k] by (simp add: im_inv_def im_hist_def)
  ultimately have "e \<noteq> head_version (length (im_hist st'' k))"
    using e by (simp add: head_version_inject)
  then show ?thesis using im_append_conflict [OF inv''] by blast
qed

theorem im_same_expectation_once_witness:
  "\<exists>pos st a. im_append sample_key None sample_batch im_new = (Returns (Inr pos), st) \<and>
    fst (im_append sample_key None sample_batch st) = Returns (Inl (AppendConflict (to_label sample_key) None a))"
proof -
  obtain pos st where st: "im_append sample_key None sample_batch im_new = (Returns (Inr pos), st)"
    "im_reachable im_new" by (rule sample_store)
  from im_same_expectation_once [OF st(2) sample_batch_ok(1) st(1), of st sample_batch] st(1)
  show ?thesis by blast
qed

text \<open>C10: A group of writes is all or nothing.  When it commits, every target was at its expected
  version, every target's history gains its own run, no other stream changes, and the new log entries
  stand together in the order of the writes; when it does not, the store is unchanged.\<close>

theorem im_atomic_all_or_nothing:
  assumes "im_reachable st" "\<forall>w \<in> set ws. planned_ok w" "im_atomic_append_many ws st = (r, st')"
  shows "case r of
      Panics \<Rightarrow> False
    | Returns (Inl _) \<Rightarrow> st' = st
    | Returns (Inr pos) \<Rightarrow> distinct (map pa_target ws) \<and>
        (\<forall>w \<in> set ws. pa_expected w = head_version (length (im_hist st (pa_target w))) \<and>
          im_hist st' (pa_target w) = im_hist st (pa_target w) @ batch_iter (pa_batch w)) \<and>
        (\<forall>k. k \<notin> pa_target ` set ws \<longrightarrow> im_hist st' k = im_hist st k) \<and>
        (\<exists>ps. length ps = length (planned_entries ws) \<and> im_log st' = im_log st @ zip ps (planned_entries ws) \<and>
          pos = (if ws = [] then None else Some (last ps)))"
proof -
  have inv: "im_inv st" using assms(1) by (rule im_reachable_inv)
  show ?thesis
  proof (cases r)
    case (Returns x)
    show ?thesis
    proof (cases x)
      case (Inl e)
      with Returns assms(3) show ?thesis by (simp add: im_atomic_reject)
    next
      case (Inr pos)
      have a: "im_atomic_append_many ws st = (Returns (Inr pos), st')" using Inr Returns assms(3) by simp
      from im_atomic_commit [OF inv assms(2) a] ima.atomic_hist [OF inv assms(2) a] Inr Returns
      show ?thesis by auto
    qed
  qed (use im_atomic_total [OF assms(2), of st] assms(3) in simp)
qed

theorem im_atomic_all_or_nothing_witness:
  "\<exists>pos st. im_atomic_append_many [sample_write] im_new = (Returns (Inr (Some pos)), st) \<and>
    im_hist st sample_key = batch_iter sample_batch"
proof -
  obtain pos st where a: "im_atomic_append_many [sample_write] im_new = (Returns (Inr pos), st)" by (rule sample_atomic)
  have "im_reachable im_new" by (rule sample_store)
  from im_atomic_all_or_nothing [OF this _ a] a show ?thesis by (intro exI [of _ "the pos"] exI [of _ st]) auto
qed

text \<open>C33: A whole-chunk import over the in-memory store is all or nothing.  When it reports
  success, every section consisted of intact events and its target's history gained exactly those
  events, and no stream outside the targets changed; when it fails, for whatever reason, the store is
  unchanged.\<close>

theorem im_import_whole_chunk_all_or_nothing:
  assumes "im_reachable st" "sections_ok ss"
    "import_whole_chunk im_atomic_append_many ss route st = (Returns r, st')"
  shows "case r of
      Inl _ \<Rightarrow> st' = st
    | Inr reports \<Rightarrow>
        (\<forall>sec \<in> set ss. \<exists>evs. ss_blocks sec = map BlockEvent evs \<and>
          im_hist st' (route (ss_origin sec)) = im_hist st (route (ss_origin sec)) @ map from_persisted evs) \<and>
        (\<forall>k. k \<notin> (\<lambda>sec. route (ss_origin sec)) ` set ss \<longrightarrow> im_hist st' k = im_hist st k)"
proof -
  have inv: "im_inv st" using assms(1) by (rule im_reachable_inv)
  show ?thesis
  proof (cases r)
    case (Inl e)
    with ima.import_whole_chunk_error [OF inv assms(2)] assms(3) show ?thesis by simp
  next
    case (Inr reports)
    with ima.import_whole_chunk_success [OF inv assms(2)] assms(3) show ?thesis by simp
  qed
qed

theorem im_import_whole_chunk_all_or_nothing_witness:
  "\<exists>reports st. sections_ok [sample_section] \<and>
    import_whole_chunk im_atomic_append_many [sample_section] (\<lambda>_. sample_key) im_new = (Returns (Inr reports), st) \<and>
    im_hist st sample_key = [sample_event 1, sample_event 2]"
proof -
  obtain reports st where a:
    "import_whole_chunk im_atomic_append_many [sample_section] (\<lambda>_. sample_key) im_new = (Returns (Inr reports), st)"
    by (rule sample_import)
  have n: "im_reachable im_new" by (rule sample_store)
  obtain evs where "ss_blocks sample_section = map BlockEvent evs" "im_hist st sample_key = map from_persisted evs"
    using im_import_whole_chunk_all_or_nothing [OF n sample_section_ok a] by auto
  moreover from this have "evs = [persisted_of (sample_event 1), persisted_of (sample_event 2)]"
    by (auto simp: sample_section_def map_eq_Cons_conv)
  ultimately show ?thesis using a sample_section_ok by (intro exI [of _ reports] exI [of _ st]) simp
qed

text \<open>A committed append wakes whoever waits for it: a wait armed before the append by a live
  registration for that stream, or for all streams, is ready afterwards.  A rejected append wakes
  nobody.\<close>

theorem im_append_wakes:
  assumes "nt_watches (im_notifiers st, regs) r (key_bytes k)" "batch_ok b" "im_append k e b st = (Returns res, st')"
  shows "nt_ready (im_notifiers st') (nt_arm (im_notifiers st) r) \<longleftrightarrow> is_ok res"
proof (cases res)
  case (Inl err)
  with im_append_reject [OF assms(2)] assms(3) have "st' = st" by simp
  with Inl sn.arm_fresh [OF assms(1)] show ?thesis by (simp add: is_ok_def sys_ready_def sys_arm_def)
next
  case (Inr pos)
  then have "im_notifiers st' = nt_wake (key_bytes k) (im_notifiers st)"
    using assms(3) by (auto simp: im_append_def im_append_locked_def Let_def split: if_splits sum.splits call.splits)
  with Inr sn.one_wake_resolves [OF assms(1)] show ?thesis
    by (simp add: is_ok_def sys_ready_def sys_arm_def sys_wake_def)
qed

theorem im_append_wakes_witness:
  "\<exists>r n. nt_register (Some (key_bytes sample_key)) notifiers_new = (Inr r, n) \<and>
    (\<exists>pos st'. im_append sample_key None sample_batch (im_new\<lparr>im_notifiers := n\<rparr>) = (Returns (Inr pos), st') \<and>
      nt_ready (im_notifiers st') (nt_arm n r))"
proof -
  obtain r n where R: "nt_register (Some (key_bytes sample_key)) notifiers_new = (Inr r, n)"
    by (simp add: nt_register_def register_entry_fresh notifiers_new_def)
  let ?st = "im_new\<lparr>im_notifiers := n\<rparr>"
  have "wake_inv (n, {#r#})" using wake_inv_register [OF wake_inv_init R] by simp
  moreover have "wr_guard r = Some (key_bytes sample_key)"
    using R by (auto simp: nt_register_def register_entry_fresh notifiers_new_def)
  ultimately have w: "nt_watches (im_notifiers ?st, {#r#}) r (key_bytes sample_key)"
    by (simp add: nt_watches_def)
  have "im_inv ?st" "im_hist ?st sample_key = []" "im_log ?st = []"
    using im_new_inv by (simp_all add: im_inv_def im_hist_def im_log_def)
  then obtain pos st' where a: "im_append sample_key None sample_batch ?st = (Returns (Inr pos), st')"
    using im_append_complete [of ?st None sample_key sample_batch] by (auto simp: head_version_def vmax_def)
  from im_append_wakes [OF w sample_batch_ok(1) a] R a show ?thesis by (auto simp: is_ok_def)
qed

end
